(* ===== verification/Prelude.thy ===== *)
theory Prelude
  imports Main "HOL-Library.Word" "HOL-Library.Monad_Syntax"
begin

unbundle bit_operations_syntax

text \<open>
  What every component of the development shares.

  \<^item> The machine types: \<open>u8\<close>, \<open>u16\<close>, \<open>u32\<close>, \<open>u64\<close> are the C types \<open>uint8_t\<close> to
    \<open>uint64_t\<close>. Counters and offsets of C type \<open>unsigned\<close> are \<open>nat\<close>, and the places where
    the source can wrap around go through \<open>u32_add\<close> and \<open>u32_sub\<close>.
  \<^item> The memory: a C object is a block of bytes, a pointer is \<open>NULL\<close> or a byte offset in a
    block. Every access is checked, and the result \<open>None\<close> is a run that has no defined
    continuation: an access out of bounds or through \<open>NULL\<close>, a failed \<open>assert\<close>,
    a call of \<open>exit\<close>, or a loop that does not end.
  \<^item> Buffers as bit strings: \<open>bits_of\<close> reads a byte list with the least significant bit of
    each byte first, the order in which all the code numbers bits, and \<open>blit\<close> is the
    reference definition of a bit copy.
\<close>

named_theorems mem_simps \<open>evaluation of loads and stores on known blocks\<close>
named_theorems bits_simps \<open>bit strings of byte lists\<close>

section \<open>Machine integers\<close>

type_synonym u8 = "8 word"
type_synonym u16 = "16 word"
type_synonym u32 = "32 word"
type_synonym u64 = "64 word"

definition u32_add :: "nat \<Rightarrow> nat \<Rightarrow> nat" where
  "u32_add a b = (a + b) mod 2 ^ 32"

definition u32_sub :: "nat \<Rightarrow> nat \<Rightarrow> nat" where
  "u32_sub a b = (a + 2 ^ 32 - b mod 2 ^ 32) mod 2 ^ 32"

lemma u32_add_small [simp]: "a + b < 2 ^ 32 \<Longrightarrow> u32_add a b = a + b"
  by (simp add: u32_add_def)

lemma u32_sub_small [simp]:
  assumes "b \<le> a" and "a < 2 ^ 32"
  shows "u32_sub a b = a - b"
proof -
  have "a + 2 ^ 32 - b mod 2 ^ 32 = (a - b) + 2 ^ 32"
    using assms by simp
  then have "u32_sub a b = (a - b) mod 2 ^ 32"
    by (simp add: u32_sub_def)
  with assms show ?thesis by simp
qed

lemma u32_sub_wraps: "a < b \<Longrightarrow> b < 2 ^ 32 \<Longrightarrow> u32_sub a b = 2 ^ 32 + a - b"
  by (simp add: u32_sub_def)

text \<open>The macro \<open>DIV_ROUND_UP(m, n)\<close> of types.h, on \<open>unsigned\<close> operands.\<close>

definition DIV_ROUND_UP :: "nat \<Rightarrow> nat \<Rightarrow> nat" where
  "DIV_ROUND_UP m n = u32_sub (u32_add m n) 1 div n"

lemma DIV_ROUND_UP_8: "m < 2 ^ 32 - 8 \<Longrightarrow> DIV_ROUND_UP m 8 = (m + 7) div 8"
  by (simp add: DIV_ROUND_UP_def)

lemma DIV_ROUND_UP_8_le: "m < 2 ^ 32 - 8 \<Longrightarrow> m \<le> 8 * DIV_ROUND_UP m 8"
  by (simp add: DIV_ROUND_UP_8)

lemma ceil8_cases: "(n + 7) div 8 = (if n mod 8 = 0 then n div 8 else Suc (n div (8::nat)))"
proof -
  obtain q r where n: "n = 8 * q + r" "r < 8"
    using div_mult_mod_eq [of n 8] by (metis mod_less_divisor mult.commute zero_less_numeral)
  then have "n div 8 = q" and "n mod 8 = r" by simp_all
  moreover have "(n + 7) div 8 = (if r = 0 then q else Suc q)"
    using n by (auto intro: div_nat_eqI)
  ultimately show ?thesis by simp
qed

lemma byte_index_less: "b < 8 \<Longrightarrow> 8 * a + b < 8 * c \<longleftrightarrow> a < (c :: nat)"
  by linarith

lemma le_ceil8: "n \<le> 8 * ((n + 7) div (8::nat))"
proof -
  have "8 * (n div 8) + n mod 8 = n" and "n mod 8 < 8" by simp_all
  then show ?thesis
    unfolding ceil8_cases by (auto split: if_splits)
qed

lemma less_by_bytes:
  assumes "j div 8 \<le> n div (8::nat)"
  shows "j < n \<longleftrightarrow> (j div 8 = n div 8 \<longrightarrow> j mod 8 < n mod 8)"
proof -
  have j: "8 * (j div 8) + j mod 8 = j" and n: "8 * (n div 8) + n mod 8 = n" by simp_all
  show ?thesis
  proof (cases "j div 8 = n div 8")
    case True
    have "j < n \<longleftrightarrow> 8 * (j div 8) + j mod 8 < 8 * (n div 8) + n mod 8"
      by (simp only: j n)
    also have "\<dots> \<longleftrightarrow> j mod 8 < n mod 8"
      by (simp only: True add_less_cancel_left)
    finally show ?thesis using True by simp
  next
    case False
    with assms have "j < n" by (metis div_le_mono le_antisym not_less)
    with False show ?thesis by simp
  qed
qed

section \<open>Bits of a byte\<close>

text \<open>\<open>b |= 1 << k\<close> and \<open>b &= ~(1 << k)\<close>, the two ways the code writes one bit.\<close>

definition put_bit :: "u8 \<Rightarrow> nat \<Rightarrow> bool \<Rightarrow> u8" where
  "put_bit b k v = (if v then b OR push_bit k 1 else b AND NOT (push_bit k 1))"

definition get_bit :: "u8 \<Rightarrow> nat \<Rightarrow> bool" where
  "get_bit b k \<longleftrightarrow> drop_bit k b AND 1 = 1"

lemma get_bit_eq [simp]: "get_bit b k = bit b k"
  by (simp add: get_bit_def and_one_eq bit_iff_odd_drop_bit odd_iff_mod_2_eq_one)

lemma bit_put_bit [bits_simps]:
  "bit (put_bit b k v) j = (if j = k \<and> k < 8 then v else bit b j)"
  by (auto simp: put_bit_def bit_simps dest: bit_imp_le_length)

section \<open>Byte lists as bit strings\<close>

definition byte_bits :: "u8 \<Rightarrow> bool list" where
  "byte_bits b = map (bit b) [0..<8]"

definition bits_of :: "u8 list \<Rightarrow> bool list" where
  "bits_of bs = concat (map byte_bits bs)"

lemma length_byte_bits [simp]: "length (byte_bits b) = 8"
  by (simp add: byte_bits_def)

lemma nth_byte_bits [simp]: "i < 8 \<Longrightarrow> byte_bits b ! i = bit b i"
  by (simp add: byte_bits_def)

lemma bits_of_Nil [simp]: "bits_of [] = []"
  by (simp add: bits_of_def)

lemma bits_of_Cons: "bits_of (b # bs) = byte_bits b @ bits_of bs"
  by (simp add: bits_of_def)

lemma bits_of_append [bits_simps]: "bits_of (xs @ ys) = bits_of xs @ bits_of ys"
  by (simp add: bits_of_def)

lemma length_bits_of [simp]: "length (bits_of bs) = 8 * length bs"
  by (induction bs) (simp_all add: bits_of_Cons)

lemma nth_bits_of [bits_simps]:
  "i < 8 * length bs \<Longrightarrow> bits_of bs ! i = bit (bs ! (i div 8)) (i mod 8)"
proof (induction bs arbitrary: i)
  case Nil
  then show ?case by simp
next
  case (Cons b bs)
  show ?case
  proof (cases "i < 8")
    case True
    then show ?thesis by (simp add: bits_of_Cons nth_append)
  next
    case False
    then have "i div 8 = Suc ((i - 8) div 8)" and "i mod 8 = (i - 8) mod 8"
      by (simp_all add: le_div_geq le_mod_geq)
    with False Cons.IH [of "i - 8"] Cons.prems show ?thesis
      by (simp add: bits_of_Cons nth_append)
  qed
qed

lemma take_bits_of [bits_simps]: "take (8 * n) (bits_of bs) = bits_of (take n bs)"
proof (induction bs arbitrary: n)
  case Nil
  then show ?case by simp
next
  case (Cons b bs)
  then show ?case by (cases n) (simp_all add: bits_of_Cons)
qed

lemma drop_bits_of [bits_simps]: "drop (8 * n) (bits_of bs) = bits_of (drop n bs)"
proof (induction bs arbitrary: n)
  case Nil
  then show ?case by simp
next
  case (Cons b bs)
  then show ?case by (cases n) (simp_all add: bits_of_Cons)
qed

lemma bits_of_update_bit [bits_simps]:
  assumes "i < 8 * length bs"
  shows "bits_of (bs[i div 8 := put_bit (bs ! (i div 8)) (i mod 8) v]) = (bits_of bs)[i := v]"
proof (rule nth_equalityI)
  show "length (bits_of (bs[i div 8 := put_bit (bs ! (i div 8)) (i mod 8) v])) =
      length ((bits_of bs)[i := v])"
    by simp
next
  fix j
  assume "j < length (bits_of (bs[i div 8 := put_bit (bs ! (i div 8)) (i mod 8) v]))"
  then have j: "j < 8 * length bs" by simp
  have "j = i \<longleftrightarrow> j div 8 = i div 8 \<and> j mod 8 = i mod 8"
    by (metis div_mult_mod_eq)
  with assms j show "bits_of (bs[i div 8 := put_bit (bs ! (i div 8)) (i mod 8) v]) ! j =
      (bits_of bs)[i := v] ! j"
    by (auto simp: nth_bits_of nth_list_update bit_put_bit less_mult_imp_div_less)
qed

lemma byte_bits_inject: "byte_bits a = byte_bits b \<Longrightarrow> a = b"
proof (rule bit_word_eqI)
  fix n
  assume "byte_bits a = byte_bits b" and "n < LENGTH(8)"
  then show "bit a n = bit b n"
    using nth_byte_bits [of n a] nth_byte_bits [of n b] by simp
qed

lemma bits_of_inject: "bits_of as = bits_of bs \<Longrightarrow> as = bs"
proof (induction as arbitrary: bs)
  case Nil
  then show ?case by (cases bs) (auto dest: arg_cong [where f = length])
next
  case (Cons a as)
  then obtain b bs' where bs: "bs = b # bs'"
    by (cases bs) (auto dest: arg_cong [where f = length])
  with Cons.prems have "byte_bits a = byte_bits b \<and> bits_of as = bits_of bs'"
    by (simp add: bits_of_Cons)
  with bs Cons.IH byte_bits_inject show ?case by simp
qed

text \<open>The byte list of a bit string, the inverse of \<open>bits_of\<close>.\<close>

definition byte_of :: "bool list \<Rightarrow> u8" where
  "byte_of l = horner_sum of_bool 2 l"

fun bytes_of :: "bool list \<Rightarrow> u8 list" where
  "bytes_of [] = []"
| "bytes_of (x # l) = byte_of (take 8 (x # l)) # bytes_of (drop 8 (x # l))"

lemma bit_byte_of: "length l \<le> 8 \<Longrightarrow> bit (byte_of l) i \<longleftrightarrow> i < length l \<and> l ! i"
  by (auto simp: byte_of_def bit_horner_sum_bit_word_iff)

lemma byte_of_byte_bits [simp]: "byte_of (byte_bits b) = b"
  by (rule bit_word_eqI) (simp add: bit_byte_of)

lemma byte_bits_byte_of [simp]: "length l = 8 \<Longrightarrow> byte_bits (byte_of l) = l"
  by (rule nth_equalityI) (simp_all add: bit_byte_of)

lemma bytes_of_append_byte:
  assumes "length l = 8"
  shows "bytes_of (l @ r) = byte_of l # bytes_of r"
proof -
  from assms obtain x l' where "l = x # l'" by (cases l) auto
  with assms show ?thesis by simp
qed

lemma bytes_of_bits_of [simp]: "bytes_of (bits_of bs) = bs"
  by (induction bs) (simp_all add: bits_of_Cons bytes_of_append_byte)

lemma bytes_of_eq: "bits_of bs = l \<Longrightarrow> bytes_of l = bs"
  by auto

lemma bits_of_bytes_of [simp]: "length l = 8 * n \<Longrightarrow> bits_of (bytes_of l) = l"
proof (induction n arbitrary: l)
  case 0
  then show ?case by simp
next
  case (Suc n)
  then have "length (take 8 l) = 8" by simp
  then have "bytes_of (take 8 l @ drop 8 l) = byte_of (take 8 l) # bytes_of (drop 8 l)"
    by (rule bytes_of_append_byte)
  with Suc.IH [of "drop 8 l"] Suc.prems show ?case
    by (simp add: bits_of_Cons)
qed

lemma length_bytes_of [simp]: "length l = 8 * n \<Longrightarrow> length (bytes_of l) = n"
  using length_bits_of [of "bytes_of l"] by simp

lemma bytes_of_update_bit:
  "i < 8 * length bs \<Longrightarrow>
    bytes_of ((bits_of bs)[i := v]) = bs[i div 8 := put_bit (bs ! (i div 8)) (i mod 8) v]"
  by (rule bytes_of_eq) (rule bits_of_update_bit)

text \<open>The bits of a word of any width, least significant first.\<close>

definition word_bits :: "'a::len word \<Rightarrow> bool list" where
  "word_bits w = map (bit w) [0..<LENGTH('a)]"

lemma length_word_bits [simp]: "length (word_bits (w :: 'a::len word)) = LENGTH('a)"
  by (simp add: word_bits_def)

lemma nth_word_bits [simp]: "i < LENGTH('a) \<Longrightarrow> word_bits (w :: 'a::len word) ! i = bit w i"
  by (simp add: word_bits_def)

lemma word_bits_inject: "word_bits (v :: 'a::len word) = word_bits w \<Longrightarrow> v = w"
proof (rule bit_word_eqI)
  fix n
  assume "word_bits v = word_bits w" and "n < LENGTH('a)"
  then show "bit v n = bit w n"
    using nth_word_bits [of n v] nth_word_bits [of n w] by simp
qed

definition word_of :: "bool list \<Rightarrow> 'a::len word" where
  "word_of l = horner_sum of_bool 2 l"

lemma bit_word_of:
  "length l \<le> LENGTH('a) \<Longrightarrow> bit (word_of l :: 'a::len word) i \<longleftrightarrow> i < length l \<and> l ! i"
  by (auto simp: word_of_def bit_horner_sum_bit_word_iff)

lemma word_of_word_bits [simp]: "word_of (word_bits w) = w"
  by (rule bit_word_eqI) (simp add: bit_word_of)

lemma word_bits_word_of [simp]:
  "length l = LENGTH('a) \<Longrightarrow> word_bits (word_of l :: 'a::len word) = l"
  by (rule nth_equalityI) (simp_all add: bit_word_of)

lemma word_of_eq: "word_bits w = l \<Longrightarrow> word_of l = w"
  by auto

section \<open>The reference bit copy\<close>

definition blit :: "'a list \<Rightarrow> nat \<Rightarrow> 'a list \<Rightarrow> nat \<Rightarrow> nat \<Rightarrow> 'a list" where
  "blit d ds s ss n = take ds d @ take n (drop ss s) @ drop (ds + n) d"

lemma length_blit [simp]:
  "ds + n \<le> length d \<Longrightarrow> ss + n \<le> length s \<Longrightarrow> length (blit d ds s ss n) = length d"
  by (simp add: blit_def)

lemma nth_blit:
  "ds + n \<le> length d \<Longrightarrow> ss + n \<le> length s \<Longrightarrow> i < length d \<Longrightarrow>
    blit d ds s ss n ! i = (if ds \<le> i \<and> i < ds + n then s ! (ss + (i - ds)) else d ! i)"
proof -
  assume len: "ds + n \<le> length d" "ss + n \<le> length s" "i < length d"
  then have "length (take n (drop ss s)) = n" and "length (take ds d) = ds"
    by simp_all
  with len show ?thesis by (auto simp: blit_def nth_append)
qed

lemma blit_0 [simp]: "blit d ds s ss 0 = d"
  by (simp add: blit_def)

lemma blit_Suc:
  assumes "ds + Suc n \<le> length d" and "ss + Suc n \<le> length s"
  shows "blit (d[ds := s ! ss]) (Suc ds) s (Suc ss) n = blit d ds s ss (Suc n)"
proof (rule nth_equalityI)
  show "length (blit (d[ds := s ! ss]) (Suc ds) s (Suc ss) n) = length (blit d ds s ss (Suc n))"
    using assms by simp
next
  fix i
  assume "i < length (blit (d[ds := s ! ss]) (Suc ds) s (Suc ss) n)"
  with assms have i: "i < length d" by simp
  show "blit (d[ds := s ! ss]) (Suc ds) s (Suc ss) n ! i = blit d ds s ss (Suc n) ! i"
    using assms i by (simp add: nth_blit nth_list_update Suc_diff_Suc)
qed

lemma blit_bytes:
  "blit (bits_of D) (8 * ds) (bits_of S) (8 * ss) (8 * n) = bits_of (blit D ds S ss n)"
proof -
  have "8 * ds + 8 * n = 8 * (ds + n)" by simp
  then show ?thesis
    by (simp only: blit_def bits_of_append take_bits_of drop_bits_of)
qed

lemma blit_take:
  "n \<le> k \<Longrightarrow> blit d ds (take k s) 0 n = blit d ds s 0 n"
  by (simp add: blit_def min_def)

section \<open>Little-endian bytes of a word\<close>

definition le_bytes :: "nat \<Rightarrow> 'a::len word \<Rightarrow> u8 list" where
  "le_bytes n w = map (\<lambda>k. ucast (drop_bit (8 * k) w)) [0..<n]"

lemma length_le_bytes [simp]: "length (le_bytes n w) = n"
  by (simp add: le_bytes_def)

lemma bits_of_le_bytes:
  fixes w :: "'a::len word"
  assumes "8 * n \<le> LENGTH('a)"
  shows "bits_of (le_bytes n w) = take (8 * n) (word_bits w)"
proof (rule nth_equalityI)
  show "length (bits_of (le_bytes n w)) = length (take (8 * n) (word_bits w))"
    using assms by simp
next
  fix i
  assume "i < length (bits_of (le_bytes n w))"
  then have "i < 8 * n" by simp
  then have "i div 8 < n" and "i mod 8 < 8" and "8 * (i div 8) + i mod 8 = i" and
    "i < LENGTH('a)"
    using assms by auto
  then show "bits_of (le_bytes n w) ! i = take (8 * n) (word_bits w) ! i"
    using \<open>i < 8 * n\<close> by (simp add: nth_bits_of le_bytes_def bit_simps)
qed

lemma word_of_bits_of_Cons:
  assumes "8 * Suc (length bs) \<le> LENGTH('a)"
  shows "(word_of (bits_of (b # bs)) :: 'a::len word) =
    ucast b OR push_bit 8 (word_of (bits_of bs))"
proof (rule bit_word_eqI)
  fix n
  assume "n < LENGTH('a)"
  with assms show "bit (word_of (bits_of (b # bs)) :: 'a word) n =
      bit (ucast b OR push_bit 8 (word_of (bits_of bs)) :: 'a word) n"
    by (auto simp: bit_simps bit_word_of bits_of_Cons nth_append dest: bit_imp_le_length)
qed

lemma word_of_bits_of_Nil [simp]: "word_of (bits_of []) = 0"
  by (simp add: word_of_def)

section \<open>Memory\<close>

datatype ptr = Null | Ptr nat nat

type_synonym mem = "nat \<rightharpoonup> u8 list"

fun ptr_add :: "ptr \<Rightarrow> nat \<Rightarrow> ptr" where
  "ptr_add Null n = Null"
| "ptr_add (Ptr b off) n = Ptr b (off + n)"

fun block_of :: "ptr \<Rightarrow> nat option" where
  "block_of Null = None"
| "block_of (Ptr b off) = Some b"

fun load :: "mem \<Rightarrow> ptr \<Rightarrow> nat \<Rightarrow> u8 option" where
  "load m Null i = None"
| "load m (Ptr b off) i =
     (case m b of None \<Rightarrow> None
      | Some bs \<Rightarrow> if off + i < length bs then Some (bs ! (off + i)) else None)"

fun store :: "mem \<Rightarrow> ptr \<Rightarrow> nat \<Rightarrow> u8 \<Rightarrow> mem option" where
  "store m Null i v = None"
| "store m (Ptr b off) i v =
     (case m b of None \<Rightarrow> None
      | Some bs \<Rightarrow> if off + i < length bs then Some (m(b \<mapsto> bs[off + i := v])) else None)"

text \<open>The source and the target of \<open>memcpy\<close>, \<open>memmove\<close>, \<open>memset\<close> and \<open>memcmp\<close>.\<close>

fun load_bytes :: "mem \<Rightarrow> ptr \<Rightarrow> nat \<Rightarrow> u8 list option" where
  "load_bytes m Null n = None"
| "load_bytes m (Ptr b off) n =
     (case m b of None \<Rightarrow> None
      | Some bs \<Rightarrow> if off + n \<le> length bs then Some (take n (drop off bs)) else None)"

fun store_bytes :: "mem \<Rightarrow> ptr \<Rightarrow> u8 list \<Rightarrow> mem option" where
  "store_bytes m Null vs = None"
| "store_bytes m (Ptr b off) vs =
     (case m b of None \<Rightarrow> None
      | Some bs \<Rightarrow>
          if off + length vs \<le> length bs
          then Some (m(b \<mapsto> blit bs off vs 0 (length vs))) else None)"

lemma load_known [mem_simps]:
  "m b = Some bs \<Longrightarrow> off + i < length bs \<Longrightarrow> load m (Ptr b off) i = Some (bs ! (off + i))"
  by simp

lemma store_known [mem_simps]:
  "m b = Some bs \<Longrightarrow> off + i < length bs \<Longrightarrow>
    store m (Ptr b off) i v = Some (m(b \<mapsto> bs[off + i := v]))"
  by simp

lemma load_bytes_known [mem_simps]:
  "m b = Some bs \<Longrightarrow> off + n \<le> length bs \<Longrightarrow>
    load_bytes m (Ptr b off) n = Some (take n (drop off bs))"
  by simp

lemma store_bytes_known [mem_simps]:
  "m b = Some bs \<Longrightarrow> off + length vs \<le> length bs \<Longrightarrow>
    store_bytes m (Ptr b off) vs = Some (m(b \<mapsto> blit bs off vs 0 (length vs)))"
  by simp

text \<open>A store leaves every other block, and the length of its own block, as it was.\<close>

lemma store_frame:
  "store m p i v = Some m' \<Longrightarrow> block_of p \<noteq> Some c \<Longrightarrow> m' c = m c"
  by (cases p) (auto split: option.splits if_splits)

lemma store_bytes_frame:
  "store_bytes m p vs = Some m' \<Longrightarrow> block_of p \<noteq> Some c \<Longrightarrow> m' c = m c"
  by (cases p) (auto split: option.splits if_splits)

lemma load_store_same:
  "store m p i v = Some m' \<Longrightarrow> load m' p i = Some v"
  by (cases p) (auto split: option.splits if_splits)

text \<open>\<open>free\<close> of a block, not called on a null pointer.\<close>

definition free_block :: "ptr \<Rightarrow> mem \<Rightarrow> mem option" where
  "free_block p m =
     (case p of
        Null \<Rightarrow> Some m
      | Ptr b off \<Rightarrow> if off = 0 \<and> m b \<noteq> None then Some (m(b := None)) else None)"

text \<open>An allocator that succeeds: every call returns a new block of the size asked for.\<close>

definition fresh_malloc :: "(nat \<Rightarrow> mem \<Rightarrow> ptr \<times> mem) \<Rightarrow> (u8 list \<Rightarrow> bool) \<Rightarrow> bool" where
  "fresh_malloc malloc contents \<longleftrightarrow> (\<forall>n m. finite (dom m) \<longrightarrow>
     (\<exists>b bs. malloc n m = (Ptr b 0, m(b \<mapsto> bs)) \<and> m b = None \<and> length bs = n \<and> contents bs))"

section \<open>One bit of a buffer\<close>

text \<open>
  The pattern \<open>p[i / 8] |= 1 << (i % 8)\<close> or \<open>p[i / 8] &= ~(1 << (i % 8))\<close>, and the
  pattern \<open>(p[i / 8] >> (i % 8)) & 1\<close>.
\<close>

definition write_bit :: "mem \<Rightarrow> ptr \<Rightarrow> nat \<Rightarrow> bool \<Rightarrow> mem option" where
  "write_bit m p i v = do {
     b \<leftarrow> load m p (i div 8);
     store m p (i div 8) (put_bit b (i mod 8) v)
   }"

definition read_bit :: "mem \<Rightarrow> ptr \<Rightarrow> nat \<Rightarrow> bool option" where
  "read_bit m p i = do {
     b \<leftarrow> load m p (i div 8);
     Some (get_bit b (i mod 8))
   }"

lemma write_bit_known [mem_simps]:
  assumes "m b = Some bs" and "8 * off + i < 8 * length bs"
  shows "write_bit m (Ptr b off) i v = Some (m(b \<mapsto> bytes_of ((bits_of bs)[8 * off + i := v])))"
proof -
  have "off + i div 8 < length bs" using assms(2) by linarith
  with assms show ?thesis
    by (simp add: write_bit_def bytes_of_update_bit)
qed

lemma read_bit_known [mem_simps]:
  assumes "m b = Some bs" and "8 * off + i < 8 * length bs"
  shows "read_bit m (Ptr b off) i = Some (bits_of bs ! (8 * off + i))"
proof -
  have "off + i div 8 < length bs" using assms(2) by linarith
  with assms show ?thesis by (simp add: read_bit_def nth_bits_of)
qed

end
