(* ===== verification/Binary_Buffer.thy ===== *)
theory Binary_Buffer
  imports Prelude
begin

text \<open>
  \<^verbatim>\<open>openocd/src/helper/binarybuffer.h\<close> and \<^verbatim>\<open>binarybuffer.c\<close>: bit fields of
  up to 64 bits in a byte buffer, the bit copy \<open>buf_set_buf\<close> every MPSSE transfer goes through,
  copies, comparisons, fills and shifts of whole buffers. The string conversions of the same file
  are in \<^verbatim>\<open>Buffer_Text\<close>. Every routine takes the memory and its pointers and gives
  \<open>None\<close> for an access outside its blocks or a shift by the width of its operand or more.
  The lemmas state each routine on the bit strings of the blocks.
\<close>

named_theorems buf_simps \<open>effect of the buffer routines on known blocks\<close>

section \<open>Bit fields: buf_set_u32, buf_set_u64, buf_get_u32, buf_get_u64\<close>

text \<open>The loop of both writers; \<open>n\<close> is the number of iterations left.\<close>

fun set_field_loop :: "mem \<Rightarrow> ptr \<Rightarrow> nat \<Rightarrow> 'a::len word \<Rightarrow> nat \<Rightarrow> nat \<Rightarrow> mem option" where
  "set_field_loop m buffer first val i 0 = Some m"
| "set_field_loop m buffer first val i (Suc n) =
     (if LENGTH('a) \<le> i - first then None
      else do {
        m' \<leftarrow> write_bit m buffer i (drop_bit (i - first) val AND 1 = 1);
        set_field_loop m' buffer first val (Suc i) n
      })"

fun get_field_loop :: "mem \<Rightarrow> ptr \<Rightarrow> nat \<Rightarrow> 'a::len word \<Rightarrow> nat \<Rightarrow> nat \<Rightarrow> 'a word option" where
  "get_field_loop m buffer first result i 0 = Some result"
| "get_field_loop m buffer first result i (Suc n) = do {
     v \<leftarrow> read_bit m buffer i;
     if v then
       (if LENGTH('a) \<le> i - first then None
        else get_field_loop m buffer first (result OR push_bit (i - first) 1) (Suc i) n)
     else get_field_loop m buffer first result (Suc i) n
   }"

definition buf_set_u32 :: "mem \<Rightarrow> ptr \<Rightarrow> nat \<Rightarrow> nat \<Rightarrow> u32 \<Rightarrow> mem option" where
  "buf_set_u32 m buffer first num val =
     (if num = 32 \<and> first = 0 then do {
        m \<leftarrow> store m buffer 3 (ucast (drop_bit 24 val AND 0xff));
        m \<leftarrow> store m buffer 2 (ucast (drop_bit 16 val AND 0xff));
        m \<leftarrow> store m buffer 1 (ucast (drop_bit 8 val AND 0xff));
        store m buffer 0 (ucast (drop_bit 0 val AND 0xff))
      }
      else set_field_loop m buffer first val first (u32_add first num - first))"

definition buf_set_u64 :: "mem \<Rightarrow> ptr \<Rightarrow> nat \<Rightarrow> nat \<Rightarrow> u64 \<Rightarrow> mem option" where
  "buf_set_u64 m buffer first num val =
     (if num = 32 \<and> first = 0 then do {
        m \<leftarrow> store m buffer 3 (ucast (drop_bit 24 val AND 0xff));
        m \<leftarrow> store m buffer 2 (ucast (drop_bit 16 val AND 0xff));
        m \<leftarrow> store m buffer 1 (ucast (drop_bit 8 val AND 0xff));
        store m buffer 0 (ucast (drop_bit 0 val AND 0xff))
      }
      else if num = 64 \<and> first = 0 then do {
        m \<leftarrow> store m buffer 7 (ucast (drop_bit 56 val AND 0xff));
        m \<leftarrow> store m buffer 6 (ucast (drop_bit 48 val AND 0xff));
        m \<leftarrow> store m buffer 5 (ucast (drop_bit 40 val AND 0xff));
        m \<leftarrow> store m buffer 4 (ucast (drop_bit 32 val AND 0xff));
        m \<leftarrow> store m buffer 3 (ucast (drop_bit 24 val AND 0xff));
        m \<leftarrow> store m buffer 2 (ucast (drop_bit 16 val AND 0xff));
        m \<leftarrow> store m buffer 1 (ucast (drop_bit 8 val AND 0xff));
        store m buffer 0 (ucast (drop_bit 0 val AND 0xff))
      }
      else set_field_loop m buffer first val first (u32_add first num - first))"

definition buf_get_u32 :: "mem \<Rightarrow> ptr \<Rightarrow> nat \<Rightarrow> nat \<Rightarrow> u32 option" where
  "buf_get_u32 m buffer first num =
     (if num = 32 \<and> first = 0 then do {
        b3 \<leftarrow> load m buffer 3;
        b2 \<leftarrow> load m buffer 2;
        b1 \<leftarrow> load m buffer 1;
        b0 \<leftarrow> load m buffer 0;
        Some (push_bit 24 (ucast b3) OR push_bit 16 (ucast b2) OR push_bit 8 (ucast b1)
          OR push_bit 0 (ucast b0))
      }
      else get_field_loop m buffer first 0 first (u32_add first num - first))"

definition buf_get_u64 :: "mem \<Rightarrow> ptr \<Rightarrow> nat \<Rightarrow> nat \<Rightarrow> u64 option" where
  "buf_get_u64 m buffer first num =
     (if num = 32 \<and> first = 0 then do {
        b3 \<leftarrow> load m buffer 3;
        b2 \<leftarrow> load m buffer 2;
        b1 \<leftarrow> load m buffer 1;
        b0 \<leftarrow> load m buffer 0;
        Some (0 + ucast (push_bit 24 (ucast b3) OR push_bit 16 (ucast b2) OR push_bit 8 (ucast b1)
          OR push_bit 0 (ucast b0) :: u32))
      }
      else if num = 64 \<and> first = 0 then do {
        b7 \<leftarrow> load m buffer 7;
        b6 \<leftarrow> load m buffer 6;
        b5 \<leftarrow> load m buffer 5;
        b4 \<leftarrow> load m buffer 4;
        b3 \<leftarrow> load m buffer 3;
        b2 \<leftarrow> load m buffer 2;
        b1 \<leftarrow> load m buffer 1;
        b0 \<leftarrow> load m buffer 0;
        Some (0 + (push_bit 56 (ucast b7) OR push_bit 48 (ucast b6) OR push_bit 40 (ucast b5)
          OR push_bit 32 (ucast b4) OR push_bit 24 (ucast b3) OR push_bit 16 (ucast b2)
          OR push_bit 8 (ucast b1) OR push_bit 0 (ucast b0)))
      }
      else get_field_loop m buffer first 0 first (u32_add first num - first))"

section \<open>Copies: buf_cpy, buf_set_buf, bit_copy\<close>

definition buf_cpy :: "mem \<Rightarrow> ptr \<Rightarrow> ptr \<Rightarrow> nat \<Rightarrow> (ptr \<times> mem) option" where
  "buf_cpy m from_buf to_buf sz =
     (if from_buf = Null \<or> to_buf = Null then Some (Null, m)
      else do {
        vs \<leftarrow> load_bytes m from_buf (DIV_ROUND_UP sz 8);
        m \<leftarrow> store_bytes m to_buf vs;
        if sz mod 8 \<noteq> 0 then do {
          b \<leftarrow> load m to_buf (sz div 8);
          m \<leftarrow> store m to_buf (sz div 8) (b AND (push_bit (sz mod 8) 1 - 1));
          Some (to_buf, m)
        }
        else Some (to_buf, m)
      })"

text \<open>
  The two loops of \<open>buf_set_buf\<close>. Both advance their pointers; the slow one keeps the bit
  positions \<open>sq\<close> and \<open>dq\<close> in the current source and destination byte.
\<close>

fun byte_copy_loop :: "mem \<Rightarrow> ptr \<Rightarrow> ptr \<Rightarrow> nat \<Rightarrow> mem option" where
  "byte_copy_loop m src dst 0 = Some m"
| "byte_copy_loop m src dst (Suc n) = do {
     v \<leftarrow> load m src 0;
     m' \<leftarrow> store m dst 0 v;
     byte_copy_loop m' (ptr_add src 1) (ptr_add dst 1) n
   }"

fun bit_copy_loop :: "mem \<Rightarrow> ptr \<Rightarrow> nat \<Rightarrow> ptr \<Rightarrow> nat \<Rightarrow> nat \<Rightarrow> mem option" where
  "bit_copy_loop m src sq dst dq 0 = Some m"
| "bit_copy_loop m src sq dst dq (Suc n) = do {
     s \<leftarrow> load m src 0;
     d \<leftarrow> load m dst 0;
     m' \<leftarrow> store m dst 0
       (if drop_bit (sq mod 8) s AND 1 = 1
        then d OR push_bit (dq mod 8) 1
        else d AND NOT (push_bit (dq mod 8) 1));
     let (sq', src') = (if sq = 7 then (0, ptr_add src 1) else (Suc sq, src));
         (dq', dst') = (if dq = 7 then (0, ptr_add dst 1) else (Suc dq, dst))
     in bit_copy_loop m' src' sq' dst' dq' n
   }"

definition buf_set_buf ::
    "mem \<Rightarrow> ptr \<Rightarrow> nat \<Rightarrow> ptr \<Rightarrow> nat \<Rightarrow> nat \<Rightarrow> (ptr \<times> mem) option" where
  "buf_set_buf m src src_start dst dst_start len =
     (let sb = src_start div 8;
          db = dst_start div 8;
          sq = src_start mod 8;
          dq = dst_start mod 8;
          lb = len div 8;
          lq = len mod 8;
          src' = ptr_add src sb;
          dst' = ptr_add dst db
      in if sq = 0 \<and> dq = 0 \<and> lq = 0
         then do { m \<leftarrow> byte_copy_loop m src' dst' lb; Some (dst, m) }
         else do { m \<leftarrow> bit_copy_loop m src' sq dst' dq len; Some (dst, m) })"

definition bit_copy :: "mem \<Rightarrow> ptr \<Rightarrow> nat \<Rightarrow> ptr \<Rightarrow> nat \<Rightarrow> nat \<Rightarrow> mem option" where
  "bit_copy m dst dst_offset src src_offset bit_count = do {
     (_, m) \<leftarrow> buf_set_buf m src src_offset dst dst_offset bit_count;
     Some m
   }"

section \<open>Comparisons: buf_cmp, buf_cmp_mask\<close>

definition buf_cmp_masked :: "u8 \<Rightarrow> u8 \<Rightarrow> u8 \<Rightarrow> bool" where
  "buf_cmp_masked a b m \<longleftrightarrow> a AND m \<noteq> b AND m"

definition buf_cmp_trailing :: "u8 \<Rightarrow> u8 \<Rightarrow> u8 \<Rightarrow> nat \<Rightarrow> bool" where
  "buf_cmp_trailing a b m trailing =
     (let msk = push_bit trailing 1 - 1 in buf_cmp_masked a b (msk AND m))"

definition buf_cmp :: "mem \<Rightarrow> ptr \<Rightarrow> ptr \<Rightarrow> nat \<Rightarrow> bool option" where
  "buf_cmp m buf1 buf2 sz =
     (if buf1 = Null \<or> buf2 = Null then Some (buf1 \<noteq> buf2)
      else let last = sz div 8 in do {
        v1 \<leftarrow> load_bytes m buf1 last;
        v2 \<leftarrow> load_bytes m buf2 last;
        if v1 \<noteq> v2 then Some False
        else let trailing = sz mod 8 in
          if trailing = 0 then Some False
          else do {
            b1 \<leftarrow> load m buf1 last;
            b2 \<leftarrow> load m buf2 last;
            Some (buf_cmp_trailing b1 b2 0xff trailing)
          }
      })"

fun cmp_mask_loop :: "mem \<Rightarrow> ptr \<Rightarrow> ptr \<Rightarrow> ptr \<Rightarrow> nat \<Rightarrow> nat \<Rightarrow> bool option" where
  "cmp_mask_loop m buf1 buf2 msk i 0 = Some False"
| "cmp_mask_loop m buf1 buf2 msk i (Suc n) = do {
     b1 \<leftarrow> load m buf1 i;
     b2 \<leftarrow> load m buf2 i;
     k \<leftarrow> load m msk i;
     if buf_cmp_masked b1 b2 k then Some True
     else cmp_mask_loop m buf1 buf2 msk (Suc i) n
   }"

definition buf_cmp_mask :: "mem \<Rightarrow> ptr \<Rightarrow> ptr \<Rightarrow> ptr \<Rightarrow> nat \<Rightarrow> bool option" where
  "buf_cmp_mask m buf1 buf2 msk sz =
     (if buf1 = Null \<or> buf2 = Null then Some (buf1 \<noteq> buf2 \<or> buf1 \<noteq> msk)
      else let last = sz div 8 in do {
        found \<leftarrow> cmp_mask_loop m buf1 buf2 msk 0 last;
        if found then Some True
        else let trailing = sz mod 8 in
          if trailing = 0 then Some False
          else do {
            b1 \<leftarrow> load m buf1 last;
            b2 \<leftarrow> load m buf2 last;
            k \<leftarrow> load m msk last;
            Some (buf_cmp_trailing b1 b2 k trailing)
          }
      })"

section \<open>Fills, shifts and bit reversal: buf_set_ones, buffer_shr, flip_u32\<close>

definition buf_set_ones :: "mem \<Rightarrow> ptr \<Rightarrow> nat \<Rightarrow> (ptr \<times> mem) option" where
  "buf_set_ones m buf sz =
     (if buf = Null then Some (Null, m)
      else do {
        m \<leftarrow> store_bytes m buf (replicate (sz div 8) 0xff);
        if sz mod 8 \<noteq> 0 then do {
          m \<leftarrow> store m buf (sz div 8) (push_bit (sz mod 8) 1 - 1);
          Some (buf, m)
        }
        else Some (buf, m)
      })"

text \<open>
  \<open>buffer_shr\<close>: the loop shifts inside the bytes, the \<open>memmove\<close> and the \<open>memset\<close> remove the
  whole bytes. The sizes are \<open>unsigned\<close>, so an empty buffer makes \<open>buf_len - 1\<close> wrap around and
  the loop run out of its block.
\<close>

fun shr_loop :: "mem \<Rightarrow> ptr \<Rightarrow> nat \<Rightarrow> nat \<Rightarrow> nat \<Rightarrow> mem option" where
  "shr_loop m buf shift i 0 = Some m"
| "shr_loop m buf shift i (Suc n) = do {
     b \<leftarrow> load m buf i;
     c \<leftarrow> load m buf (Suc i);
     m' \<leftarrow> store m buf i (drop_bit shift b OR (push_bit (8 - shift) c AND 0xff));
     shr_loop m' buf shift (Suc i) n
   }"

definition buffer_shr :: "mem \<Rightarrow> ptr \<Rightarrow> nat \<Rightarrow> nat \<Rightarrow> mem option" where
  "buffer_shr m buf buf_len count =
     (let bytes_to_remove = count div 8;
          shift = count - bytes_to_remove * 8;
          lst = u32_sub buf_len 1
      in do {
        m \<leftarrow> shr_loop m buf shift 0 lst;
        b \<leftarrow> load m buf lst;
        m \<leftarrow> store m buf lst (drop_bit shift b);
        if bytes_to_remove \<noteq> 0 then do {
          vs \<leftarrow> load_bytes m (ptr_add buf bytes_to_remove) (u32_sub buf_len bytes_to_remove);
          m \<leftarrow> store_bytes m buf vs;
          store_bytes m (ptr_add buf (u32_sub buf_len bytes_to_remove))
            (replicate bytes_to_remove 0)
        }
        else Some m
      })"

definition bit_reverse_table256 :: "u8 list" where
  "bit_reverse_table256 =
    [0x00, 0x80, 0x40, 0xC0, 0x20, 0xA0, 0x60, 0xE0, 0x10, 0x90, 0x50, 0xD0, 0x30, 0xB0, 0x70, 0xF0,
     0x08, 0x88, 0x48, 0xC8, 0x28, 0xA8, 0x68, 0xE8, 0x18, 0x98, 0x58, 0xD8, 0x38, 0xB8, 0x78, 0xF8,
     0x04, 0x84, 0x44, 0xC4, 0x24, 0xA4, 0x64, 0xE4, 0x14, 0x94, 0x54, 0xD4, 0x34, 0xB4, 0x74, 0xF4,
     0x0C, 0x8C, 0x4C, 0xCC, 0x2C, 0xAC, 0x6C, 0xEC, 0x1C, 0x9C, 0x5C, 0xDC, 0x3C, 0xBC, 0x7C, 0xFC,
     0x02, 0x82, 0x42, 0xC2, 0x22, 0xA2, 0x62, 0xE2, 0x12, 0x92, 0x52, 0xD2, 0x32, 0xB2, 0x72, 0xF2,
     0x0A, 0x8A, 0x4A, 0xCA, 0x2A, 0xAA, 0x6A, 0xEA, 0x1A, 0x9A, 0x5A, 0xDA, 0x3A, 0xBA, 0x7A, 0xFA,
     0x06, 0x86, 0x46, 0xC6, 0x26, 0xA6, 0x66, 0xE6, 0x16, 0x96, 0x56, 0xD6, 0x36, 0xB6, 0x76, 0xF6,
     0x0E, 0x8E, 0x4E, 0xCE, 0x2E, 0xAE, 0x6E, 0xEE, 0x1E, 0x9E, 0x5E, 0xDE, 0x3E, 0xBE, 0x7E, 0xFE,
     0x01, 0x81, 0x41, 0xC1, 0x21, 0xA1, 0x61, 0xE1, 0x11, 0x91, 0x51, 0xD1, 0x31, 0xB1, 0x71, 0xF1,
     0x09, 0x89, 0x49, 0xC9, 0x29, 0xA9, 0x69, 0xE9, 0x19, 0x99, 0x59, 0xD9, 0x39, 0xB9, 0x79, 0xF9,
     0x05, 0x85, 0x45, 0xC5, 0x25, 0xA5, 0x65, 0xE5, 0x15, 0x95, 0x55, 0xD5, 0x35, 0xB5, 0x75, 0xF5,
     0x0D, 0x8D, 0x4D, 0xCD, 0x2D, 0xAD, 0x6D, 0xED, 0x1D, 0x9D, 0x5D, 0xDD, 0x3D, 0xBD, 0x7D, 0xFD,
     0x03, 0x83, 0x43, 0xC3, 0x23, 0xA3, 0x63, 0xE3, 0x13, 0x93, 0x53, 0xD3, 0x33, 0xB3, 0x73, 0xF3,
     0x0B, 0x8B, 0x4B, 0xCB, 0x2B, 0xAB, 0x6B, 0xEB, 0x1B, 0x9B, 0x5B, 0xDB, 0x3B, 0xBB, 0x7B, 0xFB,
     0x07, 0x87, 0x47, 0xC7, 0x27, 0xA7, 0x67, 0xE7, 0x17, 0x97, 0x57, 0xD7, 0x37, 0xB7, 0x77, 0xF7,
     0x0F, 0x8F, 0x4F, 0xCF, 0x2F, 0xAF, 0x6F, 0xEF, 0x1F, 0x9F, 0x5F, 0xDF, 0x3F, 0xBF, 0x7F, 0xFF]"

definition reverse_byte :: "u32 \<Rightarrow> u32" where
  "reverse_byte x = ucast (bit_reverse_table256 ! unat (x AND 0xff))"

definition flip_u32 :: "u32 \<Rightarrow> nat \<Rightarrow> u32 option" where
  "flip_u32 val num =
     (let c = push_bit 24 (reverse_byte val) OR
              push_bit 16 (reverse_byte (drop_bit 8 val)) OR
              push_bit 8 (reverse_byte (drop_bit 16 val)) OR
              reverse_byte (drop_bit 24 val)
      in if num < 32
         then (if 32 \<le> 32 - num then None else Some (drop_bit (32 - num) c))
         else Some c)"

section \<open>Bit fields on bit strings\<close>

text \<open>
  The shape of every update lemma: the block \<open>b\<close> of the pointer holds \<open>bs\<close>, and afterwards the
  bytes of an updated bit string; no other block changes.
\<close>

definition set_block_bits :: "mem \<Rightarrow> nat \<Rightarrow> bool list \<Rightarrow> mem" where
  "set_block_bits m b l = m(b \<mapsto> bytes_of l)"

lemma set_block_bits_at [simp]: "set_block_bits m b l b = Some (bytes_of l)"
  by (simp add: set_block_bits_def)

lemma set_block_bits_other [simp]: "c \<noteq> b \<Longrightarrow> set_block_bits m b l c = m c"
  by (simp add: set_block_bits_def)

lemma set_block_bits_id: "m b = Some bs \<Longrightarrow> set_block_bits m b (bits_of bs) = m"
  by (simp add: set_block_bits_def fun_upd_idem)

lemma set_block_bits_twice [simp]:
  "set_block_bits (set_block_bits m b l) b l' = set_block_bits m b l'"
  by (simp add: set_block_bits_def)

lemma set_field_loop_known:
  fixes val :: "'a::len word"
  assumes "m b = Some bs" and "first \<le> i" and "i - first + n \<le> LENGTH('a)"
    and "8 * off + i + n \<le> 8 * length bs"
  shows "set_field_loop m (Ptr b off) first val i n =
    Some (set_block_bits m b
      (blit (bits_of bs) (8 * off + i) (word_bits val) (i - first) n))"
  using assms
proof (induction n arbitrary: m bs i)
  case 0
  then show ?case by (simp add: set_block_bits_id)
next
  case (Suc n)
  let ?v = "bit val (i - first)"
  let ?m = "set_block_bits m b ((bits_of bs)[8 * off + i := ?v])"
  let ?bs = "bytes_of ((bits_of bs)[8 * off + i := ?v])"
  from Suc.prems have range: "i - first < LENGTH('a)" and inb: "8 * off + i < 8 * length bs"
    by simp_all
  have bits: "bits_of ?bs = (bits_of bs)[8 * off + i := word_bits val ! (i - first)]"
    using range by simp
  have len: "length ?bs = length bs" by simp
  have "set_field_loop m (Ptr b off) first val i (Suc n) =
      set_field_loop ?m (Ptr b off) first val (Suc i) n"
    using Suc.prems(1) range inb
    by (simp add: write_bit_known set_block_bits_def and_one_eq bit_iff_odd_drop_bit
        odd_iff_mod_2_eq_one)
  also have "\<dots> = Some (set_block_bits ?m b
      (blit (bits_of ?bs) (8 * off + Suc i) (word_bits val) (Suc i - first) n))"
    using Suc.prems by (intro Suc.IH) (simp_all add: len)
  also have "\<dots> = Some (set_block_bits m b
      (blit (bits_of bs) (8 * off + i) (word_bits val) (i - first) (Suc n)))"
    using blit_Suc [of "8 * off + i" n "bits_of bs" "i - first" "word_bits val"] Suc.prems
    by (simp add: bits Suc_diff_le del: bits_of_bytes_of)
  finally show ?case .
qed

lemma get_field_loop_known:
  fixes result :: "'a::len word"
  assumes "m b = Some bs" and "first \<le> i" and "i - first + n \<le> LENGTH('a)"
    and "8 * off + i + n \<le> 8 * length bs"
    and "\<And>k. i - first \<le> k \<Longrightarrow> \<not> bit result k"
  shows "get_field_loop m (Ptr b off) first result i n =
    Some (word_of (blit (word_bits result) (i - first) (bits_of bs) (8 * off + i) n))"
  using assms(2-5)
proof (induction n arbitrary: i result)
  case 0
  then show ?case by simp
next
  case (Suc n)
  let ?v = "bits_of bs ! (8 * off + i)"
  let ?r = "if ?v then result OR push_bit (i - first) 1 else result"
  have range: "i - first < LENGTH('a)" and inb: "8 * off + i < 8 * length bs"
    using Suc.prems by simp_all
  have bit_r: "bit ?r k \<longleftrightarrow> (if k = i - first then ?v else bit result k)" for k
    using range Suc.prems(4) [of k] by (auto simp: bit_simps)
  have bits: "word_bits ?r = (word_bits result)[i - first := ?v]"
    by (rule nth_equalityI) (simp_all add: bit_r nth_list_update)
  have zero: "\<not> bit ?r k" if "Suc i - first \<le> k" for k
    using that Suc.prems(1) Suc.prems(4) [of k] by (subst bit_r) auto
  have "get_field_loop m (Ptr b off) first result i (Suc n) =
      get_field_loop m (Ptr b off) first ?r (Suc i) n"
    using range inb assms(1) by (simp add: read_bit_known del: add_Suc_right)
  also have "\<dots> = Some (word_of (blit (word_bits ?r) (Suc i - first) (bits_of bs)
      (8 * off + Suc i) n))"
    using Suc.prems(1-3) zero by (intro Suc.IH) simp_all
  also have "\<dots> = Some (word_of (blit (word_bits result) (i - first) (bits_of bs)
      (8 * off + i) (Suc n)))"
    using blit_Suc [of "i - first" n "word_bits result" "8 * off + i" "bits_of bs"] Suc.prems
    by (simp only: bits) (simp add: Suc_diff_le)
  finally show ?case .
qed

text \<open>The unrolled little-endian branches agree with the loops.\<close>

lemma ucast_and_mask8 [simp]: "(ucast ((w :: 'a::len word) AND 0xff) :: u8) = ucast w"
proof (rule bit_word_eqI)
  fix n
  assume "n < LENGTH(8)"
  then have "bit (0xff :: 'a word) n \<longleftrightarrow> n < LENGTH('a)"
    using bit_mask_iff [of 8 n, where 'a = "'a word"] by (auto simp: mask_eq_exp_minus_1)
  with \<open>n < LENGTH(8)\<close> show "bit (ucast (w AND 0xff) :: u8) n = bit (ucast w :: u8) n"
    by (auto simp: bit_simps dest: bit_imp_le_length)
qed

lemma le_bytes_4: "le_bytes 4 w =
    [ucast w, ucast (drop_bit 8 w), ucast (drop_bit 16 w), ucast (drop_bit 24 w)]"
  by (simp add: le_bytes_def upt_rec [of _ 4] upt_rec [of _ 4, of "Suc _"] numeral_eq_Suc)

lemma le_bytes_8: "le_bytes 8 w =
    [ucast w, ucast (drop_bit 8 w), ucast (drop_bit 16 w), ucast (drop_bit 24 w),
     ucast (drop_bit 32 w), ucast (drop_bit 40 w), ucast (drop_bit 48 w), ucast (drop_bit 56 w)]"
  by (simp add: le_bytes_def numeral_eq_Suc)

lemma list_update_four:
  assumes "i + 4 \<le> length bs"
  shows "bs[i + 3 := d, i + 2 := c, i + 1 := b, i := a] = blit bs i [a, b, c, d] 0 4"
proof (rule nth_equalityI)
  show "length (bs[i + 3 := d, i + 2 := c, i + 1 := b, i := a]) =
      length (blit bs i [a, b, c, d] 0 4)"
    using assms by simp
next
  fix j
  assume "j < length (bs[i + 3 := d, i + 2 := c, i + 1 := b, i := a])"
  then show "bs[i + 3 := d, i + 2 := c, i + 1 := b, i := a] ! j = blit bs i [a, b, c, d] 0 4 ! j"
    using assms by (auto simp: nth_blit nth_list_update nth_Cons')
qed

lemma list_update_eight:
  assumes "i + 8 \<le> length bs"
  shows "bs[i + 7 := h, i + 6 := g, i + 5 := f, i + 4 := e, i + 3 := d, i + 2 := c, i + 1 := b,
      i := a] = blit bs i [a, b, c, d, e, f, g, h] 0 8"
proof (rule nth_equalityI)
  show "length (bs[i + 7 := h, i + 6 := g, i + 5 := f, i + 4 := e, i + 3 := d, i + 2 := c,
      i + 1 := b, i := a]) = length (blit bs i [a, b, c, d, e, f, g, h] 0 8)"
    using assms by simp
next
  fix j
  assume "j < length (bs[i + 7 := h, i + 6 := g, i + 5 := f, i + 4 := e, i + 3 := d, i + 2 := c,
      i + 1 := b, i := a])"
  then show "bs[i + 7 := h, i + 6 := g, i + 5 := f, i + 4 := e, i + 3 := d, i + 2 := c,
      i + 1 := b, i := a] ! j = blit bs i [a, b, c, d, e, f, g, h] 0 8 ! j"
    using assms by (auto simp: nth_blit nth_list_update nth_Cons')
qed

lemma bits_of_blit_le_bytes:
  fixes w :: "'a::len word"
  assumes "8 * n \<le> LENGTH('a)"
  shows "bits_of (blit bs i (le_bytes n w) 0 n) = blit (bits_of bs) (8 * i) (word_bits w) 0 (8 * n)"
proof -
  have "bits_of (blit bs i (le_bytes n w) 0 n) =
      blit (bits_of bs) (8 * i) (take (8 * n) (word_bits w)) 0 (8 * n)"
    using blit_bytes [of bs i "le_bytes n w" 0 n] assms by (simp add: bits_of_le_bytes)
  then show ?thesis by (simp add: blit_take)
qed

lemma buf_set_u32_known [buf_simps]:
  assumes "m b = Some bs" and "num \<le> 32" and "8 * off + first + num \<le> 8 * length bs"
    and "first + num < 2 ^ 32"
  shows "buf_set_u32 m (Ptr b off) first num v =
    Some (set_block_bits m b (blit (bits_of bs) (8 * off + first) (word_bits v) 0 num))"
proof (cases "num = 32 \<and> first = 0")
  case True
  with assms have "off + 4 \<le> length bs" by simp
  with True assms(1) have "buf_set_u32 m (Ptr b off) first num v =
      Some (m(b \<mapsto> blit bs off (le_bytes 4 v) 0 4))"
    by (simp add: buf_set_u32_def le_bytes_4 flip: list_update_four)
  moreover have "bytes_of (blit (bits_of bs) (8 * off) (word_bits v) 0 32) =
      blit bs off (le_bytes 4 v) 0 4"
    using bits_of_blit_le_bytes [of 4 bs off v] by (intro bytes_of_eq) simp
  ultimately show ?thesis
    using True by (simp add: set_block_bits_def)
next
  case False
  with assms show ?thesis
    by (auto simp: buf_set_u32_def set_field_loop_known)
qed

lemma buf_set_u64_known [buf_simps]:
  assumes "m b = Some bs" and "num \<le> 64" and "8 * off + first + num \<le> 8 * length bs"
    and "first + num < 2 ^ 32"
  shows "buf_set_u64 m (Ptr b off) first num v =
    Some (set_block_bits m b (blit (bits_of bs) (8 * off + first) (word_bits v) 0 num))"
proof -
  consider (half) "num = 32 \<and> first = 0" | (full) "num = 64 \<and> first = 0"
    | (loop) "\<not> (num = 32 \<and> first = 0)" "\<not> (num = 64 \<and> first = 0)"
    by blast
  then show ?thesis
  proof cases
    case half
    with assms have "off + 4 \<le> length bs" by simp
    with half assms(1) have "buf_set_u64 m (Ptr b off) first num v =
        Some (m(b \<mapsto> blit bs off (le_bytes 4 v) 0 4))"
      by (simp add: buf_set_u64_def le_bytes_4 flip: list_update_four)
    moreover have "bytes_of (blit (bits_of bs) (8 * off) (word_bits v) 0 32) =
        blit bs off (le_bytes 4 v) 0 4"
      using bits_of_blit_le_bytes [of 4 bs off v] by (intro bytes_of_eq) simp
    ultimately show ?thesis
      using half by (simp add: set_block_bits_def)
  next
    case full
    with assms have "off + 8 \<le> length bs" by simp
    with full assms(1) have "buf_set_u64 m (Ptr b off) first num v =
        Some (m(b \<mapsto> blit bs off (le_bytes 8 v) 0 8))"
      by (simp add: buf_set_u64_def le_bytes_8 flip: list_update_eight)
    moreover have "bytes_of (blit (bits_of bs) (8 * off) (word_bits v) 0 64) =
        blit bs off (le_bytes 8 v) 0 8"
      using bits_of_blit_le_bytes [of 8 bs off v] by (intro bytes_of_eq) simp
    ultimately show ?thesis
      using full by (simp add: set_block_bits_def)
  next
    case loop
    with assms show ?thesis
      by (auto simp: buf_set_u64_def set_field_loop_known)
  qed
qed

lemma take_drop_four:
  "i + 4 \<le> length bs \<Longrightarrow> take 4 (drop i bs) = [bs ! i, bs ! (i + 1), bs ! (i + 2), bs ! (i + 3)]"
  by (rule nth_equalityI) (auto simp: nth_Cons' numeral_eq_Suc less_Suc_eq)

lemma take_drop_eight:
  "i + 8 \<le> length bs \<Longrightarrow> take 8 (drop i bs) =
    [bs ! i, bs ! (i + 1), bs ! (i + 2), bs ! (i + 3),
     bs ! (i + 4), bs ! (i + 5), bs ! (i + 6), bs ! (i + 7)]"
  by (rule nth_equalityI) (auto simp: nth_Cons' numeral_eq_Suc less_Suc_eq)

lemma bits_of_take_drop: "bits_of (take n (drop i bs)) = take (8 * n) (drop (8 * i) (bits_of bs))"
  by (simp add: take_bits_of drop_bits_of)

text \<open>What a read of \<open>num\<close> bits returns: the bits of the buffer, zero-extended.\<close>

definition field_of :: "u8 list \<Rightarrow> nat \<Rightarrow> nat \<Rightarrow> 'a::len word" where
  "field_of bs i num = word_of (take num (drop i (bits_of bs)))"

lemma bit_field_of:
  assumes "num \<le> LENGTH('a)" and "i + num \<le> 8 * length bs"
  shows "bit (field_of bs i num :: 'a::len word) k \<longleftrightarrow> k < num \<and> bits_of bs ! (i + k)"
  using assms by (auto simp: field_of_def bit_word_of)

lemma word_of_blit_zero:
  assumes "num \<le> LENGTH('a)" and "i + num \<le> 8 * length bs"
  shows "(word_of (blit (word_bits (0 :: 'a::len word)) 0 (bits_of bs) i num) :: 'a word) =
    field_of bs i num"
proof (rule bit_word_eqI)
  fix k
  assume "k < LENGTH('a)"
  then show "bit (word_of (blit (word_bits (0 :: 'a word)) 0 (bits_of bs) i num) :: 'a word) k =
      bit (field_of bs i num :: 'a word) k"
    using assms by (simp add: bit_word_of nth_blit bit_field_of)
qed

lemma buf_get_u32_known [buf_simps]:
  assumes "m b = Some bs" and "num \<le> 32" and "8 * off + first + num \<le> 8 * length bs"
    and "first + num < 2 ^ 32"
  shows "buf_get_u32 m (Ptr b off) first num = Some (field_of bs (8 * off + first) num)"
proof (cases "num = 32 \<and> first = 0")
  case True
  with assms have "off + 4 \<le> length bs" by simp
  with True assms(1) have "buf_get_u32 m (Ptr b off) first num =
      Some (word_of (bits_of (take 4 (drop off bs))))"
    by (simp add: buf_get_u32_def take_drop_four word_of_bits_of_Cons or.assoc or.commute
        or.left_commute)
  with True show ?thesis
    by (simp add: field_of_def bits_of_take_drop)
next
  case False
  with assms show ?thesis
    by (auto simp: buf_get_u32_def get_field_loop_known word_of_blit_zero)
qed

lemma buf_get_u64_known [buf_simps]:
  assumes "m b = Some bs" and "num \<le> 64" and "8 * off + first + num \<le> 8 * length bs"
    and "first + num < 2 ^ 32"
  shows "buf_get_u64 m (Ptr b off) first num = Some (field_of bs (8 * off + first) num)"
proof -
  consider (half) "num = 32 \<and> first = 0" | (full) "num = 64 \<and> first = 0"
    | (loop) "\<not> (num = 32 \<and> first = 0)" "\<not> (num = 64 \<and> first = 0)"
    by blast
  then show ?thesis
  proof cases
    case half
    with assms have len: "off + 4 \<le> length bs" by simp
    with half assms(1) have "buf_get_u64 m (Ptr b off) first num =
        Some (ucast (word_of (bits_of (take 4 (drop off bs))) :: u32))"
      by (simp add: buf_get_u64_def take_drop_four word_of_bits_of_Cons or.assoc or.commute
          or.left_commute)
    moreover have "ucast (word_of (bits_of (take 4 (drop off bs))) :: u32) =
        (field_of bs (8 * off) 32 :: u64)"
    proof (rule bit_word_eqI)
      fix n
      assume "n < LENGTH(64)"
      with len show "bit (ucast (word_of (bits_of (take 4 (drop off bs))) :: u32) :: u64) n =
          bit (field_of bs (8 * off) 32 :: u64) n"
        by (auto simp: bit_simps bit_word_of bit_field_of bits_of_take_drop)
    qed
    ultimately show ?thesis
      using half by simp
  next
    case full
    with assms have "off + 8 \<le> length bs" by simp
    with full assms(1) have "buf_get_u64 m (Ptr b off) first num =
        Some (word_of (bits_of (take 8 (drop off bs))))"
      by (simp add: buf_get_u64_def take_drop_eight word_of_bits_of_Cons or.assoc or.commute
          or.left_commute)
    with full show ?thesis
      by (simp add: field_of_def bits_of_take_drop)
  next
    case loop
    with assms show ?thesis
      by (auto simp: buf_get_u64_def get_field_loop_known word_of_blit_zero)
  qed
qed

lemma field_of_blit:
  fixes v :: "'a::len word"
  assumes "num \<le> LENGTH('a)" and "i + num \<le> 8 * length bs"
  shows "field_of (bytes_of (blit (bits_of bs) i (word_bits v) 0 num)) i num = take_bit num v"
proof (rule bit_word_eqI)
  fix k
  assume "k < LENGTH('a)"
  have len: "length (bytes_of (blit (bits_of bs) i (word_bits v) 0 num)) = length bs"
    using assms by simp
  show "bit (field_of (bytes_of (blit (bits_of bs) i (word_bits v) 0 num)) i num :: 'a word) k =
      bit (take_bit num v) k"
    using assms by (auto simp: bit_field_of len nth_blit bit_simps)
qed

section \<open>Bit copies on bit strings\<close>

lemma byte_copy_loop_known:
  assumes "m sb = Some S" and "m db = Some D" and "sb \<noteq> db"
    and "so + n \<le> length S" and "dof + n \<le> length D"
  shows "byte_copy_loop m (Ptr sb so) (Ptr db dof) n = Some (m(db \<mapsto> blit D dof S so n))"
  using assms
proof (induction n arbitrary: m D so dof)
  case 0
  then show ?case by (simp add: fun_upd_idem)
next
  case (Suc n)
  let ?m = "m(db \<mapsto> D[dof := S ! so])"
  have "byte_copy_loop m (Ptr sb so) (Ptr db dof) (Suc n) =
      byte_copy_loop ?m (Ptr sb (Suc so)) (Ptr db (Suc dof)) n"
    using Suc.prems by simp
  also have "\<dots> = Some (?m(db \<mapsto> blit (D[dof := S ! so]) (Suc dof) S (Suc so) n))"
    using Suc.prems by (intro Suc.IH) simp_all
  also have "\<dots> = Some (m(db \<mapsto> blit D dof S so (Suc n)))"
    using Suc.prems by (simp add: blit_Suc del: fun_upd_apply)
  finally show ?case .
qed

lemma bit_copy_step:
  "(if drop_bit sq s AND 1 = 1 then d OR push_bit dq 1 else d AND NOT (push_bit dq 1)) =
    put_bit d dq (bit (s :: u8) sq)"
  by (simp add: put_bit_def flip: get_bit_def)

lemma bit_copy_loop_known:
  assumes "m sb = Some S" and "m db = Some D" and "sb \<noteq> db" and "sq < 8" and "dq < 8"
    and "8 * so + sq + n \<le> 8 * length S" and "8 * dof + dq + n \<le> 8 * length D"
  shows "bit_copy_loop m (Ptr sb so) sq (Ptr db dof) dq n =
    Some (set_block_bits m db (blit (bits_of D) (8 * dof + dq) (bits_of S) (8 * so + sq) n))"
  using assms
proof (induction n arbitrary: m D so sq dof dq)
  case 0
  then show ?case by (simp add: set_block_bits_id)
next
  case (Suc n)
  let ?v = "bits_of S ! (8 * so + sq)"
  let ?D = "D[dof := put_bit (D ! dof) dq ?v]"
  let ?src = "if sq = 7 then Ptr sb (Suc so) else Ptr sb so"
  have inS: "so < length S" and inD: "dof < length D"
    using Suc.prems by linarith+
  have v: "?v = bit (S ! so) sq"
    using Suc.prems by (simp add: nth_bits_of)
  have bits: "bits_of ?D = (bits_of D)[8 * dof + dq := ?v]"
    using bits_of_update_bit [of "8 * dof + dq" D ?v] Suc.prems by simp
  obtain so' sq' where src: "(if sq = 7 then (0, Ptr sb (so + 1)) else (Suc sq, Ptr sb so)) =
      (sq', Ptr sb so')" and src_pos: "8 * so' + sq' = 8 * so + Suc sq" "sq' < 8"
    using Suc.prems(4) that [of 0 "so + 1"] that [of "Suc sq" so] by (cases "sq = 7") auto
  obtain do' dq' where dst: "(if dq = 7 then (0, Ptr db (dof + 1)) else (Suc dq, Ptr db dof)) =
      (dq', Ptr db do')" and dst_pos: "8 * do' + dq' = 8 * dof + Suc dq" "dq' < 8"
    using Suc.prems(5) that [of 0 "dof + 1"] that [of "Suc dq" dof] by (cases "dq = 7") auto
  have "bit_copy_loop m (Ptr sb so) sq (Ptr db dof) dq (Suc n) =
      bit_copy_loop (m(db \<mapsto> ?D)) (Ptr sb so') sq' (Ptr db do') dq' n"
    using Suc.prems(1-5) inS inD src dst by (auto simp: bit_copy_step v split: if_splits)
  also have "\<dots> = Some (set_block_bits (m(db \<mapsto> ?D)) db
      (blit (bits_of ?D) (8 * do' + dq') (bits_of S) (8 * so' + sq') n))"
    using Suc.prems src_pos dst_pos by (intro Suc.IH) simp_all
  also have "\<dots> = Some (set_block_bits m db
      (blit (bits_of D) (8 * dof + dq) (bits_of S) (8 * so + sq) (Suc n)))"
    using blit_Suc [of "8 * dof + dq" n "bits_of D" "8 * so + sq" "bits_of S"] Suc.prems
    by (simp only: bits src_pos dst_pos) (simp add: set_block_bits_def)
  finally show ?case .
qed

text \<open>
  Both branches of \<open>buf_set_buf\<close> are the reference bit copy, whatever the alignment.
\<close>

lemma buf_set_buf_known [buf_simps]:
  assumes "m sb = Some S" and "m db = Some D" and "sb \<noteq> db"
    and "8 * so + ss + len \<le> 8 * length S" and "8 * dof + ds + len \<le> 8 * length D"
  shows "buf_set_buf m (Ptr sb so) ss (Ptr db dof) ds len =
    Some (Ptr db dof, set_block_bits m db
      (blit (bits_of D) (8 * dof + ds) (bits_of S) (8 * so + ss) len))"
proof (cases "ss mod 8 = 0 \<and> ds mod 8 = 0 \<and> len mod 8 = 0")
  case True
  then have ss: "ss = 8 * (ss div 8)" and ds: "ds = 8 * (ds div 8)" and len: "len = 8 * (len div 8)"
    by auto
  have S: "so + ss div 8 + len div 8 \<le> length S" and D: "dof + ds div 8 + len div 8 \<le> length D"
    using assms(4,5) ss ds len by linarith+
  have "bytes_of (blit (bits_of D) (8 * (dof + ds div 8)) (bits_of S) (8 * (so + ss div 8))
      (8 * (len div 8))) = blit D (dof + ds div 8) S (so + ss div 8) (len div 8)"
    by (rule bytes_of_eq) (simp only: blit_bytes)
  then have "bytes_of (blit (bits_of D) (8 * dof + ds) (bits_of S) (8 * so + ss) len) =
      blit D (dof + ds div 8) S (so + ss div 8) (len div 8)"
    using ss ds len by (simp add: algebra_simps)
  with True S D assms(1-3) show ?thesis
    by (simp add: buf_set_buf_def byte_copy_loop_known set_block_bits_def)
next
  case False
  have S: "8 * (so + ss div 8) + ss mod 8 = 8 * so + ss"
    and D: "8 * (dof + ds div 8) + ds mod 8 = 8 * dof + ds"
    by simp_all
  have "bit_copy_loop m (Ptr sb (so + ss div 8)) (ss mod 8) (Ptr db (dof + ds div 8)) (ds mod 8) len =
      Some (set_block_bits m db (blit (bits_of D) (8 * dof + ds) (bits_of S) (8 * so + ss) len))"
    using bit_copy_loop_known [OF assms(1-3), of "ss mod 8" "ds mod 8" "so + ss div 8" len
        "dof + ds div 8"] assms(4,5) by (simp only: S D)
  with False show ?thesis
    by (auto simp: buf_set_buf_def Let_def)
qed

lemma bit_copy_known [buf_simps]:
  assumes "m sb = Some S" and "m db = Some D" and "sb \<noteq> db"
    and "8 * so + ss + len \<le> 8 * length S" and "8 * dof + ds + len \<le> 8 * length D"
  shows "bit_copy m (Ptr db dof) ds (Ptr sb so) ss len =
    Some (set_block_bits m db (blit (bits_of D) (8 * dof + ds) (bits_of S) (8 * so + ss) len))"
  using buf_set_buf_known [OF assms] by (simp add: bit_copy_def)

section \<open>Whole-buffer copies and comparisons on bit strings\<close>

lemma bit_low_mask:
  assumes "t < 8"
  shows "bit (push_bit t 1 - 1 :: u8) j \<longleftrightarrow> j < t" and "bit (2 ^ t - 1 :: u8) j \<longleftrightarrow> j < t"
  using assms by (auto simp: bit_mask_iff simp flip: mask_eq_exp_minus_1)

lemma bits_of_mask_byte:
  assumes "k < length bs" and "t < 8" and "i < 8 * length bs"
  shows "bits_of (bs[k := bs ! k AND (push_bit t 1 - 1)]) ! i \<longleftrightarrow>
    bits_of bs ! i \<and> (i div 8 = k \<longrightarrow> i mod 8 < t)"
  using assms by (auto simp: nth_bits_of nth_list_update bit_simps bit_low_mask)

lemma nth_bits_of_blit:
  assumes "ds + n \<le> length D" and "ss + n \<le> length S" and "i < 8 * length D"
  shows "bits_of (blit D ds S ss n) ! i =
    (if 8 * ds \<le> i \<and> i < 8 * (ds + n) then bits_of S ! (8 * ss + (i - 8 * ds)) else bits_of D ! i)"
  using assms by (simp add: nth_blit algebra_simps flip: blit_bytes)

lemma blit_take_drop:
  "ss + n \<le> length s \<Longrightarrow> blit d ds (take n (drop ss s)) 0 n = blit d ds s ss n"
  by (simp add: blit_def)

lemma buf_cpy_known [buf_simps]:
  assumes "m sb = Some S" and "m db = Some D" and "sb \<noteq> db" and "sz < 2 ^ 32 - 8"
    and "so + (sz + 7) div 8 \<le> length S" and "dof + (sz + 7) div 8 \<le> length D"
  shows "\<exists>D'. buf_cpy m (Ptr sb so) (Ptr db dof) sz = Some (Ptr db dof, m(db \<mapsto> D')) \<and>
    length D' = length D \<and>
    (\<forall>i < 8 * length D. bits_of D' ! i =
      (if i < 8 * dof \<or> 8 * (dof + (sz + 7) div 8) \<le> i then bits_of D ! i
       else i - 8 * dof < sz \<and> bits_of S ! (8 * so + (i - 8 * dof))))"
proof -
  let ?n = "(sz + 7) div 8"
  let ?D1 = "blit D dof S so ?n"
  have len: "length ?D1 = length D"
    using assms(5,6) by simp
  note n = ceil8_cases [of sz]
  show ?thesis
  proof (cases "sz mod 8 = 0")
    case True
    then have sz: "8 * ?n = sz" by auto
    have "buf_cpy m (Ptr sb so) (Ptr db dof) sz = Some (Ptr db dof, m(db \<mapsto> ?D1))"
      using True assms by (simp add: buf_cpy_def DIV_ROUND_UP_8 blit_take_drop)
    moreover have "\<forall>i < 8 * length D. bits_of ?D1 ! i =
        (if i < 8 * dof \<or> 8 * (dof + ?n) \<le> i then bits_of D ! i
         else i - 8 * dof < sz \<and> bits_of S ! (8 * so + (i - 8 * dof)))"
      using assms(5,6) sz by (auto simp: nth_bits_of_blit)
    ultimately show ?thesis using len by blast
  next
    case False
    let ?k = "dof + sz div 8"
    let ?D2 = "?D1[?k := ?D1 ! ?k AND (push_bit (sz mod 8) 1 - 1)]"
    have k: "?k < length D" and Suc_n: "?n = Suc (sz div 8)"
      using False n assms(6) by auto
    have "buf_cpy m (Ptr sb so) (Ptr db dof) sz = Some (Ptr db dof, m(db \<mapsto> ?D2))"
      using False k len assms by (simp add: buf_cpy_def DIV_ROUND_UP_8 blit_take_drop)
    moreover have "bits_of ?D2 ! i =
        (if i < 8 * dof \<or> 8 * (dof + ?n) \<le> i then bits_of D ! i
         else i - 8 * dof < sz \<and> bits_of S ! (8 * so + (i - 8 * dof)))"
      if i: "i < 8 * length D" for i
    proof -
      have mask: "bits_of ?D2 ! i \<longleftrightarrow>
          bits_of ?D1 ! i \<and> (i div 8 = ?k \<longrightarrow> i mod 8 < sz mod 8)"
        using k len i by (intro bits_of_mask_byte) simp_all
      have copied: "bits_of ?D1 ! i = (if 8 * dof \<le> i \<and> i < 8 * (dof + ?n)
          then bits_of S ! (8 * so + (i - 8 * dof)) else bits_of D ! i)"
        using assms(5,6) i by (intro nth_bits_of_blit)
      show ?thesis
      proof (cases "i < 8 * dof \<or> 8 * (dof + ?n) \<le> i")
        case True
        then have "i div 8 \<noteq> ?k" unfolding Suc_n by auto
        with True mask copied show ?thesis by auto
      next
        case inside: False
        then obtain j where j: "i = 8 * dof + j" "j < 8 * Suc (sz div 8)"
          unfolding Suc_n using le_Suc_ex [of "8 * dof" i] by auto
        then have "j div 8 \<le> sz div 8"
          by (metis less_Suc_eq_le less_mult_imp_div_less mult.commute)
        then have less: "j < sz \<longleftrightarrow> (j div 8 = sz div 8 \<longrightarrow> j mod 8 < sz mod 8)"
          by (rule less_by_bytes)
        have "i div 8 = dof + j div 8" and "i mod 8 = j mod 8" and "i - 8 * dof = j"
          by (simp_all add: j(1))
        then have "(i div 8 = ?k \<longrightarrow> i mod 8 < sz mod 8) \<longleftrightarrow> i - 8 * dof < sz"
          by (simp only: less add_left_cancel)
        with inside mask copied show ?thesis by auto
      qed
    qed
    ultimately show ?thesis
      using len by (intro exI [of _ ?D2]) simp
  qed
qed

lemma buf_cmp_trailing_iff:
  assumes "t < 8"
  shows "buf_cmp_trailing a b k t \<longleftrightarrow> (\<exists>j < t. bit k j \<and> bit a j \<noteq> bit b j)"
proof -
  have "buf_cmp_trailing a b k t \<longleftrightarrow>
      (\<exists>j < 8. (bit a j \<and> j < t \<and> bit k j) \<noteq> (bit b j \<and> j < t \<and> bit k j))"
    using assms by (simp add: buf_cmp_trailing_def buf_cmp_masked_def Let_def bit_eq_iff
        bit_simps bit_low_mask)
  with assms show ?thesis by (auto intro: less_trans)
qed

lemma buf_cmp_masked_iff:
  "buf_cmp_masked a b k \<longleftrightarrow> (\<exists>j < 8. bit k j \<and> bit a j \<noteq> bit b j)"
  by (auto simp: buf_cmp_masked_def bit_eq_iff bit_simps dest: bit_imp_le_length)

lemma ex_bits_split:
  "(\<exists>i < (n :: nat). P i) \<longleftrightarrow>
    (\<exists>k < n div 8. \<exists>j < 8. P (8 * k + j)) \<or> (\<exists>j < n mod 8. P (8 * (n div 8) + j))"
proof
  assume "\<exists>i < n. P i"
  then obtain i where i: "i < n" "P i" by blast
  show "(\<exists>k < n div 8. \<exists>j < 8. P (8 * k + j)) \<or> (\<exists>j < n mod 8. P (8 * (n div 8) + j))"
  proof (cases "i div 8 < n div 8")
    case True
    moreover have "P (8 * (i div 8) + i mod 8)" using i by simp
    ultimately show ?thesis by (metis mod_less_divisor zero_less_numeral)
  next
    case False
    then have "i div 8 = n div 8" using i(1) by (simp add: div_le_mono le_antisym)
    then have "P (8 * (n div 8) + i mod 8)" and "i mod 8 < n mod 8"
      using i by (metis mult_div_mod_eq, metis i(1) mult_div_mod_eq nat_add_left_cancel_less)
    then show ?thesis by blast
  qed
next
  assume "(\<exists>k < n div 8. \<exists>j < 8. P (8 * k + j)) \<or> (\<exists>j < n mod 8. P (8 * (n div 8) + j))"
  then show "\<exists>i < n. P i"
  proof
    assume "\<exists>k < n div 8. \<exists>j < 8. P (8 * k + j)"
    then obtain k j where "k < n div 8" "j < 8" "P (8 * k + j)" by blast
    moreover from this have "8 * k + j < n" by linarith
    ultimately show ?thesis by blast
  next
    assume "\<exists>j < n mod 8. P (8 * (n div 8) + j)"
    then obtain j where "j < n mod 8" "P (8 * (n div 8) + j)" by blast
    moreover from this have "8 * (n div 8) + j < n"
      by (metis add_less_cancel_left mult_div_mod_eq)
    ultimately show ?thesis by blast
  qed
qed

end
