(* ===== verification/Buffer_Laws.thy ===== *)
theory Buffer_Laws
  imports Binary_Buffer
begin

text \<open>
  The whole-buffer routines of \<^verbatim>\<open>Binary_Buffer\<close> on bit strings: the two comparisons, the fill,
  the right shift and the bit reversal. \<open>bits_at\<close> is the bit string that starts at a pointer.
\<close>

definition bits_at :: "u8 list \<Rightarrow> nat \<Rightarrow> nat \<Rightarrow> bool list" where
  "bits_at bs off n = take n (drop (8 * off) (bits_of bs))"

lemma length_bits_at [simp]: "8 * off + n \<le> 8 * length bs \<Longrightarrow> length (bits_at bs off n) = n"
  by (simp add: bits_at_def)

lemma nth_bits_at:
  "8 * off + n \<le> 8 * length bs \<Longrightarrow> i < n \<Longrightarrow> bits_at bs off n ! i = bits_of bs ! (8 * off + i)"
  by (simp add: bits_at_def)

lemma nth_bits_at_byte:
  assumes "off + k < length bs" and "j < 8" and "8 * k + j < n" and "8 * off + n \<le> 8 * length bs"
  shows "bits_at bs off n ! (8 * k + j) = bit (bs ! (off + k)) j"
proof -
  have "8 * off + (8 * k + j) = 8 * (off + k) + j" by simp
  then have "(8 * off + (8 * k + j)) div 8 = off + k" and "(8 * off + (8 * k + j)) mod 8 = j"
    using assms(2) by (simp_all only: div_mult_self4 mod_mult_self4) simp_all
  moreover have "8 * off + (8 * k + j) < 8 * length bs"
    using assms(3,4) by simp
  ultimately show ?thesis
    using assms by (simp add: nth_bits_at nth_bits_of)
qed

lemma bits_at_eq_iff:
  assumes "8 * o1 + n \<le> 8 * length A" and "8 * o2 + n \<le> 8 * length B"
  shows "bits_at A o1 n = bits_at B o2 n \<longleftrightarrow>
    (\<forall>i < n. bits_at A o1 n ! i = bits_at B o2 n ! i)"
  using assms by (auto simp: list_eq_iff_nth_eq)

section \<open>Comparisons\<close>

lemma cmp_mask_loop_known:
  assumes "m b1 = Some A" and "m b2 = Some B" and "m bk = Some K"
    and "o1 + i + n \<le> length A" and "o2 + i + n \<le> length B" and "ok + i + n \<le> length K"
  shows "cmp_mask_loop m (Ptr b1 o1) (Ptr b2 o2) (Ptr bk ok) i n =
    Some (\<exists>k < n. buf_cmp_masked (A ! (o1 + i + k)) (B ! (o2 + i + k)) (K ! (ok + i + k)))"
  using assms(4-6)
proof (induction n arbitrary: i)
  case 0
  then show ?case by simp
next
  case (Suc n)
  have "cmp_mask_loop m (Ptr b1 o1) (Ptr b2 o2) (Ptr bk ok) (Suc i) n =
      Some (\<exists>k < n. buf_cmp_masked (A ! (o1 + Suc i + k)) (B ! (o2 + Suc i + k)) (K ! (ok + Suc i + k)))"
    using Suc.prems by (intro Suc.IH) simp_all
  with Suc.prems assms(1-3) show ?case
    by (simp add: Ex_less_Suc2)
qed

text \<open>
  The bit view of the bytes the comparisons read: the whole bytes below \<open>sz div 8\<close>, and the low
  \<open>sz mod 8\<close> bits of the next one.
\<close>

lemma fits_bits:
  assumes "off + (sz + 7) div 8 \<le> length bs"
  shows "8 * off + sz \<le> 8 * length bs" and "sz mod 8 \<noteq> 0 \<Longrightarrow> off + sz div 8 < length bs"
    and "k < sz div 8 \<Longrightarrow> off + k < length bs"
proof -
  have "8 * (off + (sz + 7) div 8) \<le> 8 * length bs"
    using assms by simp
  with le_ceil8 [of sz] show "8 * off + sz \<le> 8 * length bs"
    unfolding distrib_left by linarith
  show "sz mod 8 \<noteq> 0 \<Longrightarrow> off + sz div 8 < length bs"
    and "k < sz div 8 \<Longrightarrow> off + k < length bs"
    using assms by (simp_all add: ceil8_cases split: if_splits)
qed

lemma whole_byte_index: "k < sz div 8 \<Longrightarrow> j < 8 \<Longrightarrow> 8 * k + j < (sz :: nat)"
proof -
  assume "k < sz div 8" and "j < 8"
  then have "8 * k + 8 \<le> 8 * (sz div 8)" by linarith
  also have "\<dots> \<le> sz" by simp
  finally show ?thesis using \<open>j < 8\<close> by linarith
qed

lemma last_byte_index: "j < sz mod 8 \<Longrightarrow> 8 * (sz div 8) + j < (sz :: nat)"
  by (metis add_less_cancel_left mult_div_mod_eq)

lemma whole_byte_bit:
  assumes "off + (sz + 7) div 8 \<le> length bs" and "k < sz div 8" and "j < 8"
  shows "bits_at bs off sz ! (8 * k + j) = bit (bs ! (off + k)) j"
  using assms fits_bits [OF assms(1)] whole_byte_index by (intro nth_bits_at_byte) simp_all

lemma last_byte_bit:
  assumes "off + (sz + 7) div 8 \<le> length bs" and "j < sz mod 8"
  shows "bits_at bs off sz ! (8 * (sz div 8) + j) = bit (bs ! (off + sz div 8)) j"
proof -
  have "sz mod 8 \<noteq> 0" and "j < 8" using assms(2) by (auto intro: less_trans)
  then show ?thesis
    using fits_bits [OF assms(1)] last_byte_index [OF assms(2)]
    by (intro nth_bits_at_byte) simp_all
qed

lemma buf_cmp_mask_known [buf_simps]:
  assumes "m b1 = Some A" and "m b2 = Some B" and "m bk = Some K"
    and "o1 + (sz + 7) div 8 \<le> length A" and "o2 + (sz + 7) div 8 \<le> length B"
    and "ok + (sz + 7) div 8 \<le> length K"
  shows "buf_cmp_mask m (Ptr b1 o1) (Ptr b2 o2) (Ptr bk ok) sz =
    Some (\<exists>i < sz. bits_at K ok sz ! i \<and> bits_at A o1 sz ! i \<noteq> bits_at B o2 sz ! i)"
proof -
  let ?P = "\<lambda>i. bits_at K ok sz ! i \<and> bits_at A o1 sz ! i \<noteq> bits_at B o2 sz ! i"
  define W where "W \<longleftrightarrow> (\<exists>k < sz div 8. \<exists>j < 8. ?P (8 * k + j))"
  define L where "L \<longleftrightarrow> (\<exists>j < sz mod 8. ?P (8 * (sz div 8) + j))"
  have spec: "(\<exists>i < sz. ?P i) \<longleftrightarrow> W \<or> L"
    by (simp only: W_def L_def ex_bits_split [of sz ?P])
  have le: "o1 + sz div 8 \<le> length A" "o2 + sz div 8 \<le> length B" "ok + sz div 8 \<le> length K"
    using assms(4-6) by (simp_all add: ceil8_cases split: if_splits)
  have loop: "cmp_mask_loop m (Ptr b1 o1) (Ptr b2 o2) (Ptr bk ok) 0 (sz div 8) = Some W"
    using cmp_mask_loop_known [OF assms(1-3), of o1 0 "sz div 8" o2 ok] le
    by (simp add: W_def buf_cmp_masked_iff whole_byte_bit assms(4-6) cong: ex_cong1 conj_cong)
  have trail: "buf_cmp_trailing (A ! (o1 + sz div 8)) (B ! (o2 + sz div 8)) (K ! (ok + sz div 8))
      (sz mod 8) = L"
    by (simp add: L_def buf_cmp_trailing_iff last_byte_bit assms(4-6) cong: ex_cong1 conj_cong)
  have "buf_cmp_mask m (Ptr b1 o1) (Ptr b2 o2) (Ptr bk ok) sz = Some (W \<or> L)"
  proof (cases "sz mod 8 = 0")
    case True
    then show ?thesis
      using loop by (cases W) (simp_all add: buf_cmp_mask_def Let_def L_def)
  next
    case False
    then show ?thesis
      using loop trail assms(1-3) fits_bits(2) [OF assms(4)] fits_bits(2) [OF assms(5)]
        fits_bits(2) [OF assms(6)]
      by (simp add: buf_cmp_mask_def Let_def)
  qed
  then show ?thesis by (simp only: spec)
qed

text \<open>
  \<open>buf_cmp\<close> answers \<open>true\<close> for a difference in the last, partial byte, but \<open>false\<close>
  (its answer for equal buffers) as soon as one of the whole bytes differs.
\<close>

lemma buf_cmp_known [buf_simps]:
  assumes "m b1 = Some A" and "m b2 = Some B"
    and "o1 + (sz + 7) div 8 \<le> length A" and "o2 + (sz + 7) div 8 \<le> length B"
  shows "buf_cmp m (Ptr b1 o1) (Ptr b2 o2) sz =
    Some (take (sz div 8) (drop o1 A) = take (sz div 8) (drop o2 B) \<and>
      (\<exists>j < sz mod 8. bits_at A o1 sz ! (8 * (sz div 8) + j) \<noteq>
        bits_at B o2 sz ! (8 * (sz div 8) + j)))"
proof -
  define L where "L \<longleftrightarrow> (\<exists>j < sz mod 8. bits_at A o1 sz ! (8 * (sz div 8) + j) \<noteq>
        bits_at B o2 sz ! (8 * (sz div 8) + j))"
  have le: "o1 + sz div 8 \<le> length A" "o2 + sz div 8 \<le> length B"
    using assms(3,4) by (simp_all add: ceil8_cases split: if_splits)
  have ones: "bit (0xff :: u8) j" if "j < 8" for j
    using that bit_mask_iff [of 8 j, where 'a = u8] by (simp add: mask_eq_exp_minus_1)
  have "buf_cmp_trailing (A ! (o1 + sz div 8)) (B ! (o2 + sz div 8)) 0xff (sz mod 8) = L"
    using ones by (auto simp: L_def buf_cmp_trailing_iff last_byte_bit assms(3,4))
  with assms(1,2) le fits_bits(2) [OF assms(3)] fits_bits(2) [OF assms(4)] show ?thesis
    by (simp add: buf_cmp_def Let_def flip: L_def) (simp add: L_def)
qed

section \<open>Fill, shift, reversal\<close>

lemma byte_bits_ones: "byte_bits 0xff = replicate 8 True"
  by (simp add: byte_bits_def numeral_eq_Suc bit_simps)

lemma bits_of_replicate: "bits_of (replicate n (0xff :: u8)) = replicate (8 * n) True"
  by (induction n) (simp_all add: bits_of_Cons byte_bits_ones flip: replicate_add)

lemma bits_of_zeros: "bits_of (replicate n (0 :: u8)) = replicate (8 * n) False"
  by (induction n) (simp_all add: bits_of_Cons byte_bits_def numeral_eq_Suc flip: replicate_add)

lemma buf_set_ones_known [buf_simps]:
  assumes "m b = Some D" and "off + (sz + 7) div 8 \<le> length D"
  shows "\<exists>D'. buf_set_ones m (Ptr b off) sz = Some (Ptr b off, m(b \<mapsto> D')) \<and>
    length D' = length D \<and>
    bits_of D' = blit (bits_of D) (8 * off)
      (replicate sz True @ replicate (8 * ((sz + 7) div 8) - sz) False) 0 (8 * ((sz + 7) div 8))"
proof -
  let ?n = "(sz + 7) div 8"
  let ?t = "push_bit (sz mod 8) 1 - 1 :: u8"
  let ?vs = "if sz mod 8 = 0 then replicate (sz div 8) 0xff else replicate (sz div 8) 0xff @ [?t]"
  let ?D = "blit D off ?vs 0 ?n"
  have lvs: "length ?vs = ?n" by (simp add: ceil8_cases)
  have sz: "8 * (sz div 8) + sz mod 8 = sz" by simp
  have "bits_of ?vs = replicate sz True @ replicate (8 * ?n - sz) False"
  proof (cases "sz mod 8 = 0")
    case True
    with sz show ?thesis by (simp add: bits_of_replicate ceil8_cases)
  next
    case False
    have "byte_bits ?t = replicate (sz mod 8) True @ replicate (8 - sz mod 8) False"
      by (rule nth_equalityI) (auto simp: bit_low_mask nth_append)
    moreover have "8 * Suc q - (8 * q + r) = 8 - r" for q r :: nat
      by simp
    then have "8 * Suc (sz div 8) - sz = 8 - sz mod 8"
      by (metis sz)
    then have "8 * ?n - sz = 8 - sz mod 8"
      using False by (simp only: ceil8_cases if_False)
    moreover have "replicate sz True = replicate (8 * (sz div 8)) True @ replicate (sz mod 8) True"
      by (simp flip: replicate_add)
    ultimately show ?thesis
      using False by (simp add: bits_of_append bits_of_replicate bits_of_Cons)
  qed
  then have bits: "bits_of ?D = blit (bits_of D) (8 * off)
      (replicate sz True @ replicate (8 * ?n - sz) False) 0 (8 * ?n)"
    using blit_bytes [of D off ?vs 0 ?n] by simp
  have "buf_set_ones m (Ptr b off) sz = Some (Ptr b off, m(b \<mapsto> ?D))"
  proof (cases "sz mod 8 = 0")
    case True
    with assms show ?thesis by (simp add: buf_set_ones_def ceil8_cases)
  next
    case False
    have "(blit D off (replicate (sz div 8) 0xff) 0 (sz div 8))[off + sz div 8 := ?t] =
        blit D off (replicate (sz div 8) 0xff @ [?t]) 0 (Suc (sz div 8))"
      using assms(2) False
      by (intro nth_equalityI) (auto simp: ceil8_cases nth_blit nth_list_update nth_append)
    with False assms show ?thesis
      by (simp add: buf_set_ones_def ceil8_cases)
  qed
  moreover have "length ?D = length D"
    using assms(2) lvs by (subst length_blit) simp_all
  ultimately show ?thesis using bits by blast
qed

text \<open>
  \<open>buffer_shr\<close>. The loop reads byte \<open>i + 1\<close> before it is written, so each byte gets the shifted
  original pair; \<open>shr_byte\<close> is that pair's result.
\<close>

definition shr_byte :: "nat \<Rightarrow> u8 \<Rightarrow> u8 \<Rightarrow> u8" where
  "shr_byte s b c = drop_bit s b OR (push_bit (8 - s) c AND 0xff)"

lemma bit_shr_byte:
  "s < 8 \<Longrightarrow> j < 8 \<Longrightarrow> bit (shr_byte s b c) j \<longleftrightarrow> (if s + j < 8 then bit b (s + j) else bit c (s + j - 8))"
  using bit_mask_iff [of 8 j, where 'a = u8]
  by (auto simp: shr_byte_def bit_simps mask_eq_exp_minus_1 add.commute [of j]
      dest: bit_imp_le_length)

lemma shr_loop_known:
  assumes "m b = Some D" and "off + i + n < length D"
  shows "shr_loop m (Ptr b off) s i n =
    Some (m(b \<mapsto> blit D (off + i)
      (map (\<lambda>k. shr_byte s (D ! (off + i + k)) (D ! (off + i + Suc k))) [0..<n]) 0 n))"
  using assms
proof (induction n arbitrary: m D i)
  case 0
  then show ?case by (simp add: fun_upd_idem)
next
  case (Suc n)
  let ?f = "\<lambda>D k. shr_byte s (D ! (off + i + k)) (D ! (off + i + Suc k))"
  let ?D = "D[off + i := ?f D 0]"
  have "shr_loop m (Ptr b off) s i (Suc n) = shr_loop (m(b \<mapsto> ?D)) (Ptr b off) s (Suc i) n"
    using Suc.prems by (simp add: shr_byte_def)
  also have "\<dots> = Some ((m(b \<mapsto> ?D))(b \<mapsto> blit ?D (off + Suc i)
      (map (\<lambda>k. shr_byte s (?D ! (off + Suc i + k)) (?D ! (off + Suc i + Suc k))) [0..<n]) 0 n))"
    using Suc.prems by (intro Suc.IH) simp_all
  also have "blit ?D (off + Suc i)
      (map (\<lambda>k. shr_byte s (?D ! (off + Suc i + k)) (?D ! (off + Suc i + Suc k))) [0..<n]) 0 n =
      blit D (off + i) (map (?f D) [0..<Suc n]) 0 (Suc n)"
    using Suc.prems
    by (intro nth_equalityI) (auto simp: nth_blit nth_list_update nth_append simp del: upt_Suc)
  finally show ?case by (simp only: fun_upd_upd)
qed

lemma buffer_shr_known [buf_simps]:
  assumes "m b = Some D" and "off + len \<le> length D" and "0 < len" and "count \<le> 8 * len"
    and "len < 2 ^ 32"
  shows "\<exists>D'. buffer_shr m (Ptr b off) len count = Some (m(b \<mapsto> D')) \<and>
    length D' = length D \<and>
    bits_of D' = blit (bits_of D) (8 * off)
      (drop count (bits_at D off (8 * len)) @ replicate count False) 0 (8 * len)"
proof -
  let ?r = "count div 8" and ?s = "count mod 8"
  let ?R = "bits_at D off (8 * len)"
  define g where "g k = shr_byte ?s (D ! (off + k)) (if k = len - 1 then 0 else D ! (off + Suc k))" for k
  define D1 where "D1 = blit D off (map g [0..<len]) 0 len"
  define D2 where "D2 = blit D off (map (\<lambda>k. if k + ?r < len then g (k + ?r) else 0) [0..<len]) 0 len"
  have shift: "count - ?r * 8 = ?s" by (simp add: minus_div_mult_eq_mod)
  have s8: "?s < 8" by simp
  have len1: "length D1 = length D" and len2: "length D2 = length D"
    using assms(2) by (simp_all add: D1_def D2_def)
  have r: "?r \<le> len" using assms(4) by linarith
  have wrap: "u32_sub len 1 = len - 1" "u32_sub len ?r = len - ?r"
    using assms(3,5) r by simp_all
  let ?L = "blit D off (map (\<lambda>k. shr_byte ?s (D ! (off + k)) (D ! (off + Suc k))) [0..<len - 1]) 0
      (len - 1)"
  have lenL: "length ?L = length D" using assms(2) by simp
  have loop: "shr_loop m (Ptr b off) ?s 0 (len - 1) = Some (m(b \<mapsto> ?L))"
    using shr_loop_known [of m b D off 0 "len - 1" ?s] assms(1-3) by simp
  have last: "?L ! (off + (len - 1)) = D ! (off + (len - 1))"
    using assms(2,3) by (simp add: nth_blit)
  have upd: "?L[off + (len - 1) := drop_bit ?s (D ! (off + (len - 1)))] = D1"
    using assms(2,3) by (intro nth_equalityI)
      (auto simp: D1_def g_def shr_byte_def nth_blit nth_list_update)
  have mid: "shr_loop m (Ptr b off) ?s 0 (len - 1) = Some (m(b \<mapsto> ?L)) \<and>
      load (m(b \<mapsto> ?L)) (Ptr b off) (len - 1) = Some (D ! (off + (len - 1))) \<and>
      store (m(b \<mapsto> ?L)) (Ptr b off) (len - 1) (drop_bit ?s (D ! (off + (len - 1)))) =
        Some (m(b \<mapsto> D1))"
  proof (intro conjI)
    have lt: "off + (len - 1) < length ?L" using assms(2,3) lenL by simp
    show "load (m(b \<mapsto> ?L)) (Ptr b off) (len - 1) = Some (D ! (off + (len - 1)))"
      using load_known [of "m(b \<mapsto> ?L)" b ?L, OF fun_upd_same lt] by (simp only: last)
    show "store (m(b \<mapsto> ?L)) (Ptr b off) (len - 1) (drop_bit ?s (D ! (off + (len - 1)))) =
        Some (m(b \<mapsto> D1))"
      using store_known [of "m(b \<mapsto> ?L)" b ?L, OF fun_upd_same lt] by (simp only: upd fun_upd_upd)
  qed (rule loop)
  have res: "buffer_shr m (Ptr b off) len count = Some (m(b \<mapsto> D2))"
  proof (cases "?r = 0")
    case True
    have "D1 = D2"
      unfolding D1_def D2_def True
      by (rule arg_cong [where f = "\<lambda>vs. blit D off vs 0 len"]) auto
    with True mid show ?thesis
      by (simp add: buffer_shr_def Let_def shift wrap del: load.simps store.simps One_nat_def)
  next
    case False
    let ?mv = "blit D1 off (take (len - ?r) (drop (off + ?r) D1)) 0 (len - ?r)"
    have lm: "length ?mv = length D" using assms(2) len1 by simp
    have "blit ?mv (off + (len - ?r)) (replicate ?r 0) 0 ?r = D2"
      using assms(2) r len1 lm len2
      by (intro nth_equalityI) (auto simp: D1_def D2_def nth_blit add.commute)
    with False mid assms(2) r len1 lm show ?thesis
      by (simp add: buffer_shr_def Let_def shift wrap del: load.simps store.simps One_nat_def)
  qed
  have bits: "bits_of D2 = blit (bits_of D) (8 * off) (drop count ?R @ replicate count False) 0 (8 * len)"
  proof (rule nth_equalityI)
    show "length (bits_of D2) =
        length (blit (bits_of D) (8 * off) (drop count ?R @ replicate count False) 0 (8 * len))"
      using assms(2,4) len2 by simp
  next
    fix i
    assume "i < length (bits_of D2)"
    then have i: "i < 8 * length D" using len2 by simp
    show "bits_of D2 ! i =
        blit (bits_of D) (8 * off) (drop count ?R @ replicate count False) 0 (8 * len) ! i"
    proof (cases "8 * off \<le> i \<and> i < 8 * off + 8 * len")
      case False
      with i assms(2,4) show ?thesis
        by (auto simp: D2_def nth_blit nth_bits_of_blit)
    next
      case True
      then obtain j where j: "i = 8 * off + j" "j < 8 * len"
        using le_Suc_ex [of "8 * off" i] by auto
      define k t where "k = j div 8" and "t = j mod 8"
      have kt: "j = 8 * k + t" "t < 8" by (simp_all add: k_def t_def)
      then have k: "k < len" using j(2) by linarith
      have ct: "count = 8 * ?r + ?s" by simp
      have "D2 ! (off + k) = (if k + ?r < len then g (k + ?r) else 0)"
        using assms(2) k by (simp add: D2_def nth_blit)
      moreover have "bits_of D2 ! i = bit (D2 ! (off + k)) t"
        using len2 i j kt by (simp add: nth_bits_of)
      ultimately have "bits_of D2 ! i = bit (if k + ?r < len then g (k + ?r) else 0) t"
        by simp
      also have "\<dots> = (count + j < 8 * len \<and> ?R ! (count + j))"
      proof (cases "?s + t < 8")
        case True
        have "count + j = 8 * (k + r) + (s + t)" if "count = 8 * r + s" for r s
          using that kt(1) by simp
        then have cj: "count + j = 8 * (k + ?r) + (?s + t)"
          using ct by blast
        have valid: "count + j < 8 * len \<longleftrightarrow> k + ?r < len"
          unfolding cj using True by (rule byte_index_less)
        have at: "?R ! (8 * (k + ?r) + (?s + t)) = bit (D ! (off + (k + ?r))) (?s + t)"
          if "k + ?r < len"
          using that True assms(2) byte_index_less [OF True, of "k + ?r" len]
          by (intro nth_bits_at_byte) linarith+
        have "bit (if k + ?r < len then g (k + ?r) else 0) t \<longleftrightarrow>
            k + ?r < len \<and> bit (D ! (off + (k + ?r))) (?s + t)"
          using True kt(2) by (auto simp: g_def bit_shr_byte)
        with at show ?thesis unfolding valid unfolding cj by blast
      next
        case False
        have "count + j = 8 * Suc (k + r) + (s + t - 8)"
          if "count = 8 * r + s" and "\<not> s + t < 8" for r s
          using that kt(1) by simp
        then have cj: "count + j = 8 * Suc (k + ?r) + (?s + t - 8)"
          using ct False by blast
        have less: "?s + t - 8 < 8"
          using False kt(2) s8 by linarith
        have valid: "count + j < 8 * len \<longleftrightarrow> Suc (k + ?r) < len"
          unfolding cj using less by (rule byte_index_less)
        have "bit (if k + ?r < len then g (k + ?r) else 0) t \<longleftrightarrow>
            Suc (k + ?r) < len \<and> bit (D ! (off + Suc (k + ?r))) (?s + t - 8)"
          using False kt(2) by (auto simp: g_def bit_shr_byte)
        moreover have "?R ! (8 * Suc (k + ?r) + (?s + t - 8)) =
            bit (D ! (off + Suc (k + ?r))) (?s + t - 8)" if "Suc (k + ?r) < len"
          using that less assms(2) byte_index_less [OF less, of "Suc (k + ?r)" len]
          by (intro nth_bits_at_byte) linarith+
        ultimately show ?thesis unfolding valid unfolding cj by blast
      qed
      also have "\<dots> = blit (bits_of D) (8 * off) (drop count ?R @ replicate count False) 0
          (8 * len) ! i"
        using assms(2,4) j by (simp add: nth_blit nth_append less_diff_conv add.commute [of count])
      finally show ?thesis .
    qed
  qed
  from res len2 bits show ?thesis by blast
qed

text \<open>The literal table is the bit reversal of a byte, for all 256 entries.\<close>

lemma bit_reverse_table256_eq:
  "bit_reverse_table256 = map (\<lambda>v. byte_of (rev (byte_bits (word_of_nat v)))) [0..<256]"
  by code_simp

lemma bit_reverse_byte:
  "bit (reverse_byte x) i \<longleftrightarrow> i < 8 \<and> bit x (7 - i)"
proof -
  have lt: "unat (x AND 0xff) < 256"
  proof -
    have "x AND 0xff \<le> (0xff :: u32)" by (rule word_and_le1)
    then show ?thesis by (simp add: word_le_nat_alt)
  qed
  have low: "bit (x AND 0xff) j \<longleftrightarrow> j < 8 \<and> bit x j" for j
    using bit_mask_iff [of 8 j, where 'a = u32]
    by (auto simp: bit_simps mask_eq_exp_minus_1 dest: bit_imp_le_length)
  have "bit_reverse_table256 ! unat (x AND 0xff) =
      byte_of (rev (byte_bits (ucast (x AND 0xff))))"
    using lt by (simp add: bit_reverse_table256_eq)
  then show ?thesis
    by (auto simp: reverse_byte_def bit_simps bit_byte_of rev_nth low dest: bit_imp_le_length)
qed

lemma flip_u32_bits:
  assumes "0 < num" and "num \<le> 32"
  shows "\<exists>r. flip_u32 v num = Some r \<and> (\<forall>i. bit r i \<longleftrightarrow> i < num \<and> bit v (num - 1 - i))"
proof -
  define c where "c = push_bit 24 (reverse_byte v) OR push_bit 16 (reverse_byte (drop_bit 8 v)) OR
    push_bit 8 (reverse_byte (drop_bit 16 v)) OR reverse_byte (drop_bit 24 v)"
  have c: "bit c i \<longleftrightarrow> i < 32 \<and> bit v (31 - i)" for i
  proof -
    consider "i < 8" | "8 \<le> i" "i < 16" | "16 \<le> i" "i < 24" | "24 \<le> i" "i < 32" | "32 \<le> i"
      by linarith
    then show ?thesis
      by cases (auto simp: c_def bit_simps bit_reverse_byte dest: bit_imp_le_length)
  qed
  have "flip_u32 v num = Some (drop_bit (32 - num) c)"
    using assms by (auto simp: flip_u32_def c_def Let_def)
  moreover have "bit (drop_bit (32 - num) c) i \<longleftrightarrow> i < num \<and> bit v (num - 1 - i)" for i
    using assms by (auto simp: bit_simps c)
  ultimately show ?thesis by blast
qed

end
