(* ===== verification/Buffer_Text.thy ===== *)
theory Buffer_Text
  imports Prelude
begin

text \<open>
  The conversions of \<^verbatim>\<open>openocd/src/helper/binarybuffer.c\<close> between buffers and text:
  \<open>buf_to_str\<close> and \<open>str_to_buf\<close> (numbers in base 8, 10 or 16), \<open>hexify\<close> and \<open>unhexify\<close> (pairs of
  hexadecimal digits). Characters are bytes. The lengths are computed in \<open>float\<close>, which is
  modelled exactly: a value is a significand and a power of two, and every result is rounded to 24
  bits, ties to even. The values that occur are not negative and far from the limits of the
  exponent.
\<close>

section \<open>float\<close>

fun bit_len :: "nat \<Rightarrow> nat" where
  "bit_len n = (if n = 0 then 0 else Suc (bit_len (n div 2)))"

declare bit_len.simps [simp del]

definition round24 :: "nat \<Rightarrow> nat" where
  "round24 n =
     (let u = 2 ^ (bit_len n - 24); q = n div u; r = n mod u
      in if 2 * r < u \<or> 2 * r = u \<and> even q then q * u else (q + 1) * u)"

text \<open>\<open>(n, k)\<close> is the number \<open>n / 2 ^ k\<close>.\<close>

type_synonym float32 = "nat \<times> nat"

definition float_of_u32 :: "nat \<Rightarrow> float32" where
  "float_of_u32 n = (round24 n, 0)"

definition float_mult :: "float32 \<Rightarrow> float32 \<Rightarrow> float32" where
  "float_mult x y = (round24 (fst x * fst y), snd x + snd y)"

text \<open>The constants 2.0, 2.40824, 2.66667, 0.5, 0.41524 and 0.375 of type \<open>float\<close>.\<close>

definition str_factor :: "nat \<Rightarrow> float32 option" where
  "str_factor radix =
     (if radix = 16 then Some (2, 0)
      else if radix = 10 then Some (10100891, 22)
      else if radix = 8 then Some (11184825, 22)
      else None)"

definition buf_factor :: "nat \<Rightarrow> float32 option" where
  "buf_factor radix =
     (if radix = 16 then Some (1, 1)
      else if radix = 10 then Some (6966571, 24)
      else if radix = 8 then Some (3, 3)
      else None)"

text \<open>
  A value of \<open>2 ^ 32\<close> or more has no conversion to \<open>uint32_t\<close>. The difference \<open>x - y\<close> is positive
  when the fraction is not zero; the value of the difference is not used.
\<close>

definition ceil_f_to_u32 :: "float32 \<Rightarrow> nat option" where
  "ceil_f_to_u32 x =
     (let y = fst x div 2 ^ snd x in
      if y \<ge> 2 ^ 32 then None
      else if fst x > fst (float_of_u32 y) * 2 ^ snd x then Some (u32_add y 1)
      else Some y)"

section \<open>Allocation of text\<close>

type_synonym allocator = "nat \<Rightarrow> mem \<Rightarrow> ptr \<times> mem"

definition calloc :: "allocator \<Rightarrow> nat \<Rightarrow> mem \<Rightarrow> ptr \<times> mem" where
  "calloc malloc n m =
     (case malloc n m of
        (Null, m) \<Rightarrow> (Null, m)
      | (Ptr b off, m) \<Rightarrow> (Ptr b off, m(b \<mapsto> replicate n 0)))"

text \<open>The characters of \<open>s\<close> from \<open>i\<close> on, up to the terminating zero and at most \<open>n\<close>.\<close>

fun read_str :: "mem \<Rightarrow> ptr \<Rightarrow> nat \<Rightarrow> nat \<Rightarrow> u8 list option" where
  "read_str m s i 0 = Some []"
| "read_str m s i (Suc n) = do {
     c \<leftarrow> load m s i;
     if c = 0 then Some [] else do { cs \<leftarrow> read_str m s (Suc i) n; Some (c # cs) }
   }"

definition strndup :: "allocator \<Rightarrow> ptr \<Rightarrow> nat \<Rightarrow> mem \<Rightarrow> (ptr \<times> mem) option" where
  "strndup malloc s n m = do {
     cs \<leftarrow> read_str m s 0 n;
     let (p, m) = malloc (length cs + 1) m;
     if p = Null then Some (Null, m) else do { m \<leftarrow> store_bytes m p (cs @ [0]); Some (p, m) }
   }"

text \<open>A \<open>char\<close> is signed: its conversion to \<open>uint32_t\<close> extends the sign.\<close>

definition char_u32 :: "u8 \<Rightarrow> nat" where
  "char_u32 c = unat (scast c :: u32)"

section \<open>buf_to_str\<close>

definition last_byte_mask :: "nat \<Rightarrow> u8" where
  "last_byte_mask buf_len = drop_bit (8 - buf_len mod 8) 0xff"

text \<open>The inner loop: \<open>j\<close> runs down to 0.\<close>

fun str_carry_loop :: "nat \<Rightarrow> ptr \<Rightarrow> nat \<Rightarrow> nat \<Rightarrow> mem \<Rightarrow> mem option" where
  "str_carry_loop radix str 0 tmp m = Some m"
| "str_carry_loop radix str (Suc j) tmp m = do {
     c \<leftarrow> load m str j;
     let tmp = u32_add tmp (char_u32 c * 256 mod 2 ^ 32);
     m \<leftarrow> store m str j (of_nat (tmp mod radix));
     str_carry_loop radix str j (tmp div radix) m
   }"

fun to_str_loop :: "nat \<Rightarrow> ptr \<Rightarrow> nat \<Rightarrow> ptr \<Rightarrow> nat \<Rightarrow> nat \<Rightarrow> mem \<Rightarrow> mem option" where
  "to_str_loop radix str str_len buf buf_len 0 m = Some m"
| "to_str_loop radix str str_len buf buf_len (Suc i) m = do {
     b \<leftarrow> load m buf i;
     let b = (if i = buf_len div 8 \<and> buf_len mod 8 \<noteq> 0 then b AND last_byte_mask buf_len else b);
     m \<leftarrow> str_carry_loop radix str str_len (unat b) m;
     to_str_loop radix str str_len buf buf_len i m
   }"

definition DIGITS :: "u8 list" where
  "DIGITS = [0x30, 0x31, 0x32, 0x33, 0x34, 0x35, 0x36, 0x37, 0x38, 0x39, 0x41, 0x42, 0x43, 0x44, 0x45,
     0x46, 0]"

fun print_loop :: "ptr \<Rightarrow> nat \<Rightarrow> nat \<Rightarrow> mem \<Rightarrow> mem option" where
  "print_loop str 0 j m = Some m"
| "print_loop str (Suc k) j m = do {
     c \<leftarrow> load m str j;
     m \<leftarrow> (if unat c < length DIGITS then store m str j (DIGITS ! unat c) else None);
     print_loop str k (Suc j) m
   }"

definition buf_to_str :: "allocator \<Rightarrow> ptr \<Rightarrow> nat \<Rightarrow> nat \<Rightarrow> mem \<Rightarrow> (ptr \<times> mem) option" where
  "buf_to_str malloc buf buf_len radix m =
     (case str_factor radix of
        None \<Rightarrow> Some (Null, m)
      | Some factor \<Rightarrow> do {
          str_len \<leftarrow> ceil_f_to_u32 (float_mult (float_of_u32 (DIV_ROUND_UP buf_len 8)) factor);
          let (str, m) = calloc malloc (u32_add str_len 1) m;
          m \<leftarrow> to_str_loop radix str str_len buf buf_len (DIV_ROUND_UP buf_len 8) m;
          m \<leftarrow> print_loop str str_len 0 m;
          Some (str, m)
        })"

section \<open>str_to_buf\<close>

text \<open>\<open>s[1]\<close> is looked at only after a first zero, but whatever the length of the string.\<close>

definition str_radix_guess :: "mem \<Rightarrow> ptr \<Rightarrow> nat \<Rightarrow> nat \<Rightarrow> (ptr \<times> nat \<times> nat) option" where
  "str_radix_guess m str str_len radix =
     (if radix \<noteq> 0 then Some (str, str_len, radix)
      else do {
        c0 \<leftarrow> load m str 0;
        x \<leftarrow> (if c0 = 0x30 then do { c1 \<leftarrow> load m str 1; Some (c1 = 0x78 \<or> c1 = 0x58) } else Some False);
        Some (if x then (ptr_add str 2, u32_sub str_len 2, 16)
              else if c0 = 0x30 \<and> str_len \<noteq> 1 then (ptr_add str 1, u32_sub str_len 1, 8)
              else (str, str_len, 10))
      })"

definition digit_of_char :: "nat \<Rightarrow> u8 \<Rightarrow> nat option" where
  "digit_of_char radix c =
     (let tmp = char_u32 c in
      case (if 0x30 \<le> tmp \<and> tmp \<le> 0x39 then Some (tmp - 0x30)
            else if 0x61 \<le> tmp \<and> tmp \<le> 0x66 then Some (tmp - 0x61 + 10)
            else if 0x41 \<le> tmp \<and> tmp \<le> 0x46 then Some (tmp - 0x41 + 10)
            else None) of
        None \<Rightarrow> None
      | Some d \<Rightarrow> if d \<ge> radix then None else Some d)"

fun buf_carry_loop :: "nat \<Rightarrow> ptr \<Rightarrow> nat \<Rightarrow> nat \<Rightarrow> nat \<Rightarrow> mem \<Rightarrow> mem option" where
  "buf_carry_loop radix buf 0 j tmp m = Some m"
| "buf_carry_loop radix buf (Suc k) j tmp m = do {
     b \<leftarrow> load m buf j;
     let tmp = u32_add tmp (unat b * radix mod 2 ^ 32);
     m \<leftarrow> store m buf j (of_nat tmp AND 0xff);
     buf_carry_loop radix buf k (Suc j) (tmp div 2 ^ 8) m
   }"

partial_function (option) to_buf_loop ::
    "nat \<Rightarrow> ptr \<Rightarrow> ptr \<Rightarrow> nat \<Rightarrow> nat \<Rightarrow> mem \<Rightarrow> (nat \<times> mem) option" where
  "to_buf_loop radix charbuf buf buf_len i m = do {
     c \<leftarrow> load m charbuf i;
     if c = 0 then Some (i, m)
     else do {
       m \<leftarrow> (case digit_of_char radix c of
               None \<Rightarrow> Some m
             | Some d \<Rightarrow> buf_carry_loop radix buf buf_len 0 d m);
       to_buf_loop radix charbuf buf buf_len (Suc i) m
     }
   }"

fun copy_out_loop :: "ptr \<Rightarrow> nat \<Rightarrow> ptr \<Rightarrow> nat \<Rightarrow> nat \<Rightarrow> mem \<Rightarrow> mem option" where
  "copy_out_loop b256_buf b256_len buf 0 j m = Some m"
| "copy_out_loop b256_buf b256_len buf (Suc k) j m = do {
     b \<leftarrow> (if j < b256_len then load m b256_buf j else Some 0);
     m \<leftarrow> store m buf j b;
     copy_out_loop b256_buf b256_len buf k (Suc j) m
   }"

definition str_to_buf ::
    "allocator \<Rightarrow> ptr \<Rightarrow> nat \<Rightarrow> ptr \<Rightarrow> nat \<Rightarrow> nat \<Rightarrow> mem \<Rightarrow> (nat \<times> mem) option" where
  "str_to_buf malloc str str_len buf buf_len radix m = do {
     (str, str_len, radix) \<leftarrow> str_radix_guess m str str_len radix;
     case buf_factor radix of
       None \<Rightarrow> Some (0, m)
     | Some factor \<Rightarrow> do {
         (charbuf, m) \<leftarrow> strndup malloc str str_len m;
         b256_len \<leftarrow> ceil_f_to_u32 (float_mult (float_of_u32 str_len) factor);
         let (b256_buf, m) = calloc malloc b256_len m;
         (i, m) \<leftarrow> to_buf_loop radix charbuf b256_buf b256_len 0 m;
         m \<leftarrow> copy_out_loop b256_buf b256_len buf (DIV_ROUND_UP buf_len 8) 0 m;
         m \<leftarrow> (if buf_len mod 8 \<noteq> 0 then do {
             b \<leftarrow> load m buf (buf_len div 8);
             store m buf (buf_len div 8) (b AND last_byte_mask buf_len)
           } else Some m);
         m \<leftarrow> free_block b256_buf m;
         m \<leftarrow> free_block charbuf m;
         Some (i, m)
       }
   }"

section \<open>hexify and unhexify\<close>

definition hex_digits :: "u8 list" where
  "hex_digits = [0x30, 0x31, 0x32, 0x33, 0x34, 0x35, 0x36, 0x37, 0x38, 0x39, 0x61, 0x62, 0x63, 0x64,
     0x65, 0x66]"

definition hex_value :: "u8 \<Rightarrow> u8 option" where
  "hex_value c =
     (if 0x61 \<le> c \<and> c \<le> 0x66 then Some (c - 0x61 + 10)
      else if 0x41 \<le> c \<and> c \<le> 0x46 then Some (c - 0x41 + 10)
      else if 0x30 \<le> c \<and> c \<le> 0x39 then Some (c - 0x30)
      else None)"

fun unhexify_loop :: "ptr \<Rightarrow> ptr \<Rightarrow> nat \<Rightarrow> nat \<Rightarrow> mem \<Rightarrow> (nat \<times> mem) option" where
  "unhexify_loop bin hex 0 i m = Some (i div 2, m)"
| "unhexify_loop bin hex (Suc k) i m = do {
     c \<leftarrow> load m hex i;
     case hex_value c of
       None \<Rightarrow> Some (i div 2, m)
     | Some tmp \<Rightarrow> do {
         b \<leftarrow> load m bin (i div 2);
         m \<leftarrow> store m bin (i div 2) (b OR push_bit (4 * ((i + 1) mod 2)) tmp);
         unhexify_loop bin hex k (Suc i) m
       }
   }"

definition unhexify :: "ptr \<Rightarrow> ptr \<Rightarrow> nat \<Rightarrow> mem \<Rightarrow> (nat \<times> mem) option" where
  "unhexify bin hex count m =
     (if bin = Null \<or> hex = Null then Some (0, m)
      else do {
        m \<leftarrow> store_bytes m bin (replicate count 0);
        unhexify_loop bin hex (2 * count) 0 m
      })"

fun hexify_loop :: "ptr \<Rightarrow> ptr \<Rightarrow> nat \<Rightarrow> nat \<Rightarrow> mem \<Rightarrow> (nat \<times> mem) option" where
  "hexify_loop hex bin 0 i m = Some (i, m)"
| "hexify_loop hex bin (Suc k) i m = do {
     b \<leftarrow> load m bin (i div 2);
     let tmp = drop_bit (4 * ((i + 1) mod 2)) b AND 0x0f;
     m \<leftarrow> store m hex i (hex_digits ! unat tmp);
     hexify_loop hex bin k (Suc i) m
   }"

definition hexify :: "ptr \<Rightarrow> ptr \<Rightarrow> nat \<Rightarrow> nat \<Rightarrow> mem \<Rightarrow> (nat \<times> mem) option" where
  "hexify hex bin count len m =
     (if len = 0 then Some (0, m)
      else do {
        (i, m) \<leftarrow> hexify_loop hex bin (min (len - 1) (2 * count)) 0 m;
        m \<leftarrow> store m hex i 0;
        Some (i, m)
      })"

end
