(* ===== verification/Text_Laws.thy ===== *)
theory Text_Laws
  imports Buffer_Text
begin

text \<open>
  The conversions of \<open>Buffer_Text\<close> as operations on numbers. Both carry loops are the same step
  \<open>mul_add\<close> on the digits of a number, which multiplies by one base and adds a digit, so that
  \<open>buf_to_str\<close> writes the number of the buffer and \<open>str_to_buf\<close> reads it back, as far as the
  number of digits that the lengths in \<open>float\<close> leave is enough.
\<close>

section \<open>Numbers in a base\<close>

text \<open>Digits with the least significant first.\<close>

definition num_of :: "nat \<Rightarrow> nat list \<Rightarrow> nat" where
  "num_of b ds = horner_sum id b ds"

lemma num_of_simps [simp]: "num_of b [] = 0" "num_of b (d # ds) = d + b * num_of b ds"
  by (simp_all add: num_of_def)

lemma num_of_append: "num_of b (xs @ ys) = num_of b xs + b ^ length xs * num_of b ys"
  by (induction xs) (simp_all add: algebra_simps)

lemma num_of_less: "\<forall>d \<in> set ds. d < b \<Longrightarrow> num_of b ds < b ^ length ds"
proof (induction ds)
  case (Cons d ds)
  then have "Suc (num_of b ds) \<le> b ^ length ds" and "d < b" by simp_all
  then have "b * Suc (num_of b ds) \<le> b * b ^ length ds" by (intro mult_le_mono2)
  with \<open>d < b\<close> show ?case by simp
qed simp

fun mul_add :: "nat \<Rightarrow> nat \<Rightarrow> nat \<Rightarrow> nat list \<Rightarrow> nat list" where
  "mul_add b k t [] = []"
| "mul_add b k t (d # ds) = (t + d * k) mod b # mul_add b k ((t + d * k) div b) ds"

lemma length_mul_add [simp]: "length (mul_add b k t ds) = length ds"
  by (induction ds arbitrary: t) simp_all

lemma mul_add_less: "0 < b \<Longrightarrow> d \<in> set (mul_add b k t ds) \<Longrightarrow> d < b"
  by (induction ds arbitrary: t) auto

lemma num_of_mul_add:
  assumes "0 < b"
  shows "num_of b (mul_add b k t ds) = (k * num_of b ds + t) mod b ^ length ds"
proof (induction ds arbitrary: t)
  case (Cons d ds)
  let ?x = "t + d * k"
  have "num_of b (mul_add b k t (d # ds)) = ?x mod b + b * ((k * num_of b ds + ?x div b) mod b ^ length ds)"
    by (simp add: Cons.IH)
  also have "k * num_of b ds + ?x div b = (?x + k * num_of b ds * b) div b"
    using assms by simp
  also have "?x mod b = (?x + k * num_of b ds * b) mod b" by simp
  finally have "num_of b (mul_add b k t (d # ds)) = (?x + k * num_of b ds * b) mod (b * b ^ length ds)"
    by (simp only: mod_mult2_eq add.commute)
  then show ?case by (simp add: algebra_simps)
qed simp

lemma num_of_replicate_0 [simp]: "num_of b (replicate n 0) = 0"
  by (induction n) simp_all

lemma carry_small: "t < k \<Longrightarrow> d < b \<Longrightarrow> t + d * k < k * (b :: nat)"
  by (metis add.commute add_less_cancel_left less_le_trans mult.commute mult_Suc_right mult_le_mono2 Suc_leI)

lemma carry_div: "t < k \<Longrightarrow> d < b \<Longrightarrow> (t + d * k) div b < (k :: nat)"
  using carry_small [of t k d b] by (simp add: less_mult_imp_div_less mult.commute)

section \<open>The carry loops\<close>

lemma char_u32_small:
  assumes "c < 0x80" shows "char_u32 c = unat c"
proof -
  have c: "unat c < 128" using assms by (simp add: word_less_nat_alt)
  then have "int (unat c) < 128" by linarith
  then have u: "uint c < 128" by simp
  have "sint c = uint c"
    unfolding sint_uint by (rule signed_take_bit_int_eq_self) (use u in \<open>auto intro: order_trans [OF _ uint_ge_0]\<close>)
  then have "(scast c :: u32) = ucast c" by (simp add: scast_eq flip: ucast_eq)
  then show ?thesis using c by (simp add: char_u32_def unsigned_ucast_eq take_bit_nat_eq_self)
qed

lemma u8_less [simp]: "unat (b :: u8) < 256"
  using unsigned_less [of b, where 'a = nat] by simp

lemma u8_of_nat: "n < 256 \<Longrightarrow> unat (of_nat n :: u8) = n"
  by (simp add: unat_of_nat take_bit_nat_eq_self)

lemma u8_of_nat_mod: "of_nat n AND 0xff = (of_nat (n mod 256) :: u8)"
proof -
  have "(0xff :: u8) = - 1" by simp
  then have "of_nat n AND 0xff = (of_nat n :: u8)" by (simp only: and.right_neutral)
  then show ?thesis by (simp add: word_unat_eq_iff unat_of_nat take_bit_eq_mod)
qed

lemma buf_carry_loop_law:
  assumes "m b = Some B" and "length B = j + k" and "t < radix" and "radix \<le> 16"
  shows "buf_carry_loop radix (Ptr b 0) k j t m =
    Some (m(b \<mapsto> take j B @ map of_nat (mul_add 256 radix t (map unat (drop j B)))))"
  using assms
proof (induction k arbitrary: j t m B)
  case 0
  then show ?case by (simp add: fun_upd_idem)
next
  case (Suc k)
  let ?d = "unat (B ! j)"
  let ?x = "t + ?d * radix"
  have d: "?d < 256" by simp
  have x: "?x < radix * 256" "?x div 256 < radix"
    using carry_small [OF Suc.prems(3) d] carry_div [OF Suc.prems(3) d] .
  have drop: "drop j B = B ! j # drop (Suc j) B" using Suc.prems(2) by (simp add: Cons_nth_drop_Suc)
  have "load m (Ptr b 0) j = Some (B ! j)" and
    "store m (Ptr b 0) j (of_nat ?x AND 0xff) = Some (m(b \<mapsto> B[j := of_nat (?x mod 256)]))"
    using Suc.prems by (simp_all add: u8_of_nat_mod del: of_nat_add of_nat_mult)
  then have "buf_carry_loop radix (Ptr b 0) (Suc k) j t m =
      buf_carry_loop radix (Ptr b 0) k (Suc j) (?x div 256) (m(b \<mapsto> B[j := of_nat (?x mod 256)]))"
    using Suc.prems x by (simp add: Let_def del: load.simps store.simps of_nat_add of_nat_mult)
  also have "\<dots> = Some ((m(b \<mapsto> B[j := of_nat (?x mod 256)]))(b \<mapsto>
      take (Suc j) (B[j := of_nat (?x mod 256)]) @
        map of_nat (mul_add 256 radix (?x div 256) (map unat (drop (Suc j) (B[j := of_nat (?x mod 256)]))))))"
    using Suc.prems x by (intro Suc.IH) simp_all
  also have "(m(b \<mapsto> B[j := of_nat (?x mod 256)]))(b \<mapsto> take (Suc j) (B[j := of_nat (?x mod 256)]) @
        map of_nat (mul_add 256 radix (?x div 256) (map unat (drop (Suc j) (B[j := of_nat (?x mod 256)]))))) =
      m(b \<mapsto> take j B @ map of_nat (mul_add 256 radix t (map unat (drop j B))))"
    using Suc.prems(2) by (simp add: drop take_Suc_conv_app_nth)
  finally show ?case .
qed

lemma str_carry_loop_law:
  assumes "m b = Some S" and "j \<le> length S" and "t < 256" and "0 < radix" "radix \<le> 16"
    and "\<forall>c \<in> set (take j S). unat c < radix"
  shows "str_carry_loop radix (Ptr b 0) j t m =
    Some (m(b \<mapsto> rev (map of_nat (mul_add radix 256 t (map unat (rev (take j S))))) @ drop j S))"
  using assms
proof (induction j arbitrary: t m S)
  case 0
  then show ?case by (simp add: fun_upd_idem)
next
  case (Suc j)
  let ?d = "unat (S ! j)"
  let ?x = "t + ?d * 256"
  have take: "take (Suc j) S = take j S @ [S ! j]" using Suc.prems(2) by (simp add: take_Suc_conv_app_nth)
  then have d: "?d < radix" using Suc.prems(6) by simp
  have x: "?x < 256 * radix" "?x div radix < 256"
    using carry_small [OF Suc.prems(3) d] carry_div [OF Suc.prems(3) d] .
  have "S ! j < 0x80" using d Suc.prems(5) by (simp add: word_less_nat_alt)
  then have c: "char_u32 (S ! j) = ?d" by (rule char_u32_small)
  let ?S = "S[j := of_nat (?x mod radix)]"
  have "load m (Ptr b 0) j = Some (S ! j)" and "store m (Ptr b 0) j (of_nat (?x mod radix)) = Some (m(b \<mapsto> ?S))"
    using Suc.prems by simp_all
  then have "str_carry_loop radix (Ptr b 0) (Suc j) t m =
      str_carry_loop radix (Ptr b 0) j (?x div radix) (m(b \<mapsto> ?S))"
    using Suc.prems x d by (simp add: c Let_def del: load.simps store.simps)
  also have "\<dots> = Some ((m(b \<mapsto> ?S))(b \<mapsto>
      rev (map of_nat (mul_add radix 256 (?x div radix) (map unat (rev (take j ?S))))) @ drop j ?S))"
    using Suc.prems x by (intro Suc.IH) (simp_all add: take)
  also have "drop j ?S = of_nat (?x mod radix) # drop (Suc j) S"
    using Suc.prems(2) by (simp add: Cons_nth_drop_Suc [symmetric])
  also have "(m(b \<mapsto> ?S))(b \<mapsto> rev (map of_nat (mul_add radix 256 (?x div radix)
        (map unat (rev (take j ?S))))) @ of_nat (?x mod radix) # drop (Suc j) S) =
      m(b \<mapsto> rev (map of_nat (mul_add radix 256 t (map unat (rev (take (Suc j) S))))) @ drop (Suc j) S)"
    by (simp add: take)
  finally show ?case .
qed

section \<open>The number of a buffer\<close>

definition buf_num :: "u8 list \<Rightarrow> nat" where
  "buf_num bs = num_of 256 (map unat bs)"

definition mask_last :: "nat \<Rightarrow> u8 list \<Rightarrow> u8 list" where
  "mask_last buf_len bs =
     (if buf_len mod 8 = 0 then bs
      else bs[buf_len div 8 := bs ! (buf_len div 8) AND last_byte_mask buf_len])"

lemma length_mask_last [simp]: "length (mask_last n bs) = length bs"
  by (simp add: mask_last_def)

lemma buf_num_append: "buf_num (xs @ ys) = buf_num xs + 256 ^ length xs * buf_num ys"
  by (simp add: buf_num_def num_of_append)

lemma buf_num_less: "buf_num bs < 256 ^ length bs"
  using num_of_less [of "map unat bs" 256] by (simp add: buf_num_def)

lemma num_of_inject:
  "length xs = length ys \<Longrightarrow> \<forall>d \<in> set xs. d < b \<Longrightarrow> \<forall>d \<in> set ys. d < b \<Longrightarrow>
    num_of b xs = num_of b ys \<Longrightarrow> xs = ys"
proof (induction xs ys rule: list_induct2)
  case (Cons x xs y ys)
  then have "(x + b * num_of b xs) mod b = (y + b * num_of b ys) mod b"
    and "(x + b * num_of b xs) div b = (y + b * num_of b ys) div b" by simp_all
  moreover have "x < b" and "y < b" using Cons.prems by simp_all
  ultimately show ?case using Cons by simp
qed simp

lemma buf_num_inject: "length xs = length ys \<Longrightarrow> buf_num xs = buf_num ys \<Longrightarrow> xs = ys"
  unfolding buf_num_def by (drule num_of_inject [rotated 3]) (auto simp: inj_map_eq_map)

lemma and_last_byte_mask:
  assumes "n mod 8 \<noteq> 0" shows "unat (b AND last_byte_mask n) = unat b mod 2 ^ (n mod 8)"
proof -
  have m1: "(0xff :: u8) = - 1" by simp
  have "drop_bit (8 - n mod 8) (0xff :: u8) = mask (n mod 8)"
    unfolding m1 using assms by (intro bit_word_eqI) (auto simp: bit_simps)
  then show ?thesis by (simp add: last_byte_mask_def unsigned_take_bit_eq flip: take_bit_eq_mask take_bit_eq_mod [of _ "unat b"])
qed

lemma power_256: "256 ^ k = (2 :: nat) ^ (8 * k)"
  by (simp add: power_mult)

lemma buf_num_mask_last:
  assumes "length bs = (n + 7) div 8"
  shows "buf_num (mask_last n bs) = buf_num bs mod 2 ^ n"
proof (cases "n mod 8 = 0")
  case True
  then have "8 * (n div 8) = n" using mult_div_mod_eq [of 8 n] by simp
  with True assms have "256 ^ length bs = (2 :: nat) ^ n" by (simp add: ceil8_cases power_256)
  with True buf_num_less [of bs] show ?thesis by (simp add: mask_last_def)
next
  case False
  let ?q = "n div 8" and ?r = "n mod 8"
  have l: "length bs = Suc ?q" using False assms by (simp add: ceil8_cases)
  then obtain lo b where bs: "bs = lo @ [b]" "length lo = ?q" by (metis length_Suc_conv_rev)
  have n: "(256 :: nat) ^ ?q * 2 ^ ?r = 2 ^ n"
    using mult_div_mod_eq [of 8 n] by (simp add: power_256 flip: power_add)
  have "buf_num bs mod (256 ^ ?q * 2 ^ ?r) = buf_num lo + 256 ^ ?q * (unat b mod 2 ^ ?r)"
    using buf_num_less [of lo] bs by (simp add: mod_mult2_eq buf_num_append) (simp add: buf_num_def)
  moreover have "mask_last n bs = lo @ [b AND last_byte_mask n]"
    using False bs by (simp add: mask_last_def nth_append list_update_append)
  ultimately show ?thesis using False bs
    by (simp add: buf_num_append n) (simp add: buf_num_def and_last_byte_mask)
qed

section \<open>buf_to_str\<close>

text \<open>A string of digit values, the most significant first, and the characters of the digits.\<close>

definition str_num :: "nat \<Rightarrow> u8 list \<Rightarrow> nat" where
  "str_num radix s = num_of radix (map unat (rev s))"

definition digits_below :: "nat \<Rightarrow> u8 list \<Rightarrow> bool" where
  "digits_below radix s \<longleftrightarrow> (\<forall>x \<in> set s. unat x < radix)"

definition digit_char :: "u8 \<Rightarrow> u8" where
  "digit_char x = DIGITS ! unat x"

lemma str_carry_loop_num:
  assumes "m b = Some (S @ T)" and "length S = L" and "t < 256" and "0 < radix" "radix \<le> 16"
    and "digits_below radix S"
  shows "\<exists>S'. str_carry_loop radix (Ptr b 0) L t m = Some (m(b \<mapsto> S' @ T)) \<and> length S' = L \<and>
    digits_below radix S' \<and> str_num radix S' = (256 * str_num radix S + t) mod radix ^ L"
proof -
  let ?ds = "mul_add radix 256 t (map unat (rev S))"
  let ?S = "rev (map of_nat ?ds) :: u8 list"
  have ds: "d < radix" if "d \<in> set ?ds" for d using mul_add_less [OF assms(4) that] .
  with assms(5) have u: "map unat (map of_nat ?ds :: u8 list) = ?ds"
    by (auto simp: u8_of_nat intro!: map_idI dest!: ds)
  have "str_carry_loop radix (Ptr b 0) L t m = Some (m(b \<mapsto> ?S @ T))"
    using str_carry_loop_law [of m b "S @ T" L t radix] assms by (simp add: digits_below_def)
  moreover have "digits_below radix ?S"
    using ds assms(5) by (auto simp: digits_below_def u8_of_nat dest!: ds)
  moreover have "str_num radix ?S = (256 * str_num radix S + t) mod radix ^ L"
    using assms(2,4) by (simp add: str_num_def u num_of_mul_add del: map_map)
  ultimately show ?thesis using assms(2) by (intro exI [of _ ?S]) simp
qed

lemma to_str_loop_law:
  assumes "m c = Some D" and "off + nb \<le> length D" and "i \<le> nb" and "c \<noteq> b"
    and "M = mask_last n (take nb (drop off D))" and "nb = (n + 7) div 8"
    and "m b = Some (S @ T)" and "length S = L" and "digits_below radix S" and "0 < radix" "radix \<le> 16"
  shows "\<exists>S'. to_str_loop radix (Ptr b 0) L (Ptr c off) n i m = Some (m(b \<mapsto> S' @ T)) \<and> length S' = L \<and>
    digits_below radix S' \<and>
    str_num radix S' = (str_num radix S * 256 ^ i + buf_num (take i M)) mod radix ^ L"
  using assms(1,3,7-9)
proof (induction i arbitrary: m S)
  case 0
  have "str_num radix S < radix ^ length S"
    using num_of_less [of "map unat (rev S)" radix] 0 by (simp add: str_num_def digits_below_def)
  with 0 show ?case by (intro exI [of _ S]) (simp add: fun_upd_idem buf_num_def)
next
  case (Suc i)
  have len: "length M = nb" using assms(2,5) by simp
  have "M ! i = (if i = n div 8 \<and> n mod 8 \<noteq> 0 then D ! (off + i) AND last_byte_mask n else D ! (off + i))"
    using Suc.prems(2) assms(2,5) by (auto simp: mask_last_def nth_list_update)
  moreover have "load m (Ptr c off) i = Some (D ! (off + i))"
    using Suc.prems(1,2) assms(2) by simp
  ultimately have step: "to_str_loop radix (Ptr b 0) L (Ptr c off) n (Suc i) m =
      Option.bind (str_carry_loop radix (Ptr b 0) L (unat (M ! i)) m)
        (to_str_loop radix (Ptr b 0) L (Ptr c off) n i)"
    by (simp add: Let_def del: load.simps)
  obtain S1 where S1: "str_carry_loop radix (Ptr b 0) L (unat (M ! i)) m = Some (m(b \<mapsto> S1 @ T))"
    "length S1 = L" "digits_below radix S1" "str_num radix S1 = (256 * str_num radix S + unat (M ! i)) mod radix ^ L"
    using str_carry_loop_num [of m b S T L "unat (M ! i)" radix] Suc.prems(3-5) assms(10,11) by auto
  obtain S2 where S2: "to_str_loop radix (Ptr b 0) L (Ptr c off) n i (m(b \<mapsto> S1 @ T)) =
      Some (m(b \<mapsto> S2 @ T))" "length S2 = L" "digits_below radix S2"
    "str_num radix S2 = (str_num radix S1 * 256 ^ i + buf_num (take i M)) mod radix ^ L"
    using Suc.IH [of "m(b \<mapsto> S1 @ T)" S1, unfolded fun_upd_upd] Suc.prems(1,2) S1(2,3) assms(4)
    by (force simp del: fun_upd_apply simp: fun_upd_other fun_upd_same)
  have "take (Suc i) M = take i M @ [M ! i]"
    using Suc.prems(2) len by (simp add: take_Suc_conv_app_nth)
  then have "buf_num (take (Suc i) M) = buf_num (take i M) + 256 ^ i * unat (M ! i)"
    using Suc.prems(2) len by (simp add: buf_num_append) (simp add: buf_num_def)
  moreover have "((256 * a + u) mod r * p + v) mod r = (a * (256 * p) + (v + p * u)) mod r" for a u p v r :: nat
  proof -
    have "((256 * a + u) mod r * p + v) mod r = ((256 * a + u) * p + v) mod r"
      by (metis mod_add_left_eq mod_mult_left_eq)
    then show ?thesis by (simp add: algebra_simps)
  qed
  ultimately have "str_num radix S2 = (str_num radix S * 256 ^ Suc i + buf_num (take (Suc i) M)) mod radix ^ L"
    using S1(4) S2(4) by simp
  moreover have "to_str_loop radix (Ptr b 0) L (Ptr c off) n (Suc i) m = Some (m(b \<mapsto> S2 @ T))"
    by (simp only: step S1(1) S2(1) bind.bind_lunit)
  ultimately show ?case using S2(2,3) by blast
qed

lemma print_loop_law:
  assumes "m b = Some (P @ S @ T)" and "length P = j" and "length S = k" and "digits_below 16 S"
  shows "print_loop (Ptr b 0) k j m = Some (m(b \<mapsto> P @ map digit_char S @ T))"
  using assms
proof (induction k arbitrary: j m P S)
  case 0
  then show ?case by (simp add: fun_upd_idem)
next
  case (Suc k)
  then obtain x S' where S: "S = x # S'" by (cases S) auto
  have "length DIGITS = 17" by (simp add: DIGITS_def)
  with Suc.prems S have "print_loop (Ptr b 0) (Suc k) j m =
      print_loop (Ptr b 0) k (Suc j) (m(b \<mapsto> (P @ [digit_char x]) @ S' @ T))"
    by (simp add: digits_below_def digit_char_def nth_append list_update_append)
  also have "\<dots> = Some ((m(b \<mapsto> (P @ [digit_char x]) @ S' @ T))(b \<mapsto> (P @ [digit_char x]) @ map digit_char S' @ T))"
    using Suc.prems S by (intro Suc.IH) (simp_all add: digits_below_def)
  finally show ?case by (simp only: S fun_upd_upd append.simps append_assoc list.map)
qed

lemma str_factor_radix: "str_factor radix = Some f \<Longrightarrow> 0 < radix \<and> radix \<le> 16"
  by (auto simp: str_factor_def split: if_splits)

lemma fresh_mallocD:
  assumes "fresh_malloc malloc C" and "finite (dom m)"
  obtains b bs where "malloc n m = (Ptr b 0, m(b \<mapsto> bs))" and "m b = None" and "length bs = n"
  using assms by (simp add: fresh_malloc_def) blast

lemma buf_to_str_law:
  assumes "fresh_malloc malloc C" and "finite (dom m)" and "m c = Some D"
    and "n < 2 ^ 32 - 8" and "off + (n + 7) div 8 \<le> length D"
    and "str_factor radix = Some f" and "ceil_f_to_u32 (float_mult (float_of_u32 ((n + 7) div 8)) f) = Some L"
    and "L + 1 < 2 ^ 32"
  shows "\<exists>b S. buf_to_str malloc (Ptr c off) n radix m = Some (Ptr b 0, m(b \<mapsto> map digit_char S @ [0])) \<and>
    m b = None \<and> length S = L \<and> digits_below radix S \<and>
    str_num radix S = buf_num (take ((n + 7) div 8) (drop off D)) mod 2 ^ n mod radix ^ L"
proof -
  let ?nb = "(n + 7) div 8" and ?m = "\<lambda>b. m(b \<mapsto> replicate L 0 @ [0])"
  have radix: "0 < radix" "radix \<le> 16" using str_factor_radix [OF assms(6)] by simp_all
  obtain b bs where b: "malloc (Suc L) m = (Ptr b 0, m(b \<mapsto> bs))" "m b = None"
    using fresh_mallocD [OF assms(1,2)] by metis
  with assms(3) have ne: "c \<noteq> b" by auto
  have "replicate (Suc L) (0 :: u8) = replicate L 0 @ [0]" by (simp add: replicate_append_same)
  with b have calloc: "calloc malloc (u32_add L 1) m = (Ptr b 0, ?m b)"
    using assms(8) by (simp add: calloc_def)
  have "?m b c = Some D" and "digits_below radix (replicate L 0)"
    using assms(3) ne radix by (simp_all add: digits_below_def)
  then obtain S where S: "to_str_loop radix (Ptr b 0) L (Ptr c off) n ?nb (?m b) = Some ((?m b)(b \<mapsto> S @ [0]))"
    "length S = L" "digits_below radix S"
    "str_num radix S = (str_num radix (replicate L 0) * 256 ^ ?nb +
      buf_num (take ?nb (mask_last n (take ?nb (drop off D))))) mod radix ^ L"
    using to_str_loop_law [of "?m b" c D off ?nb ?nb b _ n "replicate L 0" "[0]" L radix] assms(5) ne radix by auto
  have "print_loop (Ptr b 0) L 0 ((?m b)(b \<mapsto> S @ [0])) = Some (((?m b)(b \<mapsto> S @ [0]))(b \<mapsto> [] @ map digit_char S @ [0]))"
    using S radix by (intro print_loop_law) (auto simp: digits_below_def)
  then have "buf_to_str malloc (Ptr c off) n radix m = Some (Ptr b 0, m(b \<mapsto> map digit_char S @ [0]))"
    using assms(4,6,7) calloc S by (simp add: buf_to_str_def DIV_ROUND_UP_8)
  moreover have "str_num radix S = buf_num (take ?nb (drop off D)) mod 2 ^ n mod radix ^ L"
    using S(4) assms(5) by (simp add: buf_num_mask_last str_num_def)
  ultimately show ?thesis using S b(2) by blast
qed

section \<open>str_to_buf\<close>

text \<open>The number a text stands for: characters that are no digit of the base are skipped.\<close>

definition text_digits :: "nat \<Rightarrow> u8 list \<Rightarrow> nat list" where
  "text_digits radix cs = List.map_filter (digit_of_char radix) cs"

definition text_num :: "nat \<Rightarrow> u8 list \<Rightarrow> nat" where
  "text_num radix cs = num_of radix (rev (text_digits radix cs))"

lemma text_digits_simps [simp]:
  "text_digits radix [] = []"
  "text_digits radix (c # cs) =
    (case digit_of_char radix c of None \<Rightarrow> text_digits radix cs | Some d \<Rightarrow> d # text_digits radix cs)"
  by (simp_all add: text_digits_def List.map_filter_simps split: option.split)

lemma digit_of_char_less: "digit_of_char radix c = Some d \<Longrightarrow> d < radix"
  by (auto simp: digit_of_char_def Let_def split: option.splits if_splits)

lemma buf_carry_loop_num:
  assumes "m b = Some B" and "length B = k" and "d < radix" "radix \<le> 16"
  shows "\<exists>B'. buf_carry_loop radix (Ptr b 0) k 0 d m = Some (m(b \<mapsto> B')) \<and> length B' = k \<and>
    buf_num B' = (radix * buf_num B + d) mod 256 ^ k"
proof -
  let ?ds = "mul_add 256 radix d (map unat B)"
  have u: "map unat (map of_nat ?ds :: u8 list) = ?ds"
    by (auto simp: u8_of_nat intro!: map_idI dest!: mul_add_less [rotated])
  have "buf_carry_loop radix (Ptr b 0) k 0 d m = Some (m(b \<mapsto> map of_nat ?ds))"
    using buf_carry_loop_law [of m b B 0 k d radix] assms by simp
  moreover have "buf_num (map of_nat ?ds) = (radix * buf_num B + d) mod 256 ^ k"
    unfolding buf_num_def u using assms(2) by (simp add: num_of_mul_add)
  ultimately show ?thesis using assms(2) by (intro exI [of _ "map of_nat ?ds"]) simp
qed

lemma to_buf_loop_law:
  assumes "m s = Some (P @ cs @ 0 # T)" and "0 \<notin> set cs" and "m b = Some B" and "length B = k"
    and "s \<noteq> b" and "radix \<le> 16"
  shows "\<exists>B'. to_buf_loop radix (Ptr s 0) (Ptr b 0) k (length P) m =
      Some (length P + length cs, m(b \<mapsto> B')) \<and> length B' = k \<and>
    buf_num B' = (radix ^ length (text_digits radix cs) * buf_num B + text_num radix cs) mod 256 ^ k"
  using assms(1-4)
proof (induction cs arbitrary: P m B)
  case Nil
  then show ?case using buf_num_less [of B]
    by (intro exI [of _ B]) (simp add: to_buf_loop.simps [of _ _ _ _ "length P"] fun_upd_idem text_num_def)
next
  case (Cons c cs)
  let ?loop = "to_buf_loop radix (Ptr s 0) (Ptr b 0) k"
  have "load m (Ptr s 0) (length P) = Some c" and "c \<noteq> 0" using Cons.prems(1,2) by (simp_all add: nth_append)
  then have step: "?loop (length P) m = Option.bind (case digit_of_char radix c of None \<Rightarrow> Some m
      | Some d \<Rightarrow> buf_carry_loop radix (Ptr b 0) k 0 d m) (?loop (length (P @ [c])))"
    by (simp add: to_buf_loop.simps [of _ _ _ _ "length P"] del: load.simps)
  obtain B1 where B1: "(case digit_of_char radix c of None \<Rightarrow> Some m
      | Some d \<Rightarrow> buf_carry_loop radix (Ptr b 0) k 0 d m) = Some (m(b \<mapsto> B1))" "length B1 = k"
    "buf_num B1 = (case digit_of_char radix c of None \<Rightarrow> buf_num B | Some d \<Rightarrow> (radix * buf_num B + d) mod 256 ^ k)"
  proof (cases "digit_of_char radix c")
    case None
    with Cons.prems(3,4) that [of B] show ?thesis by (simp add: fun_upd_idem)
  next
    case (Some d)
    then show ?thesis
      using buf_carry_loop_num [OF _ _ digit_of_char_less assms(6), of m b B k c] Cons.prems(3,4) that by auto
  qed
  have "(m(b \<mapsto> B1)) s = Some ((P @ [c]) @ cs @ 0 # T)" using Cons.prems(1) assms(5) by simp
  then obtain B2 where B2: "?loop (length (P @ [c])) (m(b \<mapsto> B1)) =
      Some (length (P @ [c]) + length cs, m(b \<mapsto> B2))" "length B2 = k"
    "buf_num B2 = (radix ^ length (text_digits radix cs) * buf_num B1 + text_num radix cs) mod 256 ^ k"
    using Cons.IH [of "m(b \<mapsto> B1)" "P @ [c]" B1, unfolded fun_upd_upd] Cons.prems(2) B1(2)
    by (force simp del: fun_upd_apply simp: fun_upd_same)
  have "?loop (length P) m = Some (length P + length (c # cs), m(b \<mapsto> B2))"
    by (simp only: step B1(1) B2(1) bind.bind_lunit) simp
  moreover have "buf_num B2 = (radix ^ length (text_digits radix (c # cs)) * buf_num B +
      text_num radix (c # cs)) mod 256 ^ k"
  proof (cases "digit_of_char radix c")
    case None
    with B1(3) B2(3) show ?thesis by (simp add: text_num_def)
  next
    case (Some d)
    let ?p = "radix ^ length (text_digits radix cs)"
    have "(?p * ((radix * buf_num B + d) mod 256 ^ k) + text_num radix cs) mod 256 ^ k =
        (?p * (radix * buf_num B + d) + text_num radix cs) mod 256 ^ k"
      by (metis mod_add_left_eq mod_mult_right_eq)
    with Some B1(3) B2(3) show ?thesis
      by (simp add: text_num_def num_of_append algebra_simps)
  qed
  ultimately show ?case using B2(2) by blast
qed

lemma read_str_law:
  assumes "m s = Some (P @ cs @ R)" and "0 \<notin> set cs" and "length P = off + i"
    and "n = length cs \<or> length cs < n \<and> (\<exists>R'. R = 0 # R')"
  shows "read_str m (Ptr s off) i n = Some cs"
  using assms
proof (induction cs arbitrary: P i n)
  case Nil
  then show ?case by (cases n) (auto simp: nth_append)
next
  case (Cons c cs)
  then obtain n' where n: "n = Suc n'" by (cases n) auto
  have "read_str m (Ptr s off) (Suc i) n' = Some cs"
    using Cons.prems n by (intro Cons.IH [of "P @ [c]"]) auto
  then show ?case using Cons.prems(1-3) n by (auto simp: nth_append)
qed

lemma strndup_law:
  assumes "fresh_malloc malloc C" and "finite (dom m)" and "m s = Some (P @ cs @ R)" and "0 \<notin> set cs"
    and "n = length cs \<or> length cs < n \<and> (\<exists>R'. R = 0 # R')"
  shows "\<exists>b. strndup malloc (Ptr s (length P)) n m = Some (Ptr b 0, m(b \<mapsto> cs @ [0])) \<and> m b = None"
proof -
  obtain b bs where b: "malloc (length cs + 1) m = (Ptr b 0, m(b \<mapsto> bs))" "m b = None" "length bs = length cs + 1"
    using fresh_mallocD [OF assms(1,2)] by metis
  have "read_str m (Ptr s (length P)) 0 n = Some cs" using assms(3-5) by (intro read_str_law) auto
  with b show ?thesis by (simp add: strndup_def blit_def)
qed

text \<open>The copy to the caller's buffer: the low bytes of the number, with zeros above.\<close>

definition zero_padded :: "nat \<Rightarrow> u8 list \<Rightarrow> u8 list" where
  "zero_padded n bs = map (\<lambda>j. if j < length bs then bs ! j else 0) [0..<n]"

lemma length_padded_bytes [simp]: "length (zero_padded n bs) = n"
  by (simp add: zero_padded_def)

lemma buf_num_padded: "buf_num (zero_padded n bs) = buf_num bs mod 256 ^ n"
proof (cases "n \<le> length bs")
  case True
  then have "zero_padded n bs = take n bs" by (intro nth_equalityI) (simp_all add: zero_padded_def)
  moreover have "buf_num (take n bs @ drop n bs) = buf_num (take n bs) + 256 ^ n * buf_num (drop n bs)"
    using True by (simp only: buf_num_append) simp
  ultimately show ?thesis using True buf_num_less [of "take n bs"] by simp
next
  case False
  then have "zero_padded n bs = bs @ replicate (n - length bs) 0"
    by (intro nth_equalityI) (auto simp: zero_padded_def nth_append)
  moreover have "buf_num bs < 256 ^ n"
    using False by (intro less_le_trans [OF buf_num_less] power_increasing) simp_all
  ultimately show ?thesis by (simp add: buf_num_append) (simp add: buf_num_def)
qed

lemma copy_out_loop_law:
  assumes "m b = Some B" and "m c = Some D" and "c \<noteq> b" and "j + k = nb" and "off + nb \<le> length D"
  shows "copy_out_loop (Ptr b 0) (length B) (Ptr c off) k j m =
    Some (m(c \<mapsto> blit D (off + j) (zero_padded nb B) j k))"
  using assms(1,2,4,5)
proof (induction k arbitrary: j m D)
  case 0
  then show ?case by (simp add: fun_upd_idem)
next
  case (Suc k)
  let ?v = "zero_padded nb B ! j"
  let ?m = "m(c \<mapsto> D[off + j := ?v])"
  have "?v = (if j < length B then B ! j else 0)" using Suc.prems(3) by (simp add: zero_padded_def)
  then have "copy_out_loop (Ptr b 0) (length B) (Ptr c off) (Suc k) j m =
      copy_out_loop (Ptr b 0) (length B) (Ptr c off) k (Suc j) ?m"
    using Suc.prems by simp
  also have "\<dots> = Some (?m(c \<mapsto> blit (D[off + j := ?v]) (off + Suc j) (zero_padded nb B) (Suc j) k))"
    using Suc.prems assms(3) by (intro Suc.IH) simp_all
  also have "blit (D[off + j := ?v]) (off + Suc j) (zero_padded nb B) (Suc j) k = blit D (off + j) (zero_padded nb B) j (Suc k)"
    using Suc.prems blit_Suc [of "off + j" k D j "zero_padded nb B"] by simp
  finally show ?case by (simp only: fun_upd_upd)
qed

lemma blit_update:
  "q < n \<Longrightarrow> n \<le> length E \<Longrightarrow> off + n \<le> length D \<Longrightarrow>
    (blit D off E 0 n)[off + q := v] = blit D off (E[q := v]) 0 n"
  by (rule nth_equalityI) (auto simp: nth_blit nth_list_update)

lemma mask_out_law:
  assumes "m c = Some (blit D off E 0 nb)" and "length E = nb" and "nb = (n + 7) div 8" and "off + nb \<le> length D"
  shows "(if n mod 8 \<noteq> 0 then do {
      b \<leftarrow> load m (Ptr c off) (n div 8);
      store m (Ptr c off) (n div 8) (b AND last_byte_mask n)
    } else Some m) = Some (m(c \<mapsto> blit D off (mask_last n E) 0 nb))"
proof (cases "n mod 8 = 0")
  case True
  with assms(1) show ?thesis by (simp add: mask_last_def fun_upd_idem)
next
  case False
  with assms(3) have "n div 8 < nb" by (simp add: ceil8_cases)
  with False assms show ?thesis
    by (simp add: mask_last_def nth_blit blit_update)
qed

lemma buf_factor_radix: "buf_factor radix = Some f \<Longrightarrow> 0 < radix \<and> radix \<le> 16"
  by (auto simp: buf_factor_def split: if_splits)

lemma str_to_buf_law:
  assumes "fresh_malloc malloc C" and "finite (dom m)"
    and "m s = Some (P @ cs @ R)" and "0 \<notin> set cs" and "str_len = length cs \<or> length cs < str_len \<and> (\<exists>R'. R = 0 # R')"
    and "m c = Some D" and "n < 2 ^ 32 - 8" and "nb = (n + 7) div 8" and "off + nb \<le> length D"
    and "buf_factor radix = Some f" and "ceil_f_to_u32 (float_mult (float_of_u32 str_len) f) = Some k"
  shows "\<exists>E. str_to_buf malloc (Ptr s (length P)) str_len (Ptr c off) n radix m =
      Some (length cs, m(c \<mapsto> blit D off E 0 nb)) \<and> length E = nb \<and>
    buf_num E = text_num radix cs mod 256 ^ k mod 2 ^ n"
proof -
  have radix: "radix \<noteq> 0" "radix \<le> 16" using buf_factor_radix [OF assms(10)] by simp_all
  obtain b1 where b1: "strndup malloc (Ptr s (length P)) str_len m = Some (Ptr b1 0, m(b1 \<mapsto> cs @ [0]))"
    "m b1 = None" using strndup_law [OF assms(1-5)] by blast
  let ?m1 = "m(b1 \<mapsto> cs @ [0])"
  obtain b2 bs where b2: "malloc k ?m1 = (Ptr b2 0, ?m1(b2 \<mapsto> bs))" "?m1 b2 = None"
  proof -
    have "finite (dom ?m1)" using assms(2) by simp
    then show ?thesis using fresh_mallocD [OF assms(1)] that by metis
  qed
  let ?m2 = "?m1(b2 \<mapsto> replicate k 0)"
  have ne: "b1 \<noteq> b2" "c \<noteq> b1" "c \<noteq> b2" using b1(2) b2(2) assms(6) by (auto split: if_splits)
  have m2: "?m2 b1 = Some ([] @ cs @ 0 # [])" "?m2 b2 = Some (replicate k 0)" using ne by simp_all
  obtain B where B: "to_buf_loop radix (Ptr b1 0) (Ptr b2 0) k 0 ?m2 = Some (length cs, ?m2(b2 \<mapsto> B))"
    "length B = k" "buf_num B = text_num radix cs mod 256 ^ k"
    using to_buf_loop_law [OF m2(1) assms(4) m2(2) length_replicate ne(1) radix(2), unfolded fun_upd_upd]
    by (force simp: buf_num_def simp del: fun_upd_apply)
  let ?E = "zero_padded nb B" and ?m3 = "?m1(b2 \<mapsto> B)"
  have copy: "copy_out_loop (Ptr b2 0) k (Ptr c off) nb 0 ?m3 = Some (?m3(c \<mapsto> blit D off ?E 0 nb))"
    using copy_out_loop_law [of ?m3 b2 B c D 0 nb nb off] assms(6,9) ne B(2) by simp
  let ?m4 = "?m3(c \<mapsto> blit D off (mask_last n ?E) 0 nb)"
  have masked: "(if n mod 8 \<noteq> 0 then do {
      b \<leftarrow> load (?m3(c \<mapsto> blit D off ?E 0 nb)) (Ptr c off) (n div 8);
      store (?m3(c \<mapsto> blit D off ?E 0 nb)) (Ptr c off) (n div 8) (b AND last_byte_mask n)
    } else Some (?m3(c \<mapsto> blit D off ?E 0 nb))) = Some ?m4"
    using mask_out_law [of "?m3(c \<mapsto> blit D off ?E 0 nb)" c D off ?E nb n] assms(8,9) by simp
  have free: "free_block (Ptr b2 0) ?m4 = Some (?m4(b2 := None))"
    "free_block (Ptr b1 0) (?m4(b2 := None)) = Some (?m4(b2 := None, b1 := None))"
    using ne by (simp_all add: free_block_def)
  have "?m4(b2 := None, b1 := None) = m(c \<mapsto> blit D off (mask_last n ?E) 0 nb)"
    using b1(2) b2(2) ne by (auto simp: fun_eq_iff)
  moreover have nb: "DIV_ROUND_UP n 8 = nb" using assms(7,8) by (simp add: DIV_ROUND_UP_8)
  moreover have "calloc malloc k ?m1 = (Ptr b2 0, ?m2)" using b2 by (simp add: calloc_def)
  ultimately have "str_to_buf malloc (Ptr s (length P)) str_len (Ptr c off) n radix m =
      Some (length cs, m(c \<mapsto> blit D off (mask_last n ?E) 0 nb))"
    using b1(1) B(1) copy masked free assms(10,11) radix(1) nb
    by (simp add: str_to_buf_def str_radix_guess_def del: fun_upd_apply load.simps store.simps)
  moreover have "buf_num (mask_last n ?E) = text_num radix cs mod 256 ^ k mod 2 ^ n"
  proof -
    have "n \<le> 8 * nb" using le_ceil8 [of n] assms(8) by simp
    then have "(2 :: nat) ^ n dvd 256 ^ nb" by (simp add: power_256 le_imp_power_dvd)
    then show ?thesis using assms(8) B(3) by (simp add: buf_num_mask_last buf_num_padded mod_mod_cancel)
  qed
  ultimately show ?thesis by (intro exI [of _ "mask_last n ?E"]) simp
qed

section \<open>The lengths\<close>

definition text_len :: "nat \<Rightarrow> nat \<Rightarrow> nat option" where
  "text_len radix nb =
     Option.bind (str_factor radix) (\<lambda>f. ceil_f_to_u32 (float_mult (float_of_u32 nb) f))"

definition bytes_len :: "nat \<Rightarrow> nat \<Rightarrow> nat option" where
  "bytes_len radix L =
     Option.bind (buf_factor radix) (\<lambda>f. ceil_f_to_u32 (float_mult (float_of_u32 L) f))"

text \<open>The text of a buffer of \<open>nb\<close> bytes has room for its number, and the bytes for the text.\<close>

definition lengths_suffice :: "nat \<Rightarrow> nat \<Rightarrow> bool" where
  "lengths_suffice radix nb =
     (case text_len radix nb of None \<Rightarrow> False
      | Some L \<Rightarrow> L + 1 < 2 ^ 32 \<and> 256 ^ nb \<le> radix ^ L \<and>
          (case bytes_len radix L of None \<Rightarrow> False | Some k \<Rightarrow> nb \<le> k))"

lemma bit_len_le: "n < 2 ^ k \<Longrightarrow> bit_len n \<le> k"
proof (induction n arbitrary: k rule: bit_len.induct)
  case (1 n)
  show ?case
  proof (cases "n = 0")
    case False
    with 1 obtain k' where k: "k = Suc k'" by (cases k) auto
    with 1 False have "bit_len (n div 2) \<le> k'" by simp
    with False k show ?thesis by (simp add: bit_len.simps [of n])
  qed (simp add: bit_len.simps)
qed

lemma round24_exact: "n < 2 ^ 24 \<Longrightarrow> round24 n = n"
  using bit_len_le [of n 24] by (simp add: round24_def)

lemma text_len_hex: "nb < 2 ^ 23 \<Longrightarrow> text_len 16 nb = Some (2 * nb)"
  by (simp add: text_len_def str_factor_def float_of_u32_def float_mult_def ceil_f_to_u32_def
      round24_exact Let_def)

lemma bytes_len_hex:
  assumes "L < 2 ^ 24" shows "bytes_len 16 L = Some ((L + 1) div 2)"
proof -
  have "L div 2 < 2 ^ 24" "L div 2 < 2 ^ 32" using assms by simp_all
  moreover have "(L + 1) div 2 = (if L > L div 2 * 2 then L div 2 + 1 else L div 2)" by presburger
  ultimately show ?thesis using assms
    by (simp add: bytes_len_def buf_factor_def float_of_u32_def float_mult_def ceil_f_to_u32_def
      round24_exact Let_def)
qed

lemma lengths_suffice_hex:
  assumes "nb < 2 ^ 23" shows "lengths_suffice 16 nb"
proof -
  have "(256 :: nat) ^ nb = 16 ^ (2 * nb)" by (simp add: power_mult)
  moreover have "2 * nb + 1 < 2 ^ 32" "2 * nb < 2 ^ 24" using assms by simp_all
  ultimately show ?thesis using assms
    by (simp add: lengths_suffice_def text_len_hex bytes_len_hex)
qed

lemma bit_len_numeral [simp]:
  "bit_len 0 = 0" "bit_len 1 = 1" "bit_len (Suc 0) = 1" "bit_len (numeral num.One) = 1"
  "bit_len (numeral (num.Bit0 k)) = Suc (bit_len (numeral k))"
  "bit_len (numeral (num.Bit1 k)) = Suc (bit_len (numeral k))"
  by (simp_all add: bit_len.simps numeral_Bit0_div_2 numeral_Bit1_div_2)

lemmas length_eval = text_len_def bytes_len_def str_factor_def buf_factor_def
  float_of_u32_def float_mult_def ceil_f_to_u32_def round24_def

lemma bit_len_lower: "n \<noteq> 0 \<Longrightarrow> 2 ^ bit_len n \<le> 2 * n"
proof (induction n rule: bit_len.induct)
  case (1 n)
  show ?case
  proof (cases "n div 2 = 0")
    case True
    with 1 have "n = 1" by simp
    then show ?thesis by (simp add: bit_len.simps)
  next
    case False
    with 1 have "2 ^ bit_len (n div 2) \<le> 2 * (n div 2)" by simp
    also have "\<dots> \<le> n" by simp
    finally show ?thesis using 1 by (simp add: bit_len.simps [of n])
  qed
qed

lemma bit_len_upper: "n < 2 ^ bit_len n"
proof (induction n rule: bit_len.induct)
  case (1 n)
  then show ?case by (cases "n = 0") (auto simp: bit_len.simps [of n] bit_len.simps [of 0])
qed

lemma round24_unit:
  assumes "\<not> n < 2 ^ 24"
  shows "2 ^ (bit_len n - 24) * 2 ^ 24 \<le> 2 * n"
proof -
  have "bit_len n > 24"
  proof (rule ccontr)
    assume "\<not> bit_len n > 24"
    then have "(2 :: nat) ^ bit_len n \<le> 2 ^ 24" by (intro power_increasing) simp_all
    with bit_len_upper [of n] assms show False by simp
  qed
  then have "(2 :: nat) ^ (bit_len n - 24) * 2 ^ 24 = 2 ^ bit_len n"
    by (subst power_add [symmetric]) simp
  then show ?thesis using bit_len_lower [of n] assms by simp
qed

text \<open>A rounded value is at most \<open>1 / 2 ^ 24\<close> of the value too small, and never twice as big.\<close>

lemma round24_bounds: "n * (2 ^ 24 - 1) \<le> round24 n * 2 ^ 24 \<and> round24 n \<le> 2 * n"
proof (cases "n < 2 ^ 24")
  case True
  then show ?thesis by (simp add: round24_exact)
next
  case False
  define u :: nat where "u = 2 ^ (bit_len n - 24)"
  define q where "q = n div u"
  define r where "r = n mod u"
  have n: "n = q * u + r" unfolding q_def r_def by (rule div_mult_mod_eq [symmetric])
  have u: "u * 16777216 \<le> 2 * n" using round24_unit [OF False] by (simp add: u_def)
  have "r < u" by (simp add: r_def u_def)
  have round: "round24 n = (if 2 * r < u \<or> 2 * r = u \<and> even q then q * u else q * u + u)"
    by (simp add: round24_def Let_def q_def r_def u_def)
  have "n \<le> round24 n + u div 2 \<and> round24 n \<le> n + u"
  proof (cases "2 * r < u \<or> 2 * r = u \<and> even q")
    case True
    then have "round24 n = q * u" using round by simp
    with True n show ?thesis by linarith
  next
    case False
    then have "round24 n = q * u + u" using round by (simp only: if_False)
    with n \<open>r < u\<close> show ?thesis by linarith
  qed
  moreover have "u \<le> n" using u by linarith
  moreover have "2 * (u div 2) \<le> u" by simp
  then have "u div 2 * 16777216 \<le> n" using u by linarith
  ultimately show ?thesis by (simp add: algebra_simps)
qed

lemma ceil_f_to_u32_upper:
  assumes "ceil_f_to_u32 (v, s) = Some L" and "v div 2 ^ s < 2 ^ 24"
  shows "v \<le> L * 2 ^ s"
proof -
  let ?y = "v div 2 ^ s"
  have v: "v = ?y * 2 ^ s + v mod 2 ^ s" by (rule div_mult_mod_eq [symmetric])
  have r: "v mod 2 ^ s < 2 ^ s" by simp
  from assms have "L = (if v > ?y * 2 ^ s then ?y + 1 else ?y)"
    by (auto simp: ceil_f_to_u32_def float_of_u32_def round24_exact Let_def split: if_splits)
  moreover have "v \<le> ?y * 2 ^ s + 2 ^ s" using v r by linarith
  ultimately show ?thesis using v by (auto simp: add_mult_distrib simp del: div_mult_self_is_m split: if_splits)
qed

lemma text_len_lower:
  assumes "str_factor radix = Some (f, 22)" and "text_len radix nb = Some L" and "nb < 2 ^ 20" and "f < 2 ^ 24"
  shows "nb * f * (2 ^ 24 - 1) \<le> L * 2 ^ 46"
proof -
  let ?v = "round24 (nb * f)"
  have L: "ceil_f_to_u32 (?v, 22) = Some L"
    using assms(1-3) by (simp add: text_len_def float_of_u32_def float_mult_def round24_exact)
  have "?v div 2 ^ 22 < 2 ^ 24"
  proof -
    have "nb * f \<le> 2 ^ 20 * 2 ^ 24" using assms(3,4) by (intro mult_le_mono) simp_all
    then have "?v \<le> 2 ^ 45" using round24_bounds [of "nb * f"] by simp
    then have "?v div 2 ^ 22 \<le> 2 ^ 45 div 2 ^ 22" by (rule div_le_mono)
    then show ?thesis by simp
  qed
  then have "?v \<le> L * 2 ^ 22" using ceil_f_to_u32_upper [OF L] by blast
  then have "?v * 2 ^ 24 \<le> L * 2 ^ 22 * 2 ^ 24" by (rule mult_le_mono1)
  with round24_bounds [of "nb * f"] show ?thesis by simp
qed

text \<open>
  A bound on the digits from the fraction \<open>1811 / 752\<close> just above \<open>log\<^sub>1\<^sub>0 256\<close>: the next fraction
  below it that matters is \<open>643 / 267\<close>, and a fraction between the two has a denominator of at least
  \<open>267 + 752\<close>.
\<close>

text \<open>\<open>256 ^ 752 < 10 ^ 1811\<close>, by powers of 5 rounded down to 30 bits.\<close>

definition below5 :: "nat \<Rightarrow> nat \<Rightarrow> nat \<Rightarrow> bool" where
  "below5 m e k \<longleftrightarrow> m * 2 ^ e \<le> 5 ^ k"

lemma below5_step:
  assumes "below5 m e k" and "m' * 2 ^ j \<le> m * m * 5 ^ c" and "e' = 2 * e + j" and "k' = 2 * k + c"
  shows "below5 m' e' k'"
proof -
  have "m' * 2 ^ (2 * e + j) = m' * 2 ^ j * 2 ^ (2 * e)" by (simp add: power_add)
  also have "\<dots> \<le> m * m * 5 ^ c * 2 ^ (2 * e)" by (rule mult_le_mono1 [OF assms(2)])
  also have "\<dots> = (m * 2 ^ e) * (m * 2 ^ e) * 5 ^ c" by (simp add: mult_2 power_add)
  also have "\<dots> \<le> 5 ^ k * 5 ^ k * 5 ^ c" using assms(1) by (intro mult_le_mono order_refl) (simp_all add: below5_def)
  finally show ?thesis unfolding below5_def assms(3,4) by (simp only: mult_2 power_add)
qed

lemma below5_less:
  assumes "below5 m e k" and "2 ^ d < m"
  shows "2 ^ (k + (d + e)) < (10 :: nat) ^ k"
proof -
  have "(2 :: nat) ^ d * 2 ^ e < m * 2 ^ e" using assms(2) by simp
  also have "\<dots> \<le> 5 ^ k" using assms(1) by (simp add: below5_def)
  finally have "(2 :: nat) ^ k * 2 ^ (d + e) < 2 ^ k * 5 ^ k" by (simp add: power_add)
  then show ?thesis by (simp add: power_add flip: power_mult_distrib)
qed

lemma log_10_256: "(256 :: nat) ^ 752 < 10 ^ 1811"
proof -
  have "below5 5 0 1" by (simp add: below5_def)
  then have "below5 125 0 3" by (rule below5_step [where j = 0 and c = 1]) simp_all
  then have "below5 78125 0 7" by (rule below5_step [where j = 0 and c = 1]) simp_all
  then have "below5 762939453 3 14" by (rule below5_step [where j = 3 and c = 0]) simp_all
  then have "below5 542101086 36 28" by (rule below5_step [where j = 30 and c = 0]) simp_all
  then have "below5 547382212 101 56" by (rule below5_step [where j = 29 and c = 0]) simp_all
  then have "below5 697624138 233 113" by (rule below5_step [where j = 31 and c = 1]) simp_all
  then have "below5 906511094 495 226" by (rule below5_step [where j = 29 and c = 0]) simp_all
  then have "below5 765325840 1020 452" by (rule below5_step [where j = 30 and c = 0]) simp_all
  then have "below5 681872062 2072 905" by (rule below5_step [where j = 32 and c = 1]) simp_all
  then have "below5 541272467 4176 1811" by (rule below5_step [where j = 32 and c = 1]) simp_all
  then have "2 ^ (1811 + (29 + 4176)) < (10 :: nat) ^ 1811" by (rule below5_less) simp
  moreover have "1811 + (29 + 4176) = (8 * 752 :: nat)" by simp
  ultimately show ?thesis by (simp only: power_256)
qed

lemma power_ratio:
  assumes "(x :: nat) ^ a \<le> y ^ b" and "y ^ L < x ^ n" and "0 < a" and "1 < y"
  shows "L * a < b * n"
proof -
  have "(y ^ L) ^ a < (x ^ n) ^ a" by (rule power_strict_mono [OF assms(2) _ assms(3)]) simp
  moreover have "(x ^ n) ^ a = (x ^ a) ^ n" by (metis power_mult mult.commute)
  moreover have "(x ^ a) ^ n \<le> (y ^ b) ^ n" by (rule power_mono [OF assms(1)]) simp
  ultimately have "y ^ (L * a) < y ^ (b * n)" by (simp only: power_mult)
  then show ?thesis using power_strict_increasing_iff [OF assms(4)] by simp
qed

lemma digits_suffice_10:
  assumes "643 * nb < 267 * L" and "nb < 267 + 752"
  shows "256 ^ nb \<le> (10 :: nat) ^ L"
proof (rule ccontr)
  assume "\<not> ?thesis"
  then have less: "(10 :: nat) ^ L < 256 ^ nb" by simp
  have "L * 752 < 1811 * nb" by (rule power_ratio [OF less_imp_le [OF log_10_256] less]) simp_all
  with assms show False by linarith
qed

text \<open>In both bases the text of fewer than 1019 bytes is long enough, and so are its bytes.\<close>

lemma text_len_some:
  assumes "str_factor radix = Some (f, 22)" and "nb < 2 ^ 20" and "f < 2 ^ 24"
  obtains L where "text_len radix nb = Some L" and "L \<le> nb * f * 2 div 2 ^ 22 + 1"
proof -
  let ?v = "round24 (nb * f)"
  have v: "?v \<le> nb * f * 2" using round24_bounds [of "nb * f"] by simp
  have "nb * f \<le> 2 ^ 20 * 2 ^ 24" using assms(2,3) by (intro mult_le_mono) simp_all
  with v have "?v \<le> 2 ^ 45" by simp
  then have "?v div 2 ^ 22 \<le> 2 ^ 45 div 2 ^ 22" by (rule div_le_mono)
  then have small: "?v div 2 ^ 22 < 2 ^ 24" by simp
  let ?y = "?v div 2 ^ 22"
  have "text_len radix nb = (if ?v > ?y * 2 ^ 22 then Some (?y + 1) else Some ?y)"
    using assms(1,2) small
    by (simp add: text_len_def float_of_u32_def float_mult_def round24_exact ceil_f_to_u32_def Let_def)
  moreover have "?y \<le> nb * f * 2 div 2 ^ 22" using v by (rule div_le_mono)
  ultimately show ?thesis using that [of "?y + 1"] that [of ?y] by (auto split: if_splits)
qed

lemma bytes_len_some:
  assumes "buf_factor radix = Some (f, s)" and "L < 2 ^ 20" and "f < 2 ^ s" and "s \<le> 24"
  obtains k where "bytes_len radix L = Some k" and "L * f * (2 ^ 24 - 1) \<le> k * 2 ^ s * 2 ^ 24"
proof -
  let ?v = "round24 (L * f)"
  have "L * f \<le> L * 2 ^ s" using assms(3) by simp
  then have "2 * (L * f) \<le> 2 * L * 2 ^ s" by (simp only: mult.assoc mult_le_mono2)
  with round24_bounds [of "L * f"] have v: "?v \<le> 2 * L * 2 ^ s" by (meson order_trans)
  then have "?v div 2 ^ s \<le> 2 * L * 2 ^ s div 2 ^ s" by (rule div_le_mono)
  then have small: "?v div 2 ^ s < 2 ^ 24" using assms(2) by simp
  then have "\<exists>k. ceil_f_to_u32 (?v, s) = Some k" by (simp add: ceil_f_to_u32_def Let_def)
  then obtain k where k: "ceil_f_to_u32 (?v, s) = Some k" by blast
  have "?v * 2 ^ 24 \<le> k * 2 ^ s * 2 ^ 24" by (rule mult_le_mono1 [OF ceil_f_to_u32_upper [OF k small]])
  moreover have "bytes_len radix L = Some k"
    using assms(1,2) k by (simp add: bytes_len_def float_of_u32_def float_mult_def round24_exact)
  ultimately show ?thesis using that round24_bounds [of "L * f"] by (meson order_trans)
qed

lemma lengths_sufficeI:
  assumes "text_len radix nb = Some L" and "L < 2 ^ 20" and "256 ^ nb \<le> radix ^ L"
    and "bytes_len radix L = Some k" and "nb \<le> k"
  shows "lengths_suffice radix nb"
  using assms by (simp add: lengths_suffice_def)

lemma lengths_suffice_dec:
  assumes "nb < 1019" shows "lengths_suffice 10 nb"
proof -
  have f: "str_factor 10 = Some (10100891, 22)" "buf_factor 10 = Some (6966571, 24)"
    by (simp_all add: str_factor_def buf_factor_def)
  obtain L where L: "text_len 10 nb = Some L" "L \<le> nb * 10100891 * 2 div 2 ^ 22 + 1"
    by (rule text_len_some [OF f(1), of nb]) (use assms in simp_all)
  then have small: "L < 2 ^ 20" using assms by simp
  have low: "nb * 10100891 * (2 ^ 24 - 1) \<le> L * 2 ^ 46" using text_len_lower [OF f(1) L(1)] assms by simp
  obtain k where k: "bytes_len 10 L = Some k" "L * 6966571 * (2 ^ 24 - 1) \<le> k * 2 ^ 24 * 2 ^ 24"
    by (rule bytes_len_some [OF f(2) small]) simp_all
  have "256 ^ nb \<le> (10 :: nat) ^ L"
  proof (cases "nb = 0")
    case False
    then show ?thesis using assms low by (intro digits_suffice_10) simp_all
  qed simp
  moreover have "nb \<le> k" using assms low k(2) by simp
  ultimately show ?thesis using L(1) small k(1) by (intro lengths_sufficeI) simp_all
qed

lemma lengths_suffice_oct:
  assumes "nb < 1019" shows "lengths_suffice 8 nb"
proof -
  have f: "str_factor 8 = Some (11184825, 22)" "buf_factor 8 = Some (3, 3)"
    by (simp_all add: str_factor_def buf_factor_def)
  obtain L where L: "text_len 8 nb = Some L" "L \<le> nb * 11184825 * 2 div 2 ^ 22 + 1"
    by (rule text_len_some [OF f(1), of nb]) (use assms in simp_all)
  then have small: "L < 2 ^ 20" using assms by simp
  have low: "nb * 11184825 * (2 ^ 24 - 1) \<le> L * 2 ^ 46" using text_len_lower [OF f(1) L(1)] assms by simp
  obtain k where k: "bytes_len 8 L = Some k" "L * 3 * (2 ^ 24 - 1) \<le> k * 2 ^ 3 * 2 ^ 24"
    by (rule bytes_len_some [OF f(2) small]) simp_all
  have "8 * nb \<le> 3 * L" using low by simp
  then have "(2 :: nat) ^ (8 * nb) \<le> 2 ^ (3 * L)" by (intro power_increasing) simp_all
  then have "256 ^ nb \<le> (8 :: nat) ^ L" by (simp add: power_mult)
  moreover have "nb \<le> k" using \<open>8 * nb \<le> 3 * L\<close> assms low k(2) by simp
  ultimately show ?thesis using L(1) small k(1) by (intro lengths_sufficeI) simp_all
qed

section \<open>Writing a buffer and reading it back\<close>

lemma digit_of_digit_char:
  assumes "unat x < radix" and "radix \<le> 16"
  shows "digit_of_char radix (digit_char x) = Some (unat x)" and "digit_char x \<noteq> 0"
proof -
  have x: "unat x \<in> set [0, 1, 2, 3, 4, 5, 6, 7, 8, 9, 10, 11, 12, 13, 14, 15]"
    using assms by (simp, presburger)
  have "\<forall>i \<in> set [0, 1, 2, 3, 4, 5, 6, 7, 8, 9, 10, 11, 12, 13, 14, 15]. DIGITS ! i \<noteq> 0 \<and>
      (i < radix \<longrightarrow> digit_of_char radix (DIGITS ! i) = Some i)"
    by (simp add: DIGITS_def digit_of_char_def char_u32_small Let_def)
  from bspec [OF this x] assms(1)
  show "digit_of_char radix (digit_char x) = Some (unat x)" and "digit_char x \<noteq> 0"
    by (simp_all add: digit_char_def)
qed

lemma text_digits_digit_char:
  "digits_below radix S \<Longrightarrow> radix \<le> 16 \<Longrightarrow> text_digits radix (map digit_char S) = map unat S"
  by (induction S) (auto simp: digits_below_def digit_of_digit_char)

lemma text_num_digit_char:
  "digits_below radix S \<Longrightarrow> radix \<le> 16 \<Longrightarrow> text_num radix (map digit_char S) = str_num radix S"
  by (simp add: text_num_def str_num_def text_digits_digit_char rev_map)

lemma text_len_factor: "text_len radix nb = Some L \<Longrightarrow>
    \<exists>f. str_factor radix = Some f \<and> ceil_f_to_u32 (float_mult (float_of_u32 nb) f) = Some L"
  by (auto simp: text_len_def bind_eq_Some_conv)

lemma bytes_len_factor: "bytes_len radix L = Some k \<Longrightarrow>
    \<exists>f. buf_factor radix = Some f \<and> ceil_f_to_u32 (float_mult (float_of_u32 L) f) = Some k"
  by (auto simp: bytes_len_def bind_eq_Some_conv)

lemma str_to_buf_of_buf_to_str:
  assumes "fresh_malloc malloc C" and "finite (dom m)" and "n < 2 ^ 32 - 8" and "nb = (n + 7) div 8"
    and "m c = Some D" and "off + nb \<le> length D" and "m d = Some E" and "doff + nb \<le> length E"
    and "lengths_suffice radix nb"
  shows "\<exists>str text. buf_to_str malloc (Ptr c off) n radix m = Some (Ptr str 0, m(str \<mapsto> text @ [0])) \<and>
    m str = None \<and> text_len radix nb = Some (length text) \<and>
    str_to_buf malloc (Ptr str 0) (length text) (Ptr d doff) n radix (m(str \<mapsto> text @ [0])) =
      Some (length text, m(str \<mapsto> text @ [0], d \<mapsto> blit E doff (mask_last n (take nb (drop off D))) 0 nb))"
proof -
  obtain L k where L: "text_len radix nb = Some L" "L + 1 < 2 ^ 32" "256 ^ nb \<le> radix ^ L"
    and k: "bytes_len radix L = Some k" "nb \<le> k"
    using assms(9) by (auto simp: lengths_suffice_def split: option.splits)
  obtain f where f: "str_factor radix = Some f" "ceil_f_to_u32 (float_mult (float_of_u32 nb) f) = Some L"
    using text_len_factor [OF L(1)] by blast
  obtain g where g: "buf_factor radix = Some g" "ceil_f_to_u32 (float_mult (float_of_u32 L) g) = Some k"
    using bytes_len_factor [OF k(1)] by blast
  have radix: "radix \<le> 16" using str_factor_radix [OF f(1)] by simp
  let ?bs = "take nb (drop off D)"
  have len: "length ?bs = nb" using assms(6) by simp
  obtain b S where S: "buf_to_str malloc (Ptr c off) n radix m = Some (Ptr b 0, m(b \<mapsto> map digit_char S @ [0]))"
    "m b = None" "length S = L" "digits_below radix S"
    "str_num radix S = buf_num ?bs mod 2 ^ n mod radix ^ L"
    using buf_to_str_law [OF assms(1,2,5,3), of off radix f L] assms(4,6) f L(2) by metis
  let ?cs = "map digit_char S"
  let ?m = "m(b \<mapsto> ?cs @ [0])"
  have "0 \<notin> set ?cs" using S(4) radix digit_of_digit_char(2) by (auto simp: digits_below_def)
  moreover have "?m b = Some ([] @ ?cs @ [0])" and "?m d = Some E" and "finite (dom ?m)"
    using assms(2,7) S(2) by auto
  ultimately obtain B where B: "str_to_buf malloc (Ptr b 0) L (Ptr d doff) n radix ?m =
      Some (L, ?m(d \<mapsto> blit E doff B 0 nb))" "length B = nb"
    "buf_num B = text_num radix ?cs mod 256 ^ k mod 2 ^ n"
    using str_to_buf_law [OF assms(1), of ?m b "[]" ?cs "[0]" L d E n nb doff radix g k] assms(3,4,8) g S(3) by auto
  have less: "buf_num ?bs < 256 ^ nb" using buf_num_less [of ?bs] len by simp
  then have x: "buf_num ?bs mod 2 ^ n < 256 ^ nb" by (meson le_less_trans mod_less_eq_dividend)
  have "(256 :: nat) ^ nb \<le> 256 ^ k" using k(2) by (intro power_increasing) simp_all
  with x have small: "buf_num ?bs mod 2 ^ n mod 256 ^ k = buf_num ?bs mod 2 ^ n"
    by (intro mod_less) (rule less_le_trans)
  have "str_num radix S = buf_num ?bs mod 2 ^ n" using S(5) L(3) x by simp
  then have "buf_num B = buf_num ?bs mod 2 ^ n"
    using B(3) S(4) radix small by (simp add: text_num_digit_char)
  then have "buf_num B = buf_num (mask_last n ?bs)" using len assms(4) by (simp add: buf_num_mask_last)
  then have "B = mask_last n ?bs" using B(2) len by (intro buf_num_inject) simp_all
  with B S L(1) show ?thesis by (intro exI [of _ b] exI [of _ ?cs]) simp
qed

lemma lengths_suffice_bound:
  assumes "radix = 16 \<and> nb < 2 ^ 23 \<or> radix \<in> {8, 10} \<and> nb < 1019"
  shows "lengths_suffice radix nb"
  using assms lengths_suffice_hex lengths_suffice_dec lengths_suffice_oct by auto

text \<open>The decimal number of 1811 nines: \<open>str_to_buf\<close> allocates 752 bytes, and it needs 753.\<close>

lemma text_num_nines: "text_num 10 (replicate n 0x39) = 10 ^ n - 1"
proof -
  have "digit_of_char 10 0x39 = Some 9" by (simp add: digit_of_char_def char_u32_small Let_def)
  then have "text_digits 10 (replicate n 0x39) = replicate n 9" by (induction n) simp_all
  moreover have "num_of 10 (replicate n 9) = 10 ^ n - 1"
  proof (induction n)
    case (Suc n)
    have "(10 :: nat) ^ n \<ge> 1" by simp
    then have "9 + 10 * (10 ^ n - 1) = 10 ^ Suc n - (1 :: nat)" by (simp only: power_Suc)
    with Suc show ?case by simp
  qed simp
  ultimately show ?thesis by (simp add: text_num_def)
qed

lemma bytes_len_1811: "bytes_len 10 1811 = Some 752"
  by (simp add: length_eval)

section \<open>hexify and unhexify\<close>

definition hex_char :: "u8 list \<Rightarrow> nat \<Rightarrow> u8" where
  "hex_char bs i = hex_digits ! unat (drop_bit (4 * ((i + 1) mod 2)) (bs ! (i div 2)) AND 0x0f)"

definition hex_text :: "u8 list \<Rightarrow> nat \<Rightarrow> u8 list" where
  "hex_text bs n = map (hex_char bs) [0..<n]"

lemma length_hex_text [simp]: "length (hex_text bs n) = n"
  by (simp add: hex_text_def)

lemma blit_snoc:
  assumes "off + Suc n \<le> length D" and "length E = n"
  shows "(blit D off E 0 n)[off + n := v] = blit D off (E @ [v]) 0 (Suc n)"
  using assms by (intro nth_equalityI) (auto simp: nth_blit nth_list_update nth_append)

lemma hexify_loop_law:
  assumes "m h = Some (blit H hoff (hex_text bs i) 0 i)" and "m b = Some B" and "h \<noteq> b"
    and "take count (drop boff B) = bs" and "length bs = count"
    and "i + k \<le> 2 * count" and "hoff + i + k \<le> length H"
  shows "hexify_loop (Ptr h hoff) (Ptr b boff) k i m =
    Some (i + k, m(h \<mapsto> blit H hoff (hex_text bs (i + k)) 0 (i + k)))"
  using assms(1,2,6,7)
proof (induction k arbitrary: i m)
  case 0
  then show ?case by (simp add: fun_upd_idem)
next
  case (Suc k)
  have i: "i div 2 < count" using Suc.prems(3) by linarith
  then have "load m (Ptr b boff) (i div 2) = Some (bs ! (i div 2))"
    using Suc.prems(2) assms(4,5) by auto
  moreover have "store m (Ptr h hoff) i (hex_char bs i) = Some (m(h \<mapsto> blit H hoff (hex_text bs (Suc i)) 0 (Suc i)))"
    using Suc.prems(1,4) by (simp add: blit_snoc hex_text_def)
  ultimately have "hexify_loop (Ptr h hoff) (Ptr b boff) (Suc k) i m =
      hexify_loop (Ptr h hoff) (Ptr b boff) k (Suc i) (m(h \<mapsto> blit H hoff (hex_text bs (Suc i)) 0 (Suc i)))"
    by (simp add: Let_def hex_char_def del: load.simps store.simps)
  also have "\<dots> = Some (Suc i + k, m(h \<mapsto> blit H hoff (hex_text bs (Suc i)) 0 (Suc i),
      h \<mapsto> blit H hoff (hex_text bs (Suc i + k)) 0 (Suc i + k)))"
    using Suc.prems assms(3) by (intro Suc.IH) simp_all
  finally show ?case by (simp only: fun_upd_upd add_Suc_right add_Suc)
qed

lemma hexify_law:
  assumes "m h = Some H" and "m b = Some B" and "h \<noteq> b"
    and "take count (drop boff B) = bs" and "length bs = count"
    and "0 < len" and "n = min (len - 1) (2 * count)" and "hoff + n < length H"
  shows "hexify (Ptr h hoff) (Ptr b boff) count len m =
    Some (n, m(h \<mapsto> blit H hoff (hex_text bs n @ [0]) 0 (Suc n)))"
proof -
  have "n \<le> 2 * count" using assms(7) by simp
  then have "hexify_loop (Ptr h hoff) (Ptr b boff) n 0 m =
      Some (0 + n, m(h \<mapsto> blit H hoff (hex_text bs (0 + n)) 0 (0 + n)))"
    using assms(1-5,8) by (intro hexify_loop_law) (simp_all add: hex_text_def)
  moreover have "min (len - Suc 0) (2 * count) = n" using assms(7) by simp
  ultimately show ?thesis
    using assms(6,8) by (simp add: hexify_def blit_snoc)
qed

text \<open>The bytes of a list of half bytes, the high one first, in \<open>count\<close> bytes.\<close>

definition pack_nibbles :: "nat \<Rightarrow> u8 list \<Rightarrow> u8 list" where
  "pack_nibbles count vs = map (\<lambda>i. (if 2 * i < length vs then push_bit 4 (vs ! (2 * i)) else 0) OR
     (if 2 * i + 1 < length vs then vs ! (2 * i + 1) else 0)) [0..<count]"

lemma length_pack_nibbles [simp]: "length (pack_nibbles count vs) = count"
  by (simp add: pack_nibbles_def)

lemma pack_nibbles_snoc:
  assumes "length vs = i" and "i < 2 * count"
  shows "pack_nibbles count (vs @ [v]) =
    (pack_nibbles count vs)[i div 2 := pack_nibbles count vs ! (i div 2) OR push_bit (4 * ((i + 1) mod 2)) v]"
proof (rule nth_equalityI)
  fix j
  assume "j < length (pack_nibbles count (vs @ [v]))"
  then have j: "j < count" by simp
  have "i div 2 < count" using assms(2) by linarith
  then show "pack_nibbles count (vs @ [v]) ! j =
    (pack_nibbles count vs)[i div 2 := pack_nibbles count vs ! (i div 2) OR push_bit (4 * ((i + 1) mod 2)) v] ! j"
  proof (cases "j = i div 2")
    case True
    show ?thesis
    proof (cases "even i")
      case True
      then have "i = 2 * (i div 2)" and "(i + 1) mod 2 = 1" by presburger+
      with assms(1) \<open>j = i div 2\<close> j show ?thesis by (simp add: pack_nibbles_def nth_append)
    next
      case False
      then have "i = 2 * (i div 2) + 1" and "(i + 1) mod 2 = 0" by presburger+
      with assms(1) \<open>j = i div 2\<close> j show ?thesis by (simp add: pack_nibbles_def nth_append)
    qed
  next
    case False
    then have "2 * j \<noteq> i" and "2 * j + 1 \<noteq> i" by auto
    with False j assms(1) show ?thesis by (auto simp: pack_nibbles_def nth_append)
  qed
qed simp

lemma unhexify_loop_law:
  assumes "m b = Some (blit D boff (pack_nibbles count (take i vs)) 0 count)" and "m h = Some H" and "h \<noteq> b"
    and "\<forall>j < length vs. hoff + j < length H \<and> hex_value (H ! (hoff + j)) = Some (vs ! j)"
    and "length vs = 2 * count \<or> length vs < 2 * count \<and> hoff + length vs < length H \<and> hex_value (H ! (hoff + length vs)) = None"
    and "i + k = 2 * count" and "i \<le> length vs" and "boff + count \<le> length D"
  shows "unhexify_loop (Ptr b boff) (Ptr h hoff) k i m =
    Some (length vs div 2, m(b \<mapsto> blit D boff (pack_nibbles count vs) 0 count))"
  using assms(1,2,6,7)
proof (induction k arbitrary: i m)
  case 0
  then have "i = length vs" using assms(5) by auto
  with 0 show ?case by (simp add: fun_upd_idem)
next
  case (Suc k)
  show ?case
  proof (cases "i = length vs")
    case True
    then have "load m (Ptr h hoff) i = Some (H ! (hoff + i))" and "hex_value (H ! (hoff + i)) = None"
      using Suc.prems(2,3) assms(5) by auto
    with True Suc.prems(1) show ?thesis by (simp add: fun_upd_idem del: load.simps)
  next
    case False
    with Suc.prems(4) have i: "i < length vs" by simp
    let ?P = "pack_nibbles count (take i vs)"
    let ?v = "?P ! (i div 2) OR push_bit (4 * ((i + 1) mod 2)) (vs ! i)"
    have i2: "i div 2 < count" using Suc.prems(3) by linarith
    have P: "?P[i div 2 := ?v] = pack_nibbles count (take (Suc i) vs)"
      using i Suc.prems(3) by (simp add: take_Suc_conv_app_nth pack_nibbles_snoc)
    have "load m (Ptr h hoff) i = Some (H ! (hoff + i))" and "hex_value (H ! (hoff + i)) = Some (vs ! i)"
      using Suc.prems(2) assms(4) i by auto
    moreover have "load m (Ptr b boff) (i div 2) = Some (?P ! (i div 2))"
      using Suc.prems(1) i2 assms(8) by (simp add: nth_blit)
    moreover have "store m (Ptr b boff) (i div 2) ?v =
        Some (m(b \<mapsto> blit D boff (pack_nibbles count (take (Suc i) vs)) 0 count))"
      using Suc.prems(1) i2 assms(8) P by (simp add: blit_update)
    ultimately have "unhexify_loop (Ptr b boff) (Ptr h hoff) (Suc k) i m =
        unhexify_loop (Ptr b boff) (Ptr h hoff) k (Suc i)
          (m(b \<mapsto> blit D boff (pack_nibbles count (take (Suc i) vs)) 0 count))"
      by (simp del: load.simps store.simps)
    also have "\<dots> = Some (length vs div 2, m(b \<mapsto> blit D boff (pack_nibbles count (take (Suc i) vs)) 0 count,
        b \<mapsto> blit D boff (pack_nibbles count vs) 0 count))"
      using Suc.prems assms(3) i by (intro Suc.IH) simp_all
    finally show ?thesis by (simp only: fun_upd_upd)
  qed
qed

lemma unhexify_law:
  assumes "m b = Some D" and "m h = Some H" and "h \<noteq> b" and "boff + count \<le> length D"
    and "\<forall>j < length vs. hoff + j < length H \<and> hex_value (H ! (hoff + j)) = Some (vs ! j)"
    and "length vs = 2 * count \<or> length vs < 2 * count \<and> hoff + length vs < length H \<and> hex_value (H ! (hoff + length vs)) = None"
  shows "unhexify (Ptr b boff) (Ptr h hoff) count m =
    Some (length vs div 2, m(b \<mapsto> blit D boff (pack_nibbles count vs) 0 count))"
proof -
  have zero: "replicate count (0 :: u8) = pack_nibbles count (take 0 vs)"
    by (intro nth_equalityI) (simp_all add: pack_nibbles_def)
  let ?m = "m(b \<mapsto> blit D boff (pack_nibbles count (take 0 vs)) 0 count)"
  have "unhexify_loop (Ptr b boff) (Ptr h hoff) (2 * count) 0 ?m =
      Some (length vs div 2, ?m(b \<mapsto> blit D boff (pack_nibbles count vs) 0 count))"
    using assms by (intro unhexify_loop_law) simp_all
  moreover have "store_bytes m (Ptr b boff) (replicate count 0) = Some ?m"
    using assms(1,4) zero by simp
  ultimately show ?thesis by (simp add: unhexify_def)
qed

lemma hex_value_hex_char: "hex_value (hex_char bs i) = Some (drop_bit (4 * ((i + 1) mod 2)) (bs ! (i div 2)) AND 0x0f)"
proof -
  let ?x = "drop_bit (4 * ((i + 1) mod 2)) (bs ! (i div 2)) AND 0x0f"
  have "?x \<le> 0x0f" by (rule word_and_le1)
  then have "unat ?x \<le> 15" by (simp add: word_le_nat_alt)
  then have "unat ?x \<in> set [0, 1, 2, 3, 4, 5, 6, 7, 8, 9, 10, 11, 12, 13, 14, 15]" by (simp, presburger)
  moreover have "\<forall>n \<in> set [0, 1, 2, 3, 4, 5, 6, 7, 8, 9, 10, 11, 12, 13, 14, 15].
      hex_value (hex_digits ! n) = Some (of_nat n)"
    by (simp add: hex_digits_def hex_value_def)
  ultimately have "hex_value (hex_digits ! unat ?x) = Some (of_nat (unat ?x))" by blast
  then show ?thesis by (simp add: hex_char_def)
qed

lemma pack_hex_text:
  "length bs = count \<Longrightarrow>
    pack_nibbles count (map (\<lambda>i. drop_bit (4 * ((i + 1) mod 2)) (bs ! (i div 2)) AND 0x0f) [0..<2 * count]) = bs"
proof (rule nth_equalityI)
  fix j
  assume "j < length (pack_nibbles count (map (\<lambda>i. drop_bit (4 * ((i + 1) mod 2)) (bs ! (i div 2)) AND 0x0f) [0..<2 * count]))"
  then have j: "j < count" "2 * j < 2 * count" "2 * j + 1 < 2 * count" by simp_all
  have low: "(0x0f :: u8) = mask 4" by (simp add: mask_eq_exp_minus_1)
  have "push_bit 4 (drop_bit 4 b AND 0x0f) OR (b AND 0x0f) = b" for b :: u8
    unfolding low by (rule bit_word_eqI) (auto simp: bit_simps)
  moreover have "(2 * j + 1 + 1) mod 2 = 0" and "(2 * j + 1) div 2 = j" by presburger+
  ultimately show "pack_nibbles count (map (\<lambda>i. drop_bit (4 * ((i + 1) mod 2)) (bs ! (i div 2)) AND 0x0f) [0..<2 * count]) ! j = bs ! j"
    using j by (simp add: pack_nibbles_def)
qed simp

section \<open>There and back\<close>

text \<open>A decimal text whose number the computed bytes do not hold.\<close>

lemma log_2_10: "(10 :: nat) ^ 1811 < 2 ^ 6024"
proof -
  have "(10 :: nat) ^ 59 < 2 ^ 196" and "(10 :: nat) ^ 41 < 2 ^ 137" by simp_all
  then have "((10 :: nat) ^ 59) ^ 30 * 10 ^ 41 < (2 ^ 196) ^ 30 * 2 ^ 137"
    by (intro mult_strict_mono power_strict_mono) (simp_all only: zero_less_power zero_le zero_less_numeral)
  then have "(10 :: nat) ^ (59 * 30 + 41) < 2 ^ (196 * 30 + 137)" by (simp only: power_mult power_add)
  moreover have "59 * 30 + 41 = (1811 :: nat)" "196 * 30 + 137 = (6017 :: nat)" by simp_all
  ultimately have "(10 :: nat) ^ 1811 < 2 ^ 6017" by (simp only:)
  also have "\<dots> < 2 ^ 6024" by (rule power_strict_increasing) simp_all
  finally show ?thesis .
qed

lemma truncated_law:
  assumes "fresh_malloc malloc C" and "finite (dom m)"
    and "m s = Some (replicate L 0x39 @ [0])" and "m c = Some D" and "length D = nb"
    and "n < 2 ^ 32 - 8" and "nb = (n + 7) div 8" and "bytes_len 10 L = Some k" and "256 ^ k < (10 :: nat) ^ L"
  shows "\<exists>E. str_to_buf malloc (Ptr s 0) L (Ptr c 0) n 10 m = Some (L, m(c \<mapsto> E)) \<and> length E = nb \<and>
    buf_num E = (10 ^ L - 1) mod 256 ^ k mod 2 ^ n \<and> buf_num E < 10 ^ L - 1"
proof -
  let ?cs = "replicate L 0x39 :: u8 list"
  obtain f where f: "buf_factor 10 = Some f" "ceil_f_to_u32 (float_mult (float_of_u32 L) f) = Some k"
    using assms(8) by (auto simp: bytes_len_def split: bind_splits)
  have "m s = Some ([] @ ?cs @ [0])" "0 \<notin> set ?cs" "L = length ?cs \<or> length ?cs < L \<and> (\<exists>R'. [0 :: u8] = 0 # R')" "0 + nb \<le> length D"
    using assms(3,5) by auto
  from str_to_buf_law [OF assms(1,2) this(1-3) assms(4,6,7) this(4) f] obtain E where E:
      "str_to_buf malloc (Ptr s (length ([] :: u8 list))) L (Ptr c 0) n 10 m = Some (length ?cs, m(c \<mapsto> blit D 0 E 0 nb))"
      "length E = nb" "buf_num E = text_num 10 ?cs mod 256 ^ k mod 2 ^ n" by blast
  have "blit D 0 E 0 nb = E" using E(2) assms(5) by (simp add: blit_def)
  moreover have "buf_num E < 256 ^ k"
    unfolding E(3) by (rule order_le_less_trans [OF mod_less_eq_dividend]) simp
  moreover have "256 ^ k \<noteq> (10 :: nat) ^ L - 1 \<Longrightarrow> buf_num E < 10 ^ L - 1" using calculation(2) assms(9) by linarith
  ultimately show ?thesis using E assms(9) by (auto simp: text_num_nines)
qed

lemma nines_law:
  assumes "fresh_malloc malloc C" and "finite (dom m)"
    and "m s = Some (replicate 1811 0x39 @ [0])" and "m c = Some D" and "length D = 753"
  shows "\<exists>E. str_to_buf malloc (Ptr s 0) 1811 (Ptr c 0) 6024 10 m = Some (1811, m(c \<mapsto> E)) \<and> length E = 753 \<and>
    buf_num E = (10 ^ 1811 - 1) mod 256 ^ 752 mod 2 ^ 6024 \<and> buf_num E < 10 ^ 1811 - 1"
proof (rule truncated_law [OF assms(1-5) _ _ bytes_len_1811 log_10_256])
  show "6024 < 2 ^ 32 - (8 :: nat)" by simp
  show "753 = (6024 + 7) div (8 :: nat)" by simp
qed

lemma hexify_unhexify:
  assumes "m h = Some H" and "m b = Some B" and "h \<noteq> b" and "take count (drop boff B) = bs" and "length bs = count"
    and "2 * count < len" and "hoff + 2 * count < length H" and "m d = Some D" and "d \<noteq> h" and "d \<noteq> b"
    and "doff + count \<le> length D"
  shows "\<exists>m'. hexify (Ptr h hoff) (Ptr b boff) count len m = Some (2 * count, m') \<and>
    unhexify (Ptr d doff) (Ptr h hoff) count m' = Some (count, m'(d \<mapsto> blit D doff bs 0 count))"
proof -
  let ?T = "blit H hoff (hex_text bs (2 * count) @ [0]) 0 (Suc (2 * count))"
    and ?vs = "map (\<lambda>i. drop_bit (4 * ((i + 1) mod 2)) (bs ! (i div 2)) AND 0x0f) [0..<2 * count]"
  have 1: "hexify (Ptr h hoff) (Ptr b boff) count len m = Some (2 * count, m(h \<mapsto> ?T))"
    using assms(5-7) by (intro hexify_law [OF assms(1-5)]) simp_all
  have "hoff + j < length ?T \<and> hex_value (?T ! (hoff + j)) = Some (?vs ! j)" if "j < 2 * count" for j
    using that assms(7) hex_value_hex_char [of bs j] by (simp add: nth_blit nth_append hex_text_def)
  then have "unhexify (Ptr d doff) (Ptr h hoff) count (m(h \<mapsto> ?T)) =
      Some (length ?vs div 2, (m(h \<mapsto> ?T))(d \<mapsto> blit D doff (pack_nibbles count ?vs) 0 count))"
    using assms(8-11) by (intro unhexify_law [where H = ?T]) simp_all
  then show ?thesis using 1 pack_hex_text [OF assms(5)] by simp
qed

end
