(* ===== verification/Linked_List.thy ===== *)
theory Linked_List
  imports Prelude
begin

text \<open>
  \<^verbatim>\<open>openocd/src/helper/list.h\<close>: circular doubly linked lists through embedded
  \<open>list_head\<close> nodes. A heap maps the address of a node to its two links; address 0 is \<open>NULL\<close>
  and is never allocated, and reading or writing a link of an address outside the heap has no
  continuation. \<open>dlist h hp xs\<close> says that the list with head node \<open>hp\<close> holds the nodes
  \<open>xs\<close>, linked in both directions; every operation is stated on \<open>xs\<close>.
\<close>

named_theorems list_ops \<open>effect of the list operations on the nodes of a list\<close>

record list_head =
  nxt :: nat
  prv :: nat

type_synonym lheap = "nat \<rightharpoonup> list_head"

definition get_next :: "lheap \<Rightarrow> nat \<Rightarrow> nat option" where
  "get_next h a = map_option nxt (h a)"

definition get_prev :: "lheap \<Rightarrow> nat \<Rightarrow> nat option" where
  "get_prev h a = map_option prv (h a)"

definition set_next :: "lheap \<Rightarrow> nat \<Rightarrow> nat \<Rightarrow> lheap option" where
  "set_next h a v = map_option (\<lambda>n. h(a \<mapsto> n\<lparr>nxt := v\<rparr>)) (h a)"

definition set_prev :: "lheap \<Rightarrow> nat \<Rightarrow> nat \<Rightarrow> lheap option" where
  "set_prev h a v = map_option (\<lambda>n. h(a \<mapsto> n\<lparr>prv := v\<rparr>)) (h a)"

section \<open>The operations\<close>

definition INIT_LIST_HEAD :: "lheap \<Rightarrow> nat \<Rightarrow> lheap option" where
  "INIT_LIST_HEAD h list = do {
     h \<leftarrow> set_next h list list;
     set_prev h list list
   }"

text \<open>\<open>__list_add\<close> and \<open>__list_del\<close>: the neighbours are given.\<close>

definition list_add_between :: "lheap \<Rightarrow> nat \<Rightarrow> nat \<Rightarrow> nat \<Rightarrow> lheap option" where
  "list_add_between h newl prev next = do {
     h \<leftarrow> set_prev h next newl;
     h \<leftarrow> set_next h newl next;
     h \<leftarrow> set_prev h newl prev;
     set_next h prev newl
   }"

definition list_add :: "lheap \<Rightarrow> nat \<Rightarrow> nat \<Rightarrow> lheap option" where
  "list_add h newl head = do {
     next \<leftarrow> get_next h head;
     list_add_between h newl head next
   }"

definition list_add_tail :: "lheap \<Rightarrow> nat \<Rightarrow> nat \<Rightarrow> lheap option" where
  "list_add_tail h newl head = do {
     prev \<leftarrow> get_prev h head;
     list_add_between h newl prev head
   }"

definition list_del_between :: "lheap \<Rightarrow> nat \<Rightarrow> nat \<Rightarrow> lheap option" where
  "list_del_between h prev next = do {
     h \<leftarrow> set_prev h next prev;
     set_next h prev next
   }"

definition list_del_entry :: "lheap \<Rightarrow> nat \<Rightarrow> lheap option" where
  "list_del_entry h entry = do {
     prev \<leftarrow> get_prev h entry;
     next \<leftarrow> get_next h entry;
     list_del_between h prev next
   }"

text \<open>\<open>LIST_POISON1\<close> and \<open>LIST_POISON2\<close> are \<open>NULL\<close> in this copy of the header.\<close>

definition list_del :: "lheap \<Rightarrow> nat \<Rightarrow> lheap option" where
  "list_del h entry = do {
     prev \<leftarrow> get_prev h entry;
     next \<leftarrow> get_next h entry;
     h \<leftarrow> list_del_between h prev next;
     h \<leftarrow> set_next h entry 0;
     set_prev h entry 0
   }"

definition list_replace :: "lheap \<Rightarrow> nat \<Rightarrow> nat \<Rightarrow> lheap option" where
  "list_replace h old newl = do {
     on \<leftarrow> get_next h old;
     h \<leftarrow> set_next h newl on;
     nn \<leftarrow> get_next h newl;
     h \<leftarrow> set_prev h nn newl;
     op \<leftarrow> get_prev h old;
     h \<leftarrow> set_prev h newl op;
     np \<leftarrow> get_prev h newl;
     set_next h np newl
   }"

definition list_replace_init :: "lheap \<Rightarrow> nat \<Rightarrow> nat \<Rightarrow> lheap option" where
  "list_replace_init h old newl = do {
     h \<leftarrow> list_replace h old newl;
     INIT_LIST_HEAD h old
   }"

definition list_del_init :: "lheap \<Rightarrow> nat \<Rightarrow> lheap option" where
  "list_del_init h entry = do {
     h \<leftarrow> list_del_entry h entry;
     INIT_LIST_HEAD h entry
   }"

definition list_move :: "lheap \<Rightarrow> nat \<Rightarrow> nat \<Rightarrow> lheap option" where
  "list_move h list head = do {
     h \<leftarrow> list_del_entry h list;
     list_add h list head
   }"

definition list_move_tail :: "lheap \<Rightarrow> nat \<Rightarrow> nat \<Rightarrow> lheap option" where
  "list_move_tail h list head = do {
     h \<leftarrow> list_del_entry h list;
     list_add_tail h list head
   }"

definition list_is_last :: "lheap \<Rightarrow> nat \<Rightarrow> nat \<Rightarrow> bool option" where
  "list_is_last h list head = do { next \<leftarrow> get_next h list; Some (next = head) }"

definition list_empty :: "lheap \<Rightarrow> nat \<Rightarrow> bool option" where
  "list_empty h head = do { next \<leftarrow> get_next h head; Some (next = head) }"

definition list_empty_careful :: "lheap \<Rightarrow> nat \<Rightarrow> bool option" where
  "list_empty_careful h head = do {
     next \<leftarrow> get_next h head;
     prev \<leftarrow> get_prev h head;
     Some (next = head \<and> next = prev)
   }"

definition list_rotate_left :: "lheap \<Rightarrow> nat \<Rightarrow> lheap option" where
  "list_rotate_left h head = do {
     e \<leftarrow> list_empty h head;
     if \<not> e then do {
       first \<leftarrow> get_next h head;
       list_move_tail h first head
     }
     else Some h
   }"

definition list_is_singular :: "lheap \<Rightarrow> nat \<Rightarrow> bool option" where
  "list_is_singular h head = do {
     e \<leftarrow> list_empty h head;
     next \<leftarrow> get_next h head;
     prev \<leftarrow> get_prev h head;
     Some (\<not> e \<and> next = prev)
   }"

text \<open>\<open>__list_cut_position\<close> and \<open>__list_splice\<close>.\<close>

definition list_cut_at :: "lheap \<Rightarrow> nat \<Rightarrow> nat \<Rightarrow> nat \<Rightarrow> lheap option" where
  "list_cut_at h list head entry = do {
     new_first \<leftarrow> get_next h entry;
     hn \<leftarrow> get_next h head;
     h \<leftarrow> set_next h list hn;
     ln \<leftarrow> get_next h list;
     h \<leftarrow> set_prev h ln list;
     h \<leftarrow> set_prev h list entry;
     h \<leftarrow> set_next h entry list;
     h \<leftarrow> set_next h head new_first;
     set_prev h new_first head
   }"

definition list_cut_position :: "lheap \<Rightarrow> nat \<Rightarrow> nat \<Rightarrow> nat \<Rightarrow> lheap option" where
  "list_cut_position h list head entry = do {
     e \<leftarrow> list_empty h head;
     if e then Some h
     else do {
       s \<leftarrow> list_is_singular h head;
       hn \<leftarrow> get_next h head;
       if s \<and> hn \<noteq> entry \<and> head \<noteq> entry then Some h
       else if entry = head then INIT_LIST_HEAD h list
       else list_cut_at h list head entry
     }
   }"

definition list_splice_between :: "lheap \<Rightarrow> nat \<Rightarrow> nat \<Rightarrow> nat \<Rightarrow> lheap option" where
  "list_splice_between h list prev next = do {
     first \<leftarrow> get_next h list;
     last \<leftarrow> get_prev h list;
     h \<leftarrow> set_prev h first prev;
     h \<leftarrow> set_next h prev first;
     h \<leftarrow> set_next h last next;
     set_prev h next last
   }"

definition list_splice :: "lheap \<Rightarrow> nat \<Rightarrow> nat \<Rightarrow> lheap option" where
  "list_splice h list head = do {
     e \<leftarrow> list_empty h list;
     if \<not> e then do {
       next \<leftarrow> get_next h head;
       list_splice_between h list head next
     }
     else Some h
   }"

definition list_splice_tail :: "lheap \<Rightarrow> nat \<Rightarrow> nat \<Rightarrow> lheap option" where
  "list_splice_tail h list head = do {
     e \<leftarrow> list_empty h list;
     if \<not> e then do {
       prev \<leftarrow> get_prev h head;
       list_splice_between h list prev head
     }
     else Some h
   }"

definition list_splice_init :: "lheap \<Rightarrow> nat \<Rightarrow> nat \<Rightarrow> lheap option" where
  "list_splice_init h list head = do {
     e \<leftarrow> list_empty h list;
     if \<not> e then do {
       next \<leftarrow> get_next h head;
       h \<leftarrow> list_splice_between h list head next;
       INIT_LIST_HEAD h list
     }
     else Some h
   }"

definition list_splice_tail_init :: "lheap \<Rightarrow> nat \<Rightarrow> nat \<Rightarrow> lheap option" where
  "list_splice_tail_init h list head = do {
     e \<leftarrow> list_empty h list;
     if \<not> e then do {
       prev \<leftarrow> get_prev h head;
       h \<leftarrow> list_splice_between h list prev head;
       INIT_LIST_HEAD h list
     }
     else Some h
   }"

section \<open>Iteration\<close>

text \<open>
  \<open>list_for_each(pos, head)\<close> with the nodes it visits collected, and
  \<open>list_for_each_prev\<close>. A damaged list can be a cycle that misses the head, and the loop then
  does not end.
\<close>

partial_function (option) list_for_each_from :: "lheap \<Rightarrow> nat \<Rightarrow> nat \<Rightarrow> nat list option" where
  "list_for_each_from h head pos =
     (if pos = head then Some []
      else do {
        next \<leftarrow> get_next h pos;
        rest \<leftarrow> list_for_each_from h head next;
        Some (pos # rest)
      })"

definition list_for_each :: "lheap \<Rightarrow> nat \<Rightarrow> nat list option" where
  "list_for_each h head = do {
     pos \<leftarrow> get_next h head;
     list_for_each_from h head pos
   }"

partial_function (option) list_for_each_prev_from :: "lheap \<Rightarrow> nat \<Rightarrow> nat \<Rightarrow> nat list option" where
  "list_for_each_prev_from h head pos =
     (if pos = head then Some []
      else do {
        prev \<leftarrow> get_prev h pos;
        rest \<leftarrow> list_for_each_prev_from h head prev;
        Some (pos # rest)
      })"

definition list_for_each_prev :: "lheap \<Rightarrow> nat \<Rightarrow> nat list option" where
  "list_for_each_prev h head = do {
     pos \<leftarrow> get_prev h head;
     list_for_each_prev_from h head pos
   }"

section \<open>Chains of links\<close>

text \<open>A chain over two link functions; neighbours point at each other.\<close>

fun chain :: "(nat \<Rightarrow> nat) \<Rightarrow> (nat \<Rightarrow> nat) \<Rightarrow> nat list \<Rightarrow> bool" where
  "chain n p (a # b # cs) \<longleftrightarrow> n a = b \<and> p b = a \<and> chain n p (b # cs)"
| "chain n p _ \<longleftrightarrow> True"

lemma chain_append:
  "chain n p (xs @ a # ys) \<longleftrightarrow> chain n p (xs @ [a]) \<and> chain n p (a # ys)"
proof (induction xs)
  case Nil
  then show ?case by simp
next
  case (Cons x xs)
  then show ?case by (cases xs) auto
qed

lemma chain_upd_next: "a \<notin> set (butlast xs) \<Longrightarrow> chain (n(a := v)) p xs = chain n p xs"
  by (induction n p xs rule: chain.induct) auto

lemma chain_upd_prev: "a \<notin> set (tl xs) \<Longrightarrow> chain n (p(a := v)) xs = chain n p xs"
  by (induction n p xs rule: chain.induct) auto

lemma chain_cong:
  "(\<And>a. a \<in> set xs \<Longrightarrow> n a = n' a \<and> p a = p' a) \<Longrightarrow> chain n p xs = chain n' p' xs"
  by (induction n p xs rule: chain.induct) auto

text \<open>One cell between two others, as a chain of three.\<close>

lemma chain_mid:
  "chain n p (P @ x # y # Q) \<longleftrightarrow> chain n p (P @ [x]) \<and> n x = y \<and> p y = x \<and> chain n p (y # Q)"
  using chain_append [of n p P x "y # Q"] by simp

lemma set_tl_subset: "set (tl xs) \<subseteq> set xs"
  by (cases xs) auto

lemma chain_insert:
  assumes "chain n p (P @ x # y # Q)" and "x \<notin> set P"
    and "y \<notin> set Q" and "x \<notin> set (butlast (y # Q))" and "y \<notin> set (tl (P @ [x]))"
    and a: "a \<notin> set (P @ x # y # Q)"
  shows "chain (n(a := y, x := a)) (p(y := a, a := x)) (P @ x # a # y # Q)"
proof -
  have "a \<notin> set (tl (P @ [x]))" and "a \<notin> set (butlast (y # Q))"
    using a set_tl_subset [of "P @ [x]"] in_set_butlastD [of a "y # Q"] by auto
  with assms have "chain (n(a := y, x := a)) (p(y := a, a := x)) (P @ [x])"
    and "chain (n(a := y, x := a)) (p(y := a, a := x)) (y # Q)"
    by (simp_all only: chain_mid chain_upd_next chain_upd_prev butlast_snoc list.sel set_append
        Un_iff list.set insert_iff de_Morgan_disj simp_thms)
  then show ?thesis
    using a by (auto simp: chain_mid [of _ _ P x a])
qed

lemma chain_delete:
  assumes "chain n p (P @ x # a # y # Q)" and "x \<notin> set P"
    and "y \<notin> set Q" and "x \<notin> set (butlast (y # Q))" and "y \<notin> set (tl (P @ [x]))"
  shows "chain (n(x := y)) (p(y := x)) (P @ x # y # Q)"
proof -
  from assms(1) have "chain n p (P @ [x])" and "chain n p (y # Q)"
    by (simp_all add: chain_mid)
  with assms have "chain (n(x := y)) (p(y := x)) (P @ [x])"
    and "chain (n(x := y)) (p(y := x)) (y # Q)"
    by (simp_all only: chain_upd_next chain_upd_prev butlast_snoc list.sel simp_thms)
  then show ?thesis
    by (auto simp: chain_mid)
qed

section \<open>Lists in the heap\<close>

definition nx :: "lheap \<Rightarrow> nat \<Rightarrow> nat" where
  "nx h a = (case h a of None \<Rightarrow> 0 | Some n \<Rightarrow> nxt n)"

definition pv :: "lheap \<Rightarrow> nat \<Rightarrow> nat" where
  "pv h a = (case h a of None \<Rightarrow> 0 | Some n \<Rightarrow> prv n)"

definition dlist :: "lheap \<Rightarrow> nat \<Rightarrow> nat list \<Rightarrow> bool" where
  "dlist h hp xs \<longleftrightarrow> distinct (hp # xs) \<and> set (hp # xs) \<subseteq> dom h \<and>
     chain (nx h) (pv h) (hp # xs @ [hp])"

text \<open>Every write is an update of one of the two link functions on the same domain.\<close>

lemma get_next_dom [simp]: "a \<in> dom h \<Longrightarrow> get_next h a = Some (nx h a)"
  by (auto simp: get_next_def nx_def)

lemma get_prev_dom [simp]: "a \<in> dom h \<Longrightarrow> get_prev h a = Some (pv h a)"
  by (auto simp: get_prev_def pv_def)

lemma set_next_dom:
  assumes "a \<in> dom h"
  obtains h' where "set_next h a v = Some h'" and "dom h' = dom h" and "nx h' = (nx h)(a := v)"
    and "pv h' = pv h" and "\<And>c. c \<noteq> a \<Longrightarrow> h' c = h c"
proof -
  from assms obtain n where n: "h a = Some n" by auto
  show thesis
    by (rule that [of "h(a \<mapsto> n\<lparr>nxt := v\<rparr>)"])
      (use n in \<open>auto simp: set_next_def nx_def pv_def fun_eq_iff\<close>)
qed

lemma set_prev_dom:
  assumes "a \<in> dom h"
  obtains h' where "set_prev h a v = Some h'" and "dom h' = dom h" and "nx h' = nx h"
    and "pv h' = (pv h)(a := v)" and "\<And>c. c \<noteq> a \<Longrightarrow> h' c = h c"
proof -
  from assms obtain n where n: "h a = Some n" by auto
  show thesis
    by (rule that [of "h(a \<mapsto> n\<lparr>prv := v\<rparr>)"])
      (use n in \<open>auto simp: set_prev_def nx_def pv_def fun_eq_iff\<close>)
qed

section \<open>Laws of the operations\<close>

lemma dlist_frame:
  assumes "\<And>c. c \<in> set (hp # xs) \<Longrightarrow> h' c = h c"
  shows "dlist h' hp xs \<longleftrightarrow> dlist h hp xs"
proof -
  have "chain (nx h') (pv h') (hp # xs @ [hp]) = chain (nx h) (pv h) (hp # xs @ [hp])"
    by (rule chain_cong) (auto simp: nx_def pv_def assms)
  moreover have "set (hp # xs) \<subseteq> dom h' \<longleftrightarrow> set (hp # xs) \<subseteq> dom h"
    using assms by (auto simp: subset_iff dom_def)
  ultimately show ?thesis by (simp add: dlist_def)
qed

lemma dlist_dom: "dlist h hp xs \<Longrightarrow> a \<in> set (hp # xs) \<Longrightarrow> a \<in> dom h"
  by (auto simp: dlist_def)

text \<open>The circular list cut between the nodes \<open>xs\<close> and the nodes \<open>ys\<close>.\<close>

lemma circular_split:
  assumes "distinct (hp # xs @ ys)"
  obtains P x y Q where "hp # xs = P @ [x]" and "ys @ [hp] = y # Q"
    and "x = last (hp # xs)" and "y = hd (ys @ [hp])"
    and "x \<notin> set P" and "y \<notin> set Q" and "x \<notin> set (butlast (y # Q))"
    and "y \<notin> set (tl (P @ [x]))"
proof -
  obtain P x where 1: "hp # xs = P @ [x]" by (metis append_butlast_last_id list.distinct(1))
  obtain y Q where 2: "ys @ [hp] = y # Q" by (cases ys) auto
  have "distinct (P @ [x])" using assms by (simp flip: 1)
  moreover have "distinct (y # Q)" using assms by (simp flip: 2)
  moreover have "butlast (y # Q) = ys" by (simp flip: 2 del: butlast.simps)
  moreover have "tl (P @ [x]) = xs" by (simp flip: 1)
  moreover have "x \<in> set (hp # xs)" and "y \<in> set (ys @ [hp])" by (simp_all only: 1 2) auto
  moreover have "x = last (hp # xs)" and "y = hd (ys @ [hp])" by (simp_all only: 1 2) auto
  ultimately show thesis
    by (intro that [of P x y Q] 1 2) (use assms in \<open>auto simp del: butlast.simps\<close>)
qed

lemma dlist_neighbours:
  assumes "dlist h hp (xs @ ys)"
  shows "nx h (last (hp # xs)) = hd (ys @ [hp])" and "pv h (hd (ys @ [hp])) = last (hp # xs)"
proof -
  from assms have d: "distinct (hp # xs @ ys)" by (simp add: dlist_def)
  obtain P x y Q where s: "hp # xs = P @ [x]" "ys @ [hp] = y # Q" "x = last (hp # xs)"
      "y = hd (ys @ [hp])"
    using circular_split [OF d] by metis
  have "hp # xs @ ys @ [hp] = P @ x # y # Q"
    using s(1,2) by (metis append_Cons append_assoc append_Nil)
  with assms have "chain (nx h) (pv h) (P @ x # y # Q)"
    by (simp add: dlist_def)
  then have "nx h x = y" and "pv h y = x" by (simp_all add: chain_mid)
  then show "nx h (last (hp # xs)) = hd (ys @ [hp])" and "pv h (hd (ys @ [hp])) = last (hp # xs)"
    by (simp_all only: s(3,4))
qed

lemma INIT_LIST_HEAD_law [list_ops]:
  assumes "hp \<in> dom h"
  shows "\<exists>h'. INIT_LIST_HEAD h hp = Some h' \<and> dlist h' hp [] \<and> dom h' = dom h \<and>
    (\<forall>c. c \<noteq> hp \<longrightarrow> h' c = h c)"
proof -
  obtain h1 where h1: "set_next h hp hp = Some h1" "dom h1 = dom h" "nx h1 = (nx h)(hp := hp)"
      "pv h1 = pv h" "\<And>c. c \<noteq> hp \<Longrightarrow> h1 c = h c"
    using set_next_dom [OF assms] by blast
  obtain h2 where h2: "set_prev h1 hp hp = Some h2" "dom h2 = dom h1" "nx h2 = nx h1"
      "pv h2 = (pv h1)(hp := hp)" "\<And>c. c \<noteq> hp \<Longrightarrow> h2 c = h1 c"
    using set_prev_dom [of hp h1] assms h1(2) by blast
  from assms h1 h2 show ?thesis
    by (auto simp: INIT_LIST_HEAD_def dlist_def)
qed

lemma list_add_between_links:
  assumes "a \<in> dom h" and "x \<in> dom h" and "y \<in> dom h"
  shows "\<exists>h'. list_add_between h a x y = Some h' \<and> dom h' = dom h \<and>
    nx h' = (nx h)(a := y, x := a) \<and> pv h' = (pv h)(y := a, a := x) \<and>
    (\<forall>c. c \<notin> {a, x, y} \<longrightarrow> h' c = h c)"
proof -
  obtain h1 where h1: "set_prev h y a = Some h1" "dom h1 = dom h" "nx h1 = nx h"
      "pv h1 = (pv h)(y := a)" "\<And>c. c \<noteq> y \<Longrightarrow> h1 c = h c"
    using set_prev_dom [OF assms(3)] by blast
  obtain h2 where h2: "set_next h1 a y = Some h2" "dom h2 = dom h1" "nx h2 = (nx h1)(a := y)"
      "pv h2 = pv h1" "\<And>c. c \<noteq> a \<Longrightarrow> h2 c = h1 c"
    using set_next_dom [of a h1] assms h1(2) by blast
  obtain h3 where h3: "set_prev h2 a x = Some h3" "dom h3 = dom h2" "nx h3 = nx h2"
      "pv h3 = (pv h2)(a := x)" "\<And>c. c \<noteq> a \<Longrightarrow> h3 c = h2 c"
    using set_prev_dom [of a h2] assms h1(2) h2(2) by blast
  obtain h4 where h4: "set_next h3 x a = Some h4" "dom h4 = dom h3" "nx h4 = (nx h3)(x := a)"
      "pv h4 = pv h3" "\<And>c. c \<noteq> x \<Longrightarrow> h4 c = h3 c"
    using set_next_dom [of x h3] assms h1(2) h2(2) h3(2) by blast
  from h1 h2 h3 h4 show ?thesis
    by (auto simp: list_add_between_def)
qed

lemma list_del_between_links:
  assumes "x \<in> dom h" and "y \<in> dom h"
  shows "\<exists>h'. list_del_between h x y = Some h' \<and> dom h' = dom h \<and>
    nx h' = (nx h)(x := y) \<and> pv h' = (pv h)(y := x) \<and>
    (\<forall>c. c \<notin> {x, y} \<longrightarrow> h' c = h c)"
proof -
  obtain h1 where h1: "set_prev h y x = Some h1" "dom h1 = dom h" "nx h1 = nx h"
      "pv h1 = (pv h)(y := x)" "\<And>c. c \<noteq> y \<Longrightarrow> h1 c = h c"
    using set_prev_dom [OF assms(2)] by blast
  obtain h2 where h2: "set_next h1 x y = Some h2" "dom h2 = dom h1" "nx h2 = (nx h1)(x := y)"
      "pv h2 = pv h1" "\<And>c. c \<noteq> x \<Longrightarrow> h2 c = h1 c"
    using set_next_dom [of x h1] assms h1(2) by blast
  from h1 h2 show ?thesis by (auto simp: list_del_between_def)
qed

text \<open>Insertion and deletion at any place of a list.\<close>

lemma list_add_between_law:
  assumes "dlist h hp (xs @ ys)" and "a \<in> dom h" and "a \<notin> set (hp # xs @ ys)"
  shows "\<exists>h'. list_add_between h a (last (hp # xs)) (hd (ys @ [hp])) = Some h' \<and>
    dlist h' hp (xs @ a # ys) \<and> dom h' = dom h \<and>
    (\<forall>c. c \<notin> set (hp # xs @ a # ys) \<longrightarrow> h' c = h c)"
proof -
  from assms(1) have d: "distinct (hp # xs @ ys)" by (simp add: dlist_def)
  obtain P x y Q where s: "hp # xs = P @ [x]" "ys @ [hp] = y # Q" "x = last (hp # xs)"
      "y = hd (ys @ [hp])"
    and sep: "x \<notin> set P" "y \<notin> set Q" "x \<notin> set (butlast (y # Q))" "y \<notin> set (tl (P @ [x]))"
    using circular_split [OF d] by metis
  have e: "hp # xs @ zs @ ys @ [hp] = P @ x # zs @ y # Q" for zs
    using s(1,2) by (metis append_Cons append_assoc append_Nil)
  have e0: "hp # xs @ ys @ [hp] = P @ x # y # Q" using e [of "[]"] by simp
  have e1: "hp # xs @ a # ys @ [hp] = P @ x # a # y # Q" using e [of "[a]"] by simp
  have mem: "set (hp # xs @ ys) = set (P @ x # y # Q)" by (simp flip: e0)
  then have xy: "x \<in> dom h" "y \<in> dom h" "a \<notin> set (P @ x # y # Q)"
    and in_list: "x \<in> set (hp # xs @ ys)" "y \<in> set (hp # xs @ ys)"
    using assms(1,3) by (auto simp: dlist_def)
  obtain h' where h': "list_add_between h a x y = Some h'" "dom h' = dom h"
      "nx h' = (nx h)(a := y, x := a)" "pv h' = (pv h)(y := a, a := x)"
      "\<forall>c. c \<notin> {a, x, y} \<longrightarrow> h' c = h c"
    using list_add_between_links [OF assms(2) xy(1,2)] by blast
  have "chain (nx h) (pv h) (P @ x # y # Q)"
    using assms(1) by (simp add: dlist_def e0)
  then have "chain (nx h') (pv h') (hp # (xs @ a # ys) @ [hp])"
    using chain_insert [OF _ sep xy(3)] by (simp add: h' e1)
  then have "dlist h' hp (xs @ a # ys)"
    using assms h'(2) by (auto simp: dlist_def)
  moreover have "\<forall>c. c \<notin> set (hp # xs @ a # ys) \<longrightarrow> h' c = h c"
    using h'(5) in_list by auto
  ultimately show ?thesis
    using h'(1,2) unfolding s(3,4) by blast
qed

lemma list_del_between_law:
  assumes "dlist h hp (xs @ a # ys)"
  shows "\<exists>h'. list_del_between h (pv h a) (nx h a) = Some h' \<and> dlist h' hp (xs @ ys) \<and>
    dom h' = dom h \<and> (\<forall>c. c \<notin> set (hp # xs @ ys) \<longrightarrow> h' c = h c)"
proof -
  from assms have d: "distinct (hp # xs @ ys)" by (simp add: dlist_def)
  obtain P x y Q where s: "hp # xs = P @ [x]" "ys @ [hp] = y # Q" "x = last (hp # xs)"
      "y = hd (ys @ [hp])"
    and sep: "x \<notin> set P" "y \<notin> set Q" "x \<notin> set (butlast (y # Q))" "y \<notin> set (tl (P @ [x]))"
    using circular_split [OF d] by metis
  have e: "hp # xs @ zs @ ys @ [hp] = P @ x # zs @ y # Q" for zs
    using s(1,2) by (metis append_Cons append_assoc append_Nil)
  have e0: "hp # xs @ ys @ [hp] = P @ x # y # Q" using e [of "[]"] by simp
  have e1: "hp # xs @ a # ys @ [hp] = P @ x # a # y # Q" using e [of "[a]"] by simp
  have mem: "set (hp # xs @ ys) = set (P @ x # y # Q)" by (simp flip: e0)
  then have in_list: "x \<in> set (hp # xs @ ys)" "y \<in> set (hp # xs @ ys)" by auto
  have c: "chain (nx h) (pv h) (P @ x # a # y # Q)"
    using assms by (simp add: dlist_def e1)
  then have n: "nx h a = y" "pv h a = x"
    by (simp_all add: chain_mid [of _ _ P x a])
  have xy: "x \<in> dom h" "y \<in> dom h"
    using in_list assms by (auto simp: dlist_def)
  obtain h' where h': "list_del_between h x y = Some h'" "dom h' = dom h"
      "nx h' = (nx h)(x := y)" "pv h' = (pv h)(y := x)"
      "\<forall>c. c \<notin> {x, y} \<longrightarrow> h' c = h c"
    using list_del_between_links [OF xy] by blast
  have "chain (nx h') (pv h') (hp # (xs @ ys) @ [hp])"
    using chain_delete [OF c sep] by (simp add: h' e0)
  then have "dlist h' hp (xs @ ys)"
    using assms h'(2) by (auto simp: dlist_def)
  moreover have "\<forall>c. c \<notin> set (hp # xs @ ys) \<longrightarrow> h' c = h c"
    using h'(5) in_list by auto
  ultimately show ?thesis
    using h'(1,2) unfolding n by blast
qed

text \<open>The operations on whole lists.\<close>

lemma list_add_law [list_ops]:
  assumes "dlist h hp xs" and "a \<in> dom h" and "a \<notin> set (hp # xs)"
  shows "\<exists>h'. list_add h a hp = Some h' \<and> dlist h' hp (a # xs) \<and> dom h' = dom h \<and>
    (\<forall>c. c \<notin> set (hp # a # xs) \<longrightarrow> h' c = h c)"
  using list_add_between_law [of h hp "[]" xs a] dlist_neighbours [of h hp "[]" xs]
    dlist_dom [of h hp xs hp] assms
  by (auto simp: list_add_def)

lemma list_add_tail_law [list_ops]:
  assumes "dlist h hp xs" and "a \<in> dom h" and "a \<notin> set (hp # xs)"
  shows "\<exists>h'. list_add_tail h a hp = Some h' \<and> dlist h' hp (xs @ [a]) \<and> dom h' = dom h \<and>
    (\<forall>c. c \<notin> set (hp # xs @ [a]) \<longrightarrow> h' c = h c)"
  using list_add_between_law [of h hp xs "[]" a] dlist_neighbours [of h hp xs "[]"]
    dlist_dom [of h hp xs hp] assms
  by (auto simp: list_add_tail_def split: if_splits)

lemma list_del_entry_law [list_ops]:
  assumes "dlist h hp (xs @ a # ys)"
  shows "\<exists>h'. list_del_entry h a = Some h' \<and> dlist h' hp (xs @ ys) \<and> dom h' = dom h \<and>
    (\<forall>c. c \<notin> set (hp # xs @ ys) \<longrightarrow> h' c = h c)"
proof -
  have "a \<in> dom h" using assms by (auto simp: dlist_def)
  with list_del_between_law [OF assms] show ?thesis
    by (simp add: list_del_entry_def)
qed

lemma not_in_own_list: "dlist h hp (xs @ a # ys) \<Longrightarrow> a \<notin> set (hp # xs @ ys)"
  by (auto simp: dlist_def)

lemma list_del_law [list_ops]:
  assumes "dlist h hp (xs @ a # ys)"
  shows "\<exists>h'. list_del h a = Some h' \<and> dlist h' hp (xs @ ys) \<and> dom h' = dom h \<and>
    h' a = Some \<lparr>nxt = 0, prv = 0\<rparr> \<and> (\<forall>c. c \<notin> set (hp # xs @ a # ys) \<longrightarrow> h' c = h c)"
proof -
  have a: "a \<in> dom h" using assms by (auto simp: dlist_def)
  obtain h1 where h1: "list_del_between h (pv h a) (nx h a) = Some h1" "dlist h1 hp (xs @ ys)"
      "dom h1 = dom h" "\<forall>c. c \<notin> set (hp # xs @ ys) \<longrightarrow> h1 c = h c"
    using list_del_between_law [OF assms] by blast
  with a obtain n where n: "h1 a = Some n" by auto
  define h2 where "h2 = h1(a \<mapsto> \<lparr>nxt = 0, prv = 0\<rparr>)"
  have "list_del h a = Some h2"
    using a h1(1) n by (cases n) (simp add: list_del_def set_next_def set_prev_def h2_def)
  moreover have "dlist h2 hp (xs @ ys)"
    using h1(2) not_in_own_list [OF assms] by (subst dlist_frame [of hp _ h2 h1]) (auto simp: h2_def)
  moreover have "dom h2 = dom h"
    using a h1(3) by (auto simp: h2_def)
  moreover have "h2 a = Some \<lparr>nxt = 0, prv = 0\<rparr>"
    and "\<forall>c. c \<notin> set (hp # xs @ a # ys) \<longrightarrow> h2 c = h c"
    using h1(4) by (auto simp: h2_def)
  ultimately show ?thesis by blast
qed

lemma list_del_init_law [list_ops]:
  assumes "dlist h hp (xs @ a # ys)"
  shows "\<exists>h'. list_del_init h a = Some h' \<and> dlist h' hp (xs @ ys) \<and> dlist h' a [] \<and>
    dom h' = dom h \<and> (\<forall>c. c \<notin> set (hp # xs @ a # ys) \<longrightarrow> h' c = h c)"
proof -
  have a: "a \<in> dom h" using assms by (auto simp: dlist_def)
  obtain h1 where h1: "list_del_entry h a = Some h1" "dlist h1 hp (xs @ ys)"
      "dom h1 = dom h" "\<forall>c. c \<notin> set (hp # xs @ ys) \<longrightarrow> h1 c = h c"
    using list_del_entry_law [OF assms] by blast
  obtain h2 where h2: "INIT_LIST_HEAD h1 a = Some h2" "dlist h2 a []" "dom h2 = dom h1"
      "\<forall>c. c \<noteq> a \<longrightarrow> h2 c = h1 c"
    using INIT_LIST_HEAD_law [of a h1] a h1(3) by blast
  have "dlist h2 hp (xs @ ys)"
    using h1(2) h2(4) not_in_own_list [OF assms] by (subst dlist_frame [of hp _ h2 h1]) auto
  with h1 h2 show ?thesis by (auto simp: list_del_init_def)
qed

text \<open>Moving a node inside its list, and to another list.\<close>

lemma list_move_law [list_ops]:
  assumes "dlist h hp (xs @ a # ys)"
  shows "\<exists>h'. list_move h a hp = Some h' \<and> dlist h' hp (a # xs @ ys) \<and> dom h' = dom h \<and>
    (\<forall>c. c \<notin> set (hp # xs @ a # ys) \<longrightarrow> h' c = h c)"
proof -
  have a: "a \<in> dom h" using assms by (auto simp: dlist_def)
  obtain h1 where h1: "list_del_entry h a = Some h1" "dlist h1 hp (xs @ ys)"
      "dom h1 = dom h" "\<forall>c. c \<notin> set (hp # xs @ ys) \<longrightarrow> h1 c = h c"
    using list_del_entry_law [OF assms] by blast
  obtain h2 where "list_add h1 a hp = Some h2" "dlist h2 hp (a # xs @ ys)" "dom h2 = dom h1"
      "\<forall>c. c \<notin> set (hp # a # xs @ ys) \<longrightarrow> h2 c = h1 c"
    using list_add_law [OF h1(2), of a] a h1(3) not_in_own_list [OF assms] by blast
  with h1 show ?thesis by (auto simp: list_move_def)
qed

lemma list_move_tail_law [list_ops]:
  assumes "dlist h hp (xs @ a # ys)"
  shows "\<exists>h'. list_move_tail h a hp = Some h' \<and> dlist h' hp (xs @ ys @ [a]) \<and> dom h' = dom h \<and>
    (\<forall>c. c \<notin> set (hp # xs @ a # ys) \<longrightarrow> h' c = h c)"
proof -
  have a: "a \<in> dom h" using assms by (auto simp: dlist_def)
  obtain h1 where h1: "list_del_entry h a = Some h1" "dlist h1 hp (xs @ ys)"
      "dom h1 = dom h" "\<forall>c. c \<notin> set (hp # xs @ ys) \<longrightarrow> h1 c = h c"
    using list_del_entry_law [OF assms] by blast
  obtain h2 where "list_add_tail h1 a hp = Some h2" "dlist h2 hp ((xs @ ys) @ [a])"
      "dom h2 = dom h1" "\<forall>c. c \<notin> set (hp # (xs @ ys) @ [a]) \<longrightarrow> h2 c = h1 c"
    using list_add_tail_law [OF h1(2), of a] a h1(3) not_in_own_list [OF assms] by blast
  with h1 show ?thesis by (auto simp: list_move_tail_def)
qed

lemma list_move_across_law [list_ops]:
  assumes "dlist h hp (xs @ a # ys)" and "dlist h kp zs"
    and "set (hp # xs @ a # ys) \<inter> set (kp # zs) = {}"
  shows "\<exists>h'. list_move h a kp = Some h' \<and> dlist h' hp (xs @ ys) \<and> dlist h' kp (a # zs) \<and>
    dom h' = dom h"
proof -
  have a: "a \<in> dom h" using assms by (auto simp: dlist_def)
  obtain h1 where h1: "list_del_entry h a = Some h1" "dlist h1 hp (xs @ ys)"
      "dom h1 = dom h" "\<forall>c. c \<notin> set (hp # xs @ ys) \<longrightarrow> h1 c = h c"
    using list_del_entry_law [OF assms(1)] by blast
  have k: "dlist h1 kp zs"
    using assms(2,3) h1(4) by (subst dlist_frame [of kp _ h1 h]) auto
  obtain h2 where h2: "list_add h1 a kp = Some h2" "dlist h2 kp (a # zs)" "dom h2 = dom h1"
      "\<forall>c. c \<notin> set (kp # a # zs) \<longrightarrow> h2 c = h1 c"
    using list_add_law [OF k, of a] a h1(3) assms(3) by auto
  have "dlist h2 hp (xs @ ys)"
    using h1(2) h2(4) assms(3) not_in_own_list [OF assms(1)]
    by (subst dlist_frame [of hp _ h2 h1]) auto
  with h1 h2 show ?thesis by (auto simp: list_move_def)
qed

text \<open>The tests.\<close>

lemma dlist_first: "dlist h hp xs \<Longrightarrow> get_next h hp = Some (hd (xs @ [hp]))"
  using dlist_neighbours(1) [of h hp "[]" xs] dlist_dom [of h hp xs hp] by simp

lemma dlist_last: "dlist h hp xs \<Longrightarrow> get_prev h hp = Some (last (hp # xs))"
  using dlist_neighbours(2) [of h hp xs "[]"] dlist_dom [of h hp xs hp] by simp

lemma dlist_head_notin: "dlist h hp xs \<Longrightarrow> hp \<notin> set xs"
  by (simp add: dlist_def)

lemma list_empty_law [list_ops]: "dlist h hp xs \<Longrightarrow> list_empty h hp = Some (xs = [])"
  by (frule dlist_first, drule dlist_head_notin) (cases xs; auto simp: list_empty_def)

lemma list_empty_careful_law [list_ops]:
  "dlist h hp xs \<Longrightarrow> list_empty_careful h hp = Some (xs = [])"
  by (frule dlist_first, frule dlist_last, drule dlist_head_notin)
    (cases xs; auto simp: list_empty_careful_def)

lemma list_is_singular_law [list_ops]:
  assumes "dlist h hp xs"
  shows "list_is_singular h hp = Some (length xs = 1)"
proof -
  have "distinct xs" using assms by (simp add: dlist_def)
  then have "xs \<noteq> [] \<and> hd (xs @ [hp]) = last (hp # xs) \<longleftrightarrow> length xs = 1"
    by (cases xs; cases "tl xs") (auto dest: last_in_set)
  then show ?thesis
    using list_empty_law [OF assms] dlist_first [OF assms] dlist_last [OF assms]
    by (simp add: list_is_singular_def)
qed

lemma list_is_last_law [list_ops]:
  assumes "dlist h hp (xs @ a # ys)"
  shows "list_is_last h a hp = Some (ys = [])"
proof -
  have "a \<in> dom h" and "hp \<notin> set ys" using assms by (auto simp: dlist_def)
  moreover have "nx h a = hd (ys @ [hp])"
    using dlist_neighbours(1) [of h hp "xs @ [a]" ys] assms by simp
  ultimately show ?thesis
    by (cases ys) (auto simp: list_is_last_def)
qed

lemma list_rotate_left_law [list_ops]:
  assumes "dlist h hp xs"
  shows "\<exists>h'. list_rotate_left h hp = Some h' \<and> dlist h' hp (rotate1 xs) \<and> dom h' = dom h \<and>
    (\<forall>c. c \<notin> set (hp # xs) \<longrightarrow> h' c = h c)"
proof (cases xs)
  case Nil
  with assms show ?thesis by (simp add: list_rotate_left_def list_empty_law)
next
  case (Cons a ys)
  with list_move_tail_law [of h hp "[]" a ys] assms dlist_first [OF assms] list_empty_law [OF assms]
  show ?thesis by (simp add: list_rotate_left_def)
qed

text \<open>Iteration visits the nodes in order, once each, and ends.\<close>

lemma list_for_each_from_law:
  assumes "dlist h hp (xs @ ys)"
  shows "list_for_each_from h hp (hd (ys @ [hp])) = Some ys"
  using assms
proof (induction ys arbitrary: xs)
  case Nil
  then show ?case by (simp add: list_for_each_from.simps)
next
  case (Cons a ys)
  then have IH: "list_for_each_from h hp (hd (ys @ [hp])) = Some ys"
    using Cons.IH [of "xs @ [a]"] by simp
  have "nx h a = hd (ys @ [hp])"
    using dlist_neighbours(1) [of h hp "xs @ [a]" ys] Cons.prems by simp
  moreover have "a \<in> dom h" and "a \<noteq> hp"
    using Cons.prems by (auto simp: dlist_def)
  ultimately show ?case
    using IH by (simp add: list_for_each_from.simps [of h hp a])
qed

lemma list_for_each_law [list_ops]: "dlist h hp xs \<Longrightarrow> list_for_each h hp = Some xs"
  using list_for_each_from_law [of h hp "[]" xs] by (simp add: list_for_each_def dlist_first)

lemma list_for_each_prev_from_law:
  assumes "dlist h hp (xs @ ys)"
  shows "list_for_each_prev_from h hp (last (hp # xs)) = Some (rev xs)"
  using assms
proof (induction xs arbitrary: ys rule: rev_induct)
  case Nil
  then show ?case by (simp add: list_for_each_prev_from.simps)
next
  case (snoc a xs)
  then have IH: "list_for_each_prev_from h hp (last (hp # xs)) = Some (rev xs)"
    using snoc.IH [of "a # ys"] by simp
  have "pv h a = last (hp # xs)"
    using dlist_neighbours(2) [of h hp xs "a # ys"] snoc.prems by simp
  moreover have "a \<in> dom h" and "a \<noteq> hp"
    using snoc.prems by (auto simp: dlist_def)
  ultimately show ?case
    using IH by (simp add: list_for_each_prev_from.simps [of h hp a])
qed

lemma list_for_each_prev_law [list_ops]:
  "dlist h hp xs \<Longrightarrow> list_for_each_prev h hp = Some (rev xs)"
  using list_for_each_prev_from_law [of h hp xs "[]"]
  by (simp add: list_for_each_prev_def dlist_last)

section \<open>Joining and cutting lists\<close>

text \<open>Two chains joined end to end.\<close>

lemma chain_join:
  assumes "as \<noteq> []" and "bs \<noteq> []"
  shows "chain n p (as @ bs) \<longleftrightarrow>
    chain n p as \<and> n (last as) = hd bs \<and> p (hd bs) = last as \<and> chain n p bs"
proof -
  from assms obtain P x y Q where "as = P @ [x]" and "bs = y # Q"
    by (metis append_butlast_last_id list.exhaust)
  then show ?thesis by (simp add: chain_mid)
qed

lemma dlist_links:
  "nx h' = nx h \<Longrightarrow> pv h' = pv h \<Longrightarrow> dom h' = dom h \<Longrightarrow> dlist h' hp xs = dlist h hp xs"
  by (simp add: dlist_def)

text \<open>A chain whose inner links avoid the updated cells.\<close>

lemma chain_keep:
  assumes "chain n p xs" and "\<forall>a \<in> set (butlast xs). n' a = n a"
    and "\<forall>a \<in> set (tl xs). p' a = p a"
  shows "chain n' p' xs"
  using assms by (induction n p xs rule: chain.induct) auto

lemma list_replace_law [list_ops]:
  assumes L: "dlist h hp (xs @ old # ys)" and new: "b \<in> dom h" "b \<notin> set (hp # xs @ old # ys)"
  shows "\<exists>h'. list_replace h old b = Some h' \<and> dlist h' hp (xs @ b # ys) \<and> dom h' = dom h \<and>
    (\<forall>c. c \<notin> set (hp # xs @ b # ys) \<longrightarrow> h' c = h c)"
proof -
  define x y where "x = last (hp # xs)" and "y = hd (ys @ [hp])"
  have x: "pv h old = x" and y: "nx h old = y"
    using dlist_neighbours [of h hp xs "old # ys"] dlist_neighbours [of h hp "xs @ [old]" ys] L
    by (simp_all add: x_def y_def)
  have "x \<in> set (hp # xs)" unfolding x_def by (rule last_in_set) simp
  moreover have "y \<in> set (hp # ys)" unfolding y_def by (cases ys) simp_all
  ultimately have mem: "x \<in> set (hp # xs)" "y \<in> set (hp # ys)" by simp_all
  then have d: "x \<in> dom h" "y \<in> dom h" "old \<in> dom h" "x \<noteq> old" "y \<noteq> old" "b \<noteq> x" "b \<noteq> y"
      "b \<noteq> old"
    using L new by (auto simp: dlist_def)
  obtain h1 where h1: "set_next h b y = Some h1" "dom h1 = dom h" "nx h1 = (nx h)(b := y)"
      "pv h1 = pv h" "\<And>c. c \<noteq> b \<Longrightarrow> h1 c = h c"
    using set_next_dom [OF new(1)] by blast
  obtain h2 where h2: "set_prev h1 y b = Some h2" "dom h2 = dom h1" "nx h2 = nx h1"
      "pv h2 = (pv h1)(y := b)" "\<And>c. c \<noteq> y \<Longrightarrow> h2 c = h1 c"
    using set_prev_dom [of y h1] d h1(2) by blast
  obtain h3 where h3: "set_prev h2 b x = Some h3" "dom h3 = dom h2" "nx h3 = nx h2"
      "pv h3 = (pv h2)(b := x)" "\<And>c. c \<noteq> b \<Longrightarrow> h3 c = h2 c"
    using set_prev_dom [of b h2] new(1) h1(2) h2(2) by blast
  obtain h4 where h4: "set_next h3 x b = Some h4" "dom h4 = dom h3" "nx h4 = (nx h3)(x := b)"
      "pv h4 = pv h3" "\<And>c. c \<noteq> x \<Longrightarrow> h4 c = h3 c"
    using set_next_dom [of x h3] d h1(2) h2(2) h3(2) by blast
  have "list_replace h old b = Some h4"
    using h1 h2 h3 h4 d new(1) x y by (simp add: list_replace_def)
  moreover have "dlist h4 hp (xs @ b # ys)"
  proof -
    obtain hd' where del: "list_del_between h x y = Some hd'" "dlist hd' hp (xs @ ys)"
        "dom hd' = dom h"
      using list_del_between_law [OF L] x y by blast
    obtain ha where add: "list_add_between hd' b x y = Some ha" "dlist ha hp (xs @ b # ys)"
        "dom ha = dom hd'"
      using list_add_between_law [OF del(2), of b] new del(3) by (auto simp: x_def y_def)
    have "nx hd' = (nx h)(x := y)" "pv hd' = (pv h)(y := x)"
      using list_del_between_links [of x h y] d del(1) by auto
    moreover have "nx ha = (nx hd')(b := y, x := b)" "pv ha = (pv hd')(y := b, b := x)"
      using list_add_between_links [of b hd' x y] d(1,2) new(1) del(3) add(1) by auto
    ultimately have "nx ha = nx h4" and "pv ha = pv h4"
      using d(4-8) h1(3,4) h2(3,4) h3(3,4) h4(3,4) by simp_all
    then show ?thesis
      using add(2,3) del(3) h1(2) h2(2) h3(2) h4(2) dlist_links [of ha h4] by simp
  qed
  moreover have "dom h4 = dom h" using h1 h2 h3 h4 by simp
  moreover have fr: "h4 c = h c" if "c \<noteq> b" "c \<noteq> x" "c \<noteq> y" for c
    using that h1(5) h2(5) h3(5) h4(5) by simp
  moreover have "\<forall>c. c \<notin> set (hp # xs @ b # ys) \<longrightarrow> h4 c = h c"
    by (intro allI impI fr) (use mem in auto)
  ultimately show ?thesis by blast
qed

lemma list_replace_init_law [list_ops]:
  assumes "dlist h hp (xs @ old # ys)" and "b \<in> dom h" and "b \<notin> set (hp # xs @ old # ys)"
  shows "\<exists>h'. list_replace_init h old b = Some h' \<and> dlist h' hp (xs @ b # ys) \<and>
    dlist h' old [] \<and> dom h' = dom h"
proof -
  obtain h1 where h1: "list_replace h old b = Some h1" "dlist h1 hp (xs @ b # ys)"
      "dom h1 = dom h"
    using list_replace_law [OF assms] by blast
  have "old \<in> dom h" using assms(1) by (auto simp: dlist_def)
  then obtain h2 where h2: "INIT_LIST_HEAD h1 old = Some h2" "dlist h2 old []" "dom h2 = dom h1"
      "\<forall>c. c \<noteq> old \<longrightarrow> h2 c = h1 c"
    using INIT_LIST_HEAD_law [of old h1] h1(3) by blast
  have "dlist h2 hp (xs @ b # ys)"
    using h1(2) h2(4) not_in_own_list [OF assms(1)] assms(3)
    by (subst dlist_frame [of hp _ h2 h1]) auto
  with h1 h2 show ?thesis by (auto simp: list_replace_init_def)
qed

lemma last_not_butlast: "distinct xs \<Longrightarrow> last xs \<notin> set (butlast xs)"
  by (cases xs rule: rev_cases) auto

lemma hd_not_tl: "distinct xs \<Longrightarrow> hd xs \<notin> set (tl xs)"
  by (cases xs) auto

lemma chain_splice:
  assumes "chain n p (P @ Q)" and "chain n p xs" and ne: "P \<noteq> []" "Q \<noteq> []" "xs \<noteq> []"
    and d: "distinct P" "distinct Q" "distinct xs" and sep: "set xs \<inter> set (P @ Q) = {}"
    and PQ: "last P \<notin> set (butlast Q)" "hd Q \<notin> set (tl P)"
  shows "chain (n(last P := hd xs, last xs := hd Q)) (p(hd xs := last P, hd Q := last xs))
    (P @ xs @ Q)" (is "chain ?n ?p _")
proof -
  from assms(1) ne have c: "chain n p P" "chain n p Q" by (simp_all add: chain_join)
  have ends: "hd xs \<in> set xs" "last xs \<in> set xs" "last P \<in> set P" "hd Q \<in> set Q"
    using ne by simp_all
  have sub: "set (butlast P) \<subseteq> set P" "set (tl P) \<subseteq> set P" "set (butlast Q) \<subseteq> set Q"
    "set (tl Q) \<subseteq> set Q" "set (butlast xs) \<subseteq> set xs" "set (tl xs) \<subseteq> set xs"
    by (simp_all add: set_tl_subset) (auto dest: in_set_butlastD)
  have "chain ?n ?p P"
    by (rule chain_keep [OF c(1)])
      (use last_not_butlast [OF d(1)] ends sub sep PQ in \<open>auto simp: disjoint_iff\<close>)
  moreover have "chain ?n ?p Q"
    by (rule chain_keep [OF c(2)])
      (use hd_not_tl [OF d(2)] ends sub sep PQ in \<open>auto simp: disjoint_iff\<close>)
  moreover have "chain ?n ?p xs"
    by (rule chain_keep [OF assms(2)])
      (use last_not_butlast [OF d(3)] hd_not_tl [OF d(3)] ends sub sep in
        \<open>auto simp: disjoint_iff\<close>)
  moreover have "?n (last P) = hd xs" "?n (last xs) = hd Q" "?p (hd xs) = last P"
    "?p (hd Q) = last xs"
    using ends sep by auto
  ultimately show ?thesis using ne by (simp add: chain_join)
qed

text \<open>Splicing the nodes of the list \<open>lp\<close> between two neighbours of the list \<open>hp\<close>.\<close>

lemma list_splice_between_law:
  assumes L: "dlist h lp xs" and H: "dlist h hp (ys @ zs)" and "xs \<noteq> []"
    and sep: "set (lp # xs) \<inter> set (hp # ys @ zs) = {}"
  shows "\<exists>h'. list_splice_between h lp (last (hp # ys)) (hd (zs @ [hp])) = Some h' \<and>
    dlist h' hp (ys @ xs @ zs) \<and> dom h' = dom h \<and>
    (\<forall>c. c \<notin> set (hp # ys @ xs @ zs) \<longrightarrow> h' c = h c)"
proof -
  define x y f l where "x = last (hp # ys)" and "y = hd (zs @ [hp])" and "f = hd xs"
    and "l = last xs"
  have "x \<in> set (hp # ys)" unfolding x_def by (rule last_in_set) simp
  moreover have "y \<in> set (zs @ [hp])" unfolding y_def by (rule hd_in_set) simp
  ultimately have mem: "x \<in> set (hp # ys)" "y \<in> set (zs @ [hp])" "f \<in> set xs" "l \<in> set xs"
    unfolding f_def l_def using \<open>xs \<noteq> []\<close> by simp_all
  then have d: "x \<in> dom h" "y \<in> dom h" "f \<in> dom h" "l \<in> dom h"
    using L H by (auto simp: dlist_def)
  have ends: "get_next h lp = Some f" "get_prev h lp = Some l"
    using dlist_first [OF L] dlist_last [OF L] \<open>xs \<noteq> []\<close> by (simp_all add: f_def l_def)
  obtain h1 where h1: "set_prev h f x = Some h1" "dom h1 = dom h" "nx h1 = nx h"
      "pv h1 = (pv h)(f := x)" "\<And>c. c \<noteq> f \<Longrightarrow> h1 c = h c"
    using set_prev_dom [OF d(3)] by blast
  obtain h2 where h2: "set_next h1 x f = Some h2" "dom h2 = dom h1" "nx h2 = (nx h1)(x := f)"
      "pv h2 = pv h1" "\<And>c. c \<noteq> x \<Longrightarrow> h2 c = h1 c"
    using set_next_dom [of x h1] d h1(2) by blast
  obtain h3 where h3: "set_next h2 l y = Some h3" "dom h3 = dom h2" "nx h3 = (nx h2)(l := y)"
      "pv h3 = pv h2" "\<And>c. c \<noteq> l \<Longrightarrow> h3 c = h2 c"
    using set_next_dom [of l h2] d h1(2) h2(2) by blast
  obtain h4 where h4: "set_prev h3 y l = Some h4" "dom h4 = dom h3" "nx h4 = nx h3"
      "pv h4 = (pv h3)(y := l)" "\<And>c. c \<noteq> y \<Longrightarrow> h4 c = h3 c"
    using set_prev_dom [of y h3] d h1(2) h2(2) h3(2) by blast
  have "list_splice_between h lp x y = Some h4"
    using ends h1 h2 h3 h4 by (simp add: list_splice_between_def)
  moreover have "dlist h4 hp (ys @ xs @ zs)"
  proof -
    have H': "chain (nx h) (pv h) ((hp # ys) @ zs @ [hp])" using H by (simp add: dlist_def)
    have "chain (nx h) (pv h) ([lp] @ xs @ [lp])" using L by (simp add: dlist_def)
    then have L': "chain (nx h) (pv h) xs"
      using \<open>xs \<noteq> []\<close> by (simp only: chain_join list.distinct append_is_Nil_conv simp_thms)
    have dist: "distinct (hp # ys)" "distinct (zs @ [hp])" "set ys \<inter> set zs = {}" "distinct xs"
      "hp \<notin> set ys"
      using L H by (auto simp: dlist_def)
    have "x \<notin> set zs" and "y \<notin> set ys"
      using mem dist sep by auto
    then have "chain ((nx h)(x := f, l := y)) ((pv h)(f := x, y := l)) ((hp # ys) @ xs @ zs @ [hp])"
      unfolding x_def y_def f_def l_def
      using H' L' \<open>xs \<noteq> []\<close> dist(1,2,4) sep by (intro chain_splice) auto
    then have "chain (nx h4) (pv h4) (hp # (ys @ xs @ zs) @ [hp])"
      by (simp add: h1(3,4) h2(3,4) h3(3,4) h4(3,4))
    then show ?thesis
      using L H sep h1(2) h2(2) h3(2) h4(2) by (auto simp: dlist_def)
  qed
  moreover have "dom h4 = dom h" using h1 h2 h3 h4 by simp
  moreover have fr: "h4 c = h c" if "c \<noteq> f" "c \<noteq> x" "c \<noteq> y" "c \<noteq> l" for c
    using that h1(5) h2(5) h3(5) h4(5) by simp
  moreover have "\<forall>c. c \<notin> set (hp # ys @ xs @ zs) \<longrightarrow> h4 c = h c"
    by (intro allI impI fr) (use mem in auto)
  ultimately show ?thesis unfolding x_def y_def by blast
qed

lemma splice_other_list:
  assumes "dlist h lp xs" and "set (lp # xs) \<inter> set (hp # ys) = {}"
    and "\<forall>c. c \<notin> set (hp # xs @ ys) \<longrightarrow> h' c = h c"
  shows "h' lp = h lp"
  using assms by (auto simp: dlist_def)

lemma list_splice_law [list_ops]:
  assumes L: "dlist h lp xs" and H: "dlist h hp ys" and sep: "set (lp # xs) \<inter> set (hp # ys) = {}"
  shows "\<exists>h'. list_splice h lp hp = Some h' \<and> dlist h' hp (xs @ ys) \<and> dom h' = dom h \<and>
    (\<forall>c. c \<notin> set (hp # xs @ ys) \<longrightarrow> h' c = h c)"
proof (cases "xs = []")
  case True
  with L H show ?thesis by (simp add: list_splice_def list_empty_law)
next
  case False
  with list_splice_between_law [of h lp xs hp "[]" ys] L H sep dlist_first [OF H]
  show ?thesis by (simp add: list_splice_def list_empty_law [OF L])
qed

lemma list_splice_tail_law [list_ops]:
  assumes L: "dlist h lp xs" and H: "dlist h hp ys" and sep: "set (lp # xs) \<inter> set (hp # ys) = {}"
  shows "\<exists>h'. list_splice_tail h lp hp = Some h' \<and> dlist h' hp (ys @ xs) \<and> dom h' = dom h \<and>
    (\<forall>c. c \<notin> set (hp # ys @ xs) \<longrightarrow> h' c = h c)"
proof (cases "xs = []")
  case True
  with L H show ?thesis by (simp add: list_splice_tail_def list_empty_law)
next
  case False
  with list_splice_between_law [of h lp xs hp ys "[]"] L H sep dlist_last [OF H]
  show ?thesis by (simp add: list_splice_tail_def list_empty_law [OF L])
qed

lemma list_splice_init_law [list_ops]:
  assumes L: "dlist h lp xs" and H: "dlist h hp ys" and sep: "set (lp # xs) \<inter> set (hp # ys) = {}"
  shows "\<exists>h'. list_splice_init h lp hp = Some h' \<and> dlist h' hp (xs @ ys) \<and> dlist h' lp [] \<and>
    dom h' = dom h"
proof (cases "xs = []")
  case True
  with L H show ?thesis by (simp add: list_splice_init_def list_empty_law)
next
  case False
  then obtain h1 where h1: "list_splice_between h lp hp (hd (ys @ [hp])) = Some h1"
      "dlist h1 hp (xs @ ys)" "dom h1 = dom h"
    using list_splice_between_law [of h lp xs hp "[]" ys] L H sep by auto
  have "lp \<in> dom h1" and "lp \<notin> set (hp # xs @ ys)"
    using L sep h1(3) by (auto simp: dlist_def)
  then obtain h2 where h2: "INIT_LIST_HEAD h1 lp = Some h2" "dlist h2 lp []" "dom h2 = dom h1"
      "\<forall>c. c \<noteq> lp \<longrightarrow> h2 c = h1 c"
    using INIT_LIST_HEAD_law by blast
  have "dlist h2 hp (xs @ ys)"
    using h1(2) h2(4) \<open>lp \<notin> _\<close> by (subst dlist_frame [of hp _ h2 h1]) auto
  with False h1 h2 show ?thesis
    by (simp add: list_splice_init_def list_empty_law [OF L] dlist_first [OF H])
qed

lemma list_splice_tail_init_law [list_ops]:
  assumes L: "dlist h lp xs" and H: "dlist h hp ys" and sep: "set (lp # xs) \<inter> set (hp # ys) = {}"
  shows "\<exists>h'. list_splice_tail_init h lp hp = Some h' \<and> dlist h' hp (ys @ xs) \<and>
    dlist h' lp [] \<and> dom h' = dom h"
proof (cases "xs = []")
  case True
  with L H show ?thesis by (simp add: list_splice_tail_init_def list_empty_law)
next
  case False
  then obtain h1 where h1: "list_splice_between h lp (last (hp # ys)) hp = Some h1"
      "dlist h1 hp (ys @ xs)" "dom h1 = dom h"
    using list_splice_between_law [of h lp xs hp ys "[]"] L H sep by auto
  have "lp \<in> dom h1" and "lp \<notin> set (hp # ys @ xs)"
    using L sep h1(3) by (auto simp: dlist_def)
  then obtain h2 where h2: "INIT_LIST_HEAD h1 lp = Some h2" "dlist h2 lp []" "dom h2 = dom h1"
      "\<forall>c. c \<noteq> lp \<longrightarrow> h2 c = h1 c"
    using INIT_LIST_HEAD_law by blast
  have "dlist h2 hp (ys @ xs)"
    using h1(2) h2(4) \<open>lp \<notin> _\<close> by (subst dlist_frame [of hp _ h2 h1]) auto
  with False h1 h2 show ?thesis
    by (simp add: list_splice_tail_init_def list_empty_law [OF L] dlist_last [OF H])
qed

text \<open>
  Cutting a list after the node \<open>e\<close>: the nodes up to \<open>e\<close> move to the list \<open>lp\<close>, whose
  old links are overwritten.
\<close>

lemma chain_cut:
  assumes "chain n p (hp # as @ bs @ [hp])" and "as \<noteq> []"
    and d: "distinct (hp # as @ bs)" and lp: "lp \<notin> set (hp # as @ bs)"
  shows "chain (n(lp := hd as, last as := lp, hp := hd (bs @ [hp])))
      (p(hd as := lp, lp := last as, hd (bs @ [hp]) := hp)) (lp # as @ [lp])"
    and "chain (n(lp := hd as, last as := lp, hp := hd (bs @ [hp])))
      (p(hd as := lp, lp := last as, hd (bs @ [hp]) := hp)) (hp # bs @ [hp])"
    (is "chain ?n ?p _")
proof -
  from assms(1) have "chain n p ([hp] @ as @ (bs @ [hp]))" by simp
  then have c: "chain n p as" "chain n p (bs @ [hp])"
    using \<open>as \<noteq> []\<close> by (simp_all only: chain_join append_is_Nil_conv list.distinct simp_thms)
  have e: "hd as \<in> set as" "last as \<in> set as" "hd (bs @ [hp]) \<in> set (bs @ [hp])"
    using \<open>as \<noteq> []\<close> by (simp_all add: hd_append)
  have sub: "set (butlast as) \<subseteq> set as" "set (tl as) \<subseteq> set as" "set (tl (bs @ [hp])) \<subseteq> set (bs @ [hp])"
    by (simp_all only: set_tl_subset) (auto dest: in_set_butlastD)
  have "chain ?n ?p as"
    by (rule chain_keep [OF c(1)])
      (use last_not_butlast [of as] hd_not_tl [of as] e sub d lp in auto)
  moreover have B: "chain ?n ?p (bs @ [hp])"
    by (rule chain_keep [OF c(2)])
      (use hd_not_tl [of "bs @ [hp]"] e sub d lp in auto)
  moreover have "?n lp = hd as" "?p (hd as) = lp" "?n (last as) = lp" "?p lp = last as"
    "?n hp = hd (bs @ [hp])" "?p (hd (bs @ [hp])) = hp"
    using e d lp by auto
  ultimately show "chain ?n ?p (lp # as @ [lp])" and "chain ?n ?p (hp # bs @ [hp])"
    using chain_join [of "[lp]" "as @ [lp]" ?n ?p] chain_join [of as "[lp]" ?n ?p] \<open>as \<noteq> []\<close>
      chain_join [of "[hp]" "bs @ [hp]" ?n ?p]
    by simp_all
qed

lemma list_cut_at_law:
  assumes H: "dlist h hp (xs @ e # ys)" and lp: "lp \<in> dom h" "lp \<notin> set (hp # xs @ e # ys)"
  shows "\<exists>h'. list_cut_at h lp hp e = Some h' \<and> dlist h' lp (xs @ [e]) \<and> dlist h' hp ys \<and>
    dom h' = dom h"
proof -
  define f y where "f = hd (xs @ [e])" and "y = hd (ys @ [hp])"
  have f: "nx h hp = f" and y: "nx h e = y"
    using dlist_neighbours(1) [of h hp "[]" "xs @ e # ys"]
      dlist_neighbours(1) [of h hp "xs @ [e]" ys] H
    by (simp_all add: f_def y_def hd_append)
  have "f \<in> set (xs @ [e])" and "y \<in> set (ys @ [hp])"
    unfolding f_def y_def by (simp_all only: hd_in_set append_is_Nil_conv list.distinct simp_thms)
  then have d: "f \<in> dom h" "y \<in> dom h" "hp \<in> dom h" "e \<in> dom h" "lp \<noteq> hp" "lp \<noteq> e" "lp \<noteq> f"
      "e \<noteq> hp"
    using H lp by (auto simp: dlist_def)
  obtain h1 where h1: "set_next h lp f = Some h1" "dom h1 = dom h" "nx h1 = (nx h)(lp := f)"
      "pv h1 = pv h" "\<And>c. c \<noteq> lp \<Longrightarrow> h1 c = h c"
    by (rule set_next_dom [OF lp(1)]) blast
  have m1: "f \<in> dom h1" using d(1-4) lp(1) by (simp only: h1(2))
  obtain h2 where h2: "set_prev h1 f lp = Some h2" "dom h2 = dom h1" "nx h2 = nx h1"
      "pv h2 = (pv h1)(f := lp)" "\<And>c. c \<noteq> f \<Longrightarrow> h2 c = h1 c"
    by (rule set_prev_dom [OF m1]) blast
  have m2: "lp \<in> dom h2" using d(1-4) lp(1) by (simp only: h1(2) h2(2))
  obtain h3 where h3: "set_prev h2 lp e = Some h3" "dom h3 = dom h2" "nx h3 = nx h2"
      "pv h3 = (pv h2)(lp := e)" "\<And>c. c \<noteq> lp \<Longrightarrow> h3 c = h2 c"
    by (rule set_prev_dom [OF m2]) blast
  have m3: "e \<in> dom h3" using d(1-4) lp(1) by (simp only: h1(2) h2(2) h3(2))
  obtain h4 where h4: "set_next h3 e lp = Some h4" "dom h4 = dom h3" "nx h4 = (nx h3)(e := lp)"
      "pv h4 = pv h3" "\<And>c. c \<noteq> e \<Longrightarrow> h4 c = h3 c"
    by (rule set_next_dom [OF m3]) blast
  have m4: "hp \<in> dom h4" using d(1-4) lp(1) by (simp only: h1(2) h2(2) h3(2) h4(2))
  obtain h5 where h5: "set_next h4 hp y = Some h5" "dom h5 = dom h4" "nx h5 = (nx h4)(hp := y)"
      "pv h5 = pv h4" "\<And>c. c \<noteq> hp \<Longrightarrow> h5 c = h4 c"
    by (rule set_next_dom [OF m4]) blast
  have m5: "y \<in> dom h5" using d(1-4) lp(1) by (simp only: h1(2) h2(2) h3(2) h4(2) h5(2))
  obtain h6 where h6: "set_prev h5 y hp = Some h6" "dom h6 = dom h5" "nx h6 = nx h5"
      "pv h6 = (pv h5)(y := hp)" "\<And>c. c \<noteq> y \<Longrightarrow> h6 c = h5 c"
    by (rule set_prev_dom [OF m5]) blast
  have res: "list_cut_at h lp hp e = Some h6"
    using h1(1,2,3) h2(1) h3(1) h4(1) h5(1) h6(1) d lp(1) f y by (simp add: list_cut_at_def)
  have dm: "dom h6 = dom h" using h1(2) h2(2) h3(2) h4(2) h5(2) h6(2) by simp
  have links: "nx h6 = (nx h)(lp := f, e := lp, hp := y)"
    "pv h6 = (pv h)(f := lp, lp := e, y := hp)"
    by (simp_all only: h1(3,4) h2(3,4) h3(3,4) h4(3,4) h5(3,4) h6(3,4))
  have c: "chain (nx h) (pv h) (hp # (xs @ [e]) @ ys @ [hp])"
    using H by (simp add: dlist_def)
  have "chain (nx h6) (pv h6) (lp # (xs @ [e]) @ [lp])"
    and "chain (nx h6) (pv h6) (hp # ys @ [hp])"
    using chain_cut [OF c, of lp] H lp(2) unfolding links f_def y_def
    by (simp_all add: dlist_def)
  moreover have "distinct (lp # xs @ [e])" "distinct (hp # ys)" "set (lp # xs @ [e]) \<subseteq> dom h"
    "set (hp # ys) \<subseteq> dom h"
    using H lp by (auto simp: dlist_def)
  ultimately have "dlist h6 lp (xs @ [e])" and "dlist h6 hp ys"
    by (simp_all add: dlist_def dm)
  then show ?thesis using res dm by blast
qed

lemma list_cut_position_law [list_ops]:
  assumes H: "dlist h hp (xs @ e # ys)" and lp: "lp \<in> dom h" "lp \<notin> set (hp # xs @ e # ys)"
  shows "\<exists>h'. list_cut_position h lp hp e = Some h' \<and> dlist h' lp (xs @ [e]) \<and>
    dlist h' hp ys \<and> dom h' = dom h"
proof -
  have "e \<noteq> hp" using H by (auto simp: dlist_def)
  moreover have "length (xs @ e # ys) = 1 \<longrightarrow> hd ((xs @ e # ys) @ [hp]) = e"
    by (cases xs) auto
  ultimately show ?thesis
    using list_cut_at_law [OF assms] list_empty_law [OF H] list_is_singular_law [OF H]
      dlist_first [OF H]
    by (auto simp: list_cut_position_def)
qed

end
