(* ===== verification/Bit_Queue.thy ===== *)
theory Bit_Queue
  imports Binary_Buffer Linked_List
begin

text \<open>
  The queue of delayed bit copies of \<^verbatim>\<open>openocd/src/helper/binarybuffer.c\<close>
  (\<open>bit_copy_queue_init\<close> to \<open>bit_copy_discard\<close>).

  An entry is allocated with \<open>malloc\<close> and linked into the list through its embedded
  \<open>list_head\<close>; the model identifies an entry with the address of that node. A queue heap
  has the links, the other fields of the live entries, the next address \<open>malloc\<close> returns and
  the number of allocations it can still serve before it returns \<open>NULL\<close>; \<open>free\<close> takes the
  entry out of the heap, so that a use after free or a double free has no continuation.

  The locale \<open>copy_queue\<close> is the contract that the MPSSE layer relies on: a first-in first-out
  queue of copies. Its interpretation on the code's operations rests on the laws of
  \<open>Linked_List\<close>.
\<close>

definition ERROR_OK :: int where "ERROR_OK = 0"
definition ERROR_FAIL :: int where "ERROR_FAIL = - 4"

lemma error_codes [simp]: "ERROR_OK \<noteq> ERROR_FAIL" "ERROR_FAIL \<noteq> ERROR_OK"
  by (simp_all add: ERROR_OK_def ERROR_FAIL_def)

record bit_copy_queue_entry =
  dst :: ptr
  dst_offset :: nat
  src :: ptr
  src_offset :: nat
  bit_count :: nat

record copy_heap =
  links :: lheap
  ents :: "nat \<rightharpoonup> bit_copy_queue_entry"
  fresh :: nat
  room :: nat

definition free_entry :: "copy_heap \<Rightarrow> nat \<Rightarrow> copy_heap option" where
  "free_entry s qe =
     (case ents s qe of None \<Rightarrow> None
      | Some _ \<Rightarrow> Some (s\<lparr>links := (links s)(qe := None), ents := (ents s)(qe := None),
                          room := room s + 1\<rparr>))"

section \<open>The operations\<close>

definition bit_copy_queue_init :: "nat \<Rightarrow> copy_heap \<Rightarrow> copy_heap option" where
  "bit_copy_queue_init q s = do {
     l \<leftarrow> INIT_LIST_HEAD (links s) q;
     Some (s\<lparr>links := l\<rparr>)
   }"

definition bit_copy_queued ::
    "nat \<Rightarrow> ptr \<Rightarrow> nat \<Rightarrow> ptr \<Rightarrow> nat \<Rightarrow> nat \<Rightarrow> copy_heap \<Rightarrow> (int \<times> copy_heap) option" where
  "bit_copy_queued q d d_off sp s_off n s =
     (if room s = 0 then Some (ERROR_FAIL, s)
      else
        let qe = fresh s;
            e = \<lparr>dst = d, dst_offset = d_off, src = sp, src_offset = s_off, bit_count = n\<rparr>;
            s = s\<lparr>links := (links s)(qe \<mapsto> \<lparr>nxt = 0, prv = 0\<rparr>), ents := (ents s)(qe \<mapsto> e),
                  fresh := fresh s + 1, room := room s - 1\<rparr>
        in do {
          l \<leftarrow> list_add_tail (links s) qe q;
          Some (ERROR_OK, s\<lparr>links := l\<rparr>)
        })"

text \<open>
  The two loops are \<open>list_for_each_entry_safe\<close>: the successor is read before the body, which
  unlinks and frees the current entry.
\<close>

partial_function (option) bit_copy_execute_loop ::
    "nat \<Rightarrow> nat \<Rightarrow> nat \<Rightarrow> mem \<Rightarrow> copy_heap \<Rightarrow> (mem \<times> copy_heap) option" where
  "bit_copy_execute_loop q qe tmp m s =
     (if qe = q then Some (m, s)
      else do {
        e \<leftarrow> ents s qe;
        m \<leftarrow> bit_copy m (dst e) (dst_offset e) (src e) (src_offset e) (bit_count e);
        l \<leftarrow> list_del (links s) qe;
        s \<leftarrow> free_entry (s\<lparr>links := l\<rparr>) qe;
        tmp' \<leftarrow> get_next (links s) tmp;
        bit_copy_execute_loop q tmp tmp' m s
      })"

definition bit_copy_execute :: "nat \<Rightarrow> mem \<Rightarrow> copy_heap \<Rightarrow> (mem \<times> copy_heap) option" where
  "bit_copy_execute q m s = do {
     qe \<leftarrow> get_next (links s) q;
     tmp \<leftarrow> get_next (links s) qe;
     bit_copy_execute_loop q qe tmp m s
   }"

partial_function (option) bit_copy_discard_loop ::
    "nat \<Rightarrow> nat \<Rightarrow> nat \<Rightarrow> copy_heap \<Rightarrow> copy_heap option" where
  "bit_copy_discard_loop q qe tmp s =
     (if qe = q then Some s
      else do {
        l \<leftarrow> list_del (links s) qe;
        s \<leftarrow> free_entry (s\<lparr>links := l\<rparr>) qe;
        tmp' \<leftarrow> get_next (links s) tmp;
        bit_copy_discard_loop q tmp tmp' s
      })"

definition bit_copy_discard :: "nat \<Rightarrow> copy_heap \<Rightarrow> copy_heap option" where
  "bit_copy_discard q s = do {
     qe \<leftarrow> get_next (links s) q;
     tmp \<leftarrow> get_next (links s) qe;
     bit_copy_discard_loop q qe tmp s
   }"

section \<open>The contract\<close>

text \<open>The copies of a list of entries, in order.\<close>

fun run_copies :: "mem \<Rightarrow> bit_copy_queue_entry list \<Rightarrow> mem option" where
  "run_copies m [] = Some m"
| "run_copies m (e # es) = do {
     m \<leftarrow> bit_copy m (dst e) (dst_offset e) (src e) (src_offset e) (bit_count e);
     run_copies m es
   }"

lemma run_copies_append:
  "run_copies m (es @ fs) = do { m \<leftarrow> run_copies m es; run_copies m fs }"
proof (induction es arbitrary: m)
  case Nil
  then show ?case by simp
next
  case (Cons e es)
  then show ?case by (auto split: bind_splits)
qed

text \<open>
  \<open>rep s es\<close>: the state \<open>s\<close> holds the copies \<open>es\<close>, oldest first; \<open>left s\<close> allocations
  can still be served.
\<close>

locale copy_queue =
  fixes rep :: "'s \<Rightarrow> bit_copy_queue_entry list \<Rightarrow> bool"
    and left :: "'s \<Rightarrow> nat"
    and enq :: "bit_copy_queue_entry \<Rightarrow> 's \<Rightarrow> (int \<times> 's) option"
    and exec :: "mem \<Rightarrow> 's \<Rightarrow> (mem \<times> 's) option"
    and disc :: "'s \<Rightarrow> 's option"
  assumes enq_ok: "rep s es \<Longrightarrow> 0 < left s \<Longrightarrow>
      \<exists>s'. enq e s = Some (ERROR_OK, s') \<and> rep s' (es @ [e]) \<and> left s' = left s - 1"
    and enq_fail: "rep s es \<Longrightarrow> left s = 0 \<Longrightarrow> enq e s = Some (ERROR_FAIL, s)"
    and exec_rep: "rep s es \<Longrightarrow> run_copies m es = Some m' \<Longrightarrow>
      \<exists>s'. exec m s = Some (m', s') \<and> rep s' [] \<and> left s' = left s + length es"
    and disc_rep: "rep s es \<Longrightarrow> \<exists>s'. disc s = Some s' \<and> rep s' [] \<and> left s' = left s + length es"
begin

fun enq_all :: "bit_copy_queue_entry list \<Rightarrow> 's \<Rightarrow> 's option" where
  "enq_all [] s = Some s"
| "enq_all (e # es) s = do { (_, s) \<leftarrow> enq e s; enq_all es s }"

lemma enq_total: "rep s es \<Longrightarrow> \<exists>rc s' es'. enq e s = Some (rc, s') \<and> rep s' es' \<and>
    (es' = es @ [e] \<or> es' = es)"
  using enq_ok enq_fail by (cases "left s") (metis zero_less_Suc)+

lemma enq_all_rep:
  "rep s es \<Longrightarrow> length fs \<le> left s \<Longrightarrow>
    \<exists>s'. enq_all fs s = Some s' \<and> rep s' (es @ fs) \<and> left s' = left s - length fs"
proof (induction fs arbitrary: s es)
  case Nil
  then show ?case by simp
next
  case (Cons e fs)
  then obtain s1 where s1: "enq e s = Some (ERROR_OK, s1)" "rep s1 (es @ [e])"
      "left s1 = left s - 1"
    using enq_ok [of s es e] by auto
  then obtain s2 where "enq_all fs s1 = Some s2" "rep s2 ((es @ [e]) @ fs)"
      "left s2 = left s1 - length fs"
    using Cons.IH [of s1 "es @ [e]"] Cons.prems by fastforce
  with s1 show ?case by simp
qed

text \<open>Queueing some copies and executing them is running them in order, and gives the memory back.\<close>

lemma enq_all_exec:
  assumes "rep s []" and "length fs \<le> left s" and "run_copies m fs = Some m'"
  shows "\<exists>s1 s2. enq_all fs s = Some s1 \<and> exec m s1 = Some (m', s2) \<and> rep s2 [] \<and>
    left s2 = left s"
proof -
  obtain s1 where s1: "enq_all fs s = Some s1" "rep s1 fs" "left s1 = left s - length fs"
    using enq_all_rep [OF assms(1,2)] by auto
  with exec_rep [OF s1(2) assms(3)] assms(2) show ?thesis by auto
qed

end

section \<open>The code's queue meets the contract\<close>

definition queue_of :: "nat \<Rightarrow> copy_heap \<Rightarrow> bit_copy_queue_entry list \<Rightarrow> bool" where
  "queue_of q s es \<longleftrightarrow> (\<exists>as. dlist (links s) q as \<and> map (ents s) as = map Some es \<and>
     dom (links s) = set (q # as) \<and> dom (ents s) = set as \<and>
     (\<forall>a \<in> set (q # as). a < fresh s))"

lemma queue_init:
  assumes "dom (links s) = {q}" and "ents s = Map.empty" and "q < fresh s"
  shows "\<exists>s'. bit_copy_queue_init q s = Some s' \<and> queue_of q s' [] \<and> room s' = room s"
proof -
  obtain l where "INIT_LIST_HEAD (links s) q = Some l" "dlist l q []" "dom l = dom (links s)"
    using INIT_LIST_HEAD_law [of q "links s"] assms(1) by auto
  with assms show ?thesis
    by (auto simp: bit_copy_queue_init_def queue_of_def intro!: exI [of _ "[]"])
qed

definition queued :: "nat \<Rightarrow> bit_copy_queue_entry \<Rightarrow> copy_heap \<Rightarrow> (int \<times> copy_heap) option" where
  "queued q e s = bit_copy_queued q (dst e) (dst_offset e) (src e) (src_offset e) (bit_count e) s"

lemma queued_ok:
  assumes "queue_of q s es" and "0 < room s"
  shows "\<exists>s'. queued q e s = Some (ERROR_OK, s') \<and> queue_of q s' (es @ [e]) \<and>
    room s' = room s - 1"
proof -
  from assms(1) obtain as where L: "dlist (links s) q as" and E: "map (ents s) as = map Some es"
    and D: "dom (links s) = set (q # as)" "dom (ents s) = set as"
    and F: "\<forall>a \<in> set (q # as). a < fresh s"
    unfolding queue_of_def by blast
  let ?l = "(links s)(fresh s \<mapsto> \<lparr>nxt = 0, prv = 0\<rparr>)"
  have n: "fresh s \<notin> set (q # as)" using F by blast
  have "dlist ?l q as"
    using L n by (subst dlist_frame [of q as ?l "links s"]) auto
  then obtain l where l: "list_add_tail ?l (fresh s) q = Some l" "dlist l q (as @ [fresh s])"
      "dom l = dom ?l"
    using list_add_tail_law [of ?l q as "fresh s"] n by auto
  let ?s = "s\<lparr>links := l, ents := (ents s)(fresh s \<mapsto> e), fresh := fresh s + 1, room := room s - 1\<rparr>"
  have "map ((ents s)(fresh s \<mapsto> e)) (as @ [fresh s]) = map Some (es @ [e])"
    using n E by (auto simp flip: E)
  moreover have "dom l = set (q # as @ [fresh s])" using l(3) D(1) by (auto simp del: fun_upd_apply)
  moreover have "dom ((ents s)(fresh s \<mapsto> e)) = set (as @ [fresh s])"
    using D(2) by (auto simp del: fun_upd_apply)
  moreover note l(2)
  ultimately have "queue_of q ?s (es @ [e])"
    unfolding queue_of_def using F
    by (intro exI [of _ "as @ [fresh s]"]) (auto simp del: fun_upd_apply simp: less_Suc_eq)
  moreover have "queued q e s = Some (ERROR_OK, ?s)"
    using l(1) assms(2) by (cases e) (simp add: queued_def bit_copy_queued_def Let_def)
  ultimately show ?thesis by auto
qed

lemma queued_fail: "room s = 0 \<Longrightarrow> queued q e s = Some (ERROR_FAIL, s)"
  by (simp add: queued_def bit_copy_queued_def)

text \<open>Unlinking and freeing the first entry.\<close>

lemma free_first:
  assumes "dlist (links s) q (a # as)" and "map (ents s) (a # as) = map Some (e # es)"
    and "dom (links s) = set (q # a # as)" and "dom (ents s) = set (a # as)"
  shows "\<exists>l s'. list_del (links s) a = Some l \<and> free_entry (s\<lparr>links := l\<rparr>) a = Some s' \<and>
    dlist (links s') q as \<and> map (ents s') as = map Some es \<and> dom (links s') = set (q # as) \<and>
    dom (ents s') = set as \<and> fresh s' = fresh s \<and> room s' = room s + 1"
proof -
  obtain l where l: "list_del (links s) a = Some l" "dlist l q as" "dom l = dom (links s)"
    using list_del_law [of "links s" q "[]" a as] assms(1) by auto
  have a: "a \<notin> set (q # as)" using assms(1) by (auto simp: dlist_def)
  have "dlist (l(a := None)) q as"
    using l(2) a by (subst dlist_frame [of q as _ l]) auto
  moreover have "map ((ents s)(a := None)) as = map Some es"
    using assms(2) a by (auto simp: map_eq_conv [symmetric])
  moreover have "ents s a = Some e" using assms(2) by simp
  ultimately show ?thesis
    using l a assms(3,4) by (auto simp: free_entry_def)
qed

lemma next_of_first: "dlist h q (a # as) \<Longrightarrow> get_next h a = Some (hd (as @ [q]))"
  using dlist_neighbours(1) [of h q "[a]" as] dlist_dom [of h q "a # as" a] by simp

lemma execute_loop:
  assumes "dlist (links s) q as" and "map (ents s) as = map Some es"
    and "dom (links s) = set (q # as)" and "dom (ents s) = set as"
    and "get_next (links s) (hd (as @ [q])) = Some tmp" and "run_copies m es = Some m'"
  shows "\<exists>s'. bit_copy_execute_loop q (hd (as @ [q])) tmp m s = Some (m', s') \<and>
    dlist (links s') q [] \<and> dom (links s') = {q} \<and> dom (ents s') = {} \<and>
    fresh s' = fresh s \<and> room s' = room s + length es"
  using assms
proof (induction as arbitrary: s es m tmp)
  case Nil
  then show ?case by (simp add: bit_copy_execute_loop.simps)
next
  case (Cons a as)
  then obtain e es' where es: "es = e # es'" by auto
  obtain m1 where m1: "bit_copy m (dst e) (dst_offset e) (src e) (src_offset e) (bit_count e) = Some m1"
      "run_copies m1 es' = Some m'"
    using Cons.prems(6) es by (auto split: bind_splits)
  obtain l s1 where s1: "list_del (links s) a = Some l" "free_entry (s\<lparr>links := l\<rparr>) a = Some s1"
      "dlist (links s1) q as" "map (ents s1) as = map Some es'" "dom (links s1) = set (q # as)"
      "dom (ents s1) = set as" "fresh s1 = fresh s" "room s1 = room s + 1"
    using free_first [of s q a as e es'] Cons.prems es by auto
  have tmp: "tmp = hd (as @ [q])"
    using Cons.prems(1,5) by (simp add: next_of_first)
  have "hd (as @ [q]) \<in> set (q # as)" by (cases as) auto
  then obtain tmp' where tmp': "get_next (links s1) (hd (as @ [q])) = Some tmp'"
    using s1(5) by (metis get_next_dom)
  have "a \<noteq> q" "ents s a = Some e" using Cons.prems(1,2) es by (auto simp: dlist_def)
  with Cons.IH [OF s1(3-6) tmp' m1(2)] show ?case
    using m1 s1 tmp tmp' es by (auto simp: bit_copy_execute_loop.simps [of q a])
qed

lemma execute_rep:
  assumes "queue_of q s es" and "run_copies m es = Some m'"
  shows "\<exists>s'. bit_copy_execute q m s = Some (m', s') \<and> queue_of q s' [] \<and>
    room s' = room s + length es"
proof -
  from assms(1) obtain as where L: "dlist (links s) q as" and E: "map (ents s) as = map Some es"
    and D: "dom (links s) = set (q # as)" "dom (ents s) = set as"
    and F: "\<forall>a \<in> set (q # as). a < fresh s"
    unfolding queue_of_def by blast
  have "hd (as @ [q]) \<in> dom (links s)" using D(1) by (cases as) auto
  then obtain tmp where "get_next (links s) (hd (as @ [q])) = Some tmp" by simp
  with execute_loop [OF L E D this assms(2)] F show ?thesis
    by (auto simp: bit_copy_execute_def dlist_first [OF L] queue_of_def intro!: exI [of _ "[]"])
qed

lemma discard_loop:
  assumes "dlist (links s) q as" and "map (ents s) as = map Some es"
    and "dom (links s) = set (q # as)" and "dom (ents s) = set as"
    and "get_next (links s) (hd (as @ [q])) = Some tmp"
  shows "\<exists>s'. bit_copy_discard_loop q (hd (as @ [q])) tmp s = Some s' \<and>
    dlist (links s') q [] \<and> dom (links s') = {q} \<and> dom (ents s') = {} \<and>
    fresh s' = fresh s \<and> room s' = room s + length es"
  using assms
proof (induction as arbitrary: s es tmp)
  case Nil
  then show ?case by (simp add: bit_copy_discard_loop.simps)
next
  case (Cons a as)
  then obtain e es' where es: "es = e # es'" by auto
  obtain l s1 where s1: "list_del (links s) a = Some l" "free_entry (s\<lparr>links := l\<rparr>) a = Some s1"
      "dlist (links s1) q as" "map (ents s1) as = map Some es'" "dom (links s1) = set (q # as)"
      "dom (ents s1) = set as" "fresh s1 = fresh s" "room s1 = room s + 1"
    using free_first [of s q a as e es'] Cons.prems es by auto
  have tmp: "tmp = hd (as @ [q])"
    using Cons.prems(1,5) by (simp add: next_of_first)
  have "hd (as @ [q]) \<in> set (q # as)" by (cases as) auto
  then obtain tmp' where tmp': "get_next (links s1) (hd (as @ [q])) = Some tmp'"
    using s1(5) by (metis get_next_dom)
  have "a \<noteq> q" using Cons.prems(1) by (auto simp: dlist_def)
  with Cons.IH [OF s1(3-6) tmp'] show ?case
    using s1 tmp tmp' es by (auto simp: bit_copy_discard_loop.simps [of q a])
qed

lemma discard_rep:
  assumes "queue_of q s es"
  shows "\<exists>s'. bit_copy_discard q s = Some s' \<and> queue_of q s' [] \<and> room s' = room s + length es"
proof -
  from assms obtain as where L: "dlist (links s) q as" and E: "map (ents s) as = map Some es"
    and D: "dom (links s) = set (q # as)" "dom (ents s) = set as"
    and F: "\<forall>a \<in> set (q # as). a < fresh s"
    unfolding queue_of_def by blast
  have "hd (as @ [q]) \<in> dom (links s)" using D(1) by (cases as) auto
  then obtain tmp where "get_next (links s) (hd (as @ [q])) = Some tmp" by simp
  with discard_loop [OF L E D this] F show ?thesis
    by (auto simp: bit_copy_discard_def dlist_first [OF L] queue_of_def intro!: exI [of _ "[]"])
qed

interpretation bcq: copy_queue "queue_of q" room "queued q" "bit_copy_execute q" "bit_copy_discard q"
  for q
  by unfold_locales (rule queued_ok queued_fail execute_rep discard_rep; assumption)+

end
