(* ===== verification/Time_Support.thy ===== *)
theory Time_Support
  imports Complex_Main
begin

text \<open>
  \<^verbatim>\<open>openocd/src/helper/time_support.c\<close>: differences and sums of \<open>struct timeval\<close>.
  \<open>total t\<close> is the time in microseconds; a normalised time has its microseconds below one
  million. \<open>long\<close> and \<open>int\<close> are unbounded here: the quotients of the code fit an \<open>int\<close> for all
  times that a clock returns. \<open>gettimeofday\<close> is a parameter; its result is stored when it reports
  success. The two functions that give a duration as a floating point number are left out.
\<close>

record timeval =
  tv_sec :: int
  tv_usec :: int

text \<open>The function also writes to its third argument; the result is returned with it.\<close>

definition timeval_subtract :: "timeval \<Rightarrow> timeval \<Rightarrow> int \<times> timeval \<times> timeval" where
  "timeval_subtract x y =
     (let y = (if tv_usec x < tv_usec y
               then let nsec = (tv_usec y - tv_usec x) div 1000000 + 1
                    in y\<lparr>tv_usec := tv_usec y - 1000000 * nsec, tv_sec := tv_sec y + nsec\<rparr>
               else y);
          y = (if tv_usec x - tv_usec y > 1000000
               then let nsec = (tv_usec x - tv_usec y) div 1000000
                    in y\<lparr>tv_usec := tv_usec y + 1000000 * nsec, tv_sec := tv_sec y - nsec\<rparr>
               else y)
      in (if tv_sec x < tv_sec y then 1 else 0,
          \<lparr>tv_sec = tv_sec x - tv_sec y, tv_usec = tv_usec x - tv_usec y\<rparr>, y))"

function carry_usec :: "timeval \<Rightarrow> timeval" where
  "carry_usec t =
     (if tv_usec t > 1000000
      then carry_usec \<lparr>tv_sec = tv_sec t + 1, tv_usec = tv_usec t - 1000000\<rparr>
      else t)"
  by pat_completeness auto
termination by (relation "measure (\<lambda>t. nat (tv_usec t))") auto

declare carry_usec.simps [simp del]

definition timeval_add_time :: "timeval \<Rightarrow> int \<Rightarrow> int \<Rightarrow> int \<times> timeval" where
  "timeval_add_time t sec usec =
     (0, carry_usec (t\<lparr>tv_sec := tv_sec t + sec, tv_usec := tv_usec t + usec\<rparr>))"

record duration =
  start_time :: timeval
  elapsed :: timeval

definition duration_start ::
    "('c \<Rightarrow> int \<times> timeval \<times> 'c) \<Rightarrow> duration \<Rightarrow> 'c \<Rightarrow> int \<times> duration \<times> 'c" where
  "duration_start gettimeofday d w =
     (let (rc, now, w) = gettimeofday w
      in (rc, if rc = 0 then d\<lparr>start_time := now\<rparr> else d, w))"

text \<open>The subtraction may rewrite the start time as well.\<close>

definition duration_measure ::
    "('c \<Rightarrow> int \<times> timeval \<times> 'c) \<Rightarrow> duration \<Rightarrow> 'c \<Rightarrow> int \<times> duration \<times> 'c" where
  "duration_measure gettimeofday d w =
     (let (rc, now, w) = gettimeofday w
      in (rc,
          if rc = 0
          then let (_, e, s) = timeval_subtract now (start_time d) in d\<lparr>elapsed := e, start_time := s\<rparr>
          else d, w))"

section \<open>Laws\<close>

definition total :: "timeval \<Rightarrow> int" where
  "total t = 1000000 * tv_sec t + tv_usec t"

definition normalised :: "timeval \<Rightarrow> bool" where
  "normalised t \<longleftrightarrow> 0 \<le> tv_usec t \<and> tv_usec t < 1000000"

lemma timeval_subtract_total:
  "total (fst (snd (timeval_subtract x y))) = total x - total y"
  "total (snd (snd (timeval_subtract x y))) = total y"
  by (simp_all add: timeval_subtract_def total_def Let_def algebra_simps)

lemma timeval_subtract_known:
  assumes "normalised x" and "normalised y"
  shows "timeval_subtract x y =
    (if tv_usec x < tv_usec y
     then (if tv_sec x < tv_sec y + 1 then 1 else 0,
       \<lparr>tv_sec = tv_sec x - tv_sec y - 1, tv_usec = tv_usec x - tv_usec y + 1000000\<rparr>,
       y\<lparr>tv_usec := tv_usec y - 1000000, tv_sec := tv_sec y + 1\<rparr>)
     else (if tv_sec x < tv_sec y then 1 else 0,
       \<lparr>tv_sec = tv_sec x - tv_sec y, tv_usec = tv_usec x - tv_usec y\<rparr>, y))"
proof -
  have "(tv_usec y - tv_usec x) div 1000000 = 0" if "tv_usec x < tv_usec y"
    using that assms by (intro div_pos_pos_trivial) (simp_all add: normalised_def)
  with assms show ?thesis by (auto simp: timeval_subtract_def normalised_def Let_def)
qed

lemma timeval_subtract_law:
  assumes "normalised x" and "normalised y"
  shows "normalised (fst (snd (timeval_subtract x y)))"
    and "fst (timeval_subtract x y) = (if total x < total y then 1 else 0)"
  using assms by (auto simp: timeval_subtract_known normalised_def total_def)

lemma carry_usec_total: "total (carry_usec t) = total t"
  by (induction t rule: carry_usec.induct) (subst carry_usec.simps, simp add: total_def)

lemma carry_usec_bounds: "0 \<le> tv_usec t \<Longrightarrow> 0 \<le> tv_usec (carry_usec t) \<and> tv_usec (carry_usec t) \<le> 1000000"
  by (induction t rule: carry_usec.induct) (subst (1 2) carry_usec.simps, simp)

lemma timeval_add_time_law:
  assumes "normalised t" and "0 \<le> usec"
  shows "total (snd (timeval_add_time t sec usec)) = total t + 1000000 * sec + usec"
    and "0 \<le> tv_usec (snd (timeval_add_time t sec usec))"
    and "tv_usec (snd (timeval_add_time t sec usec)) \<le> 1000000"
  using assms carry_usec_bounds [of "t\<lparr>tv_sec := tv_sec t + sec, tv_usec := tv_usec t + usec\<rparr>"]
  by (simp_all add: timeval_add_time_def carry_usec_total normalised_def) (simp add: total_def)

text \<open>The carry is missed when the sum is exactly one second.\<close>

lemma timeval_add_time_carry:
  assumes "tv_usec t + usec = 1000000"
  shows "\<not> normalised (snd (timeval_add_time t sec usec))"
  using assms by (simp add: timeval_add_time_def carry_usec.simps normalised_def)

text \<open>
  \<open>timeval_add_time\<close> adds exactly, but carries one microsecond too late: a sum of exactly one
  second of microseconds is left as \<open>tv_usec = 1000000\<close>, which is not a normalised time.
\<close>

lemma timeval_add_time_off_by_one:
  assumes "normalised t" and "0 \<le> usec"
  shows "total (snd (timeval_add_time t sec usec)) = total t + 1000000 * sec + usec \<and>
    tv_usec (snd (timeval_add_time t sec usec)) \<le> 1000000 \<and>
    (tv_usec t + usec = 1000000 \<longrightarrow> \<not> normalised (snd (timeval_add_time t sec usec)))"
  using timeval_add_time_law [OF assms, of sec] timeval_add_time_carry [of t usec sec] by simp

text \<open>
  A measurement gives the time since the start, also the second and later ones: the start is
  rewritten, but stays the same time. When the clock fails nothing changes.
\<close>

lemma timeval_subtract_normal:
  assumes "normalised x" shows "0 \<le> tv_usec (fst (snd (timeval_subtract x y)))"
    and "tv_usec (fst (snd (timeval_subtract x y))) \<le> 1000000"
proof -
  let ?k = "(tv_usec y - tv_usec x) div 1000000" and ?j = "(tv_usec x - tv_usec y) div 1000000"
  have k: "1000000 * ?k \<le> tv_usec y - tv_usec x" "tv_usec y - tv_usec x < 1000000 * ?k + 1000000"
    and j: "1000000 * ?j \<le> tv_usec x - tv_usec y" "tv_usec x - tv_usec y < 1000000 * ?j + 1000000"
    by linarith+
  have "0 \<le> tv_usec (fst (snd (timeval_subtract x y))) \<and>
      tv_usec (fst (snd (timeval_subtract x y))) \<le> 1000000"
  proof (cases "tv_usec x < tv_usec y")
    case True
    have "tv_usec x - (tv_usec y - 1000000 * (?k + 1)) \<le> 1000000"
      "0 \<le> tv_usec x - (tv_usec y - 1000000 * (?k + 1))" using k by (simp_all add: algebra_simps)
    with True show ?thesis by (simp add: timeval_subtract_def Let_def)
  next
    case False
    with j show ?thesis by (simp add: timeval_subtract_def Let_def algebra_simps)
  qed
  then show "0 \<le> tv_usec (fst (snd (timeval_subtract x y)))"
    "tv_usec (fst (snd (timeval_subtract x y))) \<le> 1000000" by simp_all
qed

lemma duration_law:
  assumes "gettimeofday w = (0, t0, w0)" and "duration_start gettimeofday d w = (rc, d0, w0)"
    and "gettimeofday w1 = (0, t1, w1')" and "total (start_time d1) = total (start_time d0)" and "normalised t1"
  shows "\<exists>d2. duration_measure gettimeofday d1 w1 = (0, d2, w1') \<and>
    total (elapsed d2) = total t1 - total t0 \<and> total (start_time d2) = total t0 \<and>
    0 \<le> tv_usec (elapsed d2) \<and> tv_usec (elapsed d2) \<le> 1000000"
proof -
  have "total (start_time d1) = total t0" using assms(1,2,4) by (auto simp: duration_start_def)
  then show ?thesis
    using assms(3) timeval_subtract_total [of t1 "start_time d1"]
      timeval_subtract_normal [OF assms(5), of "start_time d1"]
    by (cases "timeval_subtract t1 (start_time d1)") (simp add: duration_measure_def)
qed

lemma duration_clock_fails:
  assumes "gettimeofday w = (rc, t, w')" and "rc \<noteq> 0"
  shows "duration_start gettimeofday d w = (rc, d, w')" and "duration_measure gettimeofday d w = (rc, d, w')"
  using assms by (simp_all add: duration_start_def duration_measure_def)

end
