(* ===== verification/Byte_Order.thy ===== *)
theory Byte_Order
  imports Prelude
begin

text \<open>
  The byte order functions, the byte swaps and the parity of \<^verbatim>\<open>openocd/src/helper/types.h\<close>.
  The reads give the word of the bytes, the writes store its bytes, so that each pair is a round
  trip; swapping twice in place changes nothing. \<open>int\<close> is a 32-bit word here: the shifts of the
  code are on promoted bytes.
\<close>

section \<open>Reading\<close>

definition le_to_h_u64 :: "mem \<Rightarrow> ptr \<Rightarrow> u64 option" where
  "le_to_h_u64 m buf = do {
     b0 \<leftarrow> load m buf 0; b1 \<leftarrow> load m buf 1; b2 \<leftarrow> load m buf 2; b3 \<leftarrow> load m buf 3;
     b4 \<leftarrow> load m buf 4; b5 \<leftarrow> load m buf 5; b6 \<leftarrow> load m buf 6; b7 \<leftarrow> load m buf 7;
     Some (ucast b0 OR push_bit 8 (ucast b1) OR push_bit 16 (ucast b2) OR push_bit 24 (ucast b3) OR
       push_bit 32 (ucast b4) OR push_bit 40 (ucast b5) OR push_bit 48 (ucast b6) OR push_bit 56 (ucast b7))
   }"

definition le_to_h_u32 :: "mem \<Rightarrow> ptr \<Rightarrow> u32 option" where
  "le_to_h_u32 m buf = do {
     b0 \<leftarrow> load m buf 0; b1 \<leftarrow> load m buf 1; b2 \<leftarrow> load m buf 2; b3 \<leftarrow> load m buf 3;
     Some (ucast b0 OR push_bit 8 (ucast b1) OR push_bit 16 (ucast b2) OR push_bit 24 (ucast b3))
   }"

definition le_to_h_u24 :: "mem \<Rightarrow> ptr \<Rightarrow> u32 option" where
  "le_to_h_u24 m buf = do {
     b0 \<leftarrow> load m buf 0; b1 \<leftarrow> load m buf 1; b2 \<leftarrow> load m buf 2;
     Some (ucast b0 OR push_bit 8 (ucast b1) OR push_bit 16 (ucast b2))
   }"

definition le_to_h_u16 :: "mem \<Rightarrow> ptr \<Rightarrow> u16 option" where
  "le_to_h_u16 m buf = do {
     b0 \<leftarrow> load m buf 0; b1 \<leftarrow> load m buf 1;
     Some (ucast b0 OR push_bit 8 (ucast b1))
   }"

definition be_to_h_u64 :: "mem \<Rightarrow> ptr \<Rightarrow> u64 option" where
  "be_to_h_u64 m buf = do {
     b7 \<leftarrow> load m buf 7; b6 \<leftarrow> load m buf 6; b5 \<leftarrow> load m buf 5; b4 \<leftarrow> load m buf 4;
     b3 \<leftarrow> load m buf 3; b2 \<leftarrow> load m buf 2; b1 \<leftarrow> load m buf 1; b0 \<leftarrow> load m buf 0;
     Some (ucast b7 OR push_bit 8 (ucast b6) OR push_bit 16 (ucast b5) OR push_bit 24 (ucast b4) OR
       push_bit 32 (ucast b3) OR push_bit 40 (ucast b2) OR push_bit 48 (ucast b1) OR push_bit 56 (ucast b0))
   }"

definition be_to_h_u32 :: "mem \<Rightarrow> ptr \<Rightarrow> u32 option" where
  "be_to_h_u32 m buf = do {
     b3 \<leftarrow> load m buf 3; b2 \<leftarrow> load m buf 2; b1 \<leftarrow> load m buf 1; b0 \<leftarrow> load m buf 0;
     Some (ucast b3 OR push_bit 8 (ucast b2) OR push_bit 16 (ucast b1) OR push_bit 24 (ucast b0))
   }"

definition be_to_h_u24 :: "mem \<Rightarrow> ptr \<Rightarrow> u32 option" where
  "be_to_h_u24 m buf = do {
     b2 \<leftarrow> load m buf 2; b1 \<leftarrow> load m buf 1; b0 \<leftarrow> load m buf 0;
     Some (ucast b2 OR push_bit 8 (ucast b1) OR push_bit 16 (ucast b0))
   }"

definition be_to_h_u16 :: "mem \<Rightarrow> ptr \<Rightarrow> u16 option" where
  "be_to_h_u16 m buf = do {
     b1 \<leftarrow> load m buf 1; b0 \<leftarrow> load m buf 0;
     Some (ucast b1 OR push_bit 8 (ucast b0))
   }"

section \<open>Writing\<close>

text \<open>\<open>(uint8_t) (val >> k)\<close> on a signed value.\<close>

definition byte_at :: "nat \<Rightarrow> 'a::len word \<Rightarrow> u8" where
  "byte_at k v = ucast (signed_drop_bit k v)"

definition h_u64_to_le :: "mem \<Rightarrow> ptr \<Rightarrow> u64 \<Rightarrow> mem option" where
  "h_u64_to_le m buf v = do {
     m \<leftarrow> store m buf 7 (byte_at 56 v); m \<leftarrow> store m buf 6 (byte_at 48 v);
     m \<leftarrow> store m buf 5 (byte_at 40 v); m \<leftarrow> store m buf 4 (byte_at 32 v);
     m \<leftarrow> store m buf 3 (byte_at 24 v); m \<leftarrow> store m buf 2 (byte_at 16 v);
     m \<leftarrow> store m buf 1 (byte_at 8 v); store m buf 0 (byte_at 0 v)
   }"

definition h_u64_to_be :: "mem \<Rightarrow> ptr \<Rightarrow> u64 \<Rightarrow> mem option" where
  "h_u64_to_be m buf v = do {
     m \<leftarrow> store m buf 0 (byte_at 56 v); m \<leftarrow> store m buf 1 (byte_at 48 v);
     m \<leftarrow> store m buf 2 (byte_at 40 v); m \<leftarrow> store m buf 3 (byte_at 32 v);
     m \<leftarrow> store m buf 4 (byte_at 24 v); m \<leftarrow> store m buf 5 (byte_at 16 v);
     m \<leftarrow> store m buf 6 (byte_at 8 v); store m buf 7 (byte_at 0 v)
   }"

definition h_u32_to_le :: "mem \<Rightarrow> ptr \<Rightarrow> u32 \<Rightarrow> mem option" where
  "h_u32_to_le m buf v = do {
     m \<leftarrow> store m buf 3 (byte_at 24 v); m \<leftarrow> store m buf 2 (byte_at 16 v);
     m \<leftarrow> store m buf 1 (byte_at 8 v); store m buf 0 (byte_at 0 v)
   }"

definition h_u32_to_be :: "mem \<Rightarrow> ptr \<Rightarrow> u32 \<Rightarrow> mem option" where
  "h_u32_to_be m buf v = do {
     m \<leftarrow> store m buf 0 (byte_at 24 v); m \<leftarrow> store m buf 1 (byte_at 16 v);
     m \<leftarrow> store m buf 2 (byte_at 8 v); store m buf 3 (byte_at 0 v)
   }"

definition h_u24_to_le :: "mem \<Rightarrow> ptr \<Rightarrow> u32 \<Rightarrow> mem option" where
  "h_u24_to_le m buf v = do {
     m \<leftarrow> store m buf 2 (byte_at 16 v); m \<leftarrow> store m buf 1 (byte_at 8 v); store m buf 0 (byte_at 0 v)
   }"

definition h_u24_to_be :: "mem \<Rightarrow> ptr \<Rightarrow> u32 \<Rightarrow> mem option" where
  "h_u24_to_be m buf v = do {
     m \<leftarrow> store m buf 0 (byte_at 16 v); m \<leftarrow> store m buf 1 (byte_at 8 v); store m buf 2 (byte_at 0 v)
   }"

definition h_u16_to_le :: "mem \<Rightarrow> ptr \<Rightarrow> u32 \<Rightarrow> mem option" where
  "h_u16_to_le m buf v = do {
     m \<leftarrow> store m buf 1 (byte_at 8 v); store m buf 0 (byte_at 0 v)
   }"

definition h_u16_to_be :: "mem \<Rightarrow> ptr \<Rightarrow> u32 \<Rightarrow> mem option" where
  "h_u16_to_be m buf v = do {
     m \<leftarrow> store m buf 0 (byte_at 8 v); store m buf 1 (byte_at 0 v)
   }"

section \<open>Swapping\<close>

text \<open>\<open>dst == src || dst + len <= src || src + len <= dst\<close>\<close>

fun swap_regions_ok :: "ptr \<Rightarrow> ptr \<Rightarrow> nat \<Rightarrow> bool" where
  "swap_regions_ok (Ptr d dof) (Ptr s sof) len \<longleftrightarrow>
     d \<noteq> s \<or> dof = sof \<or> dof + len \<le> sof \<or> sof + len \<le> dof"
| "swap_regions_ok d s len \<longleftrightarrow> True"

fun bswap16_loop :: "nat \<Rightarrow> nat \<Rightarrow> mem \<Rightarrow> ptr \<Rightarrow> ptr \<Rightarrow> mem option" where
  "bswap16_loop 0 n m d s = Some m"
| "bswap16_loop (Suc k) n m d s = do {
     x \<leftarrow> be_to_h_u16 m (ptr_add s n);
     m \<leftarrow> h_u16_to_le m (ptr_add d n) (ucast x);
     bswap16_loop k (n + 2) m d s
   }"

definition buf_bswap16 :: "mem \<Rightarrow> ptr \<Rightarrow> ptr \<Rightarrow> nat \<Rightarrow> mem option" where
  "buf_bswap16 m d s len =
     (if len mod 2 = 0 \<and> swap_regions_ok d s len then bswap16_loop (len div 2) 0 m d s else None)"

fun bswap32_loop :: "nat \<Rightarrow> nat \<Rightarrow> mem \<Rightarrow> ptr \<Rightarrow> ptr \<Rightarrow> mem option" where
  "bswap32_loop 0 n m d s = Some m"
| "bswap32_loop (Suc k) n m d s = do {
     x \<leftarrow> be_to_h_u32 m (ptr_add s n);
     m \<leftarrow> h_u32_to_le m (ptr_add d n) x;
     bswap32_loop k (n + 4) m d s
   }"

definition buf_bswap32 :: "mem \<Rightarrow> ptr \<Rightarrow> ptr \<Rightarrow> nat \<Rightarrow> mem option" where
  "buf_bswap32 m d s len =
     (if len mod 4 = 0 \<and> swap_regions_ok d s len then bswap32_loop (len div 4) 0 m d s else None)"

section \<open>Parity\<close>

text \<open>The portable branch; \<open>__builtin_parityl\<close> is documented to compute the same.\<close>

definition parity_u32 :: "u32 \<Rightarrow> u32" where
  "parity_u32 x =
     (let x = x XOR drop_bit 16 x;
          x = x XOR drop_bit 8 x;
          x = x XOR drop_bit 4 x;
          x = x XOR drop_bit 2 x;
          x = x XOR drop_bit 1 x
      in x AND 1)"


section \<open>Laws of the reads and writes\<close>

lemma byte_at_drop: "k + 8 \<le> LENGTH('a) \<Longrightarrow> byte_at k (v :: 'a::len word) = ucast (drop_bit k v)"
  by (rule bit_word_eqI) (auto simp: byte_at_def bit_simps min_def)

lemma blit_Cons:
  assumes "off < length d" and "n \<le> length xs" and "Suc off + n \<le> length d"
  shows "blit d off (x # xs) 0 (Suc n) = (blit d (Suc off) xs 0 n)[off := x]"
  using assms by (intro nth_equalityI) (auto simp: nth_blit nth_list_update nth_Cons' Suc_diff_Suc)

lemma take_drop_nth: "off + n \<le> length bs \<Longrightarrow> take n (drop off bs) = map (\<lambda>i. bs ! (off + i)) [0..<n]"
  by (intro nth_equalityI) simp_all

lemma word_of_Nil [simp]: "word_of [] = 0"
  by (simp add: word_of_def)

lemma word_of_bytes:
  "8 \<le> LENGTH('a) \<Longrightarrow> (word_of (bits_of [b0]) :: 'a::len word) = ucast b0"
  "16 \<le> LENGTH('a) \<Longrightarrow> (word_of (bits_of [b0, b1]) :: 'a::len word) = ucast b0 OR push_bit 8 (ucast b1)"
  "24 \<le> LENGTH('a) \<Longrightarrow> (word_of (bits_of [b0, b1, b2]) :: 'a::len word) =
     ucast b0 OR push_bit 8 (ucast b1) OR push_bit 16 (ucast b2)"
  "32 \<le> LENGTH('a) \<Longrightarrow> (word_of (bits_of [b0, b1, b2, b3]) :: 'a::len word) =
     ucast b0 OR push_bit 8 (ucast b1) OR push_bit 16 (ucast b2) OR push_bit 24 (ucast b3)"
  "64 \<le> LENGTH('a) \<Longrightarrow> (word_of (bits_of [b0, b1, b2, b3, b4, b5, b6, b7]) :: 'a::len word) =
     ucast b0 OR push_bit 8 (ucast b1) OR push_bit 16 (ucast b2) OR push_bit 24 (ucast b3) OR
     push_bit 32 (ucast b4) OR push_bit 40 (ucast b5) OR push_bit 48 (ucast b6) OR push_bit 56 (ucast b7)"
  by (simp_all add: word_of_bits_of_Cons push_bit_or push_bit_push_bit)

lemma upt_known:
  "[0..<2] = [0, 1 :: nat]" "[0..<3] = [0, 1, 2 :: nat]" "[0..<4] = [0, 1, 2, 3 :: nat]"
  "[0..<8] = [0, 1, 2, 3, 4, 5, 6, 7 :: nat]"
  by (simp_all add: upt_rec)

lemma blit_known:
  "off + 2 \<le> length d \<Longrightarrow> blit d off [a0, a1] 0 2 = d[off + 1 := a1, off := a0]"
  "off + 3 \<le> length d \<Longrightarrow> blit d off [a0, a1, a2] 0 3 = d[off + 2 := a2, off + 1 := a1, off := a0]"
  "off + 4 \<le> length d \<Longrightarrow> blit d off [a0, a1, a2, a3] 0 4 =
     d[off + 3 := a3, off + 2 := a2, off + 1 := a1, off := a0]"
  "off + 8 \<le> length d \<Longrightarrow> blit d off [a0, a1, a2, a3, a4, a5, a6, a7] 0 8 =
     d[off + 7 := a7, off + 6 := a6, off + 5 := a5, off + 4 := a4, off + 3 := a3, off + 2 := a2,
       off + 1 := a1, off := a0]"
  by (simp_all add: numeral_eq_Suc blit_Cons)

lemma reads_known:
  assumes "m b = Some bs"
  shows "off + 8 \<le> length bs \<Longrightarrow> le_to_h_u64 m (Ptr b off) = Some (word_of (bits_of (take 8 (drop off bs))))"
    and "off + 4 \<le> length bs \<Longrightarrow> le_to_h_u32 m (Ptr b off) = Some (word_of (bits_of (take 4 (drop off bs))))"
    and "off + 3 \<le> length bs \<Longrightarrow> le_to_h_u24 m (Ptr b off) = Some (word_of (bits_of (take 3 (drop off bs))))"
    and "off + 2 \<le> length bs \<Longrightarrow> le_to_h_u16 m (Ptr b off) = Some (word_of (bits_of (take 2 (drop off bs))))"
    and "off + 8 \<le> length bs \<Longrightarrow> be_to_h_u64 m (Ptr b off) = Some (word_of (bits_of (rev (take 8 (drop off bs)))))"
    and "off + 4 \<le> length bs \<Longrightarrow> be_to_h_u32 m (Ptr b off) = Some (word_of (bits_of (rev (take 4 (drop off bs)))))"
    and "off + 3 \<le> length bs \<Longrightarrow> be_to_h_u24 m (Ptr b off) = Some (word_of (bits_of (rev (take 3 (drop off bs)))))"
    and "off + 2 \<le> length bs \<Longrightarrow> be_to_h_u16 m (Ptr b off) = Some (word_of (bits_of (rev (take 2 (drop off bs)))))"
  using assms
  by (simp_all add: le_to_h_u64_def le_to_h_u32_def le_to_h_u24_def le_to_h_u16_def be_to_h_u64_def
      be_to_h_u32_def be_to_h_u24_def be_to_h_u16_def take_drop_nth upt_known word_of_bytes)

lemma le_bytes_known:
  "le_bytes 8 (v :: u64) = [byte_at 0 v, byte_at 8 v, byte_at 16 v, byte_at 24 v, byte_at 32 v,
     byte_at 40 v, byte_at 48 v, byte_at 56 v]"
  "le_bytes 4 (w :: u32) = [byte_at 0 w, byte_at 8 w, byte_at 16 w, byte_at 24 w]"
  "le_bytes 3 w = [byte_at 0 w, byte_at 8 w, byte_at 16 w]"
  "le_bytes 2 w = [byte_at 0 w, byte_at 8 w]"
  by (simp_all add: le_bytes_def byte_at_drop upt_rec)

lemma writes_known:
  assumes "m b = Some bs"
  shows "off + 8 \<le> length bs \<Longrightarrow> h_u64_to_le m (Ptr b off) v = Some (m(b \<mapsto> blit bs off (le_bytes 8 v) 0 8))"
    and "off + 4 \<le> length bs \<Longrightarrow> h_u32_to_le m (Ptr b off) w = Some (m(b \<mapsto> blit bs off (le_bytes 4 w) 0 4))"
    and "off + 3 \<le> length bs \<Longrightarrow> h_u24_to_le m (Ptr b off) w = Some (m(b \<mapsto> blit bs off (le_bytes 3 w) 0 3))"
    and "off + 2 \<le> length bs \<Longrightarrow> h_u16_to_le m (Ptr b off) w = Some (m(b \<mapsto> blit bs off (le_bytes 2 w) 0 2))"
    and "off + 8 \<le> length bs \<Longrightarrow> h_u64_to_be m (Ptr b off) v = Some (m(b \<mapsto> blit bs off (rev (le_bytes 8 v)) 0 8))"
    and "off + 4 \<le> length bs \<Longrightarrow> h_u32_to_be m (Ptr b off) w = Some (m(b \<mapsto> blit bs off (rev (le_bytes 4 w)) 0 4))"
    and "off + 3 \<le> length bs \<Longrightarrow> h_u24_to_be m (Ptr b off) w = Some (m(b \<mapsto> blit bs off (rev (le_bytes 3 w)) 0 3))"
    and "off + 2 \<le> length bs \<Longrightarrow> h_u16_to_be m (Ptr b off) w = Some (m(b \<mapsto> blit bs off (rev (le_bytes 2 w)) 0 2))"
  using assms
  by (simp_all add: h_u64_to_le_def h_u32_to_le_def h_u24_to_le_def h_u16_to_le_def h_u64_to_be_def
      h_u32_to_be_def h_u24_to_be_def h_u16_to_be_def le_bytes_known blit_known
      list_update_swap)

lemma le_bytes_word_of:
  assumes "length bs = n" and "8 * n \<le> LENGTH('a)"
  shows "le_bytes n (word_of (bits_of bs) :: 'a::len word) = bs"
proof (rule bits_of_inject, rule nth_equalityI)
  show "length (bits_of (le_bytes n (word_of (bits_of bs) :: 'a word))) = length (bits_of bs)"
    using assms by simp
next
  fix i
  assume "i < length (bits_of (le_bytes n (word_of (bits_of bs) :: 'a word)))"
  with assms show "bits_of (le_bytes n (word_of (bits_of bs) :: 'a word)) ! i = bits_of bs ! i"
    by (simp add: bits_of_le_bytes bit_word_of)
qed

lemma word_of_le_bytes:
  assumes "8 * n \<le> LENGTH('a)"
  shows "word_of (bits_of (le_bytes n (v :: 'a::len word))) = take_bit (8 * n) v"
  using assms by (intro bit_word_eqI) (auto simp: bits_of_le_bytes bit_word_of bit_take_bit_iff)

lemma take_drop_blit:
  "off + n \<le> length bs \<Longrightarrow> length xs = n \<Longrightarrow> take n (drop off (blit bs off xs 0 n)) = xs"
  by (simp add: blit_def)

section \<open>The swaps\<close>

text \<open>The first \<open>k\<close> groups of \<open>w\<close> bytes, each turned round.\<close>

fun rev_chunks :: "nat \<Rightarrow> nat \<Rightarrow> 'a list \<Rightarrow> 'a list" where
  "rev_chunks w 0 xs = []"
| "rev_chunks w (Suc k) xs = rev (take w xs) @ rev_chunks w k (drop w xs)"

lemma length_rev_chunks [simp]: "w * k \<le> length xs \<Longrightarrow> length (rev_chunks w k xs) = w * k"
  by (induction k arbitrary: xs) simp_all

lemma rev_chunks_cong:
  "take (w * k) xs = take (w * k) ys \<Longrightarrow> rev_chunks w k xs = rev_chunks w k ys"
proof (induction k arbitrary: xs ys)
  case (Suc k)
  have "take w xs = take w ys"
    using arg_cong [OF Suc.prems, of "take w"] by (simp add: min_def split: if_splits)
  moreover have "take (w * k) (drop w xs) = take (w * k) (drop w ys)"
    using arg_cong [OF Suc.prems, of "drop w"] by (simp add: drop_take)
  ultimately show ?case using Suc.IH [of "drop w xs" "drop w ys"] by simp
qed simp

lemma rev_chunks_append:
  "length xs = w \<Longrightarrow> rev_chunks w (Suc k) (xs @ ys) = rev xs @ rev_chunks w k ys"
  by simp

lemma rev_chunks_twice:
  "w * k \<le> length xs \<Longrightarrow> rev_chunks w k (rev_chunks w k xs) = take (w * k) xs"
proof (induction k arbitrary: xs)
  case (Suc k)
  then have "rev_chunks w (Suc k) (rev_chunks w (Suc k) xs) = take w xs @ take (w * k) (drop w xs)"
    by (simp add: rev_chunks_append del: rev_chunks.simps(2)) (simp add: Suc)
  also have "\<dots> = take (w * Suc k) xs"
    by (simp add: take_add [symmetric])
  finally show ?case .
qed simp

lemma blit_then:
  assumes "off + (w + n) \<le> length bs" and "length xs = w" and "length ys = n"
  shows "blit (blit bs off xs 0 w) (off + w) ys 0 n = blit bs off (xs @ ys) 0 (w + n)"
  using assms by (simp add: blit_def ac_simps)

locale byte_swap =
  fixes loop :: "nat \<Rightarrow> nat \<Rightarrow> mem \<Rightarrow> ptr \<Rightarrow> ptr \<Rightarrow> mem option"
    and group :: "mem \<Rightarrow> ptr \<Rightarrow> ptr \<Rightarrow> mem option"
    and w :: nat
  assumes loop_0: "loop 0 n m d s = Some m"
    and loop_Suc: "loop (Suc k) n m d s =
      Option.bind (group m (ptr_add d n) (ptr_add s n)) (\<lambda>m. loop k (n + w) m d s)"
    and group_law: "m sb = Some S \<Longrightarrow> m db = Some D \<Longrightarrow> so + w \<le> length S \<Longrightarrow> dof + w \<le> length D \<Longrightarrow>
      group m (Ptr db dof) (Ptr sb so) = Some (m(db \<mapsto> blit D dof (rev (take w (drop so S))) 0 w))"
begin

lemma loop_law:
  assumes "m sb = Some S" and "m db = Some D" and "swap_regions_ok (Ptr db dof) (Ptr sb so) (n + w * k)"
    and "so + (n + w * k) \<le> length S" and "dof + (n + w * k) \<le> length D"
  shows "loop k n m (Ptr db dof) (Ptr sb so) =
    Some (m(db \<mapsto> blit D (dof + n) (rev_chunks w k (drop (so + n) S)) 0 (w * k)))"
  using assms
proof (induction k arbitrary: n m S D)
  case 0
  then show ?case by (simp add: loop_0 fun_upd_idem)
next
  case (Suc k)
  define chunk where "chunk = rev (take w (drop (so + n) S))"
  define D' where "D' = blit D (dof + n) chunk 0 w"
  define S' where "S' = (if sb = db then D' else S)"
  have chunk: "length chunk = w" and D': "length D' = length D"
    using Suc.prems by (simp_all add: chunk_def D'_def)
  have S': "length S' = length S"
    using Suc.prems D' by (auto simp: S'_def)
  have same: "take (w * k) (drop (so + (n + w)) S') = take (w * k) (drop (so + (n + w)) S)"
  proof (rule nth_equalityI)
    fix i
    assume "i < length (take (w * k) (drop (so + (n + w)) S'))"
    then show "take (w * k) (drop (so + (n + w)) S') ! i = take (w * k) (drop (so + (n + w)) S) ! i"
      using Suc.prems chunk by (auto simp: S'_def S' D'_def nth_blit)
  qed (simp add: S')
  have "group m (Ptr db (dof + n)) (Ptr sb (so + n)) = Some (m(db \<mapsto> D'))"
    using Suc.prems unfolding D'_def chunk_def by (intro group_law) simp_all
  then have "loop (Suc k) n m (Ptr db dof) (Ptr sb so) =
      loop k (n + w) (m(db \<mapsto> D')) (Ptr db dof) (Ptr sb so)"
    by (simp add: loop_Suc)
  also have "\<dots> = Some ((m(db \<mapsto> D'))(db \<mapsto>
      blit D' (dof + (n + w)) (rev_chunks w k (drop (so + (n + w)) S')) 0 (w * k)))"
    using Suc.prems S' D' by (intro Suc.IH) (auto simp: S'_def algebra_simps)
  also have "rev_chunks w k (drop (so + (n + w)) S') = rev_chunks w k (drop (so + (n + w)) S)"
    by (rule rev_chunks_cong) (rule same)
  also have "blit D' (dof + (n + w)) \<dots> 0 (w * k) =
      blit D (dof + n) (chunk @ rev_chunks w k (drop (so + (n + w)) S)) 0 (w + w * k)"
    using blit_then [of "dof + n" w "w * k" D chunk "rev_chunks w k (drop (so + (n + w)) S)"] Suc.prems chunk
    by (simp add: D'_def algebra_simps)
  finally show ?case
    unfolding fun_upd_upd by (simp only: chunk_def rev_chunks.simps drop_drop mult_Suc_right ac_simps)
qed

lemma twice_law:
  assumes "m b = Some D" and "off + len \<le> length D" and "0 < w" and "len mod w = 0"
  shows "Option.bind (loop (len div w) 0 m (Ptr b off) (Ptr b off))
    (\<lambda>m. loop (len div w) 0 m (Ptr b off) (Ptr b off)) = Some m"
proof -
  let ?k = "len div w"
  have len: "w * ?k = len" using assms(4) by auto
  define xs where "xs = rev_chunks w ?k (drop off D)"
  have xs: "length xs = len" using assms(2) by (simp add: xs_def len)
  let ?D = "blit D off xs 0 len"
  have again: "rev_chunks w ?k (drop off ?D) = take len (drop off D)"
  proof -
    have "rev_chunks w ?k (drop off ?D) = rev_chunks w ?k xs"
      by (rule rev_chunks_cong) (use take_drop_blit [of off len D xs] assms(2) xs in \<open>simp add: len\<close>)
    then show ?thesis using rev_chunks_twice [of w ?k "drop off D"] assms(2) by (simp add: xs_def len)
  qed
  have "blit ?D off (take len (drop off D)) 0 len = D"
    using assms(2) xs by (intro nth_equalityI) (auto simp: nth_blit)
  moreover have "loop ?k 0 m (Ptr b off) (Ptr b off) = Some (m(b \<mapsto> ?D))"
    using loop_law [of m b D b D off off 0 ?k] assms(1,2) by (simp add: len xs_def)
  moreover have "loop ?k 0 (m(b \<mapsto> ?D)) (Ptr b off) (Ptr b off) =
      Some ((m(b \<mapsto> ?D))(b \<mapsto> blit ?D off (take len (drop off D)) 0 len))"
    using loop_law [of "m(b \<mapsto> ?D)" b ?D b ?D off off 0 ?k] assms(2) xs by (simp add: len again)
  ultimately show ?thesis using assms(1) by (simp add: fun_upd_idem)
qed

end

interpretation swap16: byte_swap bswap16_loop
    "\<lambda>m d s. Option.bind (be_to_h_u16 m s) (\<lambda>x. h_u16_to_le m d (ucast x))" 2
proof
  fix m :: mem and sb db so dof and S D :: "u8 list"
  assume "m sb = Some S" "m db = Some D" "so + 2 \<le> length S" "dof + 2 \<le> length D"
  moreover have "le_bytes 2 (ucast (v :: u16) :: u32) = le_bytes 2 v" for v
    by (auto simp: le_bytes_def upt_rec intro!: bit_word_eqI simp: bit_simps dest: bit_imp_le_length)
  ultimately show "Option.bind (be_to_h_u16 m (Ptr sb so)) (\<lambda>x. h_u16_to_le m (Ptr db dof) (ucast x)) =
      Some (m(db \<mapsto> blit D dof (rev (take 2 (drop so S))) 0 2))"
    by (simp add: reads_known writes_known le_bytes_word_of)
qed simp_all

interpretation swap32: byte_swap bswap32_loop
    "\<lambda>m d s. Option.bind (be_to_h_u32 m s) (\<lambda>x. h_u32_to_le m d x)" 4
proof
  fix m :: mem and sb db so dof and S D :: "u8 list"
  assume "m sb = Some S" "m db = Some D" "so + 4 \<le> length S" "dof + 4 \<le> length D"
  then show "Option.bind (be_to_h_u32 m (Ptr sb so)) (\<lambda>x. h_u32_to_le m (Ptr db dof) x) =
      Some (m(db \<mapsto> blit D dof (rev (take 4 (drop so S))) 0 4))"
    by (simp add: reads_known writes_known le_bytes_word_of)
qed simp_all

section \<open>The parity\<close>

definition odd_bits :: "nat \<Rightarrow> (nat \<Rightarrow> bool) \<Rightarrow> bool" where
  "odd_bits n f \<longleftrightarrow> odd (\<Sum>i<n. of_bool (f i) :: nat)"

lemma odd_bits_Suc: "odd_bits (Suc n) f \<longleftrightarrow> odd_bits n f \<noteq> f n"
  by (simp add: odd_bits_def)

lemma odd_bits_add: "odd_bits (n + k) f \<longleftrightarrow> odd_bits n f \<noteq> odd_bits k (\<lambda>i. f (n + i))"
  by (induction k) (auto simp: odd_bits_Suc odd_bits_def)

lemma odd_bits_xor: "odd_bits n (\<lambda>i. f i \<noteq> g i) \<longleftrightarrow> odd_bits n f \<noteq> odd_bits n g"
  by (induction n) (auto simp: odd_bits_Suc odd_bits_def)

lemma odd_bits_fold:
  "odd_bits n (bit (x XOR drop_bit n x :: 'a::len word)) \<longleftrightarrow> odd_bits (n + n) (bit x)"
proof -
  have "bit (x XOR drop_bit n x) = (\<lambda>i. bit x i \<noteq> bit x (n + i))"
    by (rule ext) (simp add: bit_xor_iff bit_drop_bit_eq)
  then show ?thesis by (simp only: odd_bits_add odd_bits_xor)
qed

lemma parity_u32_law: "parity_u32 x = of_bool (odd_bits 32 (bit x))"
proof -
  define a where "a = x XOR drop_bit 16 x"
  define b where "b = a XOR drop_bit 8 a"
  define c where "c = b XOR drop_bit 4 b"
  define d where "d = c XOR drop_bit 2 c"
  define e where "e = d XOR drop_bit 1 d"
  have "odd_bits 32 (bit x) = odd_bits 1 (bit e)"
    using odd_bits_fold [of 16 x, folded a_def] odd_bits_fold [of 8 a, folded b_def]
      odd_bits_fold [of 4 b, folded c_def] odd_bits_fold [of 2 c, folded d_def]
      odd_bits_fold [of 1 d, folded e_def, unfolded one_add_one]
    by simp
  also have "\<dots> = bit e 0" by (simp add: odd_bits_def)
  finally have "odd_bits 32 (bit x) = bit e 0" .
  moreover have "parity_u32 x = e AND 1"
    by (simp only: parity_u32_def Let_def a_def b_def c_def d_def e_def)
  ultimately show ?thesis
    by (simp add: and_one_eq bit_0 mod_2_eq_odd)
qed

text \<open>
  The byte order functions are inverse to each other and to the byte lists: what is written
  in one order is read back in that order, and reading in the other order gives the word of the
  reversed bytes.
\<close>

lemma byte_order_round_trip:
  assumes "m b = Some bs" and "off + 4 \<le> length bs"
  shows "(\<exists>m'. h_u32_to_le m (Ptr b off) v = Some m' \<and> le_to_h_u32 m' (Ptr b off) = Some v) \<and>
    (\<exists>m'. h_u32_to_be m (Ptr b off) v = Some m' \<and> be_to_h_u32 m' (Ptr b off) = Some v) \<and>
    (\<exists>m'. h_u32_to_be m (Ptr b off) v = Some m' \<and>
      le_to_h_u32 m' (Ptr b off) = Some (word_of (bits_of (rev (le_bytes 4 v)))))"
proof -
  have "take_bit 32 v = v" by (rule bit_word_eqI) (simp add: bit_simps)
  with assms show ?thesis
    by (simp add: reads_known writes_known take_drop_blit word_of_le_bytes)
qed

text \<open>
  Swapping a buffer in place twice, with \<open>buf_bswap16\<close> or \<open>buf_bswap32\<close>, changes nothing.
\<close>

lemma bswap_twice:
  assumes "m b = Some D" and "off + len \<le> length D"
  shows "(len mod 2 = 0 \<longrightarrow>
      Option.bind (buf_bswap16 m (Ptr b off) (Ptr b off) len)
        (\<lambda>m. buf_bswap16 m (Ptr b off) (Ptr b off) len) = Some m) \<and>
    (len mod 4 = 0 \<longrightarrow>
      Option.bind (buf_bswap32 m (Ptr b off) (Ptr b off) len)
        (\<lambda>m. buf_bswap32 m (Ptr b off) (Ptr b off) len) = Some m)"
  using assms swap16.twice_law [of m b D off len] swap32.twice_law [of m b D off len]
  by (simp_all add: buf_bswap16_def buf_bswap32_def)

text \<open>
  \<open>parity_u32\<close>, five folds of the word onto itself, is 1 exactly when the number of set bits is
  odd.
\<close>

lemma parity_u32_counts:
  "parity_u32 x = (if odd (card {i. bit x i}) then 1 else 0)"
proof -
  have "(\<Sum>i<32. of_bool (bit x i) :: nat) = card {i. bit x i}"
  proof -
    have "{i. bit x i} = {i \<in> {..<32}. bit x i}" by (auto dest: bit_imp_le_length)
    then show ?thesis by (simp add: sum.If_cases of_bool_def Int_def)
  qed
  then show ?thesis by (simp add: parity_u32_law odd_bits_def)
qed

end
