(* ===== verification/Hash_List.thy ===== *)
theory Hash_List
  imports Linked_List
begin

text \<open>
  The rest of \<^verbatim>\<open>openocd/src/helper/list.h\<close>: the lists with a single-pointer head
  (\<open>hlist\<close>), and the loops that are safe against the removal of the current entry.

  A node of an \<open>hlist\<close> has the address of the pointer that points at it in \<open>pprev\<close>: the field
  \<open>first\<close> of a head or the field \<open>next\<close> of a node. \<open>None\<close> is \<open>NULL\<close>, and \<open>LIST_POISON1\<close>
  and \<open>LIST_POISON2\<close> are \<open>NULL\<close> too. An access to a node or a head that is not in the heap has
  no continuation.
\<close>

section \<open>Nodes and heads\<close>

datatype hlink = First nat | Next nat

record hlist_node =
  hnext :: "nat option"
  pprev :: "hlink option"

record hheap =
  heads :: "nat \<rightharpoonup> nat option"
  nodes :: "nat \<rightharpoonup> hlist_node"

fun read_link :: "hheap \<Rightarrow> hlink \<Rightarrow> nat option option" where
  "read_link h (First p) = heads h p"
| "read_link h (Next n) = map_option hnext (nodes h n)"

definition set_hnext :: "hheap \<Rightarrow> nat \<Rightarrow> nat option \<Rightarrow> hheap option" where
  "set_hnext h n v = map_option (\<lambda>x. h\<lparr>nodes := (nodes h)(n \<mapsto> x\<lparr>hnext := v\<rparr>)\<rparr>) (nodes h n)"

definition set_pprev :: "hheap \<Rightarrow> nat \<Rightarrow> hlink option \<Rightarrow> hheap option" where
  "set_pprev h n v = map_option (\<lambda>x. h\<lparr>nodes := (nodes h)(n \<mapsto> x\<lparr>pprev := v\<rparr>)\<rparr>) (nodes h n)"

definition set_first :: "hheap \<Rightarrow> nat \<Rightarrow> nat option \<Rightarrow> hheap option" where
  "set_first h p v = map_option (\<lambda>x. h\<lparr>heads := (heads h)(p \<mapsto> v)\<rparr>) (heads h p)"

text \<open>\<open>*l = v\<close>, and \<open>if (n) n->pprev = l\<close>.\<close>

fun write_link :: "hheap \<Rightarrow> hlink \<Rightarrow> nat option \<Rightarrow> hheap option" where
  "write_link h (First p) v = set_first h p v"
| "write_link h (Next n) v = set_hnext h n v"

fun link_back :: "hheap \<Rightarrow> nat option \<Rightarrow> hlink option \<Rightarrow> hheap option" where
  "link_back h None l = Some h"
| "link_back h (Some n) l = set_pprev h n l"

section \<open>The operations\<close>

definition INIT_HLIST_HEAD :: "hheap \<Rightarrow> nat \<Rightarrow> hheap option" where
  "INIT_HLIST_HEAD h p = set_first h p None"

definition INIT_HLIST_NODE :: "hheap \<Rightarrow> nat \<Rightarrow> hheap option" where
  "INIT_HLIST_NODE h n = do { h \<leftarrow> set_hnext h n None; set_pprev h n None }"

definition hlist_unhashed :: "hheap \<Rightarrow> nat \<Rightarrow> bool option" where
  "hlist_unhashed h n = map_option (\<lambda>x. pprev x = None) (nodes h n)"

definition hlist_empty :: "hheap \<Rightarrow> nat \<Rightarrow> bool option" where
  "hlist_empty h p = map_option (\<lambda>v. v = None) (heads h p)"

text \<open>\<open>__hlist_del\<close>\<close>

definition hlist_unlink :: "hheap \<Rightarrow> nat \<Rightarrow> hheap option" where
  "hlist_unlink h n = do {
     x \<leftarrow> nodes h n;
     let next = hnext x;
     l \<leftarrow> pprev x;
     h \<leftarrow> write_link h l next;
     link_back h next (Some l)
   }"

definition hlist_del :: "hheap \<Rightarrow> nat \<Rightarrow> hheap option" where
  "hlist_del h n = do {
     h \<leftarrow> hlist_unlink h n;
     h \<leftarrow> set_hnext h n None;
     set_pprev h n None
   }"

definition hlist_del_init :: "hheap \<Rightarrow> nat \<Rightarrow> hheap option" where
  "hlist_del_init h n = do {
     unhashed \<leftarrow> hlist_unhashed h n;
     if \<not> unhashed then do {
       h \<leftarrow> hlist_unlink h n;
       INIT_HLIST_NODE h n
     } else Some h
   }"

definition hlist_add_head :: "hheap \<Rightarrow> nat \<Rightarrow> nat \<Rightarrow> hheap option" where
  "hlist_add_head h n p = do {
     first \<leftarrow> heads h p;
     h \<leftarrow> set_hnext h n first;
     h \<leftarrow> link_back h first (Some (Next n));
     h \<leftarrow> set_first h p (Some n);
     set_pprev h n (Some (First p))
   }"

definition hlist_add_before :: "hheap \<Rightarrow> nat \<Rightarrow> nat \<Rightarrow> hheap option" where
  "hlist_add_before h n next = do {
     x \<leftarrow> nodes h next;
     h \<leftarrow> set_pprev h n (pprev x);
     h \<leftarrow> set_hnext h n (Some next);
     h \<leftarrow> set_pprev h next (Some (Next n));
     y \<leftarrow> nodes h n;
     l \<leftarrow> pprev y;
     write_link h l (Some n)
   }"

text \<open>The parameter \<open>next\<close> is the node that is inserted after \<open>n\<close>.\<close>

definition hlist_add_after :: "hheap \<Rightarrow> nat \<Rightarrow> nat \<Rightarrow> hheap option" where
  "hlist_add_after h n next = do {
     x \<leftarrow> nodes h n;
     h \<leftarrow> set_hnext h next (hnext x);
     h \<leftarrow> set_hnext h n (Some next);
     h \<leftarrow> set_pprev h next (Some (Next n));
     y \<leftarrow> nodes h next;
     link_back h (hnext y) (Some (Next next))
   }"

definition hlist_add_fake :: "hheap \<Rightarrow> nat \<Rightarrow> hheap option" where
  "hlist_add_fake h n = set_pprev h n (Some (Next n))"

definition hlist_move_list :: "hheap \<Rightarrow> nat \<Rightarrow> nat \<Rightarrow> hheap option" where
  "hlist_move_list h old newl = do {
     first \<leftarrow> heads h old;
     h \<leftarrow> set_first h newl first;
     first \<leftarrow> heads h newl;
     h \<leftarrow> link_back h first (Some (First newl));
     set_first h old None
   }"

section \<open>Iteration\<close>

text \<open>
  \<open>hlist_for_each(pos, head)\<close> with the nodes it visits collected. \<open>hlist_for_each_safe\<close> has a
  body, which may take the current node out of the list: its successor has been read before.
\<close>

partial_function (option) hlist_for_each_from :: "hheap \<Rightarrow> nat option \<Rightarrow> nat list option" where
  "hlist_for_each_from h pos =
     (case pos of
        None \<Rightarrow> Some []
      | Some n \<Rightarrow> do { x \<leftarrow> nodes h n; ns \<leftarrow> hlist_for_each_from h (hnext x); Some (n # ns) })"

definition hlist_for_each :: "hheap \<Rightarrow> nat \<Rightarrow> nat list option" where
  "hlist_for_each h p = do { first \<leftarrow> heads h p; hlist_for_each_from h first }"

partial_function (option) hlist_for_each_safe_from ::
    "(nat \<Rightarrow> hheap \<Rightarrow> hheap option) \<Rightarrow> nat option \<Rightarrow> hheap \<Rightarrow> hheap option" where
  "hlist_for_each_safe_from body pos h =
     (case pos of
        None \<Rightarrow> Some h
      | Some n \<Rightarrow> do { x \<leftarrow> nodes h n; h \<leftarrow> body n h; hlist_for_each_safe_from body (hnext x) h })"

definition hlist_for_each_safe :: "(nat \<Rightarrow> hheap \<Rightarrow> hheap option) \<Rightarrow> nat \<Rightarrow> hheap \<Rightarrow> hheap option" where
  "hlist_for_each_safe body p h = do { first \<leftarrow> heads h p; hlist_for_each_safe_from body first h }"

text \<open>\<open>list_for_each_safe(pos, n, head)\<close> and \<open>list_for_each_prev_safe\<close>, with their bodies.\<close>

partial_function (option) list_for_each_safe_from ::
    "(nat \<Rightarrow> lheap \<Rightarrow> lheap option) \<Rightarrow> nat \<Rightarrow> nat \<Rightarrow> nat \<Rightarrow> lheap \<Rightarrow> lheap option" where
  "list_for_each_safe_from body head pos n h =
     (if pos = head then Some h
      else do {
        h \<leftarrow> body pos h;
        n' \<leftarrow> get_next h n;
        list_for_each_safe_from body head n n' h
      })"

definition list_for_each_safe :: "(nat \<Rightarrow> lheap \<Rightarrow> lheap option) \<Rightarrow> nat \<Rightarrow> lheap \<Rightarrow> lheap option" where
  "list_for_each_safe body head h = do {
     pos \<leftarrow> get_next h head;
     n \<leftarrow> get_next h pos;
     list_for_each_safe_from body head pos n h
   }"

partial_function (option) list_for_each_prev_safe_from ::
    "(nat \<Rightarrow> lheap \<Rightarrow> lheap option) \<Rightarrow> nat \<Rightarrow> nat \<Rightarrow> nat \<Rightarrow> lheap \<Rightarrow> lheap option" where
  "list_for_each_prev_safe_from body head pos n h =
     (if pos = head then Some h
      else do {
        h \<leftarrow> body pos h;
        n' \<leftarrow> get_prev h n;
        list_for_each_prev_safe_from body head n n' h
      })"

definition list_for_each_prev_safe :: "(nat \<Rightarrow> lheap \<Rightarrow> lheap option) \<Rightarrow> nat \<Rightarrow> lheap \<Rightarrow> lheap option" where
  "list_for_each_prev_safe body head h = do {
     pos \<leftarrow> get_prev h head;
     n \<leftarrow> get_prev h pos;
     list_for_each_prev_safe_from body head pos n h
   }"

section \<open>What a list is\<close>

text \<open>
  The heap as two functions: what each pointer holds, and the \<open>pprev\<close> of each node. \<open>hchain L B l ns\<close>
  says that the pointer \<open>l\<close> leads to the nodes \<open>ns\<close>, and \<open>hopen\<close> the same without the last pointer.
\<close>

definition back_of :: "hheap \<Rightarrow> nat \<Rightarrow> hlink option option" where
  "back_of h n = map_option pprev (nodes h n)"

fun hchain :: "(hlink \<Rightarrow> nat option option) \<Rightarrow> (nat \<Rightarrow> hlink option option) \<Rightarrow> hlink \<Rightarrow> nat list \<Rightarrow> bool" where
  "hchain L B l [] \<longleftrightarrow> L l = Some None"
| "hchain L B l (n # ns) \<longleftrightarrow> L l = Some (Some n) \<and> B n = Some (Some l) \<and> hchain L B (Next n) ns"

fun hopen :: "(hlink \<Rightarrow> nat option option) \<Rightarrow> (nat \<Rightarrow> hlink option option) \<Rightarrow> hlink \<Rightarrow> nat list \<Rightarrow> bool" where
  "hopen L B l [] \<longleftrightarrow> True"
| "hopen L B l (n # ns) \<longleftrightarrow> L l = Some (Some n) \<and> B n = Some (Some l) \<and> hopen L B (Next n) ns"

definition hlist :: "hheap \<Rightarrow> nat \<Rightarrow> nat list \<Rightarrow> bool" where
  "hlist h p ns \<longleftrightarrow> hchain (read_link h) (back_of h) (First p) ns \<and> distinct ns"

text \<open>The pointer that points at what follows \<open>ns\<close>.\<close>

definition end_link :: "hlink \<Rightarrow> nat list \<Rightarrow> hlink" where
  "end_link l ns = last (l # map Next ns)"

lemma end_link_simps [simp]: "end_link l [] = l" "end_link l (n # ns) = end_link (Next n) ns"
  by (simp_all add: end_link_def)

lemma hchain_append: "hchain L B l (xs @ ys) \<longleftrightarrow> hopen L B l xs \<and> hchain L B (end_link l xs) ys"
  by (induction xs arbitrary: l) auto

lemma hopen_upd_link: "k \<notin> set (butlast (l # map Next ns)) \<Longrightarrow> hopen (L(k := v)) B l ns = hopen L B l ns"
  by (induction ns arbitrary: l) auto

lemma hopen_upd_back: "n \<notin> set ns \<Longrightarrow> hopen L (B(n := v)) l ns = hopen L B l ns"
  by (induction ns arbitrary: l) auto

lemma hchain_upd_link: "k \<notin> set (l # map Next ns) \<Longrightarrow> hchain (L(k := v)) B l ns = hchain L B l ns"
  by (induction ns arbitrary: l) auto

lemma hchain_upd_back: "n \<notin> set ns \<Longrightarrow> hchain L (B(n := v)) l ns = hchain L B l ns"
  by (induction ns arbitrary: l) auto

lemma hopen_upd_next: "Next n \<noteq> l \<Longrightarrow> n \<notin> set ns \<Longrightarrow> hopen (L(Next n := v)) B l ns = hopen L B l ns"
  by (induction ns arbitrary: l) auto

lemma hchain_upd_next: "Next n \<noteq> l \<Longrightarrow> n \<notin> set ns \<Longrightarrow> hchain (L(Next n := v)) B l ns = hchain L B l ns"
  by (induction ns arbitrary: l) auto

lemma hchain_upd_first: "hchain (L(First p := v)) B (Next m) ns = hchain L B (Next m) ns"
  by (induction ns arbitrary: m) auto

lemmas hchain_upd = hopen_upd_link hopen_upd_back hopen_upd_next hchain_upd_link hchain_upd_back
  hchain_upd_next hchain_upd_first

lemma distinct_links: "distinct ns \<Longrightarrow> distinct (First p # map Next ns)"
  by (induction ns) (auto simp: inj_on_def distinct_map)

lemma end_link_notin: "distinct xs \<Longrightarrow> end_link (First p) xs \<notin> set (butlast (First p # map Next xs))"
  unfolding end_link_def by (rule last_not_butlast) (rule distinct_links)

lemma end_link_cases: "end_link (First p) xs = First p \<or> (\<exists>x \<in> set xs. end_link (First p) xs = Next x)"
  by (cases xs rule: rev_cases) (auto simp: end_link_def)

lemma end_link_other: "n \<notin> set xs \<Longrightarrow> end_link (First p) xs \<noteq> Next n"
  using end_link_cases [of p xs] by auto

section \<open>The accesses on the two functions\<close>

lemma read_link_Next: "read_link h (Next n) = None \<longleftrightarrow> back_of h n = None"
  by (simp add: back_of_def)

lemma set_hnext_law:
  assumes "back_of h n \<noteq> None"
  shows "\<exists>h'. set_hnext h n v = Some h' \<and> read_link h' = (read_link h)(Next n := Some v) \<and> back_of h' = back_of h"
proof -
  obtain x where x: "nodes h n = Some x" using assms by (auto simp: back_of_def)
  let ?h = "h\<lparr>nodes := (nodes h)(n \<mapsto> x\<lparr>hnext := v\<rparr>)\<rparr>"
  have "read_link ?h k = ((read_link h)(Next n := Some v)) k" for k by (cases k) simp_all
  moreover have "back_of ?h m = back_of h m" for m using x by (simp add: back_of_def)
  ultimately show ?thesis using x by (auto simp: set_hnext_def)
qed

lemma set_pprev_law:
  assumes "back_of h n \<noteq> None"
  shows "\<exists>h'. set_pprev h n v = Some h' \<and> read_link h' = read_link h \<and> back_of h' = (back_of h)(n := Some v)"
proof -
  obtain x where x: "nodes h n = Some x" using assms by (auto simp: back_of_def)
  let ?h = "h\<lparr>nodes := (nodes h)(n \<mapsto> x\<lparr>pprev := v\<rparr>)\<rparr>"
  have "read_link ?h k = read_link h k" for k using x by (cases k) simp_all
  moreover have "back_of ?h m = ((back_of h)(n := Some v)) m" for m by (simp add: back_of_def)
  ultimately show ?thesis using x by (auto simp: set_pprev_def)
qed

lemma write_link_law:
  assumes "read_link h l \<noteq> None"
  shows "\<exists>h'. write_link h l v = Some h' \<and> read_link h' = (read_link h)(l := Some v) \<and> back_of h' = back_of h"
proof (cases l)
  case (First p)
  let ?h = "h\<lparr>heads := (heads h)(p \<mapsto> v)\<rparr>"
  have "read_link ?h k = ((read_link h)(First p := Some v)) k" for k by (cases k) simp_all
  moreover have "back_of ?h m = back_of h m" for m by (simp add: back_of_def)
  ultimately show ?thesis using assms First by (auto simp: set_first_def)
next
  case (Next n)
  then show ?thesis using set_hnext_law [of h n v] assms by (simp add: back_of_def)
qed

lemma set_first_law:
  assumes "read_link h (First p) \<noteq> None"
  shows "\<exists>h'. set_first h p v = Some h' \<and> read_link h' = (read_link h)(First p := Some v) \<and> back_of h' = back_of h"
  using write_link_law [OF assms, of v] by simp

definition back_upd :: "nat option \<Rightarrow> hlink option \<Rightarrow> (nat \<Rightarrow> hlink option option) \<Rightarrow> nat \<Rightarrow> hlink option option" where
  "back_upd q l B = (case q of None \<Rightarrow> B | Some n \<Rightarrow> B(n := Some l))"

lemma link_back_law:
  assumes "\<And>n. q = Some n \<Longrightarrow> back_of h n \<noteq> None"
  shows "\<exists>h'. link_back h q l = Some h' \<and> read_link h' = read_link h \<and> back_of h' = back_upd q l (back_of h)"
  using assms set_pprev_law [of h _ l] by (cases q) (auto simp: back_upd_def)

lemma hchain_dom: "hchain L B l ns \<Longrightarrow> n \<in> set ns \<Longrightarrow> B n \<noteq> None"
  by (induction ns arbitrary: l) auto

lemma hchain_link: "hchain L B l ns \<Longrightarrow> L l = Some (case ns of [] \<Rightarrow> None | n # _ \<Rightarrow> Some n)"
  by (cases ns) simp_all

section \<open>The laws\<close>

text \<open>A pointer that is redirected to the rest of a list.\<close>

lemma hchain_redirect:
  assumes "hchain L B (Next a) ys" and "distinct ys" and "k \<notin> Next ` set ys"
  shows "hchain (L(k := L (Next a))) (back_upd (case ys of [] \<Rightarrow> None | n # _ \<Rightarrow> Some n) (Some k) B) k ys"
  using assms by (cases ys) (auto simp: back_upd_def hchain_upd)

lemma hlist_unlink_law:
  assumes "hlist h p (xs @ a # ys)"
  shows "\<exists>h'. hlist_unlink h a = Some h' \<and> hlist h' p (xs @ ys) \<and> back_of h' a = back_of h a \<and>
    read_link h' (Next a) = read_link h (Next a)"
proof -
  let ?L = "read_link h" and ?B = "back_of h" and ?k = "end_link (First p) xs"
  let ?q = "case ys of [] \<Rightarrow> None | n # _ \<Rightarrow> Some n"
  have d: "distinct (xs @ a # ys)" and c: "hopen ?L ?B (First p) xs" "?L ?k = Some (Some a)" "?B a = Some (Some ?k)"
    "hchain ?L ?B (Next a) ys"
    using assms by (simp_all add: hlist_def hchain_append)
  obtain h1 where h1: "write_link h ?k ?q = Some h1" "read_link h1 = ?L(?k := Some ?q)" "back_of h1 = ?B"
    using write_link_law [of h ?k ?q] c(2) by auto
  have "back_of h1 n \<noteq> None" if "?q = Some n" for n
    using that hchain_dom [OF c(4), of n] h1(3) by (cases ys) auto
  then obtain h2 where h2: "link_back h1 ?q (Some ?k) = Some h2" "read_link h2 = ?L(?k := Some ?q)"
    "back_of h2 = back_upd ?q (Some ?k) ?B"
    using link_back_law [of ?q h1 "Some ?k"] h1(2,3) by auto
  obtain x where x: "nodes h a = Some x" "pprev x = Some ?k" using c(3) by (auto simp: back_of_def)
  have q: "hnext x = ?q" using hchain_link [OF c(4)] x(1) by simp
  have run: "hlist_unlink h a = Some h2"
    using x q h1(1) h2(1) by (simp add: hlist_unlink_def Let_def)
  have k: "?k \<notin> Next ` set ys" "?k \<noteq> Next a" using d end_link_cases [of p xs] by auto
  have "hchain (?L(?k := ?L (Next a))) (back_upd ?q (Some ?k) ?B) ?k ys"
    using hchain_redirect [OF c(4) _ k(1)] d by simp
  then have "hchain (?L(?k := Some ?q)) (back_upd ?q (Some ?k) ?B) ?k ys"
    by (simp only: hchain_link [OF c(4)])
  moreover have "hopen (?L(?k := Some ?q)) (back_upd ?q (Some ?k) ?B) (First p) xs"
    using c(1) d end_link_notin [of xs p] by (cases ys) (auto simp: back_upd_def hopen_upd_link hopen_upd_back)
  ultimately have "hlist h2 p (xs @ ys)" using d h2 by (simp add: hlist_def hchain_append)
  moreover have "back_of h2 a = ?B a" using h2(3) d by (cases ys) (auto simp: back_upd_def)
  moreover have "read_link h2 (Next a) = ?L (Next a)" using h2(2) k(2) by (simp del: read_link.simps)
  ultimately show ?thesis using run by blast
qed

text \<open>A node outside a list may be written.\<close>

lemma hlist_other:
  assumes "hlist h p ns" and "n \<notin> set ns"
    and "read_link h' = (read_link h)(Next n := v)" and "back_of h' = (back_of h)(n := w)"
  shows "hlist h' p ns"
  using assms by (auto simp: hlist_def hchain_upd)

lemma INIT_HLIST_NODE_law:
  assumes "back_of h n \<noteq> None"
  shows "\<exists>h'. INIT_HLIST_NODE h n = Some h' \<and> read_link h' = (read_link h)(Next n := Some None) \<and>
    back_of h' = (back_of h)(n := Some None)"
proof -
  obtain h1 where h1: "set_hnext h n None = Some h1" "read_link h1 = (read_link h)(Next n := Some None)"
    "back_of h1 = back_of h" using set_hnext_law [OF assms] by blast
  then show ?thesis using set_pprev_law [of h1 n None] assms by (simp add: INIT_HLIST_NODE_def)
qed

lemma hlist_unhashed_law: "back_of h n = Some l \<Longrightarrow> hlist_unhashed h n = Some (l = None)"
  by (auto simp: hlist_unhashed_def back_of_def)

lemma hlist_back: "hlist h p (xs @ a # ys) \<Longrightarrow> back_of h a = Some (Some (end_link (First p) xs))"
  by (simp add: hlist_def hchain_append)

lemma hlist_del_law:
  assumes "hlist h p (xs @ a # ys)"
  shows "\<exists>h'. hlist_del h a = Some h' \<and> hlist h' p (xs @ ys) \<and> hlist_unhashed h' a = Some True"
    and "\<exists>h'. hlist_del_init h a = Some h' \<and> hlist h' p (xs @ ys) \<and> hlist_unhashed h' a = Some True"
proof -
  obtain h1 where h1: "hlist_unlink h a = Some h1" "hlist h1 p (xs @ ys)" "back_of h1 a = back_of h a"
    using hlist_unlink_law [OF assms] by blast
  have "back_of h1 a \<noteq> None" using h1(3) hlist_back [OF assms] by simp
  then obtain h2 where h2: "INIT_HLIST_NODE h1 a = Some h2" "read_link h2 = (read_link h1)(Next a := Some None)"
    "back_of h2 = (back_of h1)(a := Some None)"
    using INIT_HLIST_NODE_law by blast
  have "a \<notin> set (xs @ ys)" using assms by (auto simp: hlist_def)
  then have l: "hlist h2 p (xs @ ys)" using hlist_other [OF h1(2) _ h2(2,3)] by simp
  have u: "hlist_unhashed h2 a = Some True" using hlist_unhashed_law [of h2 a None] h2(3) by simp
  have "hlist_del h a = Some h2" using h1(1) h2(1) by (simp add: hlist_del_def INIT_HLIST_NODE_def)
  with l u show "\<exists>h'. hlist_del h a = Some h' \<and> hlist h' p (xs @ ys) \<and> hlist_unhashed h' a = Some True" by blast
  have "hlist_del_init h a = Some h2"
    using h1(1) h2(1) hlist_unhashed_law [OF hlist_back [OF assms]] by (simp add: hlist_del_init_def)
  with l u show "\<exists>h'. hlist_del_init h a = Some h' \<and> hlist h' p (xs @ ys) \<and> hlist_unhashed h' a = Some True" by blast
qed

lemma hlist_del_init_unhashed: "back_of h n = Some None \<Longrightarrow> hlist_del_init h n = Some h"
  using hlist_unhashed_law [of h n None] by (simp add: hlist_del_init_def)

lemma hlist_add_head_law:
  assumes "hlist h p ns" and "n \<notin> set ns" and "back_of h n \<noteq> None"
  shows "\<exists>h'. hlist_add_head h n p = Some h' \<and> hlist h' p (n # ns)"
proof -
  let ?L = "read_link h" and ?B = "back_of h" and ?q = "case ns of [] \<Rightarrow> None | m # _ \<Rightarrow> Some m"
  have c: "hchain ?L ?B (First p) ns" and d: "distinct ns" using assms(1) by (simp_all add: hlist_def)
  note f = hchain_link [OF c]
  obtain h1 where h1: "set_hnext h n ?q = Some h1" "read_link h1 = ?L(Next n := Some ?q)" "back_of h1 = ?B"
    using set_hnext_law [OF assms(3)] by blast
  have "back_of h1 m \<noteq> None" if "?q = Some m" for m
    using that hchain_dom [OF c, of m] h1(3) by (cases ns) auto
  then obtain h2 where h2: "link_back h1 ?q (Some (Next n)) = Some h2" "read_link h2 = read_link h1"
    "back_of h2 = back_upd ?q (Some (Next n)) ?B"
    using link_back_law [of ?q h1 "Some (Next n)"] h1(3) by auto
  have "read_link h2 (First p) \<noteq> None" using h2(2) h1(2) f by simp
  then obtain h3 where h3: "set_first h2 p (Some n) = Some h3" "read_link h3 = (read_link h2)(First p := Some (Some n))"
    "back_of h3 = back_of h2" using set_first_law by blast
  have "back_of h3 n \<noteq> None"
    using h3(3) h2(3) assms(2,3) by (cases ns) (auto simp: back_upd_def)
  then obtain h4 where h4: "set_pprev h3 n (Some (First p)) = Some h4" "read_link h4 = read_link h3"
    "back_of h4 = (back_of h3)(n := Some (Some (First p)))" using set_pprev_law by blast
  have "hlist_add_head h n p = Some h4" using f h1(1) h2(1) h3(1) h4(1) by (simp add: hlist_add_head_def)
  moreover have "hlist h4 p (n # ns)"
    using c d assms(2) h1(2) h2(2,3) h3(2,3) h4(2,3)
    by (cases ns) (auto simp: hlist_def back_upd_def hchain_upd)
  ultimately show ?thesis by blast
qed

lemma hlist_add_after_law:
  assumes "hlist h p (xs @ a # ys)" and "n \<notin> set (xs @ a # ys)" and "back_of h n \<noteq> None"
  shows "\<exists>h'. hlist_add_after h a n = Some h' \<and> hlist h' p (xs @ a # n # ys)"
proof -
  let ?L = "read_link h" and ?B = "back_of h" and ?k = "end_link (First p) xs"
    and ?q = "case ys of [] \<Rightarrow> None | m # _ \<Rightarrow> Some m"
  have d: "distinct (xs @ a # ys)" and c: "hopen ?L ?B (First p) xs" "?L ?k = Some (Some a)" "?B a = Some (Some ?k)"
    "hchain ?L ?B (Next a) ys"
    using assms(1) by (simp_all add: hlist_def hchain_append)
  obtain x where x: "nodes h a = Some x" "hnext x = ?q"
    using c(3) hchain_link [OF c(4)] by (auto simp: back_of_def)
  obtain h1 where h1: "set_hnext h n ?q = Some h1" "read_link h1 = ?L(Next n := Some ?q)" "back_of h1 = ?B"
    using set_hnext_law [OF assms(3)] by blast
  obtain h2 where h2: "set_hnext h1 a (Some n) = Some h2" "read_link h2 = (read_link h1)(Next a := Some (Some n))"
    "back_of h2 = ?B" using set_hnext_law [of h1 a "Some n"] c(3) h1(3) by auto
  obtain h3 where h3: "set_pprev h2 n (Some (Next a)) = Some h3" "read_link h3 = read_link h2"
    "back_of h3 = ?B(n := Some (Some (Next a)))" using set_pprev_law [of h2 n] assms(3) h2(3) by auto
  have "back_of h3 m \<noteq> None" if "?q = Some m" for m
    using that hchain_dom [OF c(4), of m] h3(3) by (cases ys) auto
  then obtain h4 where h4: "link_back h3 ?q (Some (Next n)) = Some h4" "read_link h4 = read_link h3"
    "back_of h4 = back_upd ?q (Some (Next n)) (back_of h3)"
    using link_back_law [of ?q h3 "Some (Next n)"] by auto
  have "read_link h3 (Next n) = Some ?q" using h3(2) h2(2) h1(2) assms(2) by simp
  then obtain y where y: "nodes h3 n = Some y" "hnext y = ?q" by auto
  have "hlist_add_after h a n = Some h4" using x y h1(1) h2(1) h3(1) h4(1) by (simp add: hlist_add_after_def)
  moreover have "?k \<noteq> Next n" "?k \<noteq> Next a" using assms(2) d by (simp_all add: end_link_other)
  then have "hlist h4 p (xs @ a # n # ys)"
    using c d assms(2) h1(2) h2(2) h3(2,3) h4(2,3)
    by (cases ys) (auto simp: hlist_def hchain_append back_upd_def hchain_upd)
  ultimately show ?thesis by blast
qed

lemma hlist_add_before_law:
  assumes "hlist h p (xs @ a # ys)" and "n \<notin> set (xs @ a # ys)" and "back_of h n \<noteq> None"
  shows "\<exists>h'. hlist_add_before h n a = Some h' \<and> hlist h' p (xs @ n # a # ys)"
proof -
  let ?L = "read_link h" and ?B = "back_of h" and ?k = "end_link (First p) xs"
  have d: "distinct (xs @ a # ys)" and c: "hopen ?L ?B (First p) xs" "?L ?k = Some (Some a)" "?B a = Some (Some ?k)"
    "hchain ?L ?B (Next a) ys"
    using assms(1) by (simp_all add: hlist_def hchain_append)
  have k: "?k \<noteq> Next n" "?k \<noteq> Next a" "?k \<notin> Next ` set ys"
    using assms(2) d end_link_cases [of p xs] by auto
  obtain x where x: "nodes h a = Some x" "pprev x = Some ?k" using c(3) by (auto simp: back_of_def)
  obtain h1 where h1: "set_pprev h n (Some ?k) = Some h1" "read_link h1 = ?L" "back_of h1 = ?B(n := Some (Some ?k))"
    using set_pprev_law [OF assms(3)] by blast
  obtain h2 where h2: "set_hnext h1 n (Some a) = Some h2" "read_link h2 = ?L(Next n := Some (Some a))"
    "back_of h2 = ?B(n := Some (Some ?k))" using set_hnext_law [of h1 n "Some a"] h1(2,3) by auto
  have n: "n \<noteq> a" using assms(2) by simp
  obtain h3 where h3: "set_pprev h2 a (Some (Next n)) = Some h3" "read_link h3 = read_link h2"
    "back_of h3 = (back_of h2)(a := Some (Some (Next n)))"
    using set_pprev_law [of h2 a "Some (Next n)"] c(3) h2(3) n by auto
  have "back_of h3 n = Some (Some ?k)" using h3(3) h2(3) n by simp
  then obtain y where y: "nodes h3 n = Some y" "pprev y = Some ?k" by (auto simp: back_of_def)
  have "read_link h3 ?k \<noteq> None" using h3(2) h2(2) c(2) k(1) by simp
  then obtain h4 where h4: "write_link h3 ?k (Some n) = Some h4" "read_link h4 = (read_link h3)(?k := Some (Some n))"
    "back_of h4 = back_of h3" using write_link_law by blast
  have "hlist_add_before h n a = Some h4" using x y h1(1) h2(1) h3(1) h4(1) by (simp add: hlist_add_before_def)
  moreover have "hopen (read_link h4) (back_of h4) (First p) xs"
    using c(1) d assms(2) end_link_notin [of xs p] h2(2,3) h3(2,3) h4(2,3) by (auto simp: hchain_upd)
  moreover have "hchain (read_link h4) (back_of h4) (Next a) ys"
    using c(4) d assms(2) k h2(2,3) h3(2,3) h4(2,3) by (auto simp: hchain_upd)
  ultimately show ?thesis
    using d assms(2) k(1) n h2(2,3) h3(2,3) h4(2,3) by (auto simp: hlist_def hchain_append simp del: read_link.simps)
qed

lemma hlist_move_list_law:
  assumes "hlist h old ns" and "heads h newl \<noteq> None" and "newl \<noteq> old"
  shows "\<exists>h'. hlist_move_list h old newl = Some h' \<and> hlist h' newl ns \<and> hlist h' old []"
proof -
  let ?L = "read_link h" and ?B = "back_of h" and ?q = "case ns of [] \<Rightarrow> None | n # _ \<Rightarrow> Some n"
  have c: "hchain ?L ?B (First old) ns" and d: "distinct ns" using assms(1) by (simp_all add: hlist_def)
  have f: "heads h old = Some ?q" using hchain_link [OF c] by simp
  obtain h1 where h1: "set_first h newl ?q = Some h1" "read_link h1 = ?L(First newl := Some ?q)" "back_of h1 = ?B"
    using set_first_law [of h newl ?q] assms(2) by auto
  have g: "heads h1 newl = Some ?q" using fun_cong [OF h1(2), of "First newl"] by simp
  have "back_of h1 m \<noteq> None" if "?q = Some m" for m
    using that hchain_dom [OF c, of m] h1(3) by (cases ns) auto
  then obtain h2 where h2: "link_back h1 ?q (Some (First newl)) = Some h2" "read_link h2 = read_link h1"
    "back_of h2 = back_upd ?q (Some (First newl)) ?B"
    using link_back_law [of ?q h1 "Some (First newl)"] h1(3) by auto
  have "read_link h2 (First old) \<noteq> None" using h2(2) h1(2) hchain_link [OF c] assms(3) by simp
  then obtain h3 where h3: "set_first h2 old None = Some h3" "read_link h3 = (read_link h2)(First old := Some None)"
    "back_of h3 = back_of h2" using set_first_law by blast
  have "hlist_move_list h old newl = Some h3" using f g h1(1) h2(1) h3(1) by (simp add: hlist_move_list_def)
  moreover have "hlist h3 newl ns \<and> hlist h3 old []"
    using c d assms(3) h1(2) h2(2,3) h3(2,3) by (cases ns) (auto simp: hlist_def back_upd_def hchain_upd)
  ultimately show ?thesis by blast
qed

lemma hlist_empty_law: "hlist h p ns \<Longrightarrow> hlist_empty h p = Some (ns = [])"
  by (cases ns) (auto simp: hlist_def hlist_empty_def)

section \<open>The loops\<close>

lemma hlist_for_each_from_law:
  assumes "hchain (read_link h) (back_of h) l ns" and "read_link h l = Some pos"
  shows "hlist_for_each_from h pos = Some ns"
  using assms
proof (induction ns arbitrary: l pos)
  case Nil
  then show ?case by (simp add: hlist_for_each_from.simps)
next
  case (Cons n ns)
  then obtain x where "nodes h n = Some x" by (auto simp: back_of_def)
  moreover from this have "hlist_for_each_from h (hnext x) = Some ns"
    using Cons.IH [of "Next n" "hnext x"] Cons.prems(1) by simp
  ultimately show ?case using Cons.prems by (simp add: hlist_for_each_from.simps [of h "Some n"])
qed

lemma hlist_for_each_law:
  assumes "hlist h p ns" shows "hlist_for_each h p = Some ns"
proof -
  have c: "hchain (read_link h) (back_of h) (First p) ns" using assms by (simp add: hlist_def)
  then obtain v where "read_link h (First p) = Some v" using hchain_link by blast
  then show ?thesis using hlist_for_each_from_law [OF c] by (simp add: hlist_for_each_def)
qed

text \<open>Loops that take the nodes with \<open>P\<close> out of the list.\<close>

definition hlist_take_out :: "(nat \<Rightarrow> bool) \<Rightarrow> nat \<Rightarrow> hheap \<Rightarrow> hheap option" where
  "hlist_take_out P n h = (if P n then hlist_del h n else Some h)"

lemma hlist_for_each_safe_from_law:
  assumes "hlist h p (ms @ ns)" and "pos = (case ns of [] \<Rightarrow> None | n # _ \<Rightarrow> Some n)"
  shows "\<exists>h'. hlist_for_each_safe_from (hlist_take_out P) pos h = Some h' \<and>
    hlist h' p (ms @ filter (\<lambda>n. \<not> P n) ns)"
  using assms
proof (induction ns arbitrary: ms h pos)
  case Nil
  then show ?case by (simp add: hlist_for_each_safe_from.simps)
next
  case (Cons n ns)
  have "hchain (read_link h) (back_of h) (Next n) ns" and b: "back_of h n \<noteq> None"
    using Cons.prems(1) by (simp_all add: hlist_def hchain_append)
  with hchain_link [OF this(1)] obtain x where x: "nodes h n = Some x" "hnext x = (case ns of [] \<Rightarrow> None | m # _ \<Rightarrow> Some m)"
    by (auto simp: back_of_def)
  show ?case
  proof (cases "P n")
    case True
    obtain h1 where h1: "hlist_del h n = Some h1" "hlist h1 p (ms @ ns)"
      using hlist_del_law(1) [OF Cons.prems(1)] by blast
    show ?thesis using Cons.IH [OF h1(2) refl] Cons.prems(2) x h1(1) True
      by (simp add: hlist_for_each_safe_from.simps [of _ "Some n"] hlist_take_out_def)
  next
    case False
    have "hlist h p ((ms @ [n]) @ ns)" using Cons.prems(1) by simp
    from Cons.IH [OF this refl] show ?thesis using Cons.prems(2) x False
      by (simp add: hlist_for_each_safe_from.simps [of _ "Some n"] hlist_take_out_def)
  qed
qed

lemma hlist_for_each_safe_law:
  assumes "hlist h p ns"
  shows "\<exists>h'. hlist_for_each_safe (hlist_take_out P) p h = Some h' \<and> hlist h' p (filter (\<lambda>n. \<not> P n) ns)"
proof -
  have "hchain (read_link h) (back_of h) (First p) ns" using assms by (simp add: hlist_def)
  then have "heads h p = Some (case ns of [] \<Rightarrow> None | n # _ \<Rightarrow> Some n)" using hchain_link by fastforce
  then show ?thesis using hlist_for_each_safe_from_law [of h p "[]" ns _ P] assms
    by (simp add: hlist_for_each_safe_def)
qed

definition list_take_out :: "(nat \<Rightarrow> bool) \<Rightarrow> nat \<Rightarrow> lheap \<Rightarrow> lheap option" where
  "list_take_out P a h = (if P a then list_del_init h a else Some h)"

lemma list_take_out_law:
  assumes "dlist h hp (xs @ a # ys)"
  shows "\<exists>h'. list_take_out P a h = Some h' \<and> dlist h' hp (xs @ (if P a then [] else [a]) @ ys) \<and> dom h' = dom h"
  using list_del_init_law [OF assms] assms by (auto simp: list_take_out_def)

lemma list_for_each_safe_from_law:
  assumes "dlist h hp (xs @ ys)" and "pos = hd (ys @ [hp])" and "ys \<noteq> [] \<Longrightarrow> n = hd (tl ys @ [hp])"
  shows "\<exists>h'. list_for_each_safe_from (list_take_out P) hp pos n h = Some h' \<and>
    dlist h' hp (xs @ filter (\<lambda>a. \<not> P a) ys)"
  using assms
proof (induction ys arbitrary: xs h pos n)
  case Nil
  then show ?case by (simp add: list_for_each_safe_from.simps)
next
  case (Cons a ys)
  obtain h1 where h1: "list_take_out P a h = Some h1" "dlist h1 hp ((xs @ (if P a then [] else [a])) @ ys)"
    using list_take_out_law [of h hp xs a ys P] Cons.prems(1) by auto
  have "n \<in> dom h1" using Cons.prems(3) h1(2) by (cases ys) (auto simp: dlist_def)
  then have n: "get_next h1 n = Some (nx h1 n)" by simp
  have "nx h1 n = hd (tl ys @ [hp])" if "ys \<noteq> []"
    using that dlist_neighbours(1) [of h1 hp "(xs @ (if P a then [] else [a])) @ [hd ys]" "tl ys"] h1(2) Cons.prems(3)
    by (cases ys) auto
  from Cons.IH [OF h1(2) refl this] obtain h2 where
    "list_for_each_safe_from (list_take_out P) hp (hd (ys @ [hp])) (nx h1 n) h1 = Some h2"
    "dlist h2 hp ((xs @ (if P a then [] else [a])) @ filter (\<lambda>a. \<not> P a) ys)" by blast
  moreover have "pos = a" "a \<noteq> hp" "n = hd (ys @ [hp])" using Cons.prems by (auto simp: dlist_def)
  ultimately show ?case using h1(1) n by (auto simp: list_for_each_safe_from.simps [of _ hp a])
qed

lemma list_for_each_safe_law:
  assumes "dlist h hp xs"
  shows "\<exists>h'. list_for_each_safe (list_take_out P) hp h = Some h' \<and> dlist h' hp (filter (\<lambda>a. \<not> P a) xs)"
proof -
  let ?a = "hd (xs @ [hp])"
  have "?a \<in> dom h" using assms by (cases xs) (auto simp: dlist_def)
  then have n: "get_next h ?a = Some (nx h ?a)" by simp
  have "nx h ?a = hd (tl xs @ [hp])" if "xs \<noteq> []"
    using that dlist_neighbours(1) [of h hp "[hd xs]" "tl xs"] assms by (cases xs) auto
  from list_for_each_safe_from_law [of h hp "[]" xs ?a, OF _ refl this] show ?thesis
    using assms n by (simp add: list_for_each_safe_def dlist_first)
qed

lemma list_for_each_prev_safe_from_law:
  assumes "dlist h hp (xs @ ys)" and "pos = last (hp # xs)" and "xs \<noteq> [] \<Longrightarrow> n = last (hp # butlast xs)"
  shows "\<exists>h'. list_for_each_prev_safe_from (list_take_out P) hp pos n h = Some h' \<and>
    dlist h' hp (filter (\<lambda>a. \<not> P a) xs @ ys)"
  using assms
proof (induction xs arbitrary: ys h pos n rule: rev_induct)
  case Nil
  then show ?case by (simp add: list_for_each_prev_safe_from.simps)
next
  case (snoc a xs)
  obtain h1 where h1: "list_take_out P a h = Some h1" "dlist h1 hp (xs @ (if P a then [] else [a]) @ ys)"
    using list_take_out_law [of h hp xs a ys P] snoc.prems(1) by auto
  have nx: "n = last (hp # xs)" using snoc.prems(3) by simp
  then have "n \<in> dom h1" using h1(2) by (cases xs rule: rev_cases) (auto simp: dlist_def)
  then have n: "get_prev h1 n = Some (pv h1 n)" by simp
  have "pv h1 n = last (hp # butlast xs)" if "xs \<noteq> []"
    using that dlist_neighbours(2) [of h1 hp "butlast xs" "last xs # (if P a then [] else [a]) @ ys"] h1(2) nx
    by (cases xs rule: rev_cases) auto
  from snoc.IH [OF h1(2) refl this] obtain h2 where
    "list_for_each_prev_safe_from (list_take_out P) hp (last (hp # xs)) (pv h1 n) h1 = Some h2"
    "dlist h2 hp (filter (\<lambda>a. \<not> P a) xs @ (if P a then [] else [a]) @ ys)" by blast
  moreover have "pos = a" "a \<noteq> hp" "n = last (hp # xs)" using snoc.prems by (auto simp: dlist_def)
  ultimately show ?case using h1(1) n by (auto simp: list_for_each_prev_safe_from.simps [of _ hp a])
qed

lemma list_for_each_prev_safe_law:
  assumes "dlist h hp xs"
  shows "\<exists>h'. list_for_each_prev_safe (list_take_out P) hp h = Some h' \<and> dlist h' hp (filter (\<lambda>a. \<not> P a) xs)"
proof -
  let ?a = "last (hp # xs)"
  have "?a \<in> dom h" using assms by (cases xs rule: rev_cases) (auto simp: dlist_def)
  then have n: "get_prev h ?a = Some (pv h ?a)" by simp
  have "pv h ?a = last (hp # butlast xs)" if "xs \<noteq> []"
    using that dlist_neighbours(2) [of h hp "butlast xs" "[last xs]"] assms by (cases xs rule: rev_cases) auto
  from list_for_each_prev_safe_from_law [of h hp xs "[]" ?a, OF _ refl this] show ?thesis
    using assms n by (simp add: list_for_each_prev_safe_def dlist_last)
qed

end
