(* ===== verification/List_Entries.thy ===== *)
theory List_Entries
  imports Hash_List
begin

text \<open>
  The loops of \<^verbatim>\<open>openocd/src/helper/list.h\<close> over the structures that the nodes are members of.

  A structure has its node at a fixed offset \<open>off\<close>: \<open>&pos->member\<close> adds the offset and
  \<open>list_entry\<close>, which is \<open>container_of\<close>, subtracts it. The address of a structure is an integer,
  because \<open>list_entry\<close> is also applied to the head of a list, which is in no such structure. The
  loops that do not change the list collect the entries they visit; the safe ones have a body.
\<close>

section \<open>Entries\<close>

definition list_entry :: "nat \<Rightarrow> nat \<Rightarrow> int" where
  "list_entry off p = int p - int off"

definition member_of :: "nat \<Rightarrow> int \<Rightarrow> nat" where
  "member_of off pos = nat (pos + int off)"

lemma member_entry [simp]: "member_of off (list_entry off p) = p"
  by (simp add: member_of_def list_entry_def)

definition next_entry :: "lheap \<Rightarrow> nat \<Rightarrow> int \<Rightarrow> int option" where
  "next_entry h off pos = map_option (list_entry off) (get_next h (member_of off pos))"

definition prev_entry :: "lheap \<Rightarrow> nat \<Rightarrow> int \<Rightarrow> int option" where
  "prev_entry h off pos = map_option (list_entry off) (get_prev h (member_of off pos))"

definition list_first_entry :: "lheap \<Rightarrow> nat \<Rightarrow> nat \<Rightarrow> int option" where
  "list_first_entry h p off = map_option (list_entry off) (get_next h p)"

text \<open>\<open>list_prepare_entry\<close>: \<open>None\<close> is \<open>NULL\<close>.\<close>

definition list_prepare_entry :: "int option \<Rightarrow> nat \<Rightarrow> nat \<Rightarrow> int" where
  "list_prepare_entry pos head off = (case pos of Some p \<Rightarrow> p | None \<Rightarrow> list_entry off head)"

definition list_safe_reset_next :: "lheap \<Rightarrow> nat \<Rightarrow> int \<Rightarrow> int option" where
  "list_safe_reset_next h off pos = next_entry h off pos"

section \<open>The loops\<close>

partial_function (option) list_for_each_entry_from :: "lheap \<Rightarrow> nat \<Rightarrow> nat \<Rightarrow> int \<Rightarrow> int list option" where
  "list_for_each_entry_from h off head pos =
     (if member_of off pos = head then Some []
      else do {
        n \<leftarrow> next_entry h off pos;
        ps \<leftarrow> list_for_each_entry_from h off head n;
        Some (pos # ps)
      })"

definition list_for_each_entry :: "lheap \<Rightarrow> nat \<Rightarrow> nat \<Rightarrow> int list option" where
  "list_for_each_entry h off head = do {
     n \<leftarrow> get_next h head;
     list_for_each_entry_from h off head (list_entry off n)
   }"

definition list_for_each_entry_continue :: "lheap \<Rightarrow> nat \<Rightarrow> nat \<Rightarrow> int \<Rightarrow> int list option" where
  "list_for_each_entry_continue h off head pos = do {
     n \<leftarrow> next_entry h off pos;
     list_for_each_entry_from h off head n
   }"

text \<open>The loop that the two backward ones share.\<close>

partial_function (option) entry_reverse_from :: "lheap \<Rightarrow> nat \<Rightarrow> nat \<Rightarrow> int \<Rightarrow> int list option" where
  "entry_reverse_from h off head pos =
     (if member_of off pos = head then Some []
      else do {
        n \<leftarrow> prev_entry h off pos;
        ps \<leftarrow> entry_reverse_from h off head n;
        Some (pos # ps)
      })"

definition list_for_each_entry_reverse :: "lheap \<Rightarrow> nat \<Rightarrow> nat \<Rightarrow> int list option" where
  "list_for_each_entry_reverse h off head = do {
     n \<leftarrow> get_prev h head;
     entry_reverse_from h off head (list_entry off n)
   }"

definition list_for_each_entry_continue_reverse :: "lheap \<Rightarrow> nat \<Rightarrow> nat \<Rightarrow> int \<Rightarrow> int list option" where
  "list_for_each_entry_continue_reverse h off head pos = do {
     n \<leftarrow> prev_entry h off pos;
     entry_reverse_from h off head n
   }"

text \<open>The loops that are safe against the removal of the current entry: \<open>n\<close> is read before the body.\<close>

partial_function (option) entry_safe_loop ::
    "(int \<Rightarrow> lheap \<Rightarrow> lheap option) \<Rightarrow> nat \<Rightarrow> nat \<Rightarrow> int \<Rightarrow> int \<Rightarrow> lheap \<Rightarrow> lheap option" where
  "entry_safe_loop body off head pos n h =
     (if member_of off pos = head then Some h
      else do {
        h \<leftarrow> body pos h;
        n' \<leftarrow> next_entry h off n;
        entry_safe_loop body off head n n' h
      })"

definition list_for_each_entry_safe_from ::
    "(int \<Rightarrow> lheap \<Rightarrow> lheap option) \<Rightarrow> nat \<Rightarrow> nat \<Rightarrow> int \<Rightarrow> lheap \<Rightarrow> lheap option" where
  "list_for_each_entry_safe_from body off head pos h = do {
     n \<leftarrow> next_entry h off pos;
     entry_safe_loop body off head pos n h
   }"

definition list_for_each_entry_safe ::
    "(int \<Rightarrow> lheap \<Rightarrow> lheap option) \<Rightarrow> nat \<Rightarrow> nat \<Rightarrow> lheap \<Rightarrow> lheap option" where
  "list_for_each_entry_safe body off head h = do {
     p \<leftarrow> get_next h head;
     let pos = list_entry off p;
     n \<leftarrow> next_entry h off pos;
     entry_safe_loop body off head pos n h
   }"

definition list_for_each_entry_safe_continue ::
    "(int \<Rightarrow> lheap \<Rightarrow> lheap option) \<Rightarrow> nat \<Rightarrow> nat \<Rightarrow> int \<Rightarrow> lheap \<Rightarrow> lheap option" where
  "list_for_each_entry_safe_continue body off head pos h = do {
     pos \<leftarrow> next_entry h off pos;
     n \<leftarrow> next_entry h off pos;
     entry_safe_loop body off head pos n h
   }"

partial_function (option) entry_safe_reverse_loop ::
    "(int \<Rightarrow> lheap \<Rightarrow> lheap option) \<Rightarrow> nat \<Rightarrow> nat \<Rightarrow> int \<Rightarrow> int \<Rightarrow> lheap \<Rightarrow> lheap option" where
  "entry_safe_reverse_loop body off head pos n h =
     (if member_of off pos = head then Some h
      else do {
        h \<leftarrow> body pos h;
        n' \<leftarrow> prev_entry h off n;
        entry_safe_reverse_loop body off head n n' h
      })"

definition list_for_each_entry_safe_reverse ::
    "(int \<Rightarrow> lheap \<Rightarrow> lheap option) \<Rightarrow> nat \<Rightarrow> nat \<Rightarrow> lheap \<Rightarrow> lheap option" where
  "list_for_each_entry_safe_reverse body off head h = do {
     p \<leftarrow> get_prev h head;
     let pos = list_entry off p;
     n \<leftarrow> prev_entry h off pos;
     entry_safe_reverse_loop body off head pos n h
   }"

section \<open>The loops over a hash list\<close>

text \<open>
  \<open>tpos\<close> is the structure of the node \<open>pos\<close>; \<open>hlist_entry\<close> is \<open>container_of\<close> again.
\<close>

partial_function (option) hlist_for_each_entry_from :: "hheap \<Rightarrow> nat \<Rightarrow> nat option \<Rightarrow> int list option" where
  "hlist_for_each_entry_from h off pos =
     (case pos of
        None \<Rightarrow> Some []
      | Some n \<Rightarrow> do {
          x \<leftarrow> nodes h n;
          ts \<leftarrow> hlist_for_each_entry_from h off (hnext x);
          Some (list_entry off n # ts)
        })"

definition hlist_for_each_entry :: "hheap \<Rightarrow> nat \<Rightarrow> nat \<Rightarrow> int list option" where
  "hlist_for_each_entry h off p = do { first \<leftarrow> heads h p; hlist_for_each_entry_from h off first }"

definition hlist_for_each_entry_continue :: "hheap \<Rightarrow> nat \<Rightarrow> nat \<Rightarrow> int list option" where
  "hlist_for_each_entry_continue h off pos = do {
     x \<leftarrow> nodes h pos;
     hlist_for_each_entry_from h off (hnext x)
   }"

partial_function (option) hlist_entry_safe_loop ::
    "(int \<Rightarrow> hheap \<Rightarrow> hheap option) \<Rightarrow> nat \<Rightarrow> nat option \<Rightarrow> hheap \<Rightarrow> hheap option" where
  "hlist_entry_safe_loop body off pos h =
     (case pos of
        None \<Rightarrow> Some h
      | Some p \<Rightarrow> do {
          x \<leftarrow> nodes h p;
          let n = hnext x;
          h \<leftarrow> body (list_entry off p) h;
          hlist_entry_safe_loop body off n h
        })"

definition hlist_for_each_entry_safe ::
    "(int \<Rightarrow> hheap \<Rightarrow> hheap option) \<Rightarrow> nat \<Rightarrow> nat \<Rightarrow> hheap \<Rightarrow> hheap option" where
  "hlist_for_each_entry_safe body off p h = do { first \<leftarrow> heads h p; hlist_entry_safe_loop body off first h }"

section \<open>The loops visit the entries\<close>

text \<open>A loop over entries is the loop over their nodes.\<close>

locale node_walk =
  fixes step :: "nat \<Rightarrow> nat option" and stop :: nat and loop :: "nat \<Rightarrow> nat list option"
    and entry_loop :: "int \<Rightarrow> int list option" and off :: nat
  assumes node_loop: "loop p = (if p = stop then Some [] else do { n \<leftarrow> step p; ns \<leftarrow> loop n; Some (p # ns) })"
    and entry_unfold: "entry_loop pos = (if member_of off pos = stop then Some []
      else do { n \<leftarrow> map_option (list_entry off) (step (member_of off pos)); ps \<leftarrow> entry_loop n; Some (pos # ps) })"
begin

lemma entries_of_nodes: "loop p = Some ns \<Longrightarrow> entry_loop (list_entry off p) = Some (map (list_entry off) ns)"
proof (induction ns arbitrary: p)
  case Nil
  then have "p = stop" unfolding node_loop [of p] by (auto split: if_splits bind_splits)
  then show ?case unfolding entry_unfold [of "list_entry off p"] by simp
next
  case (Cons q ns)
  from Cons.prems obtain n where "q = p" "p \<noteq> stop" "step p = Some n" "loop n = Some ns"
    unfolding node_loop [of p] by (auto split: if_splits bind_splits)
  with Cons.IH [of n] show ?case unfolding entry_unfold [of "list_entry off p"] by simp
qed

end

interpretation forward_walk: node_walk "get_next h" head "list_for_each_from h head"
    "list_for_each_entry_from h off head" off for h head off
proof
  fix p show "list_for_each_from h head p =
      (if p = head then Some [] else do { n \<leftarrow> get_next h p; ns \<leftarrow> list_for_each_from h head n; Some (p # ns) })"
    by (rule list_for_each_from.simps)
next
  fix pos show "list_for_each_entry_from h off head pos = (if member_of off pos = head then Some []
      else do { n \<leftarrow> map_option (list_entry off) (get_next h (member_of off pos));
        ps \<leftarrow> list_for_each_entry_from h off head n; Some (pos # ps) })"
    unfolding next_entry_def [symmetric] by (rule list_for_each_entry_from.simps)
qed

interpretation backward_walk: node_walk "get_prev h" head "list_for_each_prev_from h head"
    "entry_reverse_from h off head" off for h head off
proof
  fix p show "list_for_each_prev_from h head p =
      (if p = head then Some [] else do { n \<leftarrow> get_prev h p; ns \<leftarrow> list_for_each_prev_from h head n; Some (p # ns) })"
    by (rule list_for_each_prev_from.simps)
next
  fix pos show "entry_reverse_from h off head pos = (if member_of off pos = head then Some []
      else do { n \<leftarrow> map_option (list_entry off) (get_prev h (member_of off pos));
        ps \<leftarrow> entry_reverse_from h off head n; Some (pos # ps) })"
    unfolding prev_entry_def [symmetric] by (rule entry_reverse_from.simps)
qed

lemma list_for_each_entry_law:
  assumes "dlist h hp xs"
  shows "list_for_each_entry h off hp = Some (map (list_entry off) xs)"
    and "list_for_each_entry_reverse h off hp = Some (rev (map (list_entry off) xs))"
  using forward_walk.entries_of_nodes [OF list_for_each_from_law [of h hp "[]" xs]]
    backward_walk.entries_of_nodes [OF list_for_each_prev_from_law [of h hp xs "[]"]] assms
  by (simp_all add: list_for_each_entry_def list_for_each_entry_reverse_def dlist_first dlist_last rev_map)

lemma list_first_entry_law: "dlist h hp (a # xs) \<Longrightarrow> list_first_entry h hp off = Some (list_entry off a)"
  by (simp add: list_first_entry_def dlist_first)

text \<open>From an entry on, with it or without it.\<close>

lemma list_for_each_entry_mid:
  assumes "dlist h hp (xs @ a # ys)"
  shows "list_for_each_entry_from h off hp (list_entry off a) = Some (map (list_entry off) (a # ys))"
    and "list_for_each_entry_continue h off hp (list_entry off a) = Some (map (list_entry off) ys)"
    and "list_for_each_entry_continue_reverse h off hp (list_entry off a) = Some (rev (map (list_entry off) xs))"
proof -
  have a: "a \<in> dom h" using assms by (auto simp: dlist_def)
  have n: "nx h a = hd (ys @ [hp])" using dlist_neighbours(1) [of h hp "xs @ [a]" ys] assms by simp
  have p: "pv h a = last (hp # xs)" using dlist_neighbours(2) [of h hp xs "a # ys"] assms by simp
  have *: "dlist h hp ((xs @ [a]) @ ys)" using assms by simp
  show "list_for_each_entry_from h off hp (list_entry off a) = Some (map (list_entry off) (a # ys))"
    using forward_walk.entries_of_nodes [OF list_for_each_from_law [OF assms]] by simp
  show "list_for_each_entry_continue h off hp (list_entry off a) = Some (map (list_entry off) ys)"
    using forward_walk.entries_of_nodes [OF list_for_each_from_law [OF *]] a n
    by (simp add: list_for_each_entry_continue_def next_entry_def)
  show "list_for_each_entry_continue_reverse h off hp (list_entry off a) = Some (rev (map (list_entry off) xs))"
    using backward_walk.entries_of_nodes [OF list_for_each_prev_from_law [OF assms]] a p
    by (simp add: list_for_each_entry_continue_reverse_def prev_entry_def rev_map)
qed

text \<open>The head as a start point stands before the first entry.\<close>

lemma list_prepare_entry_law:
  assumes "dlist h hp xs"
  shows "list_for_each_entry_continue h off hp (list_prepare_entry None hp off) = Some (map (list_entry off) xs)"
  using list_for_each_entry_law(1) [OF assms, of off] dlist_first [OF assms]
  by (simp add: list_for_each_entry_continue_def list_for_each_entry_def next_entry_def list_prepare_entry_def)

section \<open>The safe loops take entries out\<close>

definition entry_take_out :: "(nat \<Rightarrow> bool) \<Rightarrow> nat \<Rightarrow> int \<Rightarrow> lheap \<Rightarrow> lheap option" where
  "entry_take_out P off pos h = list_take_out P (member_of off pos) h"

lemma entry_take_out_entry [simp]: "entry_take_out P off (list_entry off p) = list_take_out P p"
  by (rule ext) (simp add: entry_take_out_def)

text \<open>A run of the loop over nodes is a run of the loop over entries.\<close>

lemma entry_safe_loop_of_nodes:
  assumes "list_for_each_safe_from (\<lambda>p. body (list_entry off p)) head p n h = Some h'"
  shows "entry_safe_loop body off head (list_entry off p) (list_entry off n) h = Some h'"
proof -
  have "(\<lambda>p. body (list_entry off p)) = b \<longrightarrow>
      entry_safe_loop body off head (list_entry off p) (list_entry off n) h = Some h'"
    if "list_for_each_safe_from b head p n h = Some h'" for b
    using that
  proof (rule list_for_each_safe_from.raw_induct [rotated], intro impI)
    fix loop b head p n h h'
    assume "\<And>b head p n h h'. loop b head p n h = Some h' \<Longrightarrow> (\<lambda>p. body (list_entry off p)) = b \<longrightarrow>
        entry_safe_loop body off head (list_entry off p) (list_entry off n) h = Some h'"
      and "(if p = head then Some h else do { h \<leftarrow> b p h; n' \<leftarrow> get_next h n; loop b head n n' h }) = Some h'"
      and "(\<lambda>p. body (list_entry off p)) = b"
    then show "entry_safe_loop body off head (list_entry off p) (list_entry off n) h = Some h'"
      by (subst entry_safe_loop.simps) (auto simp: next_entry_def split: if_splits bind_splits)
  qed
  with assms show ?thesis by blast
qed

lemma entry_safe_reverse_loop_of_nodes:
  assumes "list_for_each_prev_safe_from (\<lambda>p. body (list_entry off p)) head p n h = Some h'"
  shows "entry_safe_reverse_loop body off head (list_entry off p) (list_entry off n) h = Some h'"
proof -
  have "(\<lambda>p. body (list_entry off p)) = b \<longrightarrow>
      entry_safe_reverse_loop body off head (list_entry off p) (list_entry off n) h = Some h'"
    if "list_for_each_prev_safe_from b head p n h = Some h'" for b
    using that
  proof (rule list_for_each_prev_safe_from.raw_induct [rotated], intro impI)
    fix loop b head p n h h'
    assume "\<And>b head p n h h'. loop b head p n h = Some h' \<Longrightarrow> (\<lambda>p. body (list_entry off p)) = b \<longrightarrow>
        entry_safe_reverse_loop body off head (list_entry off p) (list_entry off n) h = Some h'"
      and "(if p = head then Some h else do { h \<leftarrow> b p h; n' \<leftarrow> get_prev h n; loop b head n n' h }) = Some h'"
      and "(\<lambda>p. body (list_entry off p)) = b"
    then show "entry_safe_reverse_loop body off head (list_entry off p) (list_entry off n) h = Some h'"
      by (subst entry_safe_reverse_loop.simps) (auto simp: prev_entry_def split: if_splits bind_splits)
  qed
  with assms show ?thesis by blast
qed

lemma entry_loop_takes:
  "list_for_each_safe_from (list_take_out P) head p n h = Some h' \<Longrightarrow>
    entry_safe_loop (entry_take_out P off) off head (list_entry off p) (list_entry off n) h = Some h'"
  "list_for_each_prev_safe_from (list_take_out P) head p n h = Some h' \<Longrightarrow>
    entry_safe_reverse_loop (entry_take_out P off) off head (list_entry off p) (list_entry off n) h = Some h'"
  by (rule entry_safe_loop_of_nodes entry_safe_reverse_loop_of_nodes; simp)+

lemma list_for_each_entry_safe_law:
  assumes "dlist h hp xs"
  shows "\<exists>h'. list_for_each_entry_safe (entry_take_out P off) off hp h = Some h' \<and>
      dlist h' hp (filter (\<lambda>a. \<not> P a) xs)"
    and "\<exists>h'. list_for_each_entry_safe_reverse (entry_take_out P off) off hp h = Some h' \<and>
      dlist h' hp (filter (\<lambda>a. \<not> P a) xs)"
proof -
  obtain h1 where "list_for_each_safe (list_take_out P) hp h = Some h1" "dlist h1 hp (filter (\<lambda>a. \<not> P a) xs)"
    using list_for_each_safe_law [OF assms] by blast
  then show "\<exists>h'. list_for_each_entry_safe (entry_take_out P off) off hp h = Some h' \<and>
      dlist h' hp (filter (\<lambda>a. \<not> P a) xs)"
    by (auto simp: list_for_each_safe_def list_for_each_entry_safe_def next_entry_def Let_def
        entry_loop_takes split: bind_splits)
  obtain h2 where "list_for_each_prev_safe (list_take_out P) hp h = Some h2" "dlist h2 hp (filter (\<lambda>a. \<not> P a) xs)"
    using list_for_each_prev_safe_law [OF assms] by blast
  then show "\<exists>h'. list_for_each_entry_safe_reverse (entry_take_out P off) off hp h = Some h' \<and>
      dlist h' hp (filter (\<lambda>a. \<not> P a) xs)"
    by (auto simp: list_for_each_prev_safe_def list_for_each_entry_safe_reverse_def prev_entry_def Let_def
        entry_loop_takes split: bind_splits)
qed

text \<open>From an entry on: with it, or only what follows it.\<close>

lemma list_for_each_entry_safe_mid:
  assumes "dlist h hp (xs @ a # ys)"
  shows "\<exists>h'. list_for_each_entry_safe_from (entry_take_out P off) off hp (list_entry off a) h = Some h' \<and>
      dlist h' hp (xs @ filter (\<lambda>a. \<not> P a) (a # ys))"
    and "\<exists>h'. list_for_each_entry_safe_continue (entry_take_out P off) off hp (list_entry off a) h = Some h' \<and>
      dlist h' hp (xs @ a # filter (\<lambda>a. \<not> P a) ys)"
proof -
  let ?b = "hd (ys @ [hp])"
  have d: "dlist h hp ((xs @ [a]) @ ys)" using assms by simp
  have dom: "a \<in> dom h" "?b \<in> dom h" using assms by (cases ys; auto simp: dlist_def)+
  have n: "nx h a = ?b" using dlist_neighbours(1) [OF d] by simp
  obtain h1 where "list_for_each_safe_from (list_take_out P) hp a ?b h = Some h1"
      "dlist h1 hp (xs @ filter (\<lambda>a. \<not> P a) (a # ys))"
    using list_for_each_safe_from_law [OF assms, of a ?b P] by auto
  then show "\<exists>h'. list_for_each_entry_safe_from (entry_take_out P off) off hp (list_entry off a) h = Some h' \<and>
      dlist h' hp (xs @ filter (\<lambda>a. \<not> P a) (a # ys))"
    using n dom(1) by (auto simp: list_for_each_entry_safe_from_def next_entry_def entry_loop_takes)
  have "nx h ?b = hd (tl ys @ [hp])" if "ys \<noteq> []"
    using that dlist_neighbours(1) [of h hp "xs @ [a, hd ys]" "tl ys"] assms by (cases ys) auto
  from list_for_each_safe_from_law [OF d refl this, of P] obtain h2 where
    "list_for_each_safe_from (list_take_out P) hp ?b (nx h ?b) h = Some h2"
    "dlist h2 hp (xs @ a # filter (\<lambda>a. \<not> P a) ys)" by auto
  then show "\<exists>h'. list_for_each_entry_safe_continue (entry_take_out P off) off hp (list_entry off a) h = Some h' \<and>
      dlist h' hp (xs @ a # filter (\<lambda>a. \<not> P a) ys)"
    using n dom by (auto simp: list_for_each_entry_safe_continue_def next_entry_def entry_loop_takes)
qed

text \<open>A stale second cursor is read again.\<close>

lemma list_safe_reset_next_law:
  assumes "dlist h hp (xs @ a # b # ys)"
  shows "list_safe_reset_next h off (list_entry off a) = Some (list_entry off b)"
proof -
  have "a \<in> dom h" using assms by (auto simp: dlist_def)
  moreover have "nx h a = b" using dlist_neighbours(1) [of h hp "xs @ [a]" "b # ys"] assms by simp
  ultimately show ?thesis by (simp add: list_safe_reset_next_def next_entry_def)
qed

section \<open>The loops over a hash list\<close>

lemma hlist_entries_of_nodes:
  assumes "hlist_for_each_from h pos = Some ns"
  shows "hlist_for_each_entry_from h off pos = Some (map (list_entry off) ns)"
  by (rule hlist_for_each_from.raw_induct [OF _ assms])
    (subst hlist_for_each_entry_from.simps; auto split: option.splits bind_splits)

lemma hlist_for_each_entry_law:
  assumes "hlist h p ns"
  shows "hlist_for_each_entry h off p = Some (map (list_entry off) ns)"
  using hlist_for_each_law [OF assms] hlist_entries_of_nodes
  by (auto simp: hlist_for_each_def hlist_for_each_entry_def split: bind_splits)

lemma hlist_for_each_entry_continue_law:
  assumes "hlist h p (ms @ a # ns)"
  shows "hlist_for_each_entry_continue h off a = Some (map (list_entry off) ns)"
proof -
  have c: "hchain (read_link h) (back_of h) (Next a) ns" and "back_of h a \<noteq> None"
    using assms by (simp_all add: hlist_def hchain_append)
  then obtain x where x: "nodes h a = Some x" by (auto simp: back_of_def)
  then have "read_link h (Next a) = Some (hnext x)" by simp
  from hlist_for_each_from_law [OF c this] x show ?thesis
    by (simp add: hlist_for_each_entry_continue_def hlist_entries_of_nodes)
qed

lemma hlist_entry_safe_of_nodes:
  assumes "hlist_for_each_safe_from b pos h = Some h'" and "\<And>p. body (list_entry off p) = b p"
  shows "hlist_entry_safe_loop body off pos h = Some h'"
proof -
  have "(\<forall>p. body (list_entry off p) = b p) \<longrightarrow> hlist_entry_safe_loop body off pos h = Some h'"
    by (rule hlist_for_each_safe_from.raw_induct [OF _ assms(1)], subst hlist_entry_safe_loop.simps)
      (auto simp: Let_def split: option.splits bind_splits)
  with assms(2) show ?thesis by blast
qed

lemma hlist_for_each_entry_safe_law:
  assumes "hlist h p ns"
  shows "\<exists>h'. hlist_for_each_entry_safe (\<lambda>t. hlist_take_out P (member_of off t)) off p h = Some h' \<and>
    hlist h' p (filter (\<lambda>n. \<not> P n) ns)"
proof -
  obtain h1 where "hlist_for_each_safe (hlist_take_out P) p h = Some h1" "hlist h1 p (filter (\<lambda>n. \<not> P n) ns)"
    using hlist_for_each_safe_law [OF assms] by blast
  moreover from this obtain first where f: "heads h p = Some first"
      "hlist_for_each_safe_from (hlist_take_out P) first h = Some h1"
    by (auto simp: hlist_for_each_safe_def split: bind_splits)
  have "hlist_entry_safe_loop (\<lambda>t. hlist_take_out P (member_of off t)) off first h = Some h1"
    by (rule hlist_entry_safe_of_nodes [OF f(2)]) simp
  ultimately show ?thesis using f(1) by (simp add: hlist_for_each_entry_safe_def)
qed

end
