(* ===== verification/Mpsse.thy ===== *)
theory Mpsse
  imports Bit_Queue
begin

text \<open>
  \<^verbatim>\<open>openocd/src/jtag/drivers/mpsse.c\<close> and \<^verbatim>\<open>mpsse.h\<close>: the driver of the
  FTDI MPSSE engine. Commands are queued as bytes in \<open>write_buffer\<close>, the answers to the
  commands that read are expected in \<open>read_buffer\<close>, and \<open>read_queue\<close> remembers where each
  answer has to be copied; \<open>mpsse_flush\<close> sends the commands and waits for the answers.

  libusb is a parameter: a record of the functions the driver calls, on a state \<open>'u\<close> of
  the library and the device. \<open>handle_events\<close> returns its code, the transfers that completed
  in the call, in the order in which their callbacks run, and the new state. Transfers are
  identified by their direction, since a flush has at most one of each. \<open>libusb_alloc_transfer\<close>
  is taken to succeed and \<open>libusb_free_transfer\<close> and \<open>keep_alive\<close> to have no effect on the
  state.
\<close>

section \<open>libusb\<close>

datatype transfer_event = Write_Done nat | Read_Done "u8 list"

record 'u libusb =
  control_transfer :: "nat \<Rightarrow> u8 \<Rightarrow> u8 \<Rightarrow> u16 \<Rightarrow> u16 \<Rightarrow> nat \<Rightarrow> 'u \<Rightarrow> int \<times> 'u"
  submit_write :: "nat \<Rightarrow> u8 \<Rightarrow> u8 list \<Rightarrow> nat \<Rightarrow> 'u \<Rightarrow> int \<times> 'u"
  submit_read :: "nat \<Rightarrow> u8 \<Rightarrow> nat \<Rightarrow> nat \<Rightarrow> 'u \<Rightarrow> int \<times> 'u"
  cancel_write :: "'u \<Rightarrow> 'u"
  cancel_read :: "'u \<Rightarrow> 'u"
  handle_events :: "nat \<Rightarrow> 'u \<Rightarrow> int \<times> transfer_event list \<times> 'u"

definition LIBUSB_SUCCESS :: int where "LIBUSB_SUCCESS = 0"
definition LIBUSB_ERROR_NO_DEVICE :: int where "LIBUSB_ERROR_NO_DEVICE = - 4"
definition LIBUSB_ERROR_INTERRUPTED :: int where "LIBUSB_ERROR_INTERRUPTED = - 10"

definition FTDI_DEVICE_OUT_REQTYPE :: u8 where "FTDI_DEVICE_OUT_REQTYPE = 0x40 OR 0x00"
definition FTDI_DEVICE_IN_REQTYPE :: u8 where "FTDI_DEVICE_IN_REQTYPE = 0x80 OR 0x40 OR 0x00"
definition BITMODE_MPSSE :: u16 where "BITMODE_MPSSE = 0x02"
definition SIO_RESET_REQUEST :: u8 where "SIO_RESET_REQUEST = 0x00"
definition SIO_SET_LATENCY_TIMER_REQUEST :: u8 where "SIO_SET_LATENCY_TIMER_REQUEST = 0x09"
definition SIO_SET_BITMODE_REQUEST :: u8 where "SIO_SET_BITMODE_REQUEST = 0x0B"
definition SIO_RESET_PURGE_RX :: u16 where "SIO_RESET_PURGE_RX = 1"
definition SIO_RESET_PURGE_TX :: u16 where "SIO_RESET_PURGE_TX = 2"

section \<open>The state\<close>

datatype ftdi_chip_type = TYPE_FT2232C | TYPE_FT2232H | TYPE_FT4232H | TYPE_FT232H

record mpsse_ctx =
  usb_ctx :: nat
  usb_dev :: nat
  usb_write_timeout :: nat
  usb_read_timeout :: nat
  in_ep :: u8
  out_ep :: u8
  max_packet_size :: u16
  usb_index :: u16
  usb_interface :: u8
  chip_type :: ftdi_chip_type
  write_buffer :: ptr
  write_size :: nat
  write_count :: nat
  read_buffer :: ptr
  read_size :: nat
  read_count :: nat
  read_chunk :: ptr
  read_chunk_size :: nat
  read_queue :: nat
  retval :: int

record 'u mpsse =
  ctx :: mpsse_ctx
  memory :: mem
  queue :: copy_heap
  device :: 'u

text \<open>Block 0 of the memory is the stack slot of a local byte whose address is taken.\<close>

definition local_block :: nat where "local_block = 0"

section \<open>Buffers\<close>

definition buffer_write_space :: "mpsse_ctx \<Rightarrow> nat" where
  "buffer_write_space c = u32_sub (u32_sub (write_size c) (write_count c)) 1"

definition buffer_read_space :: "mpsse_ctx \<Rightarrow> nat" where
  "buffer_read_space c = u32_sub (read_size c) (read_count c)"

definition buffer_write_byte :: "u8 \<Rightarrow> 'u mpsse \<Rightarrow> 'u mpsse option" where
  "buffer_write_byte data s =
     (let c = ctx s in
      if write_count c < write_size c then do {
        m \<leftarrow> store (memory s) (write_buffer c) (write_count c) data;
        Some (s\<lparr>memory := m, ctx := c\<lparr>write_count := write_count c + 1\<rparr>\<rparr>)
      } else None)"

definition buffer_write :: "ptr \<Rightarrow> nat \<Rightarrow> nat \<Rightarrow> 'u mpsse \<Rightarrow> (nat \<times> 'u mpsse) option" where
  "buffer_write out out_offset n s =
     (let c = ctx s; k = u32_add (write_count c) (DIV_ROUND_UP n 8) in
      if k \<le> write_size c then do {
        m \<leftarrow> bit_copy (memory s) (ptr_add (write_buffer c) (write_count c)) 0 out out_offset n;
        Some (n, s\<lparr>memory := m, ctx := c\<lparr>write_count := k\<rparr>\<rparr>)
      } else None)"

text \<open>The result of \<open>bit_copy_queued\<close> is ignored.\<close>

definition buffer_add_read ::
    "ptr \<Rightarrow> nat \<Rightarrow> nat \<Rightarrow> nat \<Rightarrow> 'u mpsse \<Rightarrow> (nat \<times> 'u mpsse) option" where
  "buffer_add_read in_buf in_offset n offset s =
     (let c = ctx s; k = u32_add (read_count c) (DIV_ROUND_UP n 8) in
      if k \<le> read_size c then do {
        (_, q) \<leftarrow> bit_copy_queued (read_queue c) in_buf in_offset
          (ptr_add (read_buffer c) (read_count c)) offset n (queue s);
        Some (n, s\<lparr>queue := q, ctx := c\<lparr>read_count := k\<rparr>\<rparr>)
      } else None)"

definition mpsse_is_high_speed :: "mpsse_ctx \<Rightarrow> bool" where
  "mpsse_is_high_speed c \<longleftrightarrow> chip_type c \<noteq> TYPE_FT2232C"

definition mpsse_purge :: "'u libusb \<Rightarrow> 'u mpsse \<Rightarrow> 'u mpsse option" where
  "mpsse_purge L s =
     (let c = (ctx s)\<lparr>write_count := 0, read_count := 0, retval := ERROR_OK\<rparr> in do {
        q \<leftarrow> bit_copy_discard (read_queue c) (queue s);
        let (err, u) = control_transfer L (usb_dev c) FTDI_DEVICE_OUT_REQTYPE SIO_RESET_REQUEST
              SIO_RESET_PURGE_RX (usb_index c) (usb_write_timeout c) (device s);
        let s = s\<lparr>ctx := c, queue := q, device := u\<rparr>;
        if err < 0 then Some s
        else do {
          let (err, u) = control_transfer L (usb_dev c) FTDI_DEVICE_OUT_REQTYPE SIO_RESET_REQUEST
                SIO_RESET_PURGE_TX (usb_index c) (usb_write_timeout c) (device s);
          Some (s\<lparr>device := u\<rparr>)
        }
      })"

section \<open>Transfers and their callbacks\<close>

record transfer_result =
  finished :: bool
  transferred :: nat

text \<open>
  The loop of \<open>read_cb\<close>: the two status bytes of each packet are dropped. The variables are
  the packet index, the bytes of the chunk still to look at, the \<open>transferred\<close> counter and
  the memory.
\<close>

function strip_packets ::
    "mpsse_ctx \<Rightarrow> nat \<Rightarrow> nat \<Rightarrow> nat \<Rightarrow> transfer_result \<Rightarrow> mem \<Rightarrow> (transfer_result \<times> mem) option"
where
  "strip_packets c num_packets i chunk_remains res m =
     (if i < num_packets \<and> chunk_remains > 2 then
        let packet_size = unat (max_packet_size c);
            this_size = u32_sub packet_size 2;
            this_size = (if this_size > chunk_remains - 2 then chunk_remains - 2 else this_size);
            left = u32_sub (read_count c) (transferred res);
            this_size = (if this_size > left then left else this_size)
        in do {
          bs \<leftarrow> load_bytes m (ptr_add (read_chunk c) (packet_size * i + 2)) this_size;
          m \<leftarrow> store_bytes m (ptr_add (read_buffer c) (transferred res)) bs;
          let res = res\<lparr>transferred := u32_add (transferred res) this_size\<rparr>;
          if transferred res = read_count c then Some (res\<lparr>finished := True\<rparr>, m)
          else strip_packets c num_packets (i + 1)
                 (u32_sub chunk_remains (u32_add this_size 2)) res m
        }
      else Some (res, m))"
  by pat_completeness auto
termination
  by (relation "measure (\<lambda>(c, n, i, _). n - i)") auto

declare strip_packets.simps [simp del]

text \<open>A read transfer that completes has put its bytes in \<open>read_chunk\<close>.\<close>

definition read_cb ::
    "'u libusb \<Rightarrow> u8 list \<Rightarrow> transfer_result \<Rightarrow> 'u mpsse \<Rightarrow> (transfer_result \<times> 'u mpsse) option" where
  "read_cb L data res s =
     (let c = ctx s; packet_size = unat (max_packet_size c); actual_length = length data in
      if packet_size = 0 then None
      else do {
        m \<leftarrow> store_bytes (memory s) (read_chunk c) data;
        (res, m) \<leftarrow> strip_packets c (DIV_ROUND_UP actual_length packet_size) 0 actual_length res m;
        let s = s\<lparr>memory := m\<rparr>;
        if \<not> finished res then do {
          let (rc, u) = submit_read L (usb_dev c) (in_ep c) (read_chunk_size c)
                (usb_read_timeout c) (device s);
          Some (if rc \<noteq> LIBUSB_SUCCESS then res\<lparr>finished := True\<rparr> else res, s\<lparr>device := u\<rparr>)
        } else Some (res, s)
      })"

definition write_cb ::
    "'u libusb \<Rightarrow> nat \<Rightarrow> transfer_result \<Rightarrow> 'u mpsse \<Rightarrow> (transfer_result \<times> 'u mpsse) option" where
  "write_cb L actual_length res s =
     (let c = ctx s; res = res\<lparr>transferred := u32_add (transferred res) actual_length\<rparr> in
      if transferred res = write_count c then Some (res\<lparr>finished := True\<rparr>, s)
      else do {
        bs \<leftarrow> load_bytes (memory s) (ptr_add (write_buffer c) (transferred res))
               (u32_sub (write_count c) (transferred res));
        let (rc, u) = submit_write L (usb_dev c) (out_ep c) bs (usb_write_timeout c) (device s);
        Some (if rc \<noteq> LIBUSB_SUCCESS then res\<lparr>finished := True\<rparr> else res, s\<lparr>device := u\<rparr>)
      })"

fun run_callbacks ::
    "'u libusb \<Rightarrow> transfer_event list \<Rightarrow> transfer_result \<Rightarrow> transfer_result \<Rightarrow> 'u mpsse \<Rightarrow>
     (transfer_result \<times> transfer_result \<times> 'u mpsse) option" where
  "run_callbacks L [] w r s = Some (w, r, s)"
| "run_callbacks L (Write_Done n # es) w r s = do {
     (w, s) \<leftarrow> write_cb L n w s;
     run_callbacks L es w r s
   }"
| "run_callbacks L (Read_Done bs # es) w r s = do {
     (r, s) \<leftarrow> read_cb L bs r s;
     run_callbacks L es w r s
   }"

text \<open>One call of \<open>libusb_handle_events_timeout_completed\<close>, with the callbacks it runs.\<close>

definition poll_step ::
    "'u libusb \<Rightarrow> transfer_result \<Rightarrow> transfer_result \<Rightarrow> 'u mpsse \<Rightarrow>
     (int \<times> transfer_result \<times> transfer_result \<times> 'u mpsse) option" where
  "poll_step L w r s =
     (let (rc, evs, u) = handle_events L (usb_ctx (ctx s)) (device s) in do {
        (w, r, s) \<leftarrow> run_callbacks L evs w r (s\<lparr>device := u\<rparr>);
        Some (rc, w, r, s)
      })"

section \<open>mpsse_flush\<close>

text \<open>The loop after the cancellation, and the polling loop.\<close>

partial_function (option) cancel_loop ::
    "'u libusb \<Rightarrow> int \<Rightarrow> transfer_result \<Rightarrow> transfer_result \<Rightarrow> 'u mpsse \<Rightarrow>
     (int \<times> transfer_result \<times> transfer_result \<times> 'u mpsse) option" where
  "cancel_loop L rc w r s =
     (if \<not> finished w \<or> \<not> finished r then do {
        (rc, w, r, s) \<leftarrow> poll_step L w r s;
        if rc \<noteq> LIBUSB_SUCCESS then Some (rc, w, r, s) else cancel_loop L rc w r s
      } else Some (rc, w, r, s))"

partial_function (option) poll_loop ::
    "'u libusb \<Rightarrow> int \<Rightarrow> transfer_result \<Rightarrow> transfer_result \<Rightarrow> 'u mpsse \<Rightarrow>
     (int \<times> transfer_result \<times> transfer_result \<times> 'u mpsse) option" where
  "poll_loop L rc w r s =
     (if \<not> finished w \<or> \<not> finished r then do {
        (rc, w, r, s) \<leftarrow> poll_step L w r s;
        if rc = LIBUSB_ERROR_NO_DEVICE \<or> rc = LIBUSB_ERROR_INTERRUPTED then Some (rc, w, r, s)
        else if rc \<noteq> LIBUSB_SUCCESS then do {
          let u = cancel_write L (device s);
          let u = (if read_count (ctx s) > 0 then cancel_read L u else u);
          (rc, w, r, s) \<leftarrow> cancel_loop L rc w r (s\<lparr>device := u\<rparr>);
          poll_loop L rc w r s
        }
        else poll_loop L rc w r s
      } else Some (rc, w, r, s))"

text \<open>The code at the label \<open>error_check\<close>.\<close>

definition flush_result ::
    "'u libusb \<Rightarrow> int \<Rightarrow> transfer_result \<Rightarrow> transfer_result \<Rightarrow> 'u mpsse \<Rightarrow> (int \<times> 'u mpsse) option" where
  "flush_result L rc w r s =
     (let c = ctx s in
      if rc \<noteq> LIBUSB_SUCCESS \<or> transferred w < write_count c \<or> transferred r < read_count c
      then do { s \<leftarrow> mpsse_purge L s; Some (ERROR_FAIL, s) }
      else if read_count c \<noteq> 0 then do {
        (m, q) \<leftarrow> bit_copy_execute (read_queue c) (memory s) (queue s);
        Some (ERROR_OK, s\<lparr>memory := m, queue := q, ctx := c\<lparr>write_count := 0, read_count := 0\<rparr>\<rparr>)
      }
      else do {
        q \<leftarrow> bit_copy_discard (read_queue c) (queue s);
        Some (ERROR_OK, s\<lparr>queue := q, ctx := c\<lparr>write_count := 0\<rparr>\<rparr>)
      })"

text \<open>From the submission of the write transfer to the end of the polling loop.\<close>

definition run_transfers ::
    "'u libusb \<Rightarrow> 'u mpsse \<Rightarrow> (int \<times> transfer_result \<times> transfer_result \<times> 'u mpsse) option" where
  "run_transfers L s =
     (let c = ctx s;
          w = \<lparr>finished = False, transferred = 0\<rparr>;
          r = \<lparr>finished = (read_count c = 0), transferred = 0\<rparr>
      in do {
        bs \<leftarrow> load_bytes (memory s) (write_buffer c) (write_count c);
        let (rc, u) = submit_write L (usb_dev c) (out_ep c) bs (usb_write_timeout c) (device s);
        let s = s\<lparr>device := u\<rparr>;
        if rc \<noteq> LIBUSB_SUCCESS then Some (rc, w, r, s)
        else if read_count c \<noteq> 0 then do {
          let (rc, u) = submit_read L (usb_dev c) (in_ep c) (read_chunk_size c)
                (usb_read_timeout c) (device s);
          let s = s\<lparr>device := u\<rparr>;
          if rc \<noteq> LIBUSB_SUCCESS then Some (rc, w, r, s) else poll_loop L rc w r s
        }
        else poll_loop L rc w r s
      })"

definition mpsse_flush :: "'u libusb \<Rightarrow> 'u mpsse \<Rightarrow> (int \<times> 'u mpsse) option" where
  "mpsse_flush L s =
     (let c = ctx s in
      if retval c \<noteq> ERROR_OK then
        if write_count c = 0 \<and> read_count c = 0
        then Some (retval c, s\<lparr>ctx := c\<lparr>retval := ERROR_OK\<rparr>\<rparr>) else None
      else if \<not> (write_count c > 0 \<or> read_count c = 0) then None
      else if write_count c = 0 then Some (retval c, s)
      else do {
        s \<leftarrow> (if read_count c \<noteq> 0 then buffer_write_byte 0x87 s else Some s);
        (rc, w, r, s) \<leftarrow> run_transfers L s;
        flush_result L rc w r s
      })"

text \<open>\<open>ctx->retval = mpsse_flush(ctx)\<close>\<close>

definition flush_into_retval :: "'u libusb \<Rightarrow> 'u mpsse \<Rightarrow> 'u mpsse option" where
  "flush_into_retval L s = do {
     (rc, s) \<leftarrow> mpsse_flush L s;
     Some (s\<lparr>ctx := (ctx s)\<lparr>retval := rc\<rparr>\<rparr>)
   }"

end
