(* ===== verification/Mpsse_Open.thy ===== *)
theory Mpsse_Open
  imports Mpsse
begin

text \<open>
  Opening and closing a device (\<open>string_descriptor_equal\<close> to \<open>mpsse_close\<close> of
  \<^verbatim>\<open>mpsse.c\<close>). The functions of libusb that enumerate and open devices are the record
  \<open>usb_setup\<close>; devices, handles and the library's context are numbers, 0 is the null pointer.
  Freeing the device list and the configuration descriptor, \<open>libusb_free_device_list\<close> and
  \<open>libusb_free_config_descriptor\<close>, has no effect on the state. \<open>malloc\<close> is a parameter;
  \<open>calloc\<close> of the context, which embeds the head of the read queue, is served by the same heap
  as the entries of the queue.

  \<open>HAVE_LIBUSB_GET_PORT_NUMBERS\<close>, a flag of the build, is a parameter: without it a location
  never matches.
\<close>

section \<open>libusb\<close>

record usb_device_descriptor =
  idVendor :: u16
  idProduct :: u16
  bcdDevice :: u16
  iProduct :: u8
  iSerialNumber :: u8
  bNumConfigurations :: nat

record usb_endpoint =
  bEndpointAddress :: u8
  wMaxPacketSize :: u16

record usb_interface_descriptor =
  bNumEndpoints :: nat
  endpoints :: "usb_endpoint list"

record usb_config =
  bConfigurationValue :: int
  bNumInterfaces :: nat
  altsettings :: "usb_interface_descriptor list list"

record 'u usb_setup =
  init :: "'u \<Rightarrow> int \<times> nat \<times> 'u"
  exit_usb :: "nat \<Rightarrow> 'u \<Rightarrow> 'u"
  get_device_list :: "nat \<Rightarrow> 'u \<Rightarrow> int \<times> nat list \<times> 'u"
  get_device_descriptor :: "nat \<Rightarrow> 'u \<Rightarrow> int \<times> usb_device_descriptor"
  open_device :: "nat \<Rightarrow> 'u \<Rightarrow> int \<times> nat \<times> 'u"
  close_device :: "nat \<Rightarrow> 'u \<Rightarrow> 'u"
  get_string_ascii :: "nat \<Rightarrow> u8 \<Rightarrow> 'u \<Rightarrow> int \<times> string \<times> 'u"
  get_bus_number :: "nat \<Rightarrow> 'u \<Rightarrow> u8"
  get_port_numbers :: "nat \<Rightarrow> 'u \<Rightarrow> int \<times> u8 list"
  get_config_descriptor :: "nat \<Rightarrow> 'u \<Rightarrow> int \<times> usb_config"
  get_configuration :: "nat \<Rightarrow> 'u \<Rightarrow> int \<times> int \<times> 'u"
  set_configuration :: "nat \<Rightarrow> int \<Rightarrow> 'u \<Rightarrow> int \<times> 'u"
  detach_kernel_driver :: "nat \<Rightarrow> u8 \<Rightarrow> 'u \<Rightarrow> int \<times> 'u"
  claim_interface :: "nat \<Rightarrow> u8 \<Rightarrow> 'u \<Rightarrow> int \<times> 'u"

definition LIBUSB_ERROR_OVERFLOW :: int where "LIBUSB_ERROR_OVERFLOW = - 8"
definition SIO_RESET_SIO :: u16 where "SIO_RESET_SIO = 0"

section \<open>Matching\<close>

text \<open>\<open>strncmp(a, b, 256) == 0\<close> on strings without a null character.\<close>

definition strncmp_eq :: "nat \<Rightarrow> string \<Rightarrow> string \<Rightarrow> bool" where
  "strncmp_eq n a b \<longleftrightarrow> take n a = take n b"

definition string_descriptor_equal ::
    "'u usb_setup \<Rightarrow> nat \<Rightarrow> u8 \<Rightarrow> string \<Rightarrow> 'u \<Rightarrow> bool \<times> 'u" where
  "string_descriptor_equal U dev str_index s u =
     (let (rc, desc_string, u) = get_string_ascii U dev str_index u
      in if rc < 0 then (False, u) else (strncmp_eq 256 s desc_string, u))"

text \<open>
  \<open>strtok\<close>: the separators at the front are skipped; the token ends at the next separator,
  which is dropped. \<open>atoi\<close>: leading white space, a sign, the digits that follow.
\<close>

definition strtok :: "char \<Rightarrow> string \<Rightarrow> (string \<times> string) option" where
  "strtok d s =
     (let s = dropWhile ((=) d) s
      in if s = [] then None else Some (takeWhile ((\<noteq>) d) s, tl (dropWhile ((\<noteq>) d) s)))"

definition is_digit :: "char \<Rightarrow> bool" where
  "is_digit c \<longleftrightarrow> 48 \<le> (of_char c :: nat) \<and> (of_char c :: nat) \<le> 57"

definition is_space :: "char \<Rightarrow> bool" where
  "is_space c \<longleftrightarrow> (of_char c :: nat) = 32 \<or> 9 \<le> (of_char c :: nat) \<and> (of_char c :: nat) \<le> 13"

definition digits_value :: "string \<Rightarrow> int" where
  "digits_value s = foldl (\<lambda>n c. 10 * n + (of_char c - 48)) 0 (takeWhile is_digit s)"

definition atoi :: "string \<Rightarrow> int" where
  "atoi s =
     (case dropWhile is_space s of
        [] \<Rightarrow> 0
      | c # cs \<Rightarrow> if c = CHR ''-'' then - digits_value cs
                 else if c = CHR ''+'' then digits_value cs else digits_value (c # cs))"

text \<open>The loop over the steps of the path; it ends within seven steps.\<close>

function location_loop :: "u8 list \<Rightarrow> int \<Rightarrow> string \<Rightarrow> nat \<Rightarrow> nat" where
  "location_loop port_path path_len remains path_step =
     (if path_step < 7 then
        (case strtok (CHR '','') remains of
           None \<Rightarrow> path_step
         | Some (tok, rest) \<Rightarrow>
             if int path_step < path_len \<and> atoi tok \<noteq> uint (port_path ! path_step) then path_step
             else location_loop port_path path_len rest (path_step + 1))
      else path_step)"
  by pat_completeness auto
termination by (relation "measure (\<lambda>(_, _, _, k). 7 - k)") auto

definition device_location_equal :: "bool \<Rightarrow> 'u usb_setup \<Rightarrow> nat \<Rightarrow> string \<Rightarrow> 'u \<Rightarrow> bool" where
  "device_location_equal port_numbers U dev location u =
     (if \<not> port_numbers then False
      else
        let dev_bus = get_bus_number U dev u;
            (path_len, port_path) = get_port_numbers U dev u
        in if path_len = LIBUSB_ERROR_OVERFLOW then False
           else case strtok (CHR '':'') location of
             None \<Rightarrow> False
           | Some (tok, rest) \<Rightarrow>
               if atoi tok \<noteq> uint dev_bus then False
               else int (location_loop port_path path_len rest 0) = path_len)"

section \<open>open_matching_device\<close>

record open_args =
  arg_vid :: "u16 option"
  arg_pid :: "u16 option"
  arg_product :: "string option"
  arg_serial :: "string option"
  arg_location :: "string option"

text \<open>One pass of the loop: the descriptor of the device when it matches, with its handle.\<close>

definition try_device ::
    "bool \<Rightarrow> 'u usb_setup \<Rightarrow> open_args \<Rightarrow> nat \<Rightarrow> mpsse_ctx \<Rightarrow> 'u \<Rightarrow>
     usb_device_descriptor option \<times> mpsse_ctx \<times> 'u" where
  "try_device port_numbers U a dev c u =
     (let (err, desc) = get_device_descriptor U dev u in
      if err \<noteq> LIBUSB_SUCCESS then (None, c, u)
      else if (case arg_vid a of None \<Rightarrow> False | Some v \<Rightarrow> v \<noteq> idVendor desc) then (None, c, u)
      else if (case arg_pid a of None \<Rightarrow> False | Some p \<Rightarrow> p \<noteq> idProduct desc) then (None, c, u)
      else
        let (err, h, u) = open_device U dev u in
        if err \<noteq> LIBUSB_SUCCESS then (None, c, u)
        else
          let c = c\<lparr>usb_dev := h\<rparr> in
          if (case arg_location a of None \<Rightarrow> False
              | Some l \<Rightarrow> \<not> device_location_equal port_numbers U dev l u)
          then (None, c, close_device U h u)
          else
            let (eq, u) = (case arg_product a of None \<Rightarrow> (True, u)
                           | Some p \<Rightarrow> string_descriptor_equal U h (iProduct desc) p u) in
            if \<not> eq then (None, c, close_device U h u)
            else
              let (eq, u) = (case arg_serial a of None \<Rightarrow> (True, u)
                             | Some p \<Rightarrow> string_descriptor_equal U h (iSerialNumber desc) p u) in
              if \<not> eq then (None, c, close_device U h u)
              else (Some desc, c, u))"

fun find_device ::
    "bool \<Rightarrow> 'u usb_setup \<Rightarrow> open_args \<Rightarrow> nat list \<Rightarrow> mpsse_ctx \<Rightarrow> 'u \<Rightarrow>
     usb_device_descriptor option \<times> mpsse_ctx \<times> 'u" where
  "find_device port_numbers U a [] c u = (None, c, u)"
| "find_device port_numbers U a (dev # devs) c u =
     (case try_device port_numbers U a dev c u of
        (None, c, u) \<Rightarrow> find_device port_numbers U a devs c u
      | (Some desc, c, u) \<Rightarrow> (Some desc, c, u))"

definition chip_of_device :: "u16 \<Rightarrow> ftdi_chip_type option" where
  "chip_of_device bcd =
     (if bcd = 0x500 then Some TYPE_FT2232C
      else if bcd = 0x700 then Some TYPE_FT2232H
      else if bcd = 0x800 then Some TYPE_FT4232H
      else if bcd = 0x900 then Some TYPE_FT232H
      else None)"

text \<open>The loop over the endpoints of the interface.\<close>

fun scan_endpoints :: "usb_endpoint list \<Rightarrow> mpsse_ctx \<Rightarrow> mpsse_ctx" where
  "scan_endpoints [] c = c"
| "scan_endpoints (e # es) c =
     scan_endpoints es
       (if bEndpointAddress e AND 0x80 \<noteq> 0
        then c\<lparr>in_ep := bEndpointAddress e, max_packet_size := wMaxPacketSize e\<rparr>
        else c\<lparr>out_ep := bEndpointAddress e\<rparr>)"

text \<open>The endpoints and the packet size; \<open>None\<close> stands for \<open>desc_error\<close>.\<close>

definition read_interface :: "usb_device_descriptor \<Rightarrow> usb_config \<Rightarrow> mpsse_ctx \<Rightarrow> mpsse_ctx option" where
  "read_interface desc config0 c =
     (let i = unat (usb_interface c) in
      if \<not> (bNumConfigurations desc > 0 \<and> i < bNumInterfaces config0 \<and> altsettings config0 ! i \<noteq> [])
      then None
      else
        let descriptor = altsettings config0 ! i ! 0 in
        if bNumEndpoints descriptor \<noteq> 2 then None
        else
          let c = scan_endpoints (take (bNumEndpoints descriptor) (endpoints descriptor)) (c\<lparr>in_ep := 0, out_ep := 0\<rparr>)
          in if in_ep c = 0 \<or> out_ep c = 0 then None else Some c)"

text \<open>From the configuration of an open device to the \<open>return true\<close>.\<close>

definition setup_device ::
    "'u libusb \<Rightarrow> 'u usb_setup \<Rightarrow> usb_device_descriptor \<Rightarrow> usb_config \<Rightarrow> mpsse_ctx \<Rightarrow> 'u \<Rightarrow>
     mpsse_ctx option \<times> 'u" where
  "setup_device L U desc config0 c u =
     (let (err, cfg, u) = get_configuration U (usb_dev c) u in
      if err \<noteq> LIBUSB_SUCCESS then (None, u)
      else
        let (err, u) = (if bNumConfigurations desc > 0 \<and> cfg \<noteq> bConfigurationValue config0
                        then set_configuration U (usb_dev c) (bConfigurationValue config0) u
                        else (LIBUSB_SUCCESS, u)) in
        if err \<noteq> LIBUSB_SUCCESS then (None, u)
        else
          let (_, u) = detach_kernel_driver U (usb_dev c) (usb_interface c) u;
              (err, u) = claim_interface U (usb_dev c) (usb_interface c) u in
          if err \<noteq> LIBUSB_SUCCESS then (None, u)
          else
            let (err, u) = control_transfer L (usb_dev c) FTDI_DEVICE_OUT_REQTYPE SIO_RESET_REQUEST
                  SIO_RESET_SIO (usb_index c) (usb_write_timeout c) u in
            if err < 0 then (None, u)
            else
              case chip_of_device (bcdDevice desc) of
                None \<Rightarrow> (None, u)
              | Some t \<Rightarrow> (read_interface desc config0 (c\<lparr>chip_type := t\<rparr>), u))"

text \<open>
  When \<open>libusb_get_device_list\<close> fails, the list that is freed is an uninitialised pointer.
\<close>

definition open_matching_device ::
    "bool \<Rightarrow> 'u libusb \<Rightarrow> 'u usb_setup \<Rightarrow> open_args \<Rightarrow> mpsse_ctx \<Rightarrow> 'u \<Rightarrow>
     (bool \<times> mpsse_ctx \<times> 'u) option" where
  "open_matching_device port_numbers L U a c u =
     (let (cnt, devs, u) = get_device_list U (usb_ctx c) u in
      if cnt < 0 then None
      else
        Some (case find_device port_numbers U a (take (nat cnt) devs) c u of
          (None, c, u) \<Rightarrow> (False, c, u)
        | (Some desc, c, u) \<Rightarrow>
            let (err, config0) = get_config_descriptor U (usb_dev c) u in
            if err \<noteq> LIBUSB_SUCCESS then (False, c, close_device U (usb_dev c) u)
            else case setup_device L U desc config0 c u of
              (None, u) \<Rightarrow> (False, c, close_device U (usb_dev c) u)
            | (Some c, u) \<Rightarrow> (True, c, u)))"


section \<open>mpsse_open and mpsse_close\<close>

text \<open>The context as \<open>calloc\<close> returns it, with the address of the head of its read queue.\<close>

definition calloc_ctx :: "nat \<Rightarrow> mpsse_ctx" where
  "calloc_ctx q =
     \<lparr>usb_ctx = 0, usb_dev = 0, usb_write_timeout = 0, usb_read_timeout = 0, in_ep = 0, out_ep = 0,
      max_packet_size = 0, usb_index = 0, usb_interface = 0, chip_type = TYPE_FT2232C,
      write_buffer = Null, write_size = 0, write_count = 0,
      read_buffer = Null, read_size = 0, read_count = 0,
      read_chunk = Null, read_chunk_size = 0, read_queue = q, retval = 0\<rparr>"

definition mpsse_close :: "'u usb_setup \<Rightarrow> 'u mpsse \<Rightarrow> (mem \<times> copy_heap \<times> 'u) option" where
  "mpsse_close U s =
     (let c = ctx s;
          u = (if usb_dev c \<noteq> 0 then close_device U (usb_dev c) (device s) else device s);
          u = (if usb_ctx c \<noteq> 0 then exit_usb U (usb_ctx c) u else u)
      in do {
        q \<leftarrow> bit_copy_discard (read_queue c) (queue s);
        m \<leftarrow> free_block (write_buffer c) (memory s);
        m \<leftarrow> free_block (read_buffer c) m;
        m \<leftarrow> free_block (read_chunk c) m;
        Some (m, q\<lparr>links := (links q)(read_queue c := None), room := room q + 1\<rparr>, u)
      })"

text \<open>The code at the label \<open>error\<close>.\<close>

definition open_error ::
    "'u usb_setup \<Rightarrow> 'u mpsse \<Rightarrow> (mpsse_ctx option \<times> mem \<times> copy_heap \<times> 'u) option" where
  "open_error U s = do {
     (m, q, u) \<leftarrow> mpsse_close U s;
     Some (None, m, q, u)
   }"

text \<open>Up to the opening of the device: sizes, buffers, channel, time limits.\<close>

definition open_buffers ::
    "(nat \<Rightarrow> mem \<Rightarrow> ptr \<times> mem) \<Rightarrow> int \<Rightarrow> mpsse_ctx \<Rightarrow> mem \<Rightarrow> mpsse_ctx \<times> mem" where
  "open_buffers malloc channel c m =
     (let c = c\<lparr>read_chunk_size := 16384, read_size := 16384, write_size := 16384\<rparr>;
          (p, m) = malloc (read_chunk_size c) m; c = c\<lparr>read_chunk := p\<rparr>;
          (p, m) = malloc (read_size c) m; c = c\<lparr>read_buffer := p\<rparr>;
          (p, m) = malloc (write_size c) m; c = c\<lparr>write_buffer := p\<rparr>
      in (c, m))"

definition mpsse_open ::
    "(nat \<Rightarrow> mem \<Rightarrow> ptr \<times> mem) \<Rightarrow> bool \<Rightarrow> 'u libusb \<Rightarrow> 'u usb_setup \<Rightarrow> open_args \<Rightarrow> int \<Rightarrow>
     mem \<Rightarrow> copy_heap \<Rightarrow> 'u \<Rightarrow> (mpsse_ctx option \<times> mem \<times> copy_heap \<times> 'u) option" where
  "mpsse_open malloc port_numbers L U a channel m h u =
     (if room h = 0 then Some (None, m, h, u)
      else
        let q = fresh h;
            h = h\<lparr>links := (links h)(q \<mapsto> \<lparr>nxt = 0, prv = 0\<rparr>), fresh := fresh h + 1, room := room h - 1\<rparr>
        in do {
          h \<leftarrow> bit_copy_queue_init q h;
          let (c, m) = open_buffers malloc channel (calloc_ctx q) m;
          if read_chunk c = Null \<or> read_buffer c = Null \<or> write_buffer c = Null
          then open_error U \<lparr>ctx = c, memory = m, queue = h, device = u\<rparr>
          else do {
            let c = c\<lparr>usb_interface := of_int channel, usb_index := of_int (channel + 1),
                      usb_read_timeout := 5000, usb_write_timeout := 5000\<rparr>;
            let (err, uc, u) = init U u;
            if err \<noteq> LIBUSB_SUCCESS
            then open_error U \<lparr>ctx = c, memory = m, queue = h, device = u\<rparr>
            else do {
              (found, c, u) \<leftarrow> open_matching_device port_numbers L U a (c\<lparr>usb_ctx := uc\<rparr>) u;
              if \<not> found
              then open_error U \<lparr>ctx = c\<lparr>usb_dev := 0\<rparr>, memory = m, queue = h, device = u\<rparr>
              else do {
                let (err, u) = control_transfer L (usb_dev c) FTDI_DEVICE_OUT_REQTYPE
                      SIO_SET_LATENCY_TIMER_REQUEST 255 (usb_index c) (usb_write_timeout c) u;
                if err < 0 then open_error U \<lparr>ctx = c, memory = m, queue = h, device = u\<rparr>
                else do {
                  let (err, u) = control_transfer L (usb_dev c) FTDI_DEVICE_OUT_REQTYPE
                        SIO_SET_BITMODE_REQUEST (0x0b OR push_bit 8 BITMODE_MPSSE) (usb_index c)
                        (usb_write_timeout c) u;
                  if err < 0 then open_error U \<lparr>ctx = c, memory = m, queue = h, device = u\<rparr>
                  else do {
                    s \<leftarrow> mpsse_purge L \<lparr>ctx = c, memory = m, queue = h, device = u\<rparr>;
                    Some (Some (ctx s), memory s, queue s, device s)
                  }
                }
              }
            }
          }
        })"

end
