(* ===== verification/Mpsse_Commands.thy ===== *)
theory Mpsse_Commands
  imports Mpsse
begin

text \<open>
  The command-queueing functions of \<^verbatim>\<open>mpsse.c\<close>, from \<open>mpsse_clock_data_out\<close> to
  \<open>mpsse_set_frequency\<close>. Each one flushes first when the buffers have no room for it. A
  \<open>while\<close> loop over a transfer is a body, on the variables it changes, and a
  \<open>partial_function\<close> that repeats it, so that a loop that does not end is a result \<open>None\<close>.
\<close>

section \<open>mpsse_clock_data\<close>

record clock_vars =
  out_at :: nat
  in_at :: nat
  rest :: nat

text \<open>\<open>for (unsigned n = 0; n < this_bytes; n++) buffer_write_byte(ctx, 0x00);\<close>\<close>

fun write_zeros :: "nat \<Rightarrow> 'u mpsse \<Rightarrow> 'u mpsse option" where
  "write_zeros 0 s = Some s"
| "write_zeros (Suc n) s = do { s \<leftarrow> buffer_write_byte 0x00 s; write_zeros n s }"

definition clock_room :: "'u libusb \<Rightarrow> ptr \<Rightarrow> ptr \<Rightarrow> nat \<Rightarrow> 'u mpsse \<Rightarrow> 'u mpsse option" where
  "clock_room L out in_buf len s =
     (let c = ctx s in
      if u32_add (buffer_write_space c) (if len < 8 then 1 else 0)
           < (if out \<noteq> Null \<or> (out = Null \<and> in_buf = Null) then 4 else 3)
         \<or> (in_buf \<noteq> Null \<and> buffer_read_space c < 1)
      then flush_into_retval L s else Some s)"

definition clock_bits ::
    "ptr \<Rightarrow> ptr \<Rightarrow> u8 \<Rightarrow> clock_vars \<Rightarrow> 'u mpsse \<Rightarrow> (clock_vars \<times> 'u mpsse) option" where
  "clock_bits out in_buf mode v s = do {
     s \<leftarrow> buffer_write_byte (0x02 OR mode) s;
     s \<leftarrow> buffer_write_byte (of_nat (rest v - 1)) s;
     (v, s) \<leftarrow> (if out \<noteq> Null then do {
         (n, s) \<leftarrow> buffer_write out (out_at v) (rest v) s;
         Some (v\<lparr>out_at := u32_add (out_at v) n\<rparr>, s)
       } else Some (v, s));
     (v, s) \<leftarrow> (if in_buf \<noteq> Null then do {
         (n, s) \<leftarrow> buffer_add_read in_buf (in_at v) (rest v) (8 - rest v) s;
         Some (v\<lparr>in_at := u32_add (in_at v) n\<rparr>, s)
       } else Some (v, s));
     s \<leftarrow> (if out = Null \<and> in_buf = Null then buffer_write_byte 0x00 s else Some s);
     Some (v\<lparr>rest := 0\<rparr>, s)
   }"

definition clock_this_bytes :: "ptr \<Rightarrow> ptr \<Rightarrow> nat \<Rightarrow> mpsse_ctx \<Rightarrow> nat" where
  "clock_this_bytes out in_buf len c =
     (let this_bytes = len div 8;
          this_bytes = (if this_bytes > 65536 then 65536 else this_bytes);
          this_bytes =
            (if (out \<noteq> Null \<or> (out = Null \<and> in_buf = Null)) \<and>
                u32_add this_bytes 3 > buffer_write_space c
             then u32_sub (buffer_write_space c) 3 else this_bytes);
          this_bytes =
            (if in_buf \<noteq> Null \<and> this_bytes > buffer_read_space c
             then buffer_read_space c else this_bytes)
      in this_bytes)"

definition clock_bytes ::
    "ptr \<Rightarrow> ptr \<Rightarrow> u8 \<Rightarrow> clock_vars \<Rightarrow> 'u mpsse \<Rightarrow> (clock_vars \<times> 'u mpsse) option" where
  "clock_bytes out in_buf mode v s =
     (let this_bytes = clock_this_bytes out in_buf (rest v) (ctx s) in
      if this_bytes > 0 then do {
        s \<leftarrow> buffer_write_byte mode s;
        s \<leftarrow> buffer_write_byte (of_nat (this_bytes - 1) AND 0xff) s;
        s \<leftarrow> buffer_write_byte (of_nat ((this_bytes - 1) div 2 ^ 8)) s;
        (v, s) \<leftarrow> (if out \<noteq> Null then do {
            (n, s) \<leftarrow> buffer_write out (out_at v) (this_bytes * 8) s;
            Some (v\<lparr>out_at := u32_add (out_at v) n\<rparr>, s)
          } else Some (v, s));
        (v, s) \<leftarrow> (if in_buf \<noteq> Null then do {
            (n, s) \<leftarrow> buffer_add_read in_buf (in_at v) (this_bytes * 8) 0 s;
            Some (v\<lparr>in_at := u32_add (in_at v) n\<rparr>, s)
          } else Some (v, s));
        s \<leftarrow> (if out = Null \<and> in_buf = Null then write_zeros this_bytes s else Some s);
        Some (v\<lparr>rest := rest v - this_bytes * 8\<rparr>, s)
      } else Some (v, s))"

definition clock_body ::
    "'u libusb \<Rightarrow> ptr \<Rightarrow> ptr \<Rightarrow> u8 \<Rightarrow> clock_vars \<Rightarrow> 'u mpsse \<Rightarrow> (clock_vars \<times> 'u mpsse) option"
where
  "clock_body L out in_buf mode v s = do {
     s \<leftarrow> clock_room L out in_buf (rest v) s;
     if rest v < 8 then clock_bits out in_buf mode v s
     else clock_bytes out in_buf mode v s
   }"

partial_function (option) clock_loop ::
    "'u libusb \<Rightarrow> ptr \<Rightarrow> ptr \<Rightarrow> u8 \<Rightarrow> clock_vars \<Rightarrow> 'u mpsse \<Rightarrow> 'u mpsse option" where
  "clock_loop L out in_buf mode v s =
     (if rest v > 0 then do {
        (v, s) \<leftarrow> clock_body L out in_buf mode v s;
        clock_loop L out in_buf mode v s
      } else Some s)"

definition clock_mode :: "ptr \<Rightarrow> ptr \<Rightarrow> u8 \<Rightarrow> u8" where
  "clock_mode out in_buf mode =
     (let mode = (if out \<noteq> Null \<or> (out = Null \<and> in_buf = Null) then mode OR 0x10 else mode)
      in if in_buf \<noteq> Null then mode OR 0x20 else mode)"

definition mpsse_clock_data ::
    "'u libusb \<Rightarrow> ptr \<Rightarrow> nat \<Rightarrow> ptr \<Rightarrow> nat \<Rightarrow> nat \<Rightarrow> u8 \<Rightarrow> 'u mpsse \<Rightarrow> 'u mpsse option" where
  "mpsse_clock_data L out out_offset in_buf in_offset len mode s =
     (if retval (ctx s) \<noteq> ERROR_OK then Some s
      else clock_loop L out in_buf (clock_mode out in_buf mode)
             \<lparr>out_at = out_offset, in_at = in_offset, rest = len\<rparr> s)"

definition mpsse_clock_data_out ::
    "'u libusb \<Rightarrow> ptr \<Rightarrow> nat \<Rightarrow> nat \<Rightarrow> u8 \<Rightarrow> 'u mpsse \<Rightarrow> 'u mpsse option" where
  "mpsse_clock_data_out L out out_offset len mode s =
     mpsse_clock_data L out out_offset Null 0 len mode s"

definition mpsse_clock_data_in ::
    "'u libusb \<Rightarrow> ptr \<Rightarrow> nat \<Rightarrow> nat \<Rightarrow> u8 \<Rightarrow> 'u mpsse \<Rightarrow> 'u mpsse option" where
  "mpsse_clock_data_in L in_buf in_offset len mode s =
     mpsse_clock_data L Null 0 in_buf in_offset len mode s"

section \<open>mpsse_clock_tms_cs\<close>

text \<open>\<open>uint8_t data = 0; bit_copy(&data, 0, out, out_offset, this_bits);\<close>\<close>

definition tms_byte :: "ptr \<Rightarrow> nat \<Rightarrow> nat \<Rightarrow> mem \<Rightarrow> u8 option" where
  "tms_byte out out_offset this_bits m = do {
     m \<leftarrow> bit_copy (m(local_block \<mapsto> [0])) (Ptr local_block 0) 0 out out_offset this_bits;
     load m (Ptr local_block 0) 0
   }"

definition tms_body ::
    "'u libusb \<Rightarrow> ptr \<Rightarrow> ptr \<Rightarrow> bool \<Rightarrow> u8 \<Rightarrow> clock_vars \<Rightarrow> 'u mpsse \<Rightarrow>
     (clock_vars \<times> 'u mpsse) option" where
  "tms_body L out in_buf tdi mode v s = do {
     s \<leftarrow> (if buffer_write_space (ctx s) < 3 \<or> (in_buf \<noteq> Null \<and> buffer_read_space (ctx s) < 1)
           then flush_into_retval L s else Some s);
     let this_bits = (if rest v > 7 then 7 else rest v);
     if this_bits > 0 then do {
       s \<leftarrow> buffer_write_byte mode s;
       s \<leftarrow> buffer_write_byte (of_nat (this_bits - 1)) s;
       data \<leftarrow> tms_byte out (out_at v) this_bits (memory s);
       let v = v\<lparr>out_at := u32_add (out_at v) this_bits\<rparr>;
       s \<leftarrow> buffer_write_byte (data OR (if tdi then 0x80 else 0x00)) s;
       (v, s) \<leftarrow> (if in_buf \<noteq> Null then do {
           (n, s) \<leftarrow> buffer_add_read in_buf (in_at v) this_bits (8 - this_bits) s;
           Some (v\<lparr>in_at := u32_add (in_at v) n\<rparr>, s)
         } else Some (v, s));
       Some (v\<lparr>rest := rest v - this_bits\<rparr>, s)
     } else Some (v, s)
   }"

partial_function (option) tms_loop ::
    "'u libusb \<Rightarrow> ptr \<Rightarrow> ptr \<Rightarrow> bool \<Rightarrow> u8 \<Rightarrow> clock_vars \<Rightarrow> 'u mpsse \<Rightarrow> 'u mpsse option" where
  "tms_loop L out in_buf tdi mode v s =
     (if rest v > 0 then do {
        (v, s) \<leftarrow> tms_body L out in_buf tdi mode v s;
        tms_loop L out in_buf tdi mode v s
      } else Some s)"

definition mpsse_clock_tms_cs ::
    "'u libusb \<Rightarrow> ptr \<Rightarrow> nat \<Rightarrow> ptr \<Rightarrow> nat \<Rightarrow> nat \<Rightarrow> bool \<Rightarrow> u8 \<Rightarrow> 'u mpsse \<Rightarrow> 'u mpsse option"
where
  "mpsse_clock_tms_cs L out out_offset in_buf in_offset len tdi mode s =
     (if out = Null then None
      else if retval (ctx s) \<noteq> ERROR_OK then Some s
      else
        let mode = mode OR 0x42;
            mode = (if in_buf \<noteq> Null then mode OR 0x20 else mode)
        in tms_loop L out in_buf tdi mode
             \<lparr>out_at = out_offset, in_at = in_offset, rest = len\<rparr> s)"

definition mpsse_clock_tms_cs_out ::
    "'u libusb \<Rightarrow> ptr \<Rightarrow> nat \<Rightarrow> nat \<Rightarrow> bool \<Rightarrow> u8 \<Rightarrow> 'u mpsse \<Rightarrow> 'u mpsse option" where
  "mpsse_clock_tms_cs_out L out out_offset len tdi mode s =
     mpsse_clock_tms_cs L out out_offset Null 0 len tdi mode s"

section \<open>Data pins\<close>

definition ensure_write_space :: "'u libusb \<Rightarrow> nat \<Rightarrow> 'u mpsse \<Rightarrow> 'u mpsse option" where
  "ensure_write_space L n s =
     (if buffer_write_space (ctx s) < n then flush_into_retval L s else Some s)"

definition mpsse_set_data_bits_low_byte ::
    "'u libusb \<Rightarrow> u8 \<Rightarrow> u8 \<Rightarrow> 'u mpsse \<Rightarrow> 'u mpsse option" where
  "mpsse_set_data_bits_low_byte L data dir s =
     (if retval (ctx s) \<noteq> ERROR_OK then Some s
      else do {
        s \<leftarrow> ensure_write_space L 3 s;
        s \<leftarrow> buffer_write_byte 0x80 s;
        s \<leftarrow> buffer_write_byte data s;
        buffer_write_byte dir s
      })"

definition mpsse_set_data_bits_high_byte ::
    "'u libusb \<Rightarrow> u8 \<Rightarrow> u8 \<Rightarrow> 'u mpsse \<Rightarrow> 'u mpsse option" where
  "mpsse_set_data_bits_high_byte L data dir s =
     (if retval (ctx s) \<noteq> ERROR_OK then Some s
      else do {
        s \<leftarrow> ensure_write_space L 3 s;
        s \<leftarrow> buffer_write_byte 0x82 s;
        s \<leftarrow> buffer_write_byte data s;
        buffer_write_byte dir s
      })"

definition mpsse_read_data_bits_low_byte ::
    "'u libusb \<Rightarrow> ptr \<Rightarrow> 'u mpsse \<Rightarrow> 'u mpsse option" where
  "mpsse_read_data_bits_low_byte L data s =
     (if retval (ctx s) \<noteq> ERROR_OK then Some s
      else do {
        s \<leftarrow> (if buffer_write_space (ctx s) < 1 \<or> buffer_read_space (ctx s) < 1
              then flush_into_retval L s else Some s);
        s \<leftarrow> buffer_write_byte 0x81 s;
        (_, s) \<leftarrow> buffer_add_read data 0 8 0 s;
        Some s
      })"

definition mpsse_read_data_bits_high_byte ::
    "'u libusb \<Rightarrow> ptr \<Rightarrow> 'u mpsse \<Rightarrow> 'u mpsse option" where
  "mpsse_read_data_bits_high_byte L data s =
     (if retval (ctx s) \<noteq> ERROR_OK then Some s
      else do {
        s \<leftarrow> (if buffer_write_space (ctx s) < 1 \<or> buffer_read_space (ctx s) < 1
              then flush_into_retval L s else Some s);
        s \<leftarrow> buffer_write_byte 0x83 s;
        (_, s) \<leftarrow> buffer_add_read data 0 8 0 s;
        Some s
      })"

section \<open>Clock configuration\<close>

definition single_byte_boolean_helper ::
    "'u libusb \<Rightarrow> bool \<Rightarrow> u8 \<Rightarrow> u8 \<Rightarrow> 'u mpsse \<Rightarrow> 'u mpsse option" where
  "single_byte_boolean_helper L var val_if_true val_if_false s =
     (if retval (ctx s) \<noteq> ERROR_OK then Some s
      else do {
        s \<leftarrow> ensure_write_space L 1 s;
        buffer_write_byte (if var then val_if_true else val_if_false) s
      })"

definition mpsse_loopback_config :: "'u libusb \<Rightarrow> bool \<Rightarrow> 'u mpsse \<Rightarrow> 'u mpsse option" where
  "mpsse_loopback_config L enable s = single_byte_boolean_helper L enable 0x84 0x85 s"

definition mpsse_set_divisor :: "'u libusb \<Rightarrow> u16 \<Rightarrow> 'u mpsse \<Rightarrow> 'u mpsse option" where
  "mpsse_set_divisor L divisor s =
     (if retval (ctx s) \<noteq> ERROR_OK then Some s
      else do {
        s \<leftarrow> ensure_write_space L 3 s;
        s \<leftarrow> buffer_write_byte 0x86 s;
        s \<leftarrow> buffer_write_byte (ucast (divisor AND 0xff)) s;
        buffer_write_byte (ucast (drop_bit 8 divisor)) s
      })"

definition mpsse_divide_by_5_config ::
    "'u libusb \<Rightarrow> bool \<Rightarrow> 'u mpsse \<Rightarrow> (int \<times> 'u mpsse) option" where
  "mpsse_divide_by_5_config L enable s =
     (if \<not> mpsse_is_high_speed (ctx s) then Some (ERROR_FAIL, s)
      else do {
        s \<leftarrow> single_byte_boolean_helper L enable 0x8b 0x8a s;
        Some (ERROR_OK, s)
      })"

definition mpsse_rtck_config ::
    "'u libusb \<Rightarrow> bool \<Rightarrow> 'u mpsse \<Rightarrow> (int \<times> 'u mpsse) option" where
  "mpsse_rtck_config L enable s =
     (if \<not> mpsse_is_high_speed (ctx s) then Some (ERROR_FAIL, s)
      else do {
        s \<leftarrow> single_byte_boolean_helper L enable 0x96 0x97 s;
        Some (ERROR_OK, s)
      })"

text \<open>
  \<open>int\<close> arithmetic: the sum \<open>base_clock / 2 + frequency - 1\<close> overflows for frequencies near
  \<open>INT_MAX\<close>, which is undefined.
\<close>

definition mpsse_divisor :: "int \<Rightarrow> int \<Rightarrow> int option" where
  "mpsse_divisor base_clock frequency =
     (if base_clock div 2 + frequency \<ge> 2 ^ 31 then None
      else
        let divisor = (base_clock div 2 + frequency - 1) div frequency - 1
        in Some (if divisor > 65535 then 65535 else divisor))"

definition mpsse_set_frequency ::
    "'u libusb \<Rightarrow> int \<Rightarrow> 'u mpsse \<Rightarrow> (int \<times> 'u mpsse) option" where
  "mpsse_set_frequency L frequency s =
     (if frequency < 0 then None
      else if frequency = 0 then mpsse_rtck_config L True s
      else do {
        (_, s) \<leftarrow> mpsse_rtck_config L False s;
        (base_clock, s) \<leftarrow>
          (if frequency > 60000000 div 2 div 65536 then do {
             (rc, s) \<leftarrow> mpsse_divide_by_5_config L False s;
             if rc = ERROR_OK then Some (60000000, s)
             else do {
               (_, s) \<leftarrow> mpsse_divide_by_5_config L True s;
               Some (12000000, s)
             }
           }
           else do {
             (_, s) \<leftarrow> mpsse_divide_by_5_config L True s;
             Some (12000000, s)
           });
        divisor \<leftarrow> mpsse_divisor base_clock frequency;
        if divisor \<ge> 0 then do {
          s \<leftarrow> mpsse_set_divisor L (of_int divisor) s;
          Some (base_clock div 2 div (1 + divisor), s)
        } else None
      })"

end
