(* ===== verification/Ftdi.thy ===== *)
theory Ftdi
  imports Mpsse_Open Mpsse_Commands
begin

text \<open>
  The part of \<^verbatim>\<open>openocd/src/jtag/drivers/ftdi.c\<close> that the build compiles: the named signals
  (a linked list in the heap), driving and reading them through the MPSSE driver, the clock, and
  opening and closing the adapter. The rest of the file, the command handlers and the execution of
  the command queue of OpenOCD, is between \<open>#if 0\<close> and \<open>#endif\<close>.

  The static variables of the file are a record; \<open>output\<close> and \<open>direction\<close> are its fields
  \<open>pin_output\<close> and \<open>pin_direction\<close>, and \<open>ftdi_jtag_mode\<close>, which only a log message reads, is left out. \<open>calloc\<close> of a signal and \<open>strdup\<close> are
  parameters, and either may fail. A signal whose \<open>name\<close> is still the null pointer of \<open>calloc\<close>
  has no name.
\<close>

section \<open>The state\<close>

record signal =
  sig_name :: "string option"
  data_mask :: u16
  input_mask :: u16
  oe_mask :: u16
  invert_data :: bool
  invert_input :: bool
  invert_oe :: bool
  next_signal :: "nat option"

type_synonym signal_heap = "nat \<rightharpoonup> signal"

text \<open>\<open>mpsse_ctx\<close>: null, an open context, or the dangling pointer that \<open>ftdi_quit\<close> leaves.\<close>

datatype ctx_pointer = No_ctx | Open_ctx | Freed_ctx

record 'u ftdi =
  ftdi_device_desc :: "string option"
  ftdi_serial :: "string option"
  ftdi_location :: "string option"
  ftdi_channel :: u8
  swd_mode :: bool
  ftdi_vid :: "u16 list"
  ftdi_pid :: "u16 list"
  mpsse_ctx_ptr :: ctx_pointer
  ftdi_bus :: "'u mpsse"
  signals :: "nat option"
  sig_heap :: signal_heap
  swd_cmd_queue :: ptr
  freq :: int
  pin_output :: u16
  pin_direction :: u16
  jtag_output_init :: u16
  jtag_direction_init :: u16

text \<open>A call of the MPSSE driver; without an open context it dereferences a bad pointer.\<close>

definition on_bus :: "('u mpsse \<Rightarrow> 'u mpsse option) \<Rightarrow> 'u ftdi \<Rightarrow> 'u ftdi option" where
  "on_bus f d =
     (if mpsse_ctx_ptr d = Open_ctx then map_option (\<lambda>s. d\<lparr>ftdi_bus := s\<rparr>) (f (ftdi_bus d)) else None)"

definition on_bus_rc :: "('u mpsse \<Rightarrow> (int \<times> 'u mpsse) option) \<Rightarrow> 'u ftdi \<Rightarrow> (int \<times> 'u ftdi) option" where
  "on_bus_rc f d =
     (if mpsse_ctx_ptr d = Open_ctx then map_option (\<lambda>(rc, s). (rc, d\<lparr>ftdi_bus := s\<rparr>)) (f (ftdi_bus d))
      else None)"

section \<open>The list of signals\<close>

text \<open>The loop of \<open>find_signal_by_name\<close>; the result is the pointer it returns.\<close>

partial_function (option) find_signal_loop :: "signal_heap \<Rightarrow> string \<Rightarrow> nat option \<Rightarrow> nat option option" where
  "find_signal_loop h nam sig =
     (case sig of
        None \<Rightarrow> Some None
      | Some p \<Rightarrow> do {
          s \<leftarrow> h p;
          n \<leftarrow> sig_name s;
          if nam = n then Some (Some p) else find_signal_loop h nam (next_signal s)
        })"

definition find_signal_by_name :: "string \<Rightarrow> 'u ftdi \<Rightarrow> nat option option" where
  "find_signal_by_name nam d = find_signal_loop (sig_heap d) nam (signals d)"

text \<open>The places a \<open>struct signal **\<close> points to: the head of the list or a \<open>next\<close> field.\<close>

datatype signal_slot = Signals | Next_of nat

fun read_slot :: "'u ftdi \<Rightarrow> signal_slot \<Rightarrow> nat option option" where
  "read_slot d Signals = Some (signals d)"
| "read_slot d (Next_of p) = map_option next_signal (sig_heap d p)"

fun write_slot :: "signal_slot \<Rightarrow> nat option \<Rightarrow> 'u ftdi \<Rightarrow> 'u ftdi option" where
  "write_slot Signals v d = Some (d\<lparr>signals := v\<rparr>)"
| "write_slot (Next_of p) v d =
     map_option (\<lambda>s. d\<lparr>sig_heap := (sig_heap d)(p \<mapsto> s\<lparr>next_signal := v\<rparr>)\<rparr>) (sig_heap d p)"

partial_function (option) last_slot :: "'u ftdi \<Rightarrow> signal_slot \<Rightarrow> signal_slot option" where
  "last_slot d psig = do {
     v \<leftarrow> read_slot d psig;
     case v of None \<Rightarrow> Some psig | Some p \<Rightarrow> last_slot d (Next_of p)
   }"

definition zero_signal :: signal where
  "zero_signal = \<lparr>sig_name = None, data_mask = 0, input_mask = 0, oe_mask = 0, invert_data = False,
     invert_input = False, invert_oe = False, next_signal = None\<rparr>"

text \<open>The allocators: an address for a new signal, a copy of a string, or the null pointer.\<close>

record signal_alloc =
  calloc_signal :: "signal_heap \<Rightarrow> nat option"
  strdup :: "string \<Rightarrow> string option"

definition create_signal :: "signal_alloc \<Rightarrow> string \<Rightarrow> 'u ftdi \<Rightarrow> (nat option \<times> 'u ftdi) option" where
  "create_signal A nam d = do {
     psig \<leftarrow> last_slot d Signals;
     case calloc_signal A (sig_heap d) of
       None \<Rightarrow> do { d \<leftarrow> write_slot psig None d; Some (None, d) }
     | Some p \<Rightarrow> do {
         d \<leftarrow> write_slot psig (Some p) (d\<lparr>sig_heap := (sig_heap d)(p \<mapsto> zero_signal)\<rparr>);
         s \<leftarrow> sig_heap d p;
         let d = d\<lparr>sig_heap := (sig_heap d)(p \<mapsto> s\<lparr>sig_name := strdup A nam\<rparr>)\<rparr>;
         if strdup A nam = None then do {
           d \<leftarrow> write_slot psig None (d\<lparr>sig_heap := (sig_heap d)(p := None)\<rparr>);
           Some (None, d)
         } else Some (Some p, d)
       }
   }"

definition create_default_signal :: "signal_alloc \<Rightarrow> string \<Rightarrow> u16 \<Rightarrow> 'u ftdi \<Rightarrow> (int \<times> 'u ftdi) option" where
  "create_default_signal A nam dmask d = do {
     (sig, d) \<leftarrow> create_signal A nam d;
     case sig of
       None \<Rightarrow> Some (ERROR_FAIL, d)
     | Some p \<Rightarrow> do {
         s \<leftarrow> sig_heap d p;
         Some (ERROR_OK, d\<lparr>sig_heap := (sig_heap d)(p \<mapsto>
           s\<lparr>invert_data := False, data_mask := dmask, invert_oe := False, oe_mask := 0\<rparr>)\<rparr>)
       }
   }"

definition create_signals :: "signal_alloc \<Rightarrow> 'u ftdi \<Rightarrow> (int \<times> 'u ftdi) option" where
  "create_signals A d = do {
     (rc, d) \<leftarrow> create_default_signal A ''TCK'' 0x01 d;
     if rc \<noteq> ERROR_OK then Some (ERROR_FAIL, d) else do {
       (rc, d) \<leftarrow> create_default_signal A ''TDI'' 0x02 d;
       if rc \<noteq> ERROR_OK then Some (ERROR_FAIL, d) else do {
         (rc, d) \<leftarrow> create_default_signal A ''TDO'' 0x04 d;
         if rc \<noteq> ERROR_OK then Some (ERROR_FAIL, d) else do {
           (rc, d) \<leftarrow> create_default_signal A ''TMS'' 0x08 d;
           if rc \<noteq> ERROR_OK then Some (ERROR_FAIL, d) else Some (ERROR_OK, d)
         }
       }
     }
   }"

section \<open>Driving and reading a signal\<close>

text \<open>The \<open>switch\<close>: data and output enable, \<open>Inl\<close> an error; any other level fails an \<open>assert\<close>.\<close>

definition signal_level :: "signal \<Rightarrow> char \<Rightarrow> (int + bool \<times> bool) option" where
  "signal_level s v =
     (if v = CHR ''0'' then Some (Inr (invert_data s, \<not> invert_oe s))
      else if v = CHR ''1'' then
        if data_mask s = 0 then Some (Inl ERROR_FAIL) else Some (Inr (\<not> invert_data s, \<not> invert_oe s))
      else if v = CHR ''z'' \<or> v = CHR ''Z'' then
        if oe_mask s = 0 then Some (Inl ERROR_FAIL) else Some (Inr (invert_data s, invert_oe s))
      else None)"

definition drive :: "bool \<Rightarrow> u16 \<Rightarrow> u16 \<Rightarrow> u16" where
  "drive v bits x = (if v then x OR bits else x AND NOT bits)"

definition low_byte :: "u16 \<Rightarrow> u8" where "low_byte x = ucast (x AND 0xff)"
definition high_byte :: "u16 \<Rightarrow> u8" where "high_byte x = ucast (drop_bit 8 x)"

definition ftdi_set_signal :: "'u libusb \<Rightarrow> nat \<Rightarrow> char \<Rightarrow> 'u ftdi \<Rightarrow> (int \<times> 'u ftdi) option" where
  "ftdi_set_signal L p v d = do {
     s \<leftarrow> sig_heap d p;
     if data_mask s = 0 \<and> oe_mask s = 0 then Some (ERROR_FAIL, d)
     else do {
       level \<leftarrow> signal_level s v;
       case level of
         Inl rc \<Rightarrow> Some (rc, d)
       | Inr (data, oe) \<Rightarrow> do {
           let old_output = pin_output d;
           let old_direction = pin_direction d;
           let d = d\<lparr>pin_output := drive data (data_mask s) (pin_output d)\<rparr>;
           let d = (if oe_mask s = data_mask s then d\<lparr>pin_direction := drive oe (oe_mask s) (pin_direction d)\<rparr>
                  else d\<lparr>pin_output := drive oe (oe_mask s) (pin_output d)\<rparr>);
           d \<leftarrow> (if pin_output d AND 0xff \<noteq> old_output AND 0xff \<or> pin_direction d AND 0xff \<noteq> old_direction AND 0xff
                 then on_bus (mpsse_set_data_bits_low_byte L (low_byte (pin_output d)) (low_byte (pin_direction d))) d
                 else Some d);
           d \<leftarrow> (if drop_bit 8 (pin_output d) \<noteq> drop_bit 8 old_output \<or>
                    drop_bit 8 (pin_direction d) \<noteq> drop_bit 8 old_direction
                 then on_bus (mpsse_set_data_bits_high_byte L (high_byte (pin_output d)) (high_byte (pin_direction d))) d
                 else Some d);
           Some (ERROR_OK, d)
         }
     }
   }"

text \<open>
  \<open>lo\<close> and \<open>hi\<close> are the stack slots of \<open>data_low\<close> and \<open>data_high\<close>. The result has the value
  stored through \<open>value_out\<close>, if any; the result of the flush is ignored.
\<close>

definition on_memory :: "(mem \<Rightarrow> mem) \<Rightarrow> 'u ftdi \<Rightarrow> 'u ftdi" where
  "on_memory f d = d\<lparr>ftdi_bus := (ftdi_bus d)\<lparr>memory := f (memory (ftdi_bus d))\<rparr>\<rparr>"

definition ftdi_get_signal ::
    "'u libusb \<Rightarrow> nat \<Rightarrow> nat \<Rightarrow> nat \<Rightarrow> 'u ftdi \<Rightarrow> (int \<times> u16 option \<times> 'u ftdi) option" where
  "ftdi_get_signal L lo hi p d = do {
     let d = on_memory (\<lambda>m. m(lo \<mapsto> [0], hi \<mapsto> [0])) d;
     s \<leftarrow> sig_heap d p;
     if input_mask s = 0 then Some (ERROR_FAIL, None, on_memory (\<lambda>m. m(lo := None, hi := None)) d)
     else do {
       d \<leftarrow> (if input_mask s AND 0xff \<noteq> 0 then on_bus (mpsse_read_data_bits_low_byte L (Ptr lo 0)) d
             else Some d);
       d \<leftarrow> (if drop_bit 8 (input_mask s) \<noteq> 0 then on_bus (mpsse_read_data_bits_high_byte L (Ptr hi 0)) d
             else Some d);
       (_, d) \<leftarrow> on_bus_rc (mpsse_flush L) d;
       data_low \<leftarrow> load (memory (ftdi_bus d)) (Ptr lo 0) 0;
       data_high \<leftarrow> load (memory (ftdi_bus d)) (Ptr hi 0) 0;
       let v = (push_bit 8 (ucast data_high) OR ucast data_low :: u16);
       let v = (if invert_input s then NOT v else v);
       let v = v AND input_mask s;
       Some (ERROR_OK, Some v, on_memory (\<lambda>m. m(lo := None, hi := None)) d)
     }
   }"

section \<open>The clock\<close>

text \<open>The log message for a fast clock has no effect.\<close>

definition ftdi_speed :: "'u libusb \<Rightarrow> int \<Rightarrow> 'u ftdi \<Rightarrow> (int \<times> 'u ftdi) option" where
  "ftdi_speed L speed d = do {
     (rc, d) \<leftarrow> on_bus_rc (mpsse_set_frequency L speed) d;
     if rc < 0 then Some (rc, d) else Some (ERROR_OK, d)
   }"

text \<open>Division of \<open>int\<close> truncates toward zero; \<open>khz * 1000\<close> must not overflow.\<close>

definition ftdi_speed_div :: "int \<Rightarrow> int \<times> int" where
  "ftdi_speed_div speed = (ERROR_OK, if speed < 0 then - (- speed div 1000) else speed div 1000)"

definition ftdi_khz :: "int \<Rightarrow> 'u ftdi \<Rightarrow> (int \<times> int option) option" where
  "ftdi_khz khz d =
     (if khz = 0 \<and> mpsse_ctx_ptr d \<noteq> Open_ctx then None
      else if khz = 0 \<and> \<not> mpsse_is_high_speed (ctx (ftdi_bus d)) then Some (ERROR_FAIL, None)
      else if khz * 1000 < - (2 ^ 31) \<or> khz * 1000 \<ge> 2 ^ 31 then None
      else Some (ERROR_OK, Some (khz * 1000)))"

definition jtag_get_speed_khz :: int where
  "jtag_get_speed_khz = 1000"

section \<open>Opening and closing\<close>

definition open_args_of :: "u16 \<Rightarrow> u16 \<Rightarrow> 'u ftdi \<Rightarrow> open_args" where
  "open_args_of vid pid d =
     \<lparr>arg_vid = Some vid, arg_pid = Some pid, arg_product = ftdi_device_desc d,
      arg_serial = ftdi_serial d, arg_location = ftdi_location d\<rparr>"

definition open_ftdi ::
    "(nat \<Rightarrow> mem \<Rightarrow> ptr \<times> mem) \<Rightarrow> bool \<Rightarrow> 'u libusb \<Rightarrow> 'u usb_setup \<Rightarrow> u16 \<Rightarrow> u16 \<Rightarrow> 'u ftdi \<Rightarrow>
     'u ftdi option" where
  "open_ftdi malloc port_numbers L U vid pid d =
     (let s = ftdi_bus d in do {
        (c, m, h, u) \<leftarrow> mpsse_open malloc port_numbers L U (open_args_of vid pid d) (uint (ftdi_channel d))
          (memory s) (queue s) (device s);
        Some (case c of
          None \<Rightarrow> d\<lparr>mpsse_ctx_ptr := No_ctx, ftdi_bus := s\<lparr>memory := m, queue := h, device := u\<rparr>\<rparr>
        | Some c \<Rightarrow> d\<lparr>mpsse_ctx_ptr := Open_ctx,
            ftdi_bus := \<lparr>ctx = c, memory = m, queue = h, device = u\<rparr>\<rparr>)
      })"

text \<open>The loop over the identifiers, which are read from arrays of nine entries.\<close>

fun open_loop ::
    "(nat \<Rightarrow> mem \<Rightarrow> ptr \<times> mem) \<Rightarrow> bool \<Rightarrow> 'u libusb \<Rightarrow> 'u usb_setup \<Rightarrow> (u16 \<times> u16) list \<Rightarrow> 'u ftdi \<Rightarrow>
     'u ftdi option" where
  "open_loop malloc port_numbers L U [] d = None"
| "open_loop malloc port_numbers L U ((vid, pid) # ids) d =
     (if vid \<noteq> 0 \<or> pid \<noteq> 0 then do {
        d \<leftarrow> open_ftdi malloc port_numbers L U vid pid d;
        if mpsse_ctx_ptr d \<noteq> No_ctx then Some d else open_loop malloc port_numbers L U ids d
      } else Some d)"

text \<open>What follows the \<open>swd_mode\<close> block: the initial pins, no loopback, the clock.\<close>

definition ftdi_configure :: "'u libusb \<Rightarrow> 'u ftdi \<Rightarrow> (int \<times> 'u ftdi) option" where
  "ftdi_configure L d = do {
     d \<leftarrow> on_bus (mpsse_set_data_bits_low_byte L (low_byte (pin_output d)) (low_byte (pin_direction d))) d;
     d \<leftarrow> on_bus (mpsse_set_data_bits_high_byte L (high_byte (pin_output d)) (high_byte (pin_direction d))) d;
     d \<leftarrow> on_bus (mpsse_loopback_config L False) d;
     (rc, d) \<leftarrow> on_bus_rc (mpsse_set_frequency L (jtag_get_speed_khz * 1000)) d;
     on_bus_rc (mpsse_flush L) (d\<lparr>freq := rc\<rparr>)
   }"

definition ftdi_initialize ::
    "(nat \<Rightarrow> mem \<Rightarrow> ptr \<times> mem) \<Rightarrow> bool \<Rightarrow> 'u libusb \<Rightarrow> 'u usb_setup \<Rightarrow> 'u ftdi \<Rightarrow> (int \<times> 'u ftdi) option"
where
  "ftdi_initialize malloc port_numbers L U d = do {
     d \<leftarrow> open_loop malloc port_numbers L U (zip (ftdi_vid d) (ftdi_pid d)) d;
     if mpsse_ctx_ptr d = No_ctx then Some (ERROR_FAIL, d)
     else do {
       let d = d\<lparr>pin_output := jtag_output_init d, pin_direction := jtag_direction_init d\<rparr>;
       if swd_mode d then do {
         sig \<leftarrow> find_signal_by_name ''SWD_EN'' d;
         case sig of
           None \<Rightarrow> Some (ERROR_FAIL, d)
         | Some p \<Rightarrow> do {
             s \<leftarrow> sig_heap d p;
             d \<leftarrow> (if data_mask s \<noteq> 0 then map_option snd (ftdi_set_signal L p (CHR ''1'') d) else Some d);
             ftdi_configure L d
           }
       } else ftdi_configure L d
     }
   }"

definition ftdi_quit :: "'u usb_setup \<Rightarrow> 'u ftdi \<Rightarrow> (int \<times> 'u ftdi) option" where
  "ftdi_quit U d =
     (if mpsse_ctx_ptr d = Open_ctx then do {
        (m, h, u) \<leftarrow> mpsse_close U (ftdi_bus d);
        m \<leftarrow> free_block (swd_cmd_queue d) m;
        Some (ERROR_OK, d\<lparr>mpsse_ctx_ptr := Freed_ctx,
          ftdi_bus := (ftdi_bus d)\<lparr>memory := m, queue := h, device := u\<rparr>\<rparr>)
      } else None)"

end
