(* ===== verification/Mpsse_Laws.thy ===== *)
theory Mpsse_Laws
  imports Mpsse_Commands Buffer_Laws
begin

text \<open>
  The invariant of an MPSSE context, and what the three buffer primitives do to it.

  \<open>minv wb rb cb es s\<close>: the three buffers are the distinct blocks \<open>wb\<close>, \<open>rb\<close>, \<open>cb\<close>, of
  the sizes the context records; one byte of the write buffer is always free, for the
  \<open>SEND_IMMEDIATE\<close> that a flush appends; data is only expected when something is sent; and
  the read queue holds the copies \<open>es\<close>, each from the part of the read buffer that is in use
  to a place inside a block of the caller.
\<close>

named_theorems mpsse_simps \<open>effect of the buffer primitives\<close>

section \<open>The invariant\<close>

definition entry_ok :: "nat set \<Rightarrow> nat \<Rightarrow> nat \<Rightarrow> mem \<Rightarrow> bit_copy_queue_entry \<Rightarrow> bool" where
  "entry_ok own rb rcount m e \<longleftrightarrow>
     (\<exists>so. src e = Ptr rb so \<and> 8 * so + src_offset e + bit_count e \<le> 8 * rcount) \<and>
     (\<exists>db dof D. dst e = Ptr db dof \<and> db \<notin> own \<and> m db = Some D \<and>
        8 * dof + dst_offset e + bit_count e \<le> 8 * length D)"

definition sized :: "mem \<Rightarrow> nat \<Rightarrow> nat \<Rightarrow> bool" where
  "sized m b n \<longleftrightarrow> (\<exists>bs. m b = Some bs \<and> length bs = n)"

abbreviation own_blocks :: "nat \<Rightarrow> nat \<Rightarrow> nat \<Rightarrow> nat set" where
  "own_blocks wb rb cb \<equiv> {local_block, wb, rb, cb}"

definition minv ::
    "nat \<Rightarrow> nat \<Rightarrow> nat \<Rightarrow> bit_copy_queue_entry list \<Rightarrow> 'u mpsse \<Rightarrow> bool" where
  "minv wb rb cb es s \<longleftrightarrow>
     write_buffer (ctx s) = Ptr wb 0 \<and> read_buffer (ctx s) = Ptr rb 0 \<and>
     read_chunk (ctx s) = Ptr cb 0 \<and> distinct [local_block, wb, rb, cb] \<and>
     memory s local_block = None \<and>
     sized (memory s) wb (write_size (ctx s)) \<and> sized (memory s) rb (read_size (ctx s)) \<and>
     sized (memory s) cb (read_chunk_size (ctx s)) \<and>
     5 \<le> write_size (ctx s) \<and> write_size (ctx s) < 2 ^ 28 \<and>
     1 \<le> read_size (ctx s) \<and> read_size (ctx s) < 2 ^ 28 \<and> read_chunk_size (ctx s) < 2 ^ 28 \<and>
     2 < unat (max_packet_size (ctx s)) \<and>
     write_count (ctx s) < write_size (ctx s) \<and> read_count (ctx s) \<le> read_size (ctx s) \<and>
     (read_count (ctx s) > 0 \<longrightarrow> write_count (ctx s) > 0) \<and>
     queue_of (read_queue (ctx s)) (queue s) es \<and> (read_count (ctx s) = 0 \<longrightarrow> es = []) \<and>
     (\<forall>e \<in> set es. entry_ok (own_blocks wb rb cb) rb (read_count (ctx s)) (memory s) e)"

lemma minv_blocks:
  assumes "minv wb rb cb es s"
  shows "write_buffer (ctx s) = Ptr wb 0" "read_buffer (ctx s) = Ptr rb 0"
    "read_chunk (ctx s) = Ptr cb 0" "local_block \<noteq> wb" "local_block \<noteq> rb" "local_block \<noteq> cb"
    "wb \<noteq> rb" "wb \<noteq> cb" "rb \<noteq> cb" "memory s local_block = None"
  using assms by (auto simp: minv_def)

lemma minv_sizes:
  assumes "minv wb rb cb es s"
  shows "5 \<le> write_size (ctx s)" "write_size (ctx s) < 2 ^ 28" "1 \<le> read_size (ctx s)"
    "read_size (ctx s) < 2 ^ 28" "read_chunk_size (ctx s) < 2 ^ 28"
    "2 < unat (max_packet_size (ctx s))" "write_count (ctx s) < write_size (ctx s)"
    "read_count (ctx s) \<le> read_size (ctx s)"
  using assms by (auto simp: minv_def)

lemma minv_write_space:
  assumes "minv wb rb cb es s"
  shows "buffer_write_space (ctx s) = write_size (ctx s) - write_count (ctx s) - 1"
  using minv_sizes [OF assms] by (simp add: buffer_write_space_def)

lemma minv_read_space:
  assumes "minv wb rb cb es s"
  shows "buffer_read_space (ctx s) = read_size (ctx s) - read_count (ctx s)"
  using minv_sizes [OF assms] by (simp add: buffer_read_space_def)

section \<open>Appending to the write buffer\<close>

lemma blit_blit:
  assumes "k + length xs + length ys \<le> length W"
  shows "blit (blit W k xs 0 (length xs)) (k + length xs) ys 0 (length ys) =
    blit W k (xs @ ys) 0 (length xs + length ys)"
proof (rule nth_equalityI)
  show "length (blit (blit W k xs 0 (length xs)) (k + length xs) ys 0 (length ys)) =
      length (blit W k (xs @ ys) 0 (length xs + length ys))"
    using assms by simp
next
  fix i
  assume "i < length (blit (blit W k xs 0 (length xs)) (k + length xs) ys 0 (length ys))"
  with assms have "i < length W" by simp
  with assms show "blit (blit W k xs 0 (length xs)) (k + length xs) ys 0 (length ys) ! i =
      blit W k (xs @ ys) 0 (length xs + length ys) ! i"
    by (auto simp: nth_blit nth_append)
qed

definition emit :: "nat \<Rightarrow> u8 list \<Rightarrow> 'u mpsse \<Rightarrow> 'u mpsse" where
  "emit wb bs s =
     s\<lparr>memory := (memory s)(wb \<mapsto>
         blit (the (memory s wb)) (write_count (ctx s)) bs 0 (length bs)),
       ctx := (ctx s)\<lparr>write_count := write_count (ctx s) + length bs\<rparr>\<rparr>"

definition pending :: "nat \<Rightarrow> 'u mpsse \<Rightarrow> u8 list" where
  "pending wb s = take (write_count (ctx s)) (the (memory s wb))"

lemma emit_fields [simp]:
  "ctx (emit wb bs s) = (ctx s)\<lparr>write_count := write_count (ctx s) + length bs\<rparr>"
  "queue (emit wb bs s) = queue s" "device (emit wb bs s) = device s"
  by (simp_all add: emit_def)

lemma emit_memory [simp]: "c \<noteq> wb \<Longrightarrow> memory (emit wb bs s) c = memory s c"
  by (simp add: emit_def)

lemma emit_Nil [simp]: "memory s wb = Some W \<Longrightarrow> emit wb [] s = s"
  by (cases s) (auto simp: emit_def)

lemma emit_emit:
  assumes "memory s wb = Some W" and "write_count (ctx s) + length xs + length ys \<le> length W"
  shows "emit wb ys (emit wb xs s) = emit wb (xs @ ys) s"
  using assms by (cases s) (simp add: emit_def blit_blit)

lemma pending_emit:
  assumes "memory s wb = Some W" and "write_count (ctx s) + length bs \<le> length W"
  shows "pending wb (emit wb bs s) = pending wb s @ bs"
  using assms by (simp add: pending_def emit_def blit_def)

lemma sized_emit:
  assumes "sized (memory s) b n" and "write_count (ctx s) + length bs \<le> length W"
    and "memory s wb = Some W"
  shows "sized (memory (emit wb bs s)) b n"
  using assms by (auto simp: sized_def emit_def)

lemma minv_emit:
  assumes "minv wb rb cb es s" and "write_count (ctx s) + length bs < write_size (ctx s)"
  shows "minv wb rb cb es (emit wb bs s)"
proof -
  from assms(1) obtain W where W: "memory s wb = Some W" "length W = write_size (ctx s)"
    by (auto simp: minv_def sized_def)
  have "\<forall>e \<in> set es. entry_ok (own_blocks wb rb cb) rb (read_count (ctx s)) (memory (emit wb bs s)) e"
  proof
    fix e
    assume "e \<in> set es"
    then have "entry_ok (own_blocks wb rb cb) rb (read_count (ctx s)) (memory s) e"
      using assms(1) by (simp add: minv_def)
    then obtain so db dof D where "src e = Ptr rb so"
        "8 * so + src_offset e + bit_count e \<le> 8 * read_count (ctx s)" "dst e = Ptr db dof"
        "db \<notin> own_blocks wb rb cb" "memory s db = Some D"
        "8 * dof + dst_offset e + bit_count e \<le> 8 * length D"
      by (auto simp: entry_ok_def)
    then show "entry_ok (own_blocks wb rb cb) rb (read_count (ctx s)) (memory (emit wb bs s)) e"
      by (auto simp: entry_ok_def)
  qed
  then show ?thesis
    using assms W sized_emit [of s _ _ bs W wb] by (auto simp: minv_def)
qed

lemma buffer_write_byte_emit [mpsse_simps]:
  assumes "minv wb rb cb es s"
  shows "buffer_write_byte b s = Some (emit wb [b] s)"
proof -
  from assms obtain W where W: "memory s wb = Some W" "length W = write_size (ctx s)"
    by (auto simp: minv_def sized_def)
  have "W[write_count (ctx s) := b] = blit W (write_count (ctx s)) [b] 0 1"
    using W(2) minv_sizes(7) [OF assms] by (simp add: blit_def upd_conv_take_nth_drop)
  with W minv_sizes(7) [OF assms] minv_blocks(1) [OF assms] show ?thesis
    by (simp add: buffer_write_byte_def emit_def Let_def)
qed

lemma write_zeros_emit [mpsse_simps]:
  assumes "minv wb rb cb es s" and "write_count (ctx s) + n < write_size (ctx s)"
  shows "write_zeros n s = Some (emit wb (replicate n 0) s)"
  using assms
proof (induction n arbitrary: s)
  case 0
  then obtain W where "memory s wb = Some W" by (auto simp: minv_def sized_def)
  then show ?case by simp
next
  case (Suc n)
  then obtain W where W: "memory s wb = Some W" "length W = write_size (ctx s)"
    by (auto simp: minv_def sized_def)
  have "minv wb rb cb es (emit wb [0] s)"
    using Suc.prems by (intro minv_emit) simp_all
  with Suc show ?case
    using emit_emit [OF W(1), of "[0]" "replicate n 0"] W(2)
    by (simp add: buffer_write_byte_emit)
qed

lemma blit_of_changes:
  assumes "take k W' = take k W" and "drop (k + n) W' = drop (k + n) W" and "k + n \<le> length W'"
  shows "W' = blit W k (take n (drop k W')) 0 n"
proof -
  have "take n (drop 0 (take n (drop k W'))) = take n (drop k W')" by simp
  moreover have "W' = take k W' @ take n (drop k W') @ drop (k + n) W'"
    by (metis append_take_drop_id drop_drop add.commute)
  ultimately show ?thesis
    using assms(1,2) by (simp add: blit_def)
qed

lemma ceil8_bits: "n \<le> 8 * ((n + 7) div 8)" for n :: nat
  by (rule le_ceil8)

lemma buffer_write_emit [mpsse_simps]:
  assumes inv: "minv wb rb cb es s" and S: "memory s ob = Some S" "ob \<noteq> wb"
    and len: "8 * oo + off + n \<le> 8 * length S"
    and fits: "write_count (ctx s) + (n + 7) div 8 \<le> write_size (ctx s)" and n: "n < 2 ^ 31"
  shows "\<exists>bs. buffer_write (Ptr ob oo) off n s = Some (n, emit wb bs s) \<and>
    length bs = (n + 7) div 8 \<and>
    take n (bits_of bs) = take n (drop (8 * oo + off) (bits_of S))"
proof -
  from inv obtain W where W: "memory s wb = Some W" "length W = write_size (ctx s)"
    by (auto simp: minv_def sized_def)
  define k wc b where "k = (n + 7) div 8" and "wc = write_count (ctx s)"
    and "b = blit (bits_of W) (8 * wc) (bits_of S) (8 * oo + off) n"
  have k: "n \<le> 8 * k" "wc + k \<le> length W" "wc + k < 2 ^ 28"
    using fits W(2) minv_sizes(2) [OF inv] by (simp_all add: k_def wc_def ceil8_bits)
  have lb: "length b = 8 * length W" using k len by (simp add: b_def)
  define W' where "W' = bytes_of b"
  have W': "bits_of W' = b" "length W' = length W" using lb by (simp_all add: W'_def)
  have "bits_of (take wc W') = bits_of (take wc W)"
    using k by (simp add: W' b_def blit_def flip: take_bits_of)
  moreover have "bits_of (drop (wc + k) W') = bits_of (drop (wc + k) W)"
    using k len by (simp add: W' b_def blit_def add.commute flip: drop_bits_of)
  ultimately have eq: "W' = blit W wc (take k (drop wc W')) 0 k"
    using k W'(2) by (intro blit_of_changes) (simp_all add: bits_of_inject)
  have "bits_of (take k (drop wc W')) = take (8 * k) (drop (8 * wc) b)"
    by (simp add: W' flip: take_bits_of drop_bits_of)
  then have "take n (bits_of (take k (drop wc W'))) = take n (drop (8 * wc) b)"
    using k by (simp add: min_def)
  also have "\<dots> = take n (drop (8 * oo + off) (bits_of S))"
    using k len by (simp add: b_def blit_def)
  finally have bits: "take n (bits_of (take k (drop wc W'))) = take n (drop (8 * oo + off) (bits_of S))" .
  have "bit_copy (memory s) (Ptr wb wc) 0 (Ptr ob oo) off n = Some (set_block_bits (memory s) wb b)"
    using bit_copy_known [of "memory s" ob S wb W oo off n wc 0] S W k len by (simp add: b_def)
  moreover have "DIV_ROUND_UP n 8 = k" using n by (simp add: DIV_ROUND_UP_8 k_def)
  ultimately have "buffer_write (Ptr ob oo) off n s = Some (n, emit wb (take k (drop wc W')) s)"
    using k W W'(2) eq minv_blocks(1) [OF inv]
    by (simp add: buffer_write_def emit_def Let_def set_block_bits_def flip: wc_def W'_def)
  with bits W'(2) k show ?thesis
    by (intro exI [of _ "take k (drop wc W')"]) (simp add: k_def)
qed

section \<open>Expecting data\<close>

definition read_entry :: "ptr \<Rightarrow> nat \<Rightarrow> nat \<Rightarrow> nat \<Rightarrow> nat \<Rightarrow> nat \<Rightarrow> bit_copy_queue_entry" where
  "read_entry in_buf in_off rb rc off n =
     \<lparr>dst = in_buf, dst_offset = in_off, src = Ptr rb rc, src_offset = off, bit_count = n\<rparr>"

text \<open>
  The state after \<open>buffer_add_read\<close> differs in the read count and the queue only; the entry is
  appended unless \<open>malloc\<close> fails, and then the read is lost without a trace.
\<close>

definition expects :: "nat \<Rightarrow> 'u mpsse \<Rightarrow> 'u mpsse \<Rightarrow> bool" where
  "expects k s s' \<longleftrightarrow> (\<exists>q. s' = s\<lparr>queue := q, ctx := (ctx s)\<lparr>read_count := read_count (ctx s) + k\<rparr>\<rparr>)"

lemma expects_fields:
  assumes "expects k s s'"
  shows "ctx s' = (ctx s)\<lparr>read_count := read_count (ctx s) + k\<rparr>" "memory s' = memory s"
    "device s' = device s" "pending wb s' = pending wb s"
  using assms by (auto simp: expects_def pending_def)

lemma entry_ok_mono: "entry_ok own rb n m e \<Longrightarrow> n \<le> n' \<Longrightarrow> entry_ok own rb n' m e"
  unfolding entry_ok_def by (meson le_trans mult_le_mono2)

lemma buffer_add_read_expects [mpsse_simps]:
  assumes inv: "minv wb rb cb es s" and D: "memory s ib = Some D" "ib \<notin> own_blocks wb rb cb"
    and len: "8 * io + in_off + n \<le> 8 * length D"
    and fits: "read_count (ctx s) + (n + 7) div 8 \<le> read_size (ctx s)" and n: "n < 2 ^ 31"
    and off: "off + n \<le> 8 * ((n + 7) div 8)" and wc: "0 < write_count (ctx s)" and n0: "0 < n"
  shows "\<exists>s' es'. buffer_add_read (Ptr ib io) in_off n off s = Some (n, s') \<and>
    minv wb rb cb es' s' \<and> expects ((n + 7) div 8) s s' \<and>
    (if room (queue s) = 0 then es' = es
     else es' = es @ [read_entry (Ptr ib io) in_off rb (read_count (ctx s)) off n] \<and>
       room (queue s') = room (queue s) - 1)"
proof -
  let ?rc = "read_count (ctx s)"
  let ?e = "read_entry (Ptr ib io) in_off rb ?rc off n"
  have Q: "queue_of (read_queue (ctx s)) (queue s) es" using inv by (simp add: minv_def)
  have k: "?rc + (n + 7) div 8 < 2 ^ 28"
    using fits minv_sizes(4) [OF inv] by simp
  have enq: "bit_copy_queued (read_queue (ctx s)) (Ptr ib io) in_off (Ptr rb ?rc) off n (queue s) =
      queued (read_queue (ctx s)) ?e (queue s)"
    by (simp add: queued_def read_entry_def)
  obtain rc q es' where q: "queued (read_queue (ctx s)) ?e (queue s) = Some (rc, q)"
      "queue_of (read_queue (ctx s)) q es'"
      "if room (queue s) = 0 then es' = es else es' = es @ [?e] \<and> room q = room (queue s) - 1"
    using bcq.enq_ok [OF Q, of ?e] bcq.enq_fail [OF Q, of ?e] Q by (cases "room (queue s)") auto
  let ?s = "s\<lparr>queue := q, ctx := (ctx s)\<lparr>read_count := ?rc + (n + 7) div 8\<rparr>\<rparr>"
  have "buffer_add_read (Ptr ib io) in_off n off s = Some (n, ?s)"
    using fits k n q(1) minv_blocks(2) [OF inv]
    by (simp add: buffer_add_read_def DIV_ROUND_UP_8 enq Let_def)
  moreover have "\<forall>e \<in> set es'. entry_ok (own_blocks wb rb cb) rb (?rc + (n + 7) div 8) (memory s) e"
  proof
    fix e
    assume "e \<in> set es'"
    then consider "e \<in> set es" | "e = ?e" using q(3) by (auto split: if_splits)
    then show "entry_ok (own_blocks wb rb cb) rb (?rc + (n + 7) div 8) (memory s) e"
    proof cases
      case 1
      then show ?thesis using inv by (auto simp: minv_def intro: entry_ok_mono)
    next
      case 2
      then show ?thesis using D len off by (simp add: entry_ok_def read_entry_def)
    qed
  qed
  then have "minv wb rb cb es' ?s"
    using inv q(2) fits wc n0 div_greater_zero_iff [of "n + 7" 8] by (simp add: minv_def)
  moreover have "expects ((n + 7) div 8) s ?s" by (auto simp: expects_def)
  ultimately show ?thesis using q(3) by (intro exI [of _ ?s] exI [of _ es']) simp
qed

end
