(* ===== verification/Mpsse_Flush.thy ===== *)
theory Mpsse_Flush
  imports Mpsse_Laws
begin

text \<open>
  \<open>mpsse_flush\<close>: the callbacks, the polling loop and the outcomes.

  \<open>payload p raw\<close> is the specification of \<open>read_cb\<close>: the bytes of a chunk without the first
  two of each packet of \<open>p\<close> bytes. During the polling loop only the read chunk and the read
  buffer change (\<open>polled\<close>), whatever libusb does within its contract.
\<close>

section \<open>Stripping the status bytes\<close>

function payload :: "nat \<Rightarrow> u8 list \<Rightarrow> u8 list" where
  "payload p raw =
     (if p \<le> 2 \<or> length raw \<le> 2 then []
      else take (p - 2) (drop 2 raw) @ payload p (drop p raw))"
  by pat_completeness auto
termination
  by (relation "measure (\<lambda>(p, raw). length raw)") auto

declare payload.simps [simp del]

lemma payload_short: "length raw \<le> 2 \<Longrightarrow> payload p raw = []"
  by (simp add: payload.simps)

lemma payload_nonempty: "2 < p \<Longrightarrow> 2 < length raw \<Longrightarrow> payload p raw \<noteq> []"
  by (simp add: payload.simps [of p raw])

lemma blit_append:
  assumes "k + length xs + n \<le> length W" and "n \<le> length ys"
  shows "blit (blit W k xs 0 (length xs)) (k + length xs) ys 0 n = blit W k (xs @ ys) 0 (length xs + n)"
proof -
  have l: "length (take n ys) = n" using assms(2) by simp
  have "blit A j ys 0 n = blit A j (take n ys) 0 n" for A :: "'a list" and j
    by (simp add: blit_def)
  moreover have "blit W k (xs @ take n ys) 0 (length xs + n) = blit W k (xs @ ys) 0 (length xs + n)"
    by (simp add: blit_def)
  ultimately show ?thesis
    using blit_blit [of k xs "take n ys" W] assms(1) unfolding l by simp
qed

lemma take_blit_prefix: "t \<le> length R \<Longrightarrow> take t (blit R t xs ss n) = take t R"
  by (simp add: blit_def)

lemma DIV_ROUND_UP_pos:
  assumes "0 < p" and "n + p < 2 ^ 32"
  shows "DIV_ROUND_UP n p = (n + p - 1) div p"
  using assms by (simp add: DIV_ROUND_UP_def)

lemma packet_index_less:
  assumes "p * i < n" and "0 < p" and "n + p < 2 ^ 32"
  shows "i < DIV_ROUND_UP n p"
proof -
  have "p * Suc i \<le> n + p - 1" using assms(1) by simp
  then have "Suc i \<le> (n + p - 1) div p"
    using assms(2) by (simp add: less_eq_div_iff_mult_less_eq mult.commute)
  with assms show ?thesis by (simp add: DIV_ROUND_UP_pos)
qed

lemma u16_less: "unat (w :: u16) < 2 ^ 16"
  using unsigned_less [of w, where 'a = nat] by simp

lemma strip_packets_known:
  fixes c :: mpsse_ctx
  defines "p \<equiv> unat (max_packet_size c)"
  assumes "read_chunk c = Ptr cb 0" and "read_buffer c = Ptr rb 0" and "rb \<noteq> cb" and "2 < p"
    and "m cb = Some C" and "length data \<le> length C" and "take (length data) C = data"
    and "length data < 2 ^ 28"
    and "m rb = Some R" and "read_count c \<le> length R" and "length R < 2 ^ 28"
    and "transferred res < read_count c"
  shows "strip_packets c (DIV_ROUND_UP (length data) p) i (length (drop (p * i) data)) res m =
    (let P = payload p (drop (p * i) data);
         k = min (length P) (read_count c - transferred res)
     in Some (res\<lparr>transferred := transferred res + k,
                  finished := finished res \<or> transferred res + k = read_count c\<rparr>,
              m(rb \<mapsto> blit R (transferred res) P 0 k)))"
  using assms(2-)
proof (induction "length data - i" arbitrary: i res m R rule: less_induct)
  case less
  define rest_data where "rest_data = drop (p * i) data"
  define t where "t = transferred res"
  show ?case
  proof (cases "length rest_data > 2")
    case False
    then have "payload p rest_data = []" by (simp add: payload_short)
    with False less.prems show ?thesis
      by (cases res) (simp add: strip_packets.simps [of c _ i] flip: rest_data_def add: map_upd_triv)
  next
    case True
    then have pi: "p * i + 2 < length data" by (simp add: rest_data_def)
    then have idx: "i < DIV_ROUND_UP (length data) p"
      using less.prems(4,8) u16_less [of "max_packet_size c"] p_def
      by (intro packet_index_less) auto
    have "1 * i \<le> p * i" using less.prems(4) by (intro mult_le_mono1) simp
    then have il: "i < length data" using pi by linarith
    define n where "n = min (min (p - 2) (length rest_data - 2)) (read_count c - t)"
    have p32: "p < 2 ^ 16" using u16_less [of "max_packet_size c"] p_def by simp
    have lr: "length rest_data = length data - p * i" by (simp add: rest_data_def)
    have n_le: "p * i + 2 + n \<le> length C" "t + n \<le> length R" "n \<le> read_count c - t"
      using pi less.prems(6,10,12) by (auto simp: n_def lr t_def)
    define bs where "bs = take n (drop 2 rest_data)"
    have lbs: "length bs = n" by (simp add: bs_def n_def)
    have src: "take n (drop (p * i + 2) C) = bs"
    proof -
      have "bs = take n (drop (p * i + 2) (take (length data) C))"
        using less.prems(7) by (simp add: bs_def rest_data_def add.commute)
      also have "\<dots> = take n (drop (p * i + 2) C)"
        using pi by (simp add: drop_take n_def lr min_def)
      finally show ?thesis by simp
    qed
    let ?res = "res\<lparr>transferred := t + n\<rparr>" and ?m = "m(rb \<mapsto> blit R t bs 0 n)"
    have nr: "n + 2 \<le> length rest_data" "n < 2 ^ 28" "length rest_data < 2 ^ 28"
      using True less.prems(8) by (simp_all add: n_def lr)
    have sizes: "u32_sub p 2 = p - 2" "u32_sub (read_count c) t = read_count c - t"
      "u32_add t n = t + n" "u32_sub (length rest_data) (u32_add n 2) = length rest_data - (n + 2)"
      using less.prems(4,10,11,12) p32 n_le(2) nr by (simp_all add: t_def)
    have step: "strip_packets c (DIV_ROUND_UP (length data) p) i (length rest_data) res m =
        (if t + n = read_count c then Some (?res\<lparr>finished := True\<rparr>, ?m)
         else strip_packets c (DIV_ROUND_UP (length data) p) (i + 1)
                (length rest_data - (n + 2)) ?res ?m)"
    proof -
      have mins: "(if (if p - 2 > length rest_data - 2 then length rest_data - 2 else p - 2)
            > read_count c - t then read_count c - t
          else (if p - 2 > length rest_data - 2 then length rest_data - 2 else p - 2)) = n"
        by (simp add: n_def)
      have load: "load_bytes m (ptr_add (read_chunk c) (p * i + 2)) n = Some bs"
        using less.prems(1,5) n_le(1) src by simp
      have store: "store_bytes m (ptr_add (read_buffer c) t) bs = Some ?m"
        using less.prems(2,9) n_le(2) lbs by simp
      have cond: "(i < DIV_ROUND_UP (length data) p \<and> 2 < length rest_data) = True"
        using True idx by simp
      show ?thesis
        unfolding strip_packets.simps [of c _ i "length rest_data"] cond if_True Let_def
          p_def [symmetric] t_def [symmetric] sizes mins load store bind.bind_lunit
        by simp
    qed
    have P: "payload p rest_data = take (p - 2) (drop 2 rest_data) @ payload p (drop p rest_data)"
      using True less.prems(4) by (simp add: payload.simps [of p rest_data])
    consider (full) "t + n = read_count c" | (packet) "t + n < read_count c" "n = p - 2"
      | (short) "t + n < read_count c" "n = length rest_data - 2" "n < p - 2"
      using less.prems(12) n_le(3) by (fastforce simp: n_def t_def min_def split: if_splits)
    then show ?thesis
    proof cases
      case full
      have "read_count c - t \<le> length (payload p rest_data)"
      proof -
        have "n \<le> min (length rest_data - 2) (p - 2)" unfolding n_def by (auto simp: min_def)
        moreover have "n = read_count c - t" using full by simp
        ultimately show ?thesis unfolding P by (auto simp: min_def)
      qed
      moreover have "take n (payload p rest_data) = bs"
        unfolding P bs_def by (simp add: n_def min_def)
      then have "blit R t (payload p rest_data) 0 n = blit R t bs 0 n"
        using lbs by (metis blit_take order_refl)
      moreover have "read_count c - t = n" using full by simp
      ultimately have "min (length (payload p rest_data)) (read_count c - t) = n"
        and b: "blit R t (payload p rest_data) 0 n = blit R t bs 0 n" by simp_all
      then show ?thesis
        unfolding rest_data_def [symmetric] t_def [symmetric] Let_def step
        by (cases res) (simp add: full)
    next
      case short
      then have le: "length (drop 2 rest_data) \<le> p - 2" "length rest_data \<le> p" by simp_all
      have "payload p rest_data = bs"
        unfolding P bs_def using le short(2) by (simp add: payload_short)
      moreover have "strip_packets c (DIV_ROUND_UP (length data) p) (i + 1)
          (length rest_data - (n + 2)) ?res ?m = Some (?res, ?m)"
        by (subst strip_packets.simps) (simp add: short(2))
      ultimately show ?thesis
        using step short lbs by (simp add: Let_def t_def flip: rest_data_def)
    next
      case packet
      define R' where "R' = blit R t bs 0 n"
      have lR': "length R' = length R" using n_le(2) lbs by (simp add: R'_def)
      have next_data: "drop (p * (i + 1)) data = drop p rest_data"
        by (simp add: rest_data_def add.commute)
      have IH: "strip_packets c (DIV_ROUND_UP (length data) p) (i + 1)
          (length (drop (p * (i + 1)) data)) ?res (m(rb \<mapsto> R')) =
        (let P = payload p (drop (p * (i + 1)) data);
             k = min (length P) (read_count c - transferred ?res)
         in Some (?res\<lparr>transferred := transferred ?res + k,
              finished := finished ?res \<or> transferred ?res + k = read_count c\<rparr>,
              m(rb \<mapsto> R', rb \<mapsto> blit R' (transferred ?res) P 0 k)))"
        using less.prems packet lR' il by (intro less.hyps) simp_all
      define Q where "Q = payload p (drop p rest_data)"
      define k where "k = min (length Q) (read_count c - (t + n))"
      have PQ: "payload p rest_data = bs @ Q"
        unfolding P Q_def bs_def packet(2) by simp
      have res: "transferred (res\<lparr>transferred := t + n\<rparr>) = t + n"
        "finished (res\<lparr>transferred := t + n\<rparr>) = finished res" by simp_all
      have IH': "strip_packets c (DIV_ROUND_UP (length data) p) (i + 1)
          (length (drop (p * (i + 1)) data)) ?res (m(rb \<mapsto> R')) =
        Some (?res\<lparr>transferred := t + n + k,
              finished := finished res \<or> t + n + k = read_count c\<rparr>,
              m(rb \<mapsto> R', rb \<mapsto> blit R' (t + n) Q 0 k))"
        using IH unfolding Let_def res next_data Q_def [symmetric] k_def [symmetric] .
      have a: "blit R' (t + n) Q 0 k = blit R t (bs @ Q) 0 (n + k)"
        using blit_append [of t bs k R Q] n_le(2) less.prems(10) packet(1) lbs
        by (simp add: R'_def k_def)
      have b: "min (length (bs @ Q)) (read_count c - t) = n + k"
        using packet(1) lbs by (simp add: k_def)
      have l: "length rest_data - (n + 2) = length (drop (p * (i + 1)) data)"
        using packet(2) less.prems(4) by (simp add: lr)
      have neq: "(t + n = read_count c) = False" using packet(1) by simp
      show ?thesis
        unfolding rest_data_def [symmetric] t_def [symmetric] Let_def step neq if_False PQ b l
          R'_def [symmetric] IH' a [symmetric]
        by (cases res) (simp add: add.assoc)
    qed
  qed
qed

section \<open>The contract of libusb\<close>

text \<open>
  What a flush relies on, over an observer of the library's state: the bytes of the write
  transfer in flight and the length of the read transfer in flight, all the bytes the device
  has accepted, and all the payload bytes it has delivered. A transfer completes at most once,
  with at most the length it was submitted with; a write hands over a prefix of its bytes.
\<close>

record 'u observer =
  out_flight :: "'u \<Rightarrow> u8 list option"
  in_flight :: "'u \<Rightarrow> nat option"
  sent :: "'u \<Rightarrow> u8 list"
  replies :: "'u \<Rightarrow> u8 list"

definition write_events :: "nat option \<Rightarrow> transfer_event list" where
  "write_events wo = (case wo of None \<Rightarrow> [] | Some k \<Rightarrow> [Write_Done k])"

definition read_events :: "u8 list option \<Rightarrow> transfer_event list" where
  "read_events ro = (case ro of None \<Rightarrow> [] | Some raw \<Rightarrow> [Read_Done raw])"

definition write_completes :: "'u observer \<Rightarrow> nat option \<Rightarrow> 'u \<Rightarrow> 'u \<Rightarrow> bool" where
  "write_completes ob wo u u' \<longleftrightarrow>
     (case wo of
        None \<Rightarrow> out_flight ob u' = out_flight ob u \<and> sent ob u' = sent ob u
      | Some k \<Rightarrow> (\<exists>b. out_flight ob u = Some b \<and> k \<le> length b \<and> out_flight ob u' = None \<and>
          sent ob u' = sent ob u @ take k b))"

definition read_completes :: "'u observer \<Rightarrow> nat \<Rightarrow> u8 list option \<Rightarrow> 'u \<Rightarrow> 'u \<Rightarrow> bool" where
  "read_completes ob p ro u u' \<longleftrightarrow>
     (case ro of
        None \<Rightarrow> in_flight ob u' = in_flight ob u \<and> replies ob u' = replies ob u
      | Some raw \<Rightarrow> (\<exists>n. in_flight ob u = Some n \<and> length raw \<le> n \<and> in_flight ob u' = None \<and>
          replies ob u' = replies ob u @ payload p raw))"

definition event_ok ::
    "'u observer \<Rightarrow> nat \<Rightarrow> nat option \<Rightarrow> u8 list option \<Rightarrow> transfer_event list \<Rightarrow> 'u \<Rightarrow> 'u \<Rightarrow> bool" where
  "event_ok ob p wo ro evs u u' \<longleftrightarrow>
     (evs = write_events wo @ read_events ro \<or> evs = read_events ro @ write_events wo) \<and>
     write_completes ob wo u u' \<and> read_completes ob p ro u u'"

definition bulk_ok :: "'u libusb \<Rightarrow> 'u observer \<Rightarrow> nat \<Rightarrow> bool" where
  "bulk_ok L ob p \<longleftrightarrow>
     (\<forall>dev ep bs t u rc u'. submit_write L dev ep bs t u = (rc, u') \<longrightarrow>
        sent ob u' = sent ob u \<and> replies ob u' = replies ob u \<and> in_flight ob u' = in_flight ob u \<and>
        out_flight ob u' = (if rc = LIBUSB_SUCCESS then Some bs else out_flight ob u)) \<and>
     (\<forall>dev ep n t u rc u'. submit_read L dev ep n t u = (rc, u') \<longrightarrow>
        sent ob u' = sent ob u \<and> replies ob u' = replies ob u \<and> out_flight ob u' = out_flight ob u \<and>
        in_flight ob u' = (if rc = LIBUSB_SUCCESS then Some n else in_flight ob u)) \<and>
     (\<forall>u. sent ob (cancel_write L u) = sent ob u \<and> replies ob (cancel_write L u) = replies ob u \<and>
        out_flight ob (cancel_write L u) = out_flight ob u \<and>
        in_flight ob (cancel_write L u) = in_flight ob u) \<and>
     (\<forall>u. sent ob (cancel_read L u) = sent ob u \<and> replies ob (cancel_read L u) = replies ob u \<and>
        out_flight ob (cancel_read L u) = out_flight ob u \<and>
        in_flight ob (cancel_read L u) = in_flight ob u) \<and>
     (\<forall>c u rc evs u'. handle_events L c u = (rc, evs, u') \<longrightarrow> (\<exists>wo ro. event_ok ob p wo ro evs u u'))"

text \<open>
  A prompt device, for liveness: submissions succeed and each call completes every transfer in
  flight, with at least one byte written and at least one byte of payload read.
\<close>

definition prompt :: "'u libusb \<Rightarrow> 'u observer \<Rightarrow> nat \<Rightarrow> bool" where
  "prompt L ob p \<longleftrightarrow> bulk_ok L ob p \<and>
     (\<forall>dev ep bs t u. fst (submit_write L dev ep bs t u) = LIBUSB_SUCCESS) \<and>
     (\<forall>dev ep n t u. fst (submit_read L dev ep n t u) = LIBUSB_SUCCESS) \<and>
     (\<forall>c u rc evs u'. handle_events L c u = (rc, evs, u') \<longrightarrow> rc = LIBUSB_SUCCESS \<and>
        (\<forall>b. out_flight ob u = Some b \<and> b \<noteq> [] \<longrightarrow> (\<exists>k > 0. Write_Done k \<in> set evs)) \<and>
        (\<forall>n. in_flight ob u = Some n \<and> 2 < n \<longrightarrow> (\<exists>raw. 2 < length raw \<and> Read_Done raw \<in> set evs)))"

definition idle :: "'u observer \<Rightarrow> 'u \<Rightarrow> bool" where
  "idle ob u \<longleftrightarrow> out_flight ob u = None \<and> in_flight ob u = None"

section \<open>What changes while polling\<close>

definition shape :: "nat \<Rightarrow> nat \<Rightarrow> nat \<Rightarrow> 'u mpsse \<Rightarrow> bool" where
  "shape wb rb cb s \<longleftrightarrow>
     write_buffer (ctx s) = Ptr wb 0 \<and> read_buffer (ctx s) = Ptr rb 0 \<and>
     read_chunk (ctx s) = Ptr cb 0 \<and> distinct [wb, rb, cb] \<and>
     sized (memory s) wb (write_size (ctx s)) \<and> sized (memory s) rb (read_size (ctx s)) \<and>
     sized (memory s) cb (read_chunk_size (ctx s)) \<and> write_size (ctx s) < 2 ^ 28 \<and>
     read_size (ctx s) < 2 ^ 28 \<and> read_chunk_size (ctx s) < 2 ^ 28 \<and>
     2 < unat (max_packet_size (ctx s)) \<and> write_count (ctx s) \<le> write_size (ctx s) \<and>
     read_count (ctx s) \<le> read_size (ctx s)"

definition polled :: "nat \<Rightarrow> nat \<Rightarrow> 'u mpsse \<Rightarrow> 'u mpsse \<Rightarrow> bool" where
  "polled rb cb s s' \<longleftrightarrow> ctx s' = ctx s \<and> queue s' = queue s \<and>
     (\<forall>c. c \<noteq> rb \<longrightarrow> c \<noteq> cb \<longrightarrow> memory s' c = memory s c) \<and>
     (\<forall>n. sized (memory s) rb n \<longrightarrow> sized (memory s') rb n) \<and>
     (\<forall>n. sized (memory s) cb n \<longrightarrow> sized (memory s') cb n)"

lemma shape_of_minv: "minv wb rb cb es s \<Longrightarrow> shape wb rb cb s"
  by (simp add: minv_def shape_def)

lemma polled_refl [simp]: "polled rb cb s s"
  by (simp add: polled_def)

lemma polled_trans: "polled rb cb s s' \<Longrightarrow> polled rb cb s' s'' \<Longrightarrow> polled rb cb s s''"
  by (simp add: polled_def)

lemma polled_device [simp]: "polled rb cb s (s'\<lparr>device := u\<rparr>) = polled rb cb s s'"
  by (simp add: polled_def)

lemma polled_device_left [simp]: "polled rb cb (s\<lparr>device := u\<rparr>) s' = polled rb cb s s'"
  by (simp add: polled_def)

lemma shape_polled:
  assumes "shape wb rb cb s" and "polled rb cb s s'"
  shows "shape wb rb cb s'"
  using assms by (auto simp: shape_def polled_def sized_def)

lemma shape_device [simp]: "shape wb rb cb (s\<lparr>device := u\<rparr>) = shape wb rb cb s"
  by (simp add: shape_def)

lemma pending_polled: "shape wb rb cb s \<Longrightarrow> polled rb cb s s' \<Longrightarrow> pending wb s' = pending wb s"
  by (auto simp: pending_def polled_def shape_def)

text \<open>The progress of the two transfers since the state \<open>s0\<close> in which they were submitted.\<close>

definition wpart :: "'u observer \<Rightarrow> nat \<Rightarrow> 'u mpsse \<Rightarrow> transfer_result \<Rightarrow> 'u \<Rightarrow> bool" where
  "wpart ob wb s0 w u \<longleftrightarrow> transferred w \<le> write_count (ctx s0) \<and>
     sent ob u = sent ob (device s0) @ take (transferred w) (pending wb s0) \<and>
     out_flight ob u = (if finished w then None else Some (drop (transferred w) (pending wb s0))) \<and>
     (\<not> finished w \<longrightarrow> transferred w < write_count (ctx s0))"

definition rpart ::
    "'u observer \<Rightarrow> nat \<Rightarrow> 'u mpsse \<Rightarrow> transfer_result \<Rightarrow> u8 list \<Rightarrow> mem \<Rightarrow> bool" where
  "rpart ob rb s0 r X m \<longleftrightarrow> (\<exists>R. m rb = Some R \<and>
     transferred r = min (length X) (read_count (ctx s0)) \<and>
     take (transferred r) R = take (transferred r) X)"

definition rflight :: "'u observer \<Rightarrow> 'u mpsse \<Rightarrow> transfer_result \<Rightarrow> u8 list \<Rightarrow> 'u \<Rightarrow> bool" where
  "rflight ob s0 r X u \<longleftrightarrow> replies ob u = replies ob (device s0) @ X \<and>
     in_flight ob u = (if finished r then None else Some (read_chunk_size (ctx s0))) \<and>
     (\<not> finished r \<longrightarrow> transferred r < read_count (ctx s0))"

definition submits :: "'u libusb \<Rightarrow> bool" where
  "submits L \<longleftrightarrow> (\<forall>dev ep bs t u. fst (submit_write L dev ep bs t u) = LIBUSB_SUCCESS) \<and>
     (\<forall>dev ep n t u. fst (submit_read L dev ep n t u) = LIBUSB_SUCCESS)"

lemma bulk_submit_write:
  assumes "bulk_ok L ob p" and "submit_write L dev ep bs t u = (rc, u')"
  shows "sent ob u' = sent ob u" "replies ob u' = replies ob u" "in_flight ob u' = in_flight ob u"
    "out_flight ob u' = (if rc = LIBUSB_SUCCESS then Some bs else out_flight ob u)"
  using assms(1) [unfolded bulk_ok_def, THEN conjunct1, rule_format, OF assms(2)] by simp_all

lemma bulk_submit_read:
  assumes "bulk_ok L ob p" and "submit_read L dev ep n t u = (rc, u')"
  shows "sent ob u' = sent ob u" "replies ob u' = replies ob u" "out_flight ob u' = out_flight ob u"
    "in_flight ob u' = (if rc = LIBUSB_SUCCESS then Some n else in_flight ob u)"
  using assms(1) [unfolded bulk_ok_def, THEN conjunct2, THEN conjunct1, rule_format, OF assms(2)]
  by simp_all

lemma write_cb_law:
  assumes L: "bulk_ok L ob p" and sh: "shape wb rb cb s0" and po: "polled rb cb s0 s"
    and w: "\<not> finished w" "transferred w + k \<le> write_count (ctx s0)"
    and u: "sent ob (device s) = sent ob (device s0) @ take (transferred w + k) (pending wb s0)"
      "out_flight ob (device s) = None"
  shows "\<exists>w' u. write_cb L k w s = Some (w', s\<lparr>device := u\<rparr>) \<and> wpart ob wb s0 w' u \<and>
    in_flight ob u = in_flight ob (device s) \<and> replies ob u = replies ob (device s) \<and>
    transferred w' = transferred w + k \<and>
    (submits L \<longrightarrow> finished w' \<longrightarrow> transferred w' = write_count (ctx s0))"
proof -
  let ?c = "ctx s" and ?t = "transferred w + k"
  have sh': "shape wb rb cb s" by (rule shape_polled [OF sh po])
  then obtain W where W: "memory s wb = Some W" "length W = write_size ?c"
    by (auto simp: shape_def sized_def)
  have c: "?c = ctx s0" using po by (simp add: polled_def)
  have pend: "pending wb s0 = take (write_count ?c) W"
    using pending_polled [OF sh po] W(1) by (simp add: pending_def)
  have lim: "write_count ?c \<le> length W" "write_count ?c < 2 ^ 28" "write_buffer ?c = Ptr wb 0"
    using sh' W(2) by (auto simp: shape_def)
  have sz: "u32_add (transferred w) k = ?t" "u32_sub (write_count ?c) ?t = write_count ?c - ?t"
    using w(2) lim(2) c by simp_all
  show ?thesis
  proof (cases "?t = write_count ?c")
    case True
    then show ?thesis
      using u c by (intro exI [of _ "w\<lparr>transferred := ?t, finished := True\<rparr>"] exI [of _ "device s"])
        (simp add: write_cb_def sz Let_def wpart_def)
  next
    case False
    let ?bs = "take (write_count ?c - ?t) (drop ?t W)"
    have load: "load_bytes (memory s) (ptr_add (write_buffer ?c) ?t) (write_count ?c - ?t) = Some ?bs"
      using W lim w(2) c by simp
    have bs: "?bs = drop ?t (pending wb s0)"
      by (simp add: pend drop_take)
    obtain rc u' where sub: "submit_write L (usb_dev ?c) (out_ep ?c) ?bs (usb_write_timeout ?c)
        (device s) = (rc, u')" by force
    note o = bulk_submit_write [OF L sub]
    let ?w = "if rc \<noteq> LIBUSB_SUCCESS then w\<lparr>transferred := ?t, finished := True\<rparr>
      else w\<lparr>transferred := ?t\<rparr>"
    have "write_cb L k w s = Some (?w, s\<lparr>device := u'\<rparr>)"
      using False load sub by (simp add: write_cb_def sz Let_def)
    moreover have "wpart ob wb s0 ?w u'"
      using o u w False c bs by (simp add: wpart_def)
    moreover have "submits L \<longrightarrow> rc = LIBUSB_SUCCESS"
      using sub unfolding submits_def by (metis fst_conv)
    ultimately show ?thesis
      using o(2,3) w(1) by (intro exI [of _ ?w] exI [of _ u']) auto
  qed
qed

lemma read_cb_law:
  assumes L: "bulk_ok L ob p" and sh: "shape wb rb cb s0" and po: "polled rb cb s0 s"
    and p: "p = unat (max_packet_size (ctx s0))"
    and r: "\<not> finished r" "transferred r < read_count (ctx s0)" "rpart ob rb s0 r X (memory s)"
    and raw: "length raw \<le> read_chunk_size (ctx s0)"
    and u: "replies ob (device s) = replies ob (device s0) @ X @ payload p raw"
      "in_flight ob (device s) = None"
  shows "\<exists>r' s'. read_cb L raw r s = Some (r', s') \<and> polled rb cb s0 s' \<and>
    rpart ob rb s0 r' (X @ payload p raw) (memory s') \<and>
    rflight ob s0 r' (X @ payload p raw) (device s') \<and>
    out_flight ob (device s') = out_flight ob (device s) \<and> sent ob (device s') = sent ob (device s) \<and>
    (submits L \<longrightarrow> finished r' \<longrightarrow> transferred r' = read_count (ctx s0))"
proof -
  let ?c = "ctx s"
  define Q k where "Q = payload p raw" and "k = min (length Q) (read_count ?c - transferred r)"
  have sh': "shape wb rb cb s" by (rule shape_polled [OF sh po])
  have c: "?c = ctx s0" using po by (simp add: polled_def)
  from sh' obtain C where C: "memory s cb = Some C" "length C = read_chunk_size ?c"
    by (auto simp: shape_def sized_def)
  from r(3) obtain R where R: "memory s rb = Some R"
      "transferred r = min (length X) (read_count ?c)" "take (transferred r) R = take (transferred r) X"
    by (auto simp: rpart_def c)
  have lR: "length R = read_size ?c" using sh' R(1) by (auto simp: shape_def sized_def)
  have sz: "read_count ?c \<le> length R" "length R < 2 ^ 28" "length raw < 2 ^ 28" "2 < p"
    "rb \<noteq> cb" "read_buffer ?c = Ptr rb 0" "read_chunk ?c = Ptr cb 0" "wb \<noteq> rb" "wb \<noteq> cb"
    using sh' lR raw p c by (auto simp: shape_def)
  define C' where "C' = blit C 0 raw 0 (length raw)"
  have C': "length C' = length C" "take (length raw) C' = raw"
    using raw C(2) c by (simp_all add: C'_def blit_def)
  define m1 where "m1 = (memory s)(cb \<mapsto> C')"
  define R' where "R' = blit R (transferred r) Q 0 k"
  define r1 where "r1 = r\<lparr>transferred := transferred r + k,
    finished := (transferred r + k = read_count ?c)\<rparr>"
  define s1 where "s1 = s\<lparr>memory := m1(rb \<mapsto> R')\<rparr>"
  have store: "store_bytes (memory s) (read_chunk ?c) raw = Some m1"
    using C raw sz c by (simp add: m1_def C'_def)
  have strip: "strip_packets ?c (DIV_ROUND_UP (length raw) p) 0 (length raw) r m1 =
      Some (r1, m1(rb \<mapsto> R'))"
    using strip_packets_known [of ?c cb rb m1 C' raw R r 0] sz C C' r(1,2) R(1) raw p
    by (simp add: m1_def Let_def r1_def R'_def c Q_def k_def)
  have t: "transferred r = length X" using R(2) r(2) c by simp
  have lR': "length R' = length R"
    using r(2) sz(1) c by (simp add: R'_def k_def)
  have part: "rpart ob rb s0 r1 (X @ Q) (memory s1)"
  proof -
    have "transferred r1 = min (length (X @ Q)) (read_count ?c)"
      using r(2) t c by (auto simp: r1_def k_def min_def)
    moreover have "take (transferred r1) R' = take (transferred r1) (X @ Q)"
      using R(3) r(2) t c sz(1) by (simp add: R'_def r1_def blit_def k_def)
    ultimately show ?thesis by (simp add: rpart_def c s1_def)
  qed
  have pol: "polled rb cb s0 s1"
    using po C C'(1) R(1) lR' sz(5) by (auto simp: polled_def s1_def m1_def sized_def)
  have pp: "unat (max_packet_size ?c) = p" by (simp add: p c)
  have cb: "read_cb L raw r s = (if \<not> finished r1 then do {
          let (rc, u) = submit_read L (usb_dev ?c) (in_ep ?c) (read_chunk_size ?c)
                (usb_read_timeout ?c) (device s);
          Some (if rc \<noteq> LIBUSB_SUCCESS then r1\<lparr>finished := True\<rparr> else r1, s1\<lparr>device := u\<rparr>)
        } else Some (r1, s1))"
    using sz(4) unfolding read_cb_def Let_def pp store bind.bind_lunit strip
    by (simp add: s1_def)
  show ?thesis
  proof (cases "finished r1")
    case True
    then have "transferred r1 = read_count (ctx s0)" by (simp add: r1_def c)
    with True part pol u show ?thesis
      by (intro exI [of _ r1] exI [of _ s1]) (simp add: cb rflight_def Q_def s1_def)
  next
    case False
    obtain rc u' where sub: "submit_read L (usb_dev ?c) (in_ep ?c) (read_chunk_size ?c)
        (usb_read_timeout ?c) (device s) = (rc, u')" by force
    note o = bulk_submit_read [OF L sub]
    let ?r = "if rc \<noteq> LIBUSB_SUCCESS then r1\<lparr>finished := True\<rparr> else r1"
    have "read_cb L raw r s = Some (?r, s1\<lparr>device := u'\<rparr>)"
      using False sub by (simp add: cb)
    moreover have "transferred r1 < read_count (ctx s0)"
      using False r(2) by (simp add: r1_def k_def c)
    then have "rflight ob s0 ?r (X @ Q) u'"
      using o u False by (simp add: rflight_def Q_def c)
    moreover have "submits L \<longrightarrow> rc = LIBUSB_SUCCESS"
      using sub unfolding submits_def by (metis fst_conv)
    moreover have "rpart ob rb s0 ?r (X @ Q) (memory s1)"
      using part by (simp add: rpart_def)
    ultimately show ?thesis
      using o(1,3) False pol
      by (intro exI [of _ ?r] exI [of _ "s1\<lparr>device := u'\<rparr>"]) (auto simp: Q_def s1_def)
  qed
qed

section \<open>One call of handle_events\<close>

definition wfull :: "'u mpsse \<Rightarrow> transfer_result \<Rightarrow> bool" where
  "wfull s0 w \<longleftrightarrow> (finished w \<longrightarrow> transferred w = write_count (ctx s0))"

definition rfull :: "'u mpsse \<Rightarrow> transfer_result \<Rightarrow> bool" where
  "rfull s0 r \<longleftrightarrow> (finished r \<longrightarrow> transferred r = read_count (ctx s0))"

lemma run_write_events:
  assumes L: "bulk_ok L ob p" and sh: "shape wb rb cb s0" and po: "polled rb cb s0 s"
    and w: "wpart ob wb s0 w u0" and ev: "write_completes ob wo u0 u1"
    and same: "out_flight ob (device s) = out_flight ob u1" "sent ob (device s) = sent ob u1"
  shows "\<exists>w' u'. run_callbacks L (write_events wo @ es) w r s =
      run_callbacks L es w' r (s\<lparr>device := u'\<rparr>) \<and> wpart ob wb s0 w' u' \<and>
    in_flight ob u' = in_flight ob (device s) \<and> replies ob u' = replies ob (device s) \<and>
    transferred w' = transferred w + (case wo of None \<Rightarrow> 0 | Some k \<Rightarrow> k) \<and>
    (submits L \<longrightarrow> wfull s0 w \<longrightarrow> wfull s0 w')"
proof (cases wo)
  case None
  with ev same w show ?thesis
    by (intro exI [of _ w] exI [of _ "device s"])
      (simp add: write_events_def write_completes_def wpart_def)
next
  case (Some k)
  obtain W where W: "memory s0 wb = Some W" "length W = write_size (ctx s0)"
      "write_count (ctx s0) \<le> write_size (ctx s0)"
    using sh by (auto simp: shape_def sized_def)
  have lp: "length (pending wb s0) = write_count (ctx s0)" using W by (simp add: pending_def)
  from ev Some obtain b where b: "out_flight ob u0 = Some b" "k \<le> length b"
      "out_flight ob u1 = None" "sent ob u1 = sent ob u0 @ take k b"
    by (auto simp: write_completes_def)
  have nf: "\<not> finished w" using b(1) w by (auto simp: wpart_def split: if_splits)
  then have bw: "b = drop (transferred w) (pending wb s0)" using b(1) w by (simp add: wpart_def)
  have le: "transferred w + k \<le> write_count (ctx s0)"
    using b(2) bw lp w by (auto simp: wpart_def)
  have "sent ob (device s) = sent ob (device s0) @ take (transferred w + k) (pending wb s0)"
    using b(4) bw w same(2) by (simp add: wpart_def take_add)
  then obtain w' u where "write_cb L k w s = Some (w', s\<lparr>device := u\<rparr>)" "wpart ob wb s0 w' u"
    "in_flight ob u = in_flight ob (device s)" "replies ob u = replies ob (device s)"
    "transferred w' = transferred w + k"
    "submits L \<longrightarrow> finished w' \<longrightarrow> transferred w' = write_count (ctx s0)"
    using write_cb_law [OF L sh po nf le] b(3) same(1) by auto
  then show ?thesis
    using Some by (intro exI [of _ w'] exI [of _ u]) (simp add: write_events_def wfull_def)
qed

lemma run_read_events:
  assumes L: "bulk_ok L ob p" and sh: "shape wb rb cb s0" and po: "polled rb cb s0 s"
    and p: "p = unat (max_packet_size (ctx s0))"
    and r: "rpart ob rb s0 r X (memory s)" "rflight ob s0 r X u0"
    and ev: "read_completes ob p ro u0 u1"
    and same: "in_flight ob (device s) = in_flight ob u1" "replies ob (device s) = replies ob u1"
  shows "\<exists>r' s' X'. run_callbacks L (read_events ro @ es) w r s = run_callbacks L es w r' s' \<and>
    polled rb cb s0 s' \<and> rpart ob rb s0 r' X' (memory s') \<and> rflight ob s0 r' X' (device s') \<and>
    out_flight ob (device s') = out_flight ob (device s) \<and> sent ob (device s') = sent ob (device s) \<and>
    transferred r \<le> transferred r' \<and>
    (\<forall>raw. ro = Some raw \<longrightarrow> 2 < length raw \<longrightarrow> transferred r < transferred r') \<and>
    (submits L \<longrightarrow> rfull s0 r \<longrightarrow> rfull s0 r')"
proof (cases ro)
  case None
  with ev same r po show ?thesis
    by (intro exI [of _ r] exI [of _ s] exI [of _ X])
      (simp add: read_events_def read_completes_def rflight_def)
next
  case (Some raw)
  from ev Some obtain n where n: "in_flight ob u0 = Some n" "length raw \<le> n"
      "in_flight ob u1 = None" "replies ob u1 = replies ob u0 @ payload p raw"
    by (auto simp: read_completes_def)
  have nf: "\<not> finished r" and nn: "n = read_chunk_size (ctx s0)"
    using n(1) r(2) by (auto simp: rflight_def split: if_splits)
  then have lt: "transferred r < read_count (ctx s0)" using r(2) by (simp add: rflight_def)
  have "replies ob (device s) = replies ob (device s0) @ X @ payload p raw"
    using n(4) r(2) same(2) by (simp add: rflight_def)
  then obtain r' s' where cb: "read_cb L raw r s = Some (r', s')" "polled rb cb s0 s'"
    "rpart ob rb s0 r' (X @ payload p raw) (memory s')"
    "rflight ob s0 r' (X @ payload p raw) (device s')"
    "out_flight ob (device s') = out_flight ob (device s)" "sent ob (device s') = sent ob (device s)"
    "submits L \<longrightarrow> finished r' \<longrightarrow> transferred r' = read_count (ctx s0)"
    using read_cb_law [OF L sh po p nf lt r(1), of raw] n(2,3) nn same(1) by auto
  have t: "transferred r = min (length X) (read_count (ctx s0))"
    "transferred r' = min (length X + length (payload p raw)) (read_count (ctx s0))"
    using r(1) cb(3) by (auto simp: rpart_def)
  then have "transferred r \<le> transferred r'" by simp
  moreover have "transferred r < transferred r'" if "2 < length raw"
  proof -
    have "payload p raw \<noteq> []" using that sh p by (intro payload_nonempty) (auto simp: shape_def)
    then have "0 < length (payload p raw)" by simp
    with t lt show ?thesis by linarith
  qed
  ultimately show ?thesis
    using cb Some
    by (intro exI [of _ r'] exI [of _ s'] exI [of _ "X @ payload p raw"])
      (simp add: read_events_def rfull_def)
qed

text \<open>The invariant of the polling loop.\<close>

definition pinv ::
    "'u observer \<Rightarrow> nat \<Rightarrow> nat \<Rightarrow> nat \<Rightarrow> 'u mpsse \<Rightarrow> transfer_result \<Rightarrow> transfer_result \<Rightarrow> 'u mpsse \<Rightarrow> bool"
where
  "pinv ob wb rb cb s0 w r s \<longleftrightarrow> polled rb cb s0 s \<and> wpart ob wb s0 w (device s) \<and>
     (\<exists>X. rpart ob rb s0 r X (memory s) \<and> rflight ob s0 r X (device s))"

lemma poll_step_law:
  assumes L: "bulk_ok L ob p" and sh: "shape wb rb cb s0" and p: "p = unat (max_packet_size (ctx s0))"
    and inv: "pinv ob wb rb cb s0 w r s"
    and ev: "handle_events L (usb_ctx (ctx s)) (device s) = (rc, evs, u)"
  shows "\<exists>w' r' s'. poll_step L w r s = Some (rc, w', r', s') \<and> pinv ob wb rb cb s0 w' r' s' \<and>
    transferred w \<le> transferred w' \<and> transferred r \<le> transferred r' \<and>
    ((\<exists>k > 0. Write_Done k \<in> set evs) \<longrightarrow> transferred w < transferred w') \<and>
    ((\<exists>raw. 2 < length raw \<and> Read_Done raw \<in> set evs) \<longrightarrow> transferred r < transferred r') \<and>
    (submits L \<longrightarrow> wfull s0 w \<and> rfull s0 r \<longrightarrow> wfull s0 w' \<and> rfull s0 r')"
proof -
  from inv obtain X where po: "polled rb cb s0 s" and w: "wpart ob wb s0 w (device s)"
    and r: "rpart ob rb s0 r X (memory s)" "rflight ob s0 r X (device s)"
    by (auto simp: pinv_def)
  obtain wo ro where e: "evs = write_events wo @ read_events ro \<or> evs = read_events ro @ write_events wo"
    and we: "write_completes ob wo (device s) u" and re: "read_completes ob p ro (device s) u"
    using L ev unfolding bulk_ok_def event_ok_def by meson
  have mem: "Write_Done k \<in> set evs \<longleftrightarrow> wo = Some k" "Read_Done raw \<in> set evs \<longleftrightarrow> ro = Some raw"
    for k raw
    using e by (auto simp: write_events_def read_events_def split: option.splits)
  let ?s = "s\<lparr>device := u\<rparr>"
  have "\<exists>w' r' s'. run_callbacks L evs w r ?s = Some (w', r', s') \<and> pinv ob wb rb cb s0 w' r' s' \<and>
    transferred w' = transferred w + (case wo of None \<Rightarrow> 0 | Some k \<Rightarrow> k) \<and>
    transferred r \<le> transferred r' \<and>
    (\<forall>raw. ro = Some raw \<longrightarrow> 2 < length raw \<longrightarrow> transferred r < transferred r') \<and>
    (submits L \<longrightarrow> wfull s0 w \<and> rfull s0 r \<longrightarrow> wfull s0 w' \<and> rfull s0 r')"
    using e
  proof
    assume evs: "evs = write_events wo @ read_events ro"
    obtain w' u1 where 1: "run_callbacks L evs w r ?s = run_callbacks L (read_events ro) w' r (?s\<lparr>device := u1\<rparr>)"
      "wpart ob wb s0 w' u1" "in_flight ob u1 = in_flight ob u" "replies ob u1 = replies ob u"
      "transferred w' = transferred w + (case wo of None \<Rightarrow> 0 | Some k \<Rightarrow> k)"
      "submits L \<longrightarrow> wfull s0 w \<longrightarrow> wfull s0 w'"
      using run_write_events [OF L sh _ w we, of ?s "read_events ro" r] po evs by auto
    obtain r' s' X' where 2: "run_callbacks L (read_events ro) w' r (s\<lparr>device := u1\<rparr>) =
        run_callbacks L [] w' r' s'" "polled rb cb s0 s'" "rpart ob rb s0 r' X' (memory s')"
      "rflight ob s0 r' X' (device s')" "out_flight ob (device s') = out_flight ob u1"
      "sent ob (device s') = sent ob u1" "transferred r \<le> transferred r'"
      "\<forall>raw. ro = Some raw \<longrightarrow> 2 < length raw \<longrightarrow> transferred r < transferred r'"
      "submits L \<longrightarrow> rfull s0 r \<longrightarrow> rfull s0 r'"
      using run_read_events [OF L sh _ p _ r(2) re, of "s\<lparr>device := u1\<rparr>" "[]" w'] po r(1) 1(3,4)
      by auto
    have "wpart ob wb s0 w' (device s')" using 1(2) 2(5,6) by (simp add: wpart_def)
    with 1 2 show ?thesis by (intro exI [of _ w'] exI [of _ r'] exI [of _ s']) (auto simp: pinv_def)
  next
    assume evs: "evs = read_events ro @ write_events wo"
    obtain r' s' X' where 2: "run_callbacks L evs w r ?s = run_callbacks L (write_events wo) w r' s'"
      "polled rb cb s0 s'" "rpart ob rb s0 r' X' (memory s')"
      "rflight ob s0 r' X' (device s')" "out_flight ob (device s') = out_flight ob u"
      "sent ob (device s') = sent ob u" "transferred r \<le> transferred r'"
      "\<forall>raw. ro = Some raw \<longrightarrow> 2 < length raw \<longrightarrow> transferred r < transferred r'"
      "submits L \<longrightarrow> rfull s0 r \<longrightarrow> rfull s0 r'"
      using run_read_events [OF L sh _ p _ r(2) re, of ?s "write_events wo" w] po r(1) evs
      by auto
    obtain w' u1 where 1: "run_callbacks L (write_events wo) w r' s' =
        run_callbacks L [] w' r' (s'\<lparr>device := u1\<rparr>)"
      "wpart ob wb s0 w' u1" "in_flight ob u1 = in_flight ob (device s')"
      "replies ob u1 = replies ob (device s')"
      "transferred w' = transferred w + (case wo of None \<Rightarrow> 0 | Some k \<Rightarrow> k)"
      "submits L \<longrightarrow> wfull s0 w \<longrightarrow> wfull s0 w'"
      using run_write_events [OF L sh 2(2) w we, of "[]" r'] 2(5,6) by auto
    have "rflight ob s0 r' X' u1" using 1(3,4) 2(4) by (simp add: rflight_def)
    with 1 2 show ?thesis
      by (intro exI [of _ w'] exI [of _ r'] exI [of _ "s'\<lparr>device := u1\<rparr>"]) (auto simp: pinv_def)
  qed
  then obtain w' r' s' where "run_callbacks L evs w r ?s = Some (w', r', s')"
    "pinv ob wb rb cb s0 w' r' s'"
    "transferred w' = transferred w + (case wo of None \<Rightarrow> 0 | Some k \<Rightarrow> k)"
    "transferred r \<le> transferred r'"
    "\<forall>raw. ro = Some raw \<longrightarrow> 2 < length raw \<longrightarrow> transferred r < transferred r'"
    "submits L \<longrightarrow> wfull s0 w \<and> rfull s0 r \<longrightarrow> wfull s0 w' \<and> rfull s0 r'"
    by blast
  then show ?thesis
    unfolding mem using ev
    by (intro exI [of _ w'] exI [of _ r'] exI [of _ s']) (auto simp: poll_step_def)
qed

section \<open>The polling loop\<close>

lemma poll_step_some:
  assumes L: "bulk_ok L ob p" and sh: "shape wb rb cb s0" and p: "p = unat (max_packet_size (ctx s0))"
    and inv: "pinv ob wb rb cb s0 w r s" and step: "poll_step L w r s = Some (rc, w', r', s')"
  shows "pinv ob wb rb cb s0 w' r' s'"
proof -
  obtain rc0 evs u where ev: "handle_events L (usb_ctx (ctx s)) (device s) = (rc0, evs, u)"
    by (cases "handle_events L (usb_ctx (ctx s)) (device s)") auto
  from poll_step_law [OF L sh p inv ev] step show ?thesis by auto
qed

lemma pinv_cancel:
  assumes "bulk_ok L ob p" and "pinv ob wb rb cb s0 w r s"
  shows "pinv ob wb rb cb s0 w r (s\<lparr>device := cancel_write L (device s)\<rparr>)"
    and "pinv ob wb rb cb s0 w r (s\<lparr>device := cancel_read L (cancel_write L (device s))\<rparr>)"
  using assms by (auto simp: pinv_def bulk_ok_def wpart_def rflight_def)

lemma cancel_loop_inv:
  assumes L: "bulk_ok L ob p" and sh: "shape wb rb cb s0" and p: "p = unat (max_packet_size (ctx s0))"
    and "cancel_loop L rc w r s = Some y" and "pinv ob wb rb cb s0 w r s"
  shows "case y of (rc', w', r', s') \<Rightarrow> pinv ob wb rb cb s0 w' r' s'"
proof -
  have "L = L \<longrightarrow> pinv ob wb rb cb s0 w r s \<longrightarrow> (case y of (rc', w', r', s') \<Rightarrow> pinv ob wb rb cb s0 w' r' s')"
  proof (rule cancel_loop.raw_induct [where P = "\<lambda>L0 rc w r s y. L0 = L \<longrightarrow>
      pinv ob wb rb cb s0 w r s \<longrightarrow> (case y of (rc', w', r', s') \<Rightarrow> pinv ob wb rb cb s0 w' r' s')",
      OF _ assms(4)])
    fix f L0 rc w r s y
    assume IH: "\<And>L0 rc w r s y. f L0 rc w r s = Some y \<Longrightarrow> L0 = L \<longrightarrow> pinv ob wb rb cb s0 w r s \<longrightarrow>
        (case y of (rc', w', r', s') \<Rightarrow> pinv ob wb rb cb s0 w' r' s')"
      and body: "(if \<not> finished w \<or> \<not> finished r then do {
          (rc, w, r, s) \<leftarrow> poll_step L0 w r s;
          if rc \<noteq> LIBUSB_SUCCESS then Some (rc, w, r, s) else f L0 rc w r s
        } else Some (rc, w, r, s)) = Some y"
    show "L0 = L \<longrightarrow> pinv ob wb rb cb s0 w r s \<longrightarrow>
        (case y of (rc', w', r', s') \<Rightarrow> pinv ob wb rb cb s0 w' r' s')"
    proof (intro impI)
      assume "L0 = L" and inv: "pinv ob wb rb cb s0 w r s"
      show "case y of (rc', w', r', s') \<Rightarrow> pinv ob wb rb cb s0 w' r' s'"
      proof (cases "finished w \<and> finished r")
        case True
        with body inv show ?thesis by auto
      next
        case False
        with body \<open>L0 = L\<close> obtain rc1 w1 r1 s1 where st: "poll_step L w r s = Some (rc1, w1, r1, s1)"
          and more: "(if rc1 \<noteq> LIBUSB_SUCCESS then Some (rc1, w1, r1, s1) else f L rc1 w1 r1 s1) = Some y"
          by (auto split: bind_splits)
        show ?thesis
          using poll_step_some [OF L sh p inv st] more IH by (auto split: if_splits)
      qed
    qed
  qed
  then show ?thesis using assms(5) by simp
qed

lemma poll_loop_inv:
  fixes P :: "int \<times> transfer_result \<times> transfer_result \<times> 'u mpsse \<Rightarrow> bool"
  assumes L: "bulk_ok L ob p" and sh: "shape wb rb cb s0" and p: "p = unat (max_packet_size (ctx s0))"
    and "poll_loop L rc w r s = Some y" and "pinv ob wb rb cb s0 w r s"
  defines "P \<equiv> \<lambda>(rc', w', r', s'). pinv ob wb rb cb s0 w' r' s' \<and>
      (rc' = LIBUSB_SUCCESS \<longrightarrow> finished w' \<and> finished r')"
  shows "P y"
proof -
  have "L = L \<longrightarrow> pinv ob wb rb cb s0 w r s \<longrightarrow> P y"
  proof (rule poll_loop.raw_induct [where P = "\<lambda>L0 rc w r s y. L0 = L \<longrightarrow>
      pinv ob wb rb cb s0 w r s \<longrightarrow> P y", OF _ assms(4)])
    fix f L0 rc w r s y
    assume IH: "\<And>L0 rc w r s y. f L0 rc w r s = Some y \<Longrightarrow> L0 = L \<longrightarrow> pinv ob wb rb cb s0 w r s \<longrightarrow> P y"
      and body: "(if \<not> finished w \<or> \<not> finished r then do {
          (rc, w, r, s) \<leftarrow> poll_step L0 w r s;
          if rc = LIBUSB_ERROR_NO_DEVICE \<or> rc = LIBUSB_ERROR_INTERRUPTED then Some (rc, w, r, s)
          else if rc \<noteq> LIBUSB_SUCCESS then do {
            let u = cancel_write L0 (device s);
            let u = (if read_count (ctx s) > 0 then cancel_read L0 u else u);
            (rc, w, r, s) \<leftarrow> cancel_loop L0 rc w r (s\<lparr>device := u\<rparr>);
            f L0 rc w r s
          }
          else f L0 rc w r s
        } else Some (rc, w, r, s)) = Some y"
    show "L0 = L \<longrightarrow> pinv ob wb rb cb s0 w r s \<longrightarrow> P y"
    proof (intro impI)
      assume "L0 = L" and inv: "pinv ob wb rb cb s0 w r s"
      show "P y"
      proof (cases "finished w \<and> finished r")
        case True
        with body inv show ?thesis by (auto simp: P_def)
      next
        case False
        with body \<open>L0 = L\<close> obtain rc1 w1 r1 s1 where st: "poll_step L w r s = Some (rc1, w1, r1, s1)"
          by (auto split: bind_splits)
        note inv1 = poll_step_some [OF L sh p inv st]
        define u where "u = (if read_count (ctx s1) > 0 then cancel_read L (cancel_write L (device s1))
          else cancel_write L (device s1))"
        have inv2: "pinv ob wb rb cb s0 w1 r1 (s1\<lparr>device := u\<rparr>)"
          using pinv_cancel [OF L inv1] by (simp add: u_def)
        have more: "(if rc1 = LIBUSB_ERROR_NO_DEVICE \<or> rc1 = LIBUSB_ERROR_INTERRUPTED
            then Some (rc1, w1, r1, s1)
            else if rc1 \<noteq> LIBUSB_SUCCESS then do {
              (rc, w, r, s) \<leftarrow> cancel_loop L rc1 w1 r1 (s1\<lparr>device := u\<rparr>);
              f L rc w r s
            } else f L rc1 w1 r1 s1) = Some y"
          using body False unfolding \<open>L0 = L\<close> st u_def Let_def by (simp cong: if_cong)
        consider "rc1 = LIBUSB_SUCCESS" "f L rc1 w1 r1 s1 = Some y"
          | "rc1 \<noteq> LIBUSB_SUCCESS" "y = (rc1, w1, r1, s1)"
          | rc2 w2 r2 s2 where "cancel_loop L rc1 w1 r1 (s1\<lparr>device := u\<rparr>) = Some (rc2, w2, r2, s2)"
              "f L rc2 w2 r2 s2 = Some y"
          using more
          by (auto split: if_splits bind_splits simp: LIBUSB_ERROR_NO_DEVICE_def
              LIBUSB_ERROR_INTERRUPTED_def LIBUSB_SUCCESS_def)
        then show ?thesis
        proof cases
          case 1
          with IH inv1 show ?thesis by blast
        next
          case 2
          with inv1 show ?thesis by (simp add: P_def)
        next
          case 3
          with cancel_loop_inv [OF L sh p 3(1) inv2] IH show ?thesis by auto
        qed
      qed
    qed
  qed
  then show ?thesis using assms(5) by simp
qed

text \<open>With a prompt device the loop ends, without an error, and both transfers are complete.\<close>

lemma prompt_submits: "prompt L ob p \<Longrightarrow> submits L"
  by (simp add: prompt_def submits_def)

lemma poll_loop_prompt:
  assumes L: "prompt L ob p" and sh: "shape wb rb cb s0" and p: "p = unat (max_packet_size (ctx s0))"
    and big: "2 < read_chunk_size (ctx s0)"
    and "pinv ob wb rb cb s0 w r s" and "wfull s0 w" and "rfull s0 r"
  shows "\<exists>w' r' s'. poll_loop L LIBUSB_SUCCESS w r s = Some (LIBUSB_SUCCESS, w', r', s') \<and>
    pinv ob wb rb cb s0 w' r' s' \<and> finished w' \<and> finished r' \<and> wfull s0 w' \<and> rfull s0 r'"
  using assms(5-)
proof (induction "(write_count (ctx s0) - transferred w) + (read_count (ctx s0) - transferred r)"
    arbitrary: w r s rule: less_induct)
  case less
  have bulk: "bulk_ok L ob p" using L by (simp add: prompt_def)
  show ?case
  proof (cases "finished w \<and> finished r")
    case True
    with less.prems show ?thesis by (simp add: poll_loop.simps)
  next
    case False
    obtain rc evs u where ev: "handle_events L (usb_ctx (ctx s)) (device s) = (rc, evs, u)"
      by (cases "handle_events L (usb_ctx (ctx s)) (device s)") auto
    have rc: "rc = LIBUSB_SUCCESS"
      and we: "\<And>b. out_flight ob (device s) = Some b \<Longrightarrow> b \<noteq> [] \<Longrightarrow> \<exists>k > 0. Write_Done k \<in> set evs"
      and re: "\<And>n. in_flight ob (device s) = Some n \<Longrightarrow> 2 < n \<Longrightarrow>
        \<exists>raw. 2 < length raw \<and> Read_Done raw \<in> set evs"
      using L ev unfolding prompt_def by blast+
    obtain w' r' s' where st: "poll_step L w r s = Some (rc, w', r', s')"
      "pinv ob wb rb cb s0 w' r' s'" "transferred w \<le> transferred w'" "transferred r \<le> transferred r'"
      "(\<exists>k > 0. Write_Done k \<in> set evs) \<longrightarrow> transferred w < transferred w'"
      "(\<exists>raw. 2 < length raw \<and> Read_Done raw \<in> set evs) \<longrightarrow> transferred r < transferred r'"
      "wfull s0 w'" "rfull s0 r'"
      using poll_step_law [OF bulk sh p less.prems(1) ev] prompt_submits [OF L] less.prems(2,3)
      by blast
    obtain X where parts: "wpart ob wb s0 w (device s)" "rflight ob s0 r X (device s)"
      using less.prems(1) by (auto simp: pinv_def)
    obtain W where "memory s0 wb = Some W" "length W = write_size (ctx s0)"
      "write_count (ctx s0) \<le> write_size (ctx s0)"
      using sh by (auto simp: shape_def sized_def)
    then have lp: "length (pending wb s0) = write_count (ctx s0)" by (simp add: pending_def)
    have wl: "transferred w' \<le> write_count (ctx s0)" and rl: "transferred r' \<le> read_count (ctx s0)"
      using st(2) by (auto simp: pinv_def wpart_def rpart_def)
    have "transferred w < transferred w' \<or> transferred r < transferred r'"
    proof (cases "finished w")
      case True
      with False have "\<not> finished r" by simp
      with parts(2) re big st(6) show ?thesis by (auto simp: rflight_def)
    next
      case nf: False
      then have "out_flight ob (device s) = Some (drop (transferred w) (pending wb s0))"
        "drop (transferred w) (pending wb s0) \<noteq> []"
        using parts(1) lp by (auto simp: wpart_def)
      with we st(5) show ?thesis by blast
    qed
    then have "(write_count (ctx s0) - transferred w') + (read_count (ctx s0) - transferred r') <
        (write_count (ctx s0) - transferred w) + (read_count (ctx s0) - transferred r)"
      using wl rl st(3,4) by linarith
    from less.hyps [OF this st(2,7,8)] False st(1) show ?thesis
      by (simp add: poll_loop.simps [of L _ w r] rc LIBUSB_SUCCESS_def LIBUSB_ERROR_NO_DEVICE_def
          LIBUSB_ERROR_INTERRUPTED_def)
  qed
qed

end
