(* ===== verification/Mpsse_Outcome.thy ===== *)
theory Mpsse_Outcome
  imports Mpsse_Flush
begin

text \<open>
  The outcomes of \<open>mpsse_flush\<close>. A flush that returns \<open>ERROR_OK\<close> has handed the queued
  bytes to the device, has put the first \<open>read_count\<close> bytes of the device's payload in the
  read buffer and has run the queued copies from it (\<open>flushed\<close>); any other flush leaves the
  buffers empty and the caller's memory as it was (\<open>flush_aborted\<close>). In both cases the
  invariant holds again. With a prompt device the flush returns, with \<open>ERROR_OK\<close>.
\<close>

section \<open>Running the copies\<close>

definition dst_blocks :: "bit_copy_queue_entry list \<Rightarrow> nat set" where
  "dst_blocks es = {b. \<exists>e \<in> set es. block_of (dst e) = Some b}"

lemma dst_blocks_simps [simp]:
  "dst_blocks [] = {}" "dst_blocks (es @ fs) = dst_blocks es \<union> dst_blocks fs"
  "dst e = Ptr b off \<Longrightarrow> dst_blocks [e] = {b}"
  by (auto simp: dst_blocks_def)

lemma entry_ok_dst: "entry_ok own rb n m e \<Longrightarrow> \<exists>b off. dst e = Ptr b off \<and> b \<notin> own"
  by (auto simp: entry_ok_def)

lemma dst_blocks_own: "\<forall>e \<in> set es. entry_ok own rb n m e \<Longrightarrow> dst_blocks es \<inter> own = {}"
  by (fastforce simp: dst_blocks_def dest: entry_ok_dst)

lemma entry_ok_sized:
  assumes "entry_ok own rb n m e" and "\<And>b k. b \<notin> own \<Longrightarrow> sized m b k \<Longrightarrow> sized m' b k"
  shows "entry_ok own rb n m' e"
proof -
  from assms(1) obtain so db dof D where e: "src e = Ptr rb so"
      "8 * so + src_offset e + bit_count e \<le> 8 * n" "dst e = Ptr db dof" "db \<notin> own"
      "m db = Some D" "8 * dof + dst_offset e + bit_count e \<le> 8 * length D"
    by (auto simp: entry_ok_def)
  have "sized m' db (length D)" using e(4,5) by (intro assms(2)) (auto simp: sized_def)
  with e show ?thesis by (auto simp: entry_ok_def sized_def)
qed

lemma run_copies_ok:
  assumes "\<forall>e \<in> set es. entry_ok own rb n m e" and "m rb = Some R" and "n \<le> length R" and "rb \<in> own"
  shows "\<exists>m'. run_copies m es = Some m' \<and> (\<forall>c. c \<notin> dst_blocks es \<longrightarrow> m' c = m c) \<and>
    (\<forall>c k. sized m c k \<longrightarrow> sized m' c k)"
  using assms
proof (induction es arbitrary: m)
  case Nil
  then show ?case by simp
next
  case (Cons e es)
  then obtain so db dof D where e: "src e = Ptr rb so"
      "8 * so + src_offset e + bit_count e \<le> 8 * n" "dst e = Ptr db dof" "db \<notin> own"
      "m db = Some D" "8 * dof + dst_offset e + bit_count e \<le> 8 * length D"
    by (auto simp: entry_ok_def)
  define m1 where "m1 = set_block_bits m db (blit (bits_of D) (8 * dof + dst_offset e) (bits_of R)
    (8 * so + src_offset e) (bit_count e))"
  have cp: "bit_copy m (dst e) (dst_offset e) (src e) (src_offset e) (bit_count e) = Some m1"
  proof -
    have "rb \<noteq> db" using e(4) Cons.prems(4) by auto
    moreover have "8 * so + src_offset e + bit_count e \<le> 8 * length R"
      using e(2) Cons.prems(3) by linarith
    ultimately show ?thesis
      using bit_copy_known [of m rb R db D so "src_offset e" "bit_count e" dof "dst_offset e"]
        e(1,3,5,6) Cons.prems(2) by (simp add: m1_def)
  qed
  have sz: "sized m1 c k" if "sized m c k" for c k
    using that e Cons.prems(3) by (cases "c = db") (auto simp: m1_def sized_def)
  have "\<forall>e \<in> set es. entry_ok own rb n m1 e"
    using Cons.prems(1) sz by (auto intro: entry_ok_sized)
  moreover have "rb \<noteq> db" using e(4) Cons.prems(4) by auto
  then have "m1 rb = Some R" using Cons.prems(2) by (simp add: m1_def)
  ultimately obtain m' where "run_copies m1 es = Some m'" "\<forall>c. c \<notin> dst_blocks es \<longrightarrow> m' c = m1 c"
      "\<forall>c k. sized m1 c k \<longrightarrow> sized m' c k"
    using Cons.IH [of m1] Cons.prems(3,4) by blast
  moreover have "dst_blocks (e # es) = insert db (dst_blocks es)"
    using e(3) by (auto simp: dst_blocks_def)
  ultimately show ?case using cp sz by (auto simp: m1_def)
qed

section \<open>Purging\<close>

definition emptied :: "mpsse_ctx \<Rightarrow> mpsse_ctx" where
  "emptied c = c\<lparr>write_count := 0, read_count := 0\<rparr>"

lemma minv_rebuild:
  assumes inv: "minv wb rb cb es s" and c: "ctx s' = (emptied (ctx s))\<lparr>retval := rv\<rparr>"
    and q: "queue_of (read_queue (ctx s)) (queue s') []"
    and m: "\<And>b k. sized (memory s) b k \<Longrightarrow> sized (memory s') b k"
      "memory s' local_block = None"
  shows "minv wb rb cb [] s'"
  using inv q m(1) [of wb] m(1) [of rb] m(1) [of cb] m(2) unfolding minv_def c
  by (simp add: emptied_def)

lemma mpsse_purge_law:
  assumes q: "queue_of (read_queue (ctx s)) (queue s) es"
  shows "\<exists>s'. mpsse_purge L s = Some s' \<and> ctx s' = (emptied (ctx s))\<lparr>retval := ERROR_OK\<rparr> \<and>
    memory s' = memory s \<and> queue_of (read_queue (ctx s)) (queue s') [] \<and>
    room (queue s') = room (queue s) + length es"
proof -
  obtain q' where "bit_copy_discard (read_queue (ctx s)) (queue s) = Some q'"
      "queue_of (read_queue (ctx s)) q' []" "room q' = room (queue s) + length es"
    using bcq.disc_rep [OF q] by blast
  then show ?thesis
    by (auto simp: mpsse_purge_def emptied_def Let_def split: prod.splits)
qed

section \<open>From the submissions to the end of the polling loop\<close>

lemma pinv_start:
  assumes L: "bulk_ok L ob p" and sh: "shape wb rb cb s" and idle: "idle ob (device s)"
    and wc: "0 < write_count (ctx s)"
    and sub: "submit_write L dev ep (pending wb s) t (device s) = (LIBUSB_SUCCESS, u)"
    and rd: "if read_count (ctx s) = 0 then u' = u
      else submit_read L dev' ep' (read_chunk_size (ctx s)) t' u = (LIBUSB_SUCCESS, u')"
  shows "pinv ob wb rb cb s \<lparr>finished = False, transferred = 0\<rparr>
    \<lparr>finished = (read_count (ctx s) = 0), transferred = 0\<rparr> (s\<lparr>device := u'\<rparr>)"
proof -
  have "memory s rb \<noteq> None" using sh by (auto simp: shape_def sized_def)
  moreover have "sent ob u' = sent ob (device s)" "replies ob u' = replies ob (device s)"
    "out_flight ob u' = Some (pending wb s)"
    "in_flight ob u' = (if read_count (ctx s) = 0 then None else Some (read_chunk_size (ctx s)))"
    using bulk_submit_write [OF L sub] rd idle
    by (cases "read_count (ctx s) = 0"; auto simp: idle_def dest: bulk_submit_read [OF L])+
  ultimately show ?thesis
    using wc by (auto simp: pinv_def wpart_def rpart_def rflight_def)
qed

lemma run_transfers_law:
  assumes L: "bulk_ok L ob p" and sh: "shape wb rb cb s" and p: "p = unat (max_packet_size (ctx s))"
    and idle: "idle ob (device s)" and wc: "0 < write_count (ctx s)"
    and run: "run_transfers L s = Some (rc, w, r, s')"
  shows "polled rb cb s s' \<and>
    (rc = LIBUSB_SUCCESS \<longrightarrow> pinv ob wb rb cb s w r s' \<and> finished w \<and> finished r)"
proof -
  let ?c = "ctx s" and ?w = "\<lparr>finished = False, transferred = 0\<rparr>"
  let ?r = "\<lparr>finished = (read_count (ctx s) = 0), transferred = 0\<rparr>"
  obtain W where W: "memory s wb = Some W" "length W = write_size ?c" "write_count ?c \<le> write_size ?c"
    "write_buffer ?c = Ptr wb 0"
    using sh by (auto simp: shape_def sized_def)
  then have load: "load_bytes (memory s) (write_buffer ?c) (write_count ?c) = Some (pending wb s)"
    by (simp add: pending_def)
  obtain rc1 u1 where 1: "submit_write L (usb_dev ?c) (out_ep ?c) (pending wb s)
      (usb_write_timeout ?c) (device s) = (rc1, u1)" by force
  obtain rc2 u2 where 2: "submit_read L (usb_dev ?c) (in_ep ?c) (read_chunk_size ?c)
      (usb_read_timeout ?c) u1 = (rc2, u2)" by force
  define u where "u = (if read_count ?c = 0 then u1 else u2)"
  consider "rc1 \<noteq> LIBUSB_SUCCESS" "rc = rc1" "s' = s\<lparr>device := u1\<rparr>"
    | "read_count ?c \<noteq> 0" "rc2 \<noteq> LIBUSB_SUCCESS" "rc = rc2" "s' = s\<lparr>device := u2\<rparr>"
    | "rc1 = LIBUSB_SUCCESS" "read_count ?c = 0 \<or> rc2 = LIBUSB_SUCCESS"
      "poll_loop L LIBUSB_SUCCESS ?w ?r (s\<lparr>device := u\<rparr>) = Some (rc, w, r, s')"
    using run 1 2 load by (auto simp: run_transfers_def Let_def u_def split: if_splits)
  then show ?thesis
  proof cases
    case 3
    have "pinv ob wb rb cb s ?w ?r (s\<lparr>device := u\<rparr>)"
      using 1 2 3 by (intro pinv_start [OF L sh idle wc]) (auto simp: u_def)
    then show ?thesis
      using poll_loop_inv [OF L sh p 3(3)] by (auto simp: pinv_def)
  qed simp_all
qed

lemma run_transfers_prompt:
  assumes L: "prompt L ob p" and sh: "shape wb rb cb s" and p: "p = unat (max_packet_size (ctx s))"
    and idle: "idle ob (device s)" and wc: "0 < write_count (ctx s)" and big: "2 < read_chunk_size (ctx s)"
  shows "\<exists>w r s'. run_transfers L s = Some (LIBUSB_SUCCESS, w, r, s') \<and>
    pinv ob wb rb cb s w r s' \<and> finished w \<and> finished r \<and>
    transferred w = write_count (ctx s) \<and> transferred r = read_count (ctx s)"
proof -
  let ?c = "ctx s" and ?w = "\<lparr>finished = False, transferred = 0\<rparr>"
  let ?r = "\<lparr>finished = (read_count (ctx s) = 0), transferred = 0\<rparr>"
  have bulk: "bulk_ok L ob p" using L by (simp add: prompt_def)
  obtain W where W: "memory s wb = Some W" "length W = write_size ?c" "write_count ?c \<le> write_size ?c"
    "write_buffer ?c = Ptr wb 0"
    using sh by (auto simp: shape_def sized_def)
  then have load: "load_bytes (memory s) (write_buffer ?c) (write_count ?c) = Some (pending wb s)"
    by (simp add: pending_def)
  obtain u1 where 1: "submit_write L (usb_dev ?c) (out_ep ?c) (pending wb s)
      (usb_write_timeout ?c) (device s) = (LIBUSB_SUCCESS, u1)"
    using prompt_submits [OF L] unfolding submits_def by (metis prod.collapse)
  obtain u2 where 2: "submit_read L (usb_dev ?c) (in_ep ?c) (read_chunk_size ?c)
      (usb_read_timeout ?c) u1 = (LIBUSB_SUCCESS, u2)"
    using prompt_submits [OF L] unfolding submits_def by (metis prod.collapse)
  define u where "u = (if read_count ?c = 0 then u1 else u2)"
  have "pinv ob wb rb cb s ?w ?r (s\<lparr>device := u\<rparr>)"
    using 1 2 by (intro pinv_start [OF bulk sh idle wc]) (auto simp: u_def)
  moreover have "wfull s ?w" "rfull s ?r" by (simp_all add: wfull_def rfull_def)
  ultimately obtain w r s' where "poll_loop L LIBUSB_SUCCESS ?w ?r (s\<lparr>device := u\<rparr>) =
      Some (LIBUSB_SUCCESS, w, r, s')" "pinv ob wb rb cb s w r s'" "finished w" "finished r"
      "wfull s w" "rfull s r"
    using poll_loop_prompt [OF L sh p big] by blast
  then show ?thesis
    using 1 2 load by (auto simp: run_transfers_def Let_def u_def wfull_def rfull_def split: if_splits)
qed

section \<open>The outcomes\<close>

definition flushed ::
    "'u observer \<Rightarrow> nat \<Rightarrow> nat \<Rightarrow> nat \<Rightarrow> bit_copy_queue_entry list \<Rightarrow> 'u mpsse \<Rightarrow> 'u mpsse \<Rightarrow> bool"
where
  "flushed ob wb rb cb es s s' \<longleftrightarrow>
     minv wb rb cb [] s' \<and> ctx s' = emptied (ctx s) \<and> idle ob (device s') \<and>
     sent ob (device s') =
       sent ob (device s) @ pending wb s @ (if read_count (ctx s) = 0 then [] else [0x87]) \<and>
     (\<exists>X m R. replies ob (device s') = replies ob (device s) @ X \<and> read_count (ctx s) \<le> length X \<and>
        (\<forall>c. c \<notin> {wb, rb, cb} \<longrightarrow> m c = memory s c) \<and> m rb = Some R \<and>
        take (read_count (ctx s)) R = take (read_count (ctx s)) X \<and>
        run_copies m es = Some (memory s')) \<and>
     room (queue s') = room (queue s) + length es"

definition flush_aborted :: "nat \<Rightarrow> nat \<Rightarrow> nat \<Rightarrow> 'u mpsse \<Rightarrow> 'u mpsse \<Rightarrow> bool" where
  "flush_aborted wb rb cb s s' \<longleftrightarrow>
     minv wb rb cb [] s' \<and> ctx s' = (emptied (ctx s))\<lparr>retval := ERROR_OK\<rparr> \<and>
     (\<forall>c. c \<notin> {wb, rb, cb} \<longrightarrow> memory s' c = memory s c)"

text \<open>The state in which the transfers are submitted.\<close>

definition with_immediate :: "nat \<Rightarrow> 'u mpsse \<Rightarrow> 'u mpsse" where
  "with_immediate wb s = (if read_count (ctx s) = 0 then s else emit wb [0x87] s)"

lemma with_immediate_law:
  assumes inv: "minv wb rb cb es s"
  shows "shape wb rb cb (with_immediate wb s)"
    and "(if read_count (ctx s) \<noteq> 0 then buffer_write_byte 0x87 s else Some s) =
      Some (with_immediate wb s)"
    and "pending wb (with_immediate wb s) =
      pending wb s @ (if read_count (ctx s) = 0 then [] else [0x87])"
    and "device (with_immediate wb s) = device s" "queue (with_immediate wb s) = queue s"
    and "emptied (ctx (with_immediate wb s)) = emptied (ctx s)"
    and "read_count (ctx (with_immediate wb s)) = read_count (ctx s)"
    and "write_count (ctx s) \<le> write_count (ctx (with_immediate wb s))"
    and "c \<noteq> wb \<Longrightarrow> memory (with_immediate wb s) c = memory s c"
    and "sized (memory s) b k \<Longrightarrow> sized (memory (with_immediate wb s)) b k"
proof -
  obtain W where W: "memory s wb = Some W" "length W = write_size (ctx s)"
    using inv by (auto simp: minv_def sized_def)
  have wc: "write_count (ctx s) + 1 \<le> write_size (ctx s)"
    using minv_sizes(7) [OF inv] by simp
  have sz: "sized (memory (emit wb [0x87] s)) b k" if "sized (memory s) b k" for b k
    using sized_emit [OF that, of "[0x87]" W wb] W wc by simp
  show "shape wb rb cb (with_immediate wb s)"
    using inv wc sz by (auto simp: with_immediate_def minv_def shape_def)
  show "pending wb (with_immediate wb s) =
      pending wb s @ (if read_count (ctx s) = 0 then [] else [0x87])"
    using pending_emit [OF W(1), of "[0x87]"] W(2) wc by (simp add: with_immediate_def)
  show "sized (memory s) b k \<Longrightarrow> sized (memory (with_immediate wb s)) b k"
    using sz by (simp add: with_immediate_def)
qed (use buffer_write_byte_emit [OF inv, of "0x87"] in
      \<open>simp_all add: with_immediate_def emptied_def\<close>)

text \<open>What follows the polling loop, when both transfers are complete and when they are not.\<close>

lemma flush_result_ok:
  assumes inv: "minv wb rb cb es s" and s0: "s0 = with_immediate wb s"
    and pi: "pinv ob wb rb cb s0 w r s'" and fin: "finished w" "finished r"
    and full: "transferred w = write_count (ctx s0)" "transferred r = read_count (ctx s0)"
  shows "\<exists>s''. flush_result L LIBUSB_SUCCESS w r s' = Some (ERROR_OK, s'') \<and>
    flushed ob wb rb cb es s s''"
proof -
  note wi = with_immediate_law [OF inv]
  note wi = wi(1-8) wi(9) wi(10)
  from pi obtain X where po: "polled rb cb s0 s'" and wp: "wpart ob wb s0 w (device s')"
    and rp: "rpart ob rb s0 r X (memory s')" "rflight ob s0 r X (device s')"
    by (auto simp: pinv_def)
  have c: "ctx s' = ctx s0" "queue s' = queue s" using po wi(5) by (simp_all add: polled_def s0)
  have rc: "read_count (ctx s') = read_count (ctx s)" using c(1) wi(7) by (simp add: s0)
  have sz: "sized (memory s') b k" if "sized (memory s) b k" for b k
    using wi(10) [OF that] po unfolding polled_def s0 [symmetric]
    by (cases "b = rb \<or> b = cb") (auto simp: sized_def)
  have fr: "memory s' c = memory s c" if "c \<notin> {wb, rb, cb}" for c
    using that po wi(9) [of c] by (auto simp: polled_def s0)
  have Q: "queue_of (read_queue (ctx s)) (queue s) es" and ent: "\<forall>e \<in> set es.
      entry_ok (own_blocks wb rb cb) rb (read_count (ctx s)) (memory s) e"
    and rz: "read_count (ctx s) = 0 \<Longrightarrow> es = []"
    using inv by (simp_all add: minv_def)
  have rq: "read_queue (ctx s') = read_queue (ctx s)"
    using arg_cong [OF wi(6), of read_queue] c(1) by (simp add: s0 emptied_def)
  have em: "emptied (ctx s') = emptied (ctx s)" using wi(6) c(1) by (simp add: s0)
  have rv: "(emptied (ctx s))\<lparr>retval := retval (ctx s)\<rparr> = emptied (ctx s)"
    by (simp add: emptied_def)
  obtain R where R: "memory s' rb = Some R" "length R = read_size (ctx s)"
    using sz [of rb "read_size (ctx s)"] inv unfolding minv_def sized_def by blast
  have blocks: "local_block \<notin> {wb, rb, cb}" using minv_blocks(4-6) [OF inv] by auto
  have idle: "idle ob (device s')" using wp rp(2) fin by (simp add: idle_def wpart_def rflight_def)
  have "memory s0 wb \<noteq> None" "write_count (ctx s0) \<le> length (the (memory s0 wb))"
    using wi(1) by (auto simp: s0 shape_def sized_def)
  then have "take (write_count (ctx s0)) (pending wb s0) = pending wb s0"
    by (simp add: pending_def)
  then have sent: "sent ob (device s') =
      sent ob (device s) @ pending wb s @ (if read_count (ctx s) = 0 then [] else [0x87])"
    using wp wi(3,4) full(1) by (simp add: wpart_def s0)
  have data: "replies ob (device s') = replies ob (device s) @ X" "read_count (ctx s) \<le> length X"
      "take (read_count (ctx s)) R = take (read_count (ctx s)) X"
    using rp full(2) wi(4,7) R(1) by (auto simp: rflight_def rpart_def s0)
  have guard: "\<not> (transferred w < write_count (ctx s') \<or> transferred r < read_count (ctx s'))"
    using full c(1) by simp
  show ?thesis
  proof (cases "read_count (ctx s) = 0")
    case True
    obtain q where q: "bit_copy_discard (read_queue (ctx s)) (queue s) = Some q"
        "queue_of (read_queue (ctx s)) q []" "room q = room (queue s) + length es"
      using bcq.disc_rep [OF Q] by blast
    define s'' where "s'' = s'\<lparr>queue := q, ctx := (ctx s')\<lparr>write_count := 0\<rparr>\<rparr>"
    have c'': "ctx s'' = emptied (ctx s)"
      using rc True unfolding em [symmetric] by (cases "ctx s'") (simp add: s''_def emptied_def)
    have "flush_result L LIBUSB_SUCCESS w r s' = Some (ERROR_OK, s'')"
      using guard rc True q(1) c(2) rq by (simp add: flush_result_def Let_def s''_def)
    moreover have "minv wb rb cb [] s''"
      using minv_rebuild [OF inv, of s'' "retval (ctx s)"] c'' rv q(2) sz
        fr [OF blocks] minv_blocks(10) [OF inv] by (simp add: s''_def)
    then have "flushed ob wb rb cb es s s''"
      using c'' idle sent data R(1) rz [OF True] fr True q(3) unfolding flushed_def
      by (auto simp: s''_def intro!: exI [of _ "memory s'"])
    ultimately show ?thesis by blast
  next
    case False
    have e': "\<forall>e \<in> set es. entry_ok (own_blocks wb rb cb) rb (read_count (ctx s)) (memory s') e"
      using ent sz by (auto intro: entry_ok_sized)
    obtain m where m: "run_copies (memory s') es = Some m" "\<forall>c. c \<notin> dst_blocks es \<longrightarrow> m c = memory s' c"
        "\<forall>c k. sized (memory s') c k \<longrightarrow> sized m c k"
      using run_copies_ok [OF e' R(1)] R(2) minv_sizes(8) [OF inv] by auto
    obtain q where q: "bit_copy_execute (read_queue (ctx s)) (memory s') (queue s) = Some (m, q)"
        "queue_of (read_queue (ctx s)) q []" "room q = room (queue s) + length es"
      using bcq.exec_rep [OF Q m(1)] by blast
    define s'' where "s'' = s'\<lparr>memory := m, queue := q,
      ctx := (ctx s')\<lparr>write_count := 0, read_count := 0\<rparr>\<rparr>"
    have c'': "ctx s'' = emptied (ctx s)" using em by (simp add: s''_def emptied_def)
    have "flush_result L LIBUSB_SUCCESS w r s' = Some (ERROR_OK, s'')"
      using guard rc False q(1) c(2) rq by (simp add: flush_result_def Let_def s''_def)
    moreover have "local_block \<notin> dst_blocks es" using dst_blocks_own [OF e'] by auto
    then have "minv wb rb cb [] s''"
      using minv_rebuild [OF inv, of s'' "retval (ctx s)"] c'' rv q(2) sz m(2,3)
        fr [OF blocks] minv_blocks(10) [OF inv] by (simp add: s''_def)
    then have "flushed ob wb rb cb es s s''"
      using c'' idle sent data R(1) fr m(1) q(3) unfolding flushed_def
      by (auto simp: s''_def intro!: exI [of _ "memory s'"])
    ultimately show ?thesis by blast
  qed
qed

lemma flush_result_bad:
  assumes inv: "minv wb rb cb es s" and s0: "s0 = with_immediate wb s"
    and po: "polled rb cb s0 s'"
    and bad: "rc \<noteq> LIBUSB_SUCCESS \<or> transferred w < write_count (ctx s') \<or>
      transferred r < read_count (ctx s')"
  shows "\<exists>s''. flush_result L rc w r s' = Some (ERROR_FAIL, s'') \<and> flush_aborted wb rb cb s s''"
proof -
  note wi = with_immediate_law(1-8) [OF inv]
  have c: "ctx s' = ctx s0" "queue s' = queue s" using po wi(5) by (simp_all add: polled_def s0)
  have sz: "sized (memory s') b k" if "sized (memory s) b k" for b k
    using with_immediate_law(10) [OF inv that] po unfolding polled_def s0 [symmetric]
    by (cases "b = rb \<or> b = cb") (auto simp: sized_def)
  have fr: "memory s' c = memory s c" if "c \<notin> {wb, rb, cb}" for c
    using that po with_immediate_law(9) [OF inv, of c] by (auto simp: polled_def s0)
  have Q: "queue_of (read_queue (ctx s)) (queue s) es" using inv by (simp add: minv_def)
  have em: "emptied (ctx s') = emptied (ctx s)" using wi(6) c(1) by (simp add: s0)
  have rq: "read_queue (ctx s') = read_queue (ctx s)"
    using arg_cong [OF em, of read_queue] by (simp add: emptied_def)
  obtain s'' where s'': "mpsse_purge L s' = Some s''"
    "ctx s'' = (emptied (ctx s'))\<lparr>retval := ERROR_OK\<rparr>" "memory s'' = memory s'"
    "queue_of (read_queue (ctx s)) (queue s'') []"
    using mpsse_purge_law [of s' es L] Q c(2) rq by auto
  have blocks: "local_block \<notin> {wb, rb, cb}" using minv_blocks(4-6) [OF inv] by auto
  have "minv wb rb cb [] s''"
    using minv_rebuild [OF inv, of s'' ERROR_OK] s'' em sz fr [OF blocks] minv_blocks(10) [OF inv]
    by simp
  then have "flush_aborted wb rb cb s s''"
    using s'' em fr by (simp add: flush_aborted_def)
  moreover have "flush_result L rc w r s' = Some (ERROR_FAIL, s'')"
    using bad s''(1) by (auto simp: flush_result_def Let_def)
  ultimately show ?thesis by blast
qed

lemma flush_nothing:
  assumes inv: "minv wb rb cb es s" and "retval (ctx s) = ERROR_OK" and wc: "write_count (ctx s) = 0"
    and idle: "idle ob (device s)"
  shows "mpsse_flush L s = Some (ERROR_OK, s) \<and> flushed ob wb rb cb es s s"
proof -
  have rc: "read_count (ctx s) = 0" "es = []" using inv wc by (auto simp: minv_def)
  have "ctx s = emptied (ctx s)" using wc rc by (cases "ctx s") (simp add: emptied_def)
  moreover have "pending wb s = []" using wc by (simp add: pending_def)
  moreover obtain R where "memory s rb = Some R" using inv by (auto simp: minv_def sized_def)
  ultimately have "flushed ob wb rb cb es s s"
    using inv rc idle by (auto simp: flushed_def intro!: exI [of _ "memory s"])
  then show ?thesis using assms(2) wc rc by (simp add: mpsse_flush_def Let_def)
qed

lemma flush_unfold:
  assumes inv: "minv wb rb cb es s" and "retval (ctx s) = ERROR_OK" and "0 < write_count (ctx s)"
  shows "mpsse_flush L s = do {
    (rc, w, r, s) \<leftarrow> run_transfers L (with_immediate wb s);
    flush_result L rc w r s
  }"
  using assms(2,3) with_immediate_law(2) [OF inv] by (simp add: mpsse_flush_def Let_def)

lemma flush_outcome:
  assumes L: "bulk_ok L ob (unat (max_packet_size (ctx s)))" and inv: "minv wb rb cb es s"
    and rv: "retval (ctx s) = ERROR_OK" and idle: "idle ob (device s)"
    and res: "mpsse_flush L s = Some (rc, s')"
  shows "rc = ERROR_OK \<and> flushed ob wb rb cb es s s' \<or> rc = ERROR_FAIL \<and> flush_aborted wb rb cb s s'"
proof (cases "write_count (ctx s) = 0")
  case True
  with flush_nothing [OF inv rv True idle] res show ?thesis by simp
next
  case False
  define s0 where "s0 = with_immediate wb s"
  note wi = with_immediate_law(1-8) [OF inv]
  have p: "unat (max_packet_size (ctx s)) = unat (max_packet_size (ctx s0))"
    using arg_cong [OF wi(6), of max_packet_size] by (simp add: emptied_def s0_def)
  have sh: "shape wb rb cb s0" using wi(1) by (simp add: s0_def)
  have idle0: "idle ob (device s0)" and wc0: "0 < write_count (ctx s0)"
    using idle wi(4,8) False by (simp_all add: s0_def)
  obtain rc1 w r s1 where run: "run_transfers L s0 = Some (rc1, w, r, s1)"
    and fr: "flush_result L rc1 w r s1 = Some (rc, s')"
    using res flush_unfold [OF inv rv] False by (auto simp: s0_def split: bind_splits)
  note rt = run_transfers_law [OF L sh p idle0 wc0 run]
  show ?thesis
  proof (cases "rc1 = LIBUSB_SUCCESS \<and> write_count (ctx s0) \<le> transferred w \<and>
      read_count (ctx s0) \<le> transferred r")
    case True
    with rt have pi: "pinv ob wb rb cb s0 w r s1" "finished w" "finished r" by auto
    then have "transferred w = write_count (ctx s0)" "transferred r = read_count (ctx s0)"
      using True by (auto simp: pinv_def wpart_def rpart_def)
    with flush_result_ok [OF inv s0_def pi, of L] True fr show ?thesis by auto
  next
    case False
    have "ctx s1 = ctx s0" using rt by (simp add: polled_def)
    with False flush_result_bad [OF inv s0_def, of s1 rc1 w r L] rt fr show ?thesis by auto
  qed
qed

lemma flush_prompt:
  assumes L: "prompt L ob (unat (max_packet_size (ctx s)))" and inv: "minv wb rb cb es s"
    and rv: "retval (ctx s) = ERROR_OK" and idle: "idle ob (device s)"
    and big: "2 < read_chunk_size (ctx s)"
  shows "\<exists>s'. mpsse_flush L s = Some (ERROR_OK, s') \<and> flushed ob wb rb cb es s s'"
proof (cases "write_count (ctx s) = 0")
  case True
  with flush_nothing [OF inv rv True idle] show ?thesis by blast
next
  case False
  define s0 where "s0 = with_immediate wb s"
  note wi = with_immediate_law(1-8) [OF inv]
  have p: "unat (max_packet_size (ctx s)) = unat (max_packet_size (ctx s0))"
    and chunk: "read_chunk_size (ctx s0) = read_chunk_size (ctx s)"
    using arg_cong [OF wi(6), of max_packet_size] arg_cong [OF wi(6), of read_chunk_size]
    by (simp_all add: emptied_def s0_def)
  have sh: "shape wb rb cb s0" using wi(1) by (simp add: s0_def)
  have idle0: "idle ob (device s0)" and wc0: "0 < write_count (ctx s0)"
    using idle wi(4,8) False by (simp_all add: s0_def)
  obtain w r s1 where run: "run_transfers L s0 = Some (LIBUSB_SUCCESS, w, r, s1)"
    and pi: "pinv ob wb rb cb s0 w r s1" "finished w" "finished r"
      "transferred w = write_count (ctx s0)" "transferred r = read_count (ctx s0)"
    using run_transfers_prompt [OF L sh p idle0 wc0] big chunk by auto
  from flush_result_ok [OF inv s0_def pi] flush_unfold [OF inv rv] False run
  show ?thesis by (auto simp: s0_def)
qed

end
