(* ===== verification/Mpsse_Stream.thy ===== *)
theory Mpsse_Stream
  imports Mpsse_Outcome
begin

text \<open>
  The command stream. \<open>decode\<close> is the abstract specification of the byte protocol: it splits
  the bytes that reach the device into commands, with the opcodes of the driver. The lemmas
  lead to the laws of one iteration of the two clocking loops: each emits exactly one command
  that carries the next bits of the caller's buffer, possibly after a flush.
\<close>

section \<open>Decoding\<close>

datatype mpsse_cmd =
    Shift u8 nat "bool list option"
  | Tms u8 "bool list" bool
  | Pins u8 u8 u8
  | Divisor nat
  | Single u8

text \<open>
  The opcodes. A data-shifting command has bits 7 and 6 clear and writes TDI (bit 4), reads TDO
  (bit 5) or both; bit 1 selects the length in bits, and bit 3 the order: the least significant
  bit of each byte first, or the most significant one. Bits 0 and 2 select clock edges. The six
  commands that drive TMS and the commands of one byte are enumerated; no other byte starts a
  command.
\<close>

definition shift_op :: "u8 \<Rightarrow> bool" where
  "shift_op op \<longleftrightarrow> \<not> bit op 7 \<and> \<not> bit op 6 \<and> (bit op 4 \<or> bit op 5)"

definition tms_op :: "u8 \<Rightarrow> bool" where
  "tms_op op \<longleftrightarrow> op = 0x4a \<or> op = 0x4b \<or> op = 0x6a \<or> op = 0x6b \<or> op = 0x6e \<or> op = 0x6f"

lemma u8_eq_iff:
  "(x :: u8) = y \<longleftrightarrow> (\<forall>n < 8. bit x n = bit y n)"
  by (auto intro: bit_word_eqI)

lemma all_less_8:
  "(\<forall>n < 8. P n) \<longleftrightarrow> P 0 \<and> P 1 \<and> P 2 \<and> P 3 \<and> P 4 \<and> P 5 \<and> P 6 \<and> P (7 :: nat)"
  by (simp add: numeral_eq_Suc less_Suc_eq) blast

lemma tms_op_bits:
  "tms_op M \<longleftrightarrow> \<not> bit M 7 \<and> bit M 6 \<and> \<not> bit M 4 \<and> bit M 3 \<and> bit M 1 \<and> (bit M 2 \<longrightarrow> bit M 5)"
  unfolding tms_op_def u8_eq_iff all_less_8
  by (cases "bit M 0"; cases "bit M 1"; cases "bit M 2"; cases "bit M 5"; simp; blast)

definition single_op :: "u8 \<Rightarrow> bool" where
  "single_op op \<longleftrightarrow> op = 0x81 \<or> op = 0x83 \<or> op = 0x84 \<or> op = 0x85 \<or> op = 0x87 \<or>
     op = 0x8a \<or> op = 0x8b \<or> op = 0x96 \<or> op = 0x97"

definition tdi_bits :: "u8 \<Rightarrow> u8 list \<Rightarrow> bool list" where
  "tdi_bits op ds = concat (map (\<lambda>d. if bit op 3 then byte_bits d else rev (byte_bits d)) ds)"

lemma tdi_bits_lsb: "bit op 3 \<Longrightarrow> tdi_bits op ds = bits_of ds"
  by (induction ds) (simp_all add: tdi_bits_def bits_of_Cons)

lemma shift_op_other: "shift_op op \<Longrightarrow> op \<noteq> 0x80 \<and> op \<noteq> 0x82 \<and> op \<noteq> 0x86 \<and> \<not> single_op op \<and> \<not> tms_op op"
  by (auto simp: shift_op_def single_op_def tms_op_def bit_simps)

fun next_cmd :: "u8 list \<Rightarrow> (mpsse_cmd \<times> u8 list) option" where
  "next_cmd [] = None"
| "next_cmd (op # r) =
     (if op = 0x80 \<or> op = 0x82 then
        (case r of d # dir # r \<Rightarrow> Some (Pins op d dir, r) | _ \<Rightarrow> None)
      else if op = 0x86 then
        (case r of lo # hi # r \<Rightarrow> Some (Divisor (unat lo + 256 * unat hi), r) | _ \<Rightarrow> None)
      else if single_op op then Some (Single op, r)
      else if tms_op op then
        (case r of n # d # r \<Rightarrow>
            if unat n < 7 then Some (Tms op (map (bit d) [0..<unat n + 1]) (bit d 7), r) else None
         | _ \<Rightarrow> None)
      else if \<not> shift_op op then None
      else if bit op 1 then
        (case r of
           n # r \<Rightarrow>
             if unat n < 8 then
               if bit op 4 then
                 (case r of d # r \<Rightarrow> Some (Shift op (unat n + 1) (Some (take (unat n + 1) (tdi_bits op [d]))), r)
                  | _ \<Rightarrow> None)
               else Some (Shift op (unat n + 1) None, r)
             else None
         | _ \<Rightarrow> None)
      else
        (case r of
           lo # hi # r \<Rightarrow>
             (let n = unat lo + 256 * unat hi + 1 in
              if bit op 4 then
                if n \<le> length r then Some (Shift op (8 * n) (Some (tdi_bits op (take n r))), drop n r)
                else None
              else Some (Shift op (8 * n) None, r))
         | _ \<Rightarrow> None))"

lemma next_cmd_shrinks: "next_cmd bs = Some (c, r) \<Longrightarrow> length r < length bs"
  by (cases bs) (auto split: if_splits list.splits simp: Let_def)

function decode :: "u8 list \<Rightarrow> mpsse_cmd list option" where
  "decode bs =
     (if bs = [] then Some []
      else case next_cmd bs of
             None \<Rightarrow> None
           | Some (c, r) \<Rightarrow> map_option (Cons c) (decode r))"
  by pat_completeness auto
termination
  by (relation "measure length") (auto dest: next_cmd_shrinks)

declare decode.simps [simp del]

lemma next_cmd_append: "next_cmd bs = Some (c, r) \<Longrightarrow> next_cmd (bs @ ys) = Some (c, r @ ys)"
  by (cases bs) (auto split: if_splits list.splits simp: Let_def)

lemma decode_append:
  "decode xs = Some cs \<Longrightarrow> decode (xs @ ys) = map_option ((@) cs) (decode ys)"
proof (induction xs arbitrary: cs rule: length_induct)
  case (1 xs)
  show ?case
  proof (cases "xs = []")
    case True
    with "1.prems" show ?thesis by (simp add: decode.simps [of "[]"] option.map_id0 id_def [symmetric])
  next
    case False
    with "1.prems" obtain c r cs' where "next_cmd xs = Some (c, r)" "decode r = Some cs'"
      "cs = c # cs'"
      by (auto simp: decode.simps [of xs] split: option.splits)
    then show ?thesis
      using "1.IH" next_cmd_shrinks [of xs c r] next_cmd_append [of xs c r ys] False
      by (cases "decode ys"; simp add: decode.simps [of "xs @ ys"])
  qed
qed

lemma decode_one: "next_cmd bs = Some (c, []) \<Longrightarrow> decode bs = Some [c]"
  by (subst decode.simps, cases "bs = []") (simp_all add: decode.simps [of "[]"] del: next_cmd.simps(2))

text \<open>
  The bits that a command list clocks out on TDI, the levels of TMS and TDI at each clock of its
  TMS commands, and the number of clocks.
\<close>

fun tdi_of :: "mpsse_cmd \<Rightarrow> bool list" where
  "tdi_of (Shift op n (Some bs)) = bs"
| "tdi_of _ = []"

fun clocks_of :: "mpsse_cmd \<Rightarrow> nat" where
  "clocks_of (Shift op n d) = n"
| "clocks_of (Tms op bs tdi) = length bs"
| "clocks_of _ = 0"

fun tms_of :: "mpsse_cmd \<Rightarrow> (bool \<times> bool) list" where
  "tms_of (Tms op bs tdi) = map (\<lambda>b. (b, tdi)) bs"
| "tms_of _ = []"

definition tdi_stream :: "mpsse_cmd list \<Rightarrow> bool list" where
  "tdi_stream cs = concat (map tdi_of cs)"

definition tms_stream :: "mpsse_cmd list \<Rightarrow> (bool \<times> bool) list" where
  "tms_stream cs = concat (map tms_of cs)"

definition clocks :: "mpsse_cmd list \<Rightarrow> nat" where
  "clocks cs = sum_list (map clocks_of cs)"

lemma stream_simps [simp]:
  "tdi_stream [] = []" "tdi_stream (c # cs) = tdi_of c @ tdi_stream cs"
  "tdi_stream (cs @ ds) = tdi_stream cs @ tdi_stream ds"
  "tms_stream [] = []" "tms_stream (c # cs) = tms_of c @ tms_stream cs"
  "tms_stream (cs @ ds) = tms_stream cs @ tms_stream ds"
  "clocks [] = 0" "clocks (c # cs) = clocks_of c + clocks cs" "clocks (cs @ ds) = clocks cs + clocks ds"
  by (simp_all add: tdi_stream_def tms_stream_def clocks_def)

section \<open>The stream of a context\<close>

definition stream :: "'u observer \<Rightarrow> nat \<Rightarrow> 'u mpsse \<Rightarrow> u8 list" where
  "stream ob wb s = sent ob (device s) @ pending wb s"

definition advance :: "'u observer \<Rightarrow> nat \<Rightarrow> 'u mpsse \<Rightarrow> mpsse_cmd list \<Rightarrow> 'u mpsse \<Rightarrow> bool" where
  "advance ob wb s cs s' \<longleftrightarrow> (\<exists>bs. stream ob wb s' = stream ob wb s @ bs \<and> decode bs = Some cs)"

lemma advance_refl: "advance ob wb s [] s"
  by (auto simp: advance_def decode.simps intro!: exI [of _ "[]"])

lemma advance_trans:
  assumes "advance ob wb s cs s'" and "advance ob wb s' ds s''"
  shows "advance ob wb s (cs @ ds) s''"
proof -
  from assms obtain xs ys where "stream ob wb s'' = stream ob wb s @ xs @ ys"
    "decode xs = Some cs" "decode ys = Some ds"
    by (auto simp: advance_def)
  then show ?thesis by (auto simp: advance_def decode_append)
qed

lemma advance_same:
  "stream ob wb s'' = stream ob wb s' \<Longrightarrow> advance ob wb s cs s' \<Longrightarrow> advance ob wb s cs s''"
  by (simp add: advance_def)

section \<open>A context on a prompt device\<close>

definition ready ::
    "'u libusb \<Rightarrow> 'u observer \<Rightarrow> nat \<Rightarrow> nat \<Rightarrow> nat \<Rightarrow> bit_copy_queue_entry list \<Rightarrow> 'u mpsse \<Rightarrow> bool"
where
  "ready L ob wb rb cb es s \<longleftrightarrow>
     minv wb rb cb es s \<and> retval (ctx s) = ERROR_OK \<and> idle ob (device s) \<and>
     prompt L ob (unat (max_packet_size (ctx s))) \<and> 2 < read_chunk_size (ctx s)"

text \<open>What a step may change of the caller's memory: the blocks that wait for data.\<close>

definition keeps :: "nat set \<Rightarrow> 'u mpsse \<Rightarrow> 'u mpsse \<Rightarrow> bool" where
  "keeps bs s s' \<longleftrightarrow> (\<forall>c. c \<notin> bs \<longrightarrow> memory s' c = memory s c) \<and>
     (\<forall>c k. sized (memory s) c k \<longrightarrow> sized (memory s') c k)"

lemma keeps_trans: "keeps bs s s' \<Longrightarrow> keeps bs' s' s'' \<Longrightarrow> keeps (bs \<union> bs') s s''"
  by (simp add: keeps_def)

lemma keeps_mono: "keeps bs s s' \<Longrightarrow> bs \<subseteq> bs' \<Longrightarrow> keeps bs' s s'"
  by (auto simp: keeps_def)

lemma flushed_keeps:
  assumes inv: "minv wb rb cb es s" and fl: "flushed ob wb rb cb es s s'"
  shows "keeps (own_blocks wb rb cb \<union> dst_blocks es) s s'"
proof -
  from fl obtain X m R where m: "\<forall>c. c \<notin> {wb, rb, cb} \<longrightarrow> m c = memory s c" "m rb = Some R"
    "take (read_count (ctx s)) R = take (read_count (ctx s)) X" "read_count (ctx s) \<le> length X"
    "run_copies m es = Some (memory s')" and inv': "minv wb rb cb [] s'"
    and c: "ctx s' = emptied (ctx s)"
    unfolding flushed_def by blast
  have sm: "sized m b k" if "b \<notin> {wb, rb, cb}" "sized (memory s) b k" for b k
    using that m(1) by (simp add: sized_def)
  have "\<forall>e \<in> set es. entry_ok (own_blocks wb rb cb) rb (read_count (ctx s)) (memory s) e"
    using inv by (simp add: minv_def)
  then have e: "\<forall>e \<in> set es. entry_ok (own_blocks wb rb cb) rb (read_count (ctx s)) m e"
    using sm by (blast intro: entry_ok_sized)
  have "length (take (read_count (ctx s)) R) = read_count (ctx s)" using m(3,4) by simp
  then have "read_count (ctx s) \<le> length R" by simp
  then have r: "\<forall>c. c \<notin> dst_blocks es \<longrightarrow> memory s' c = m c"
    "\<forall>c k. sized m c k \<longrightarrow> sized (memory s') c k"
    using run_copies_ok [OF e m(2)] m(5) by auto
  have "sized (memory s') c k" if "sized (memory s) c k" for c k
  proof (cases "c \<in> {wb, rb, cb}")
    case True
    with that inv inv' c show ?thesis by (auto simp: minv_def sized_def emptied_def)
  next
    case False
    with that sm r(2) show ?thesis by blast
  qed
  moreover have "memory s' c = memory s c" if "c \<notin> own_blocks wb rb cb \<union> dst_blocks es" for c
    using that r(1) m(1) by simp
  ultimately show ?thesis by (simp add: keeps_def)
qed

lemma decode_immediate: "decode [0x87] = Some [Single 0x87]"
  by (rule decode_one) (simp add: single_op_def)

definition quiet :: "mpsse_cmd list \<Rightarrow> bool" where
  "quiet cs \<longleftrightarrow> cs = [] \<or> cs = [Single 0x87]"

lemma quiet_streams [simp]:
  "quiet cs \<Longrightarrow> tdi_stream cs = []" "quiet cs \<Longrightarrow> tms_stream cs = []" "quiet cs \<Longrightarrow> clocks cs = 0"
  by (auto simp: quiet_def)

lemma set_retval_same: "retval (ctx s) = v \<Longrightarrow> s\<lparr>ctx := (ctx s)\<lparr>retval := v\<rparr>\<rparr> = s"
  by (cases s; cases "ctx s") auto

lemma flush_ready:
  assumes "ready L ob wb rb cb es s"
  shows "\<exists>s' cs. flush_into_retval L s = Some s' \<and> ready L ob wb rb cb [] s' \<and>
    ctx s' = emptied (ctx s) \<and> advance ob wb s cs s' \<and> quiet cs \<and>
    keeps (own_blocks wb rb cb \<union> dst_blocks es) s s' \<and> flushed ob wb rb cb es s s'"
proof -
  from assms have inv: "minv wb rb cb es s" and rv: "retval (ctx s) = ERROR_OK"
    and L: "prompt L ob (unat (max_packet_size (ctx s)))" and big: "2 < read_chunk_size (ctx s)"
    by (simp_all add: ready_def)
  obtain s' where s': "mpsse_flush L s = Some (ERROR_OK, s')" "flushed ob wb rb cb es s s'"
    using flush_prompt [OF L inv rv _ big] assms by (auto simp: ready_def)
  have c: "ctx s' = emptied (ctx s)" using s'(2) by (simp add: flushed_def)
  then have "retval (ctx s') = ERROR_OK" using rv by (simp add: emptied_def)
  then have "s'\<lparr>ctx := (ctx s')\<lparr>retval := ERROR_OK\<rparr>\<rparr> = s'" by (simp add: set_retval_same)
  then have "flush_into_retval L s = Some s'" using s'(1) by (simp add: flush_into_retval_def)
  moreover have "ready L ob wb rb cb [] s'"
    using s'(2) c rv L big by (simp add: ready_def flushed_def emptied_def)
  moreover have "pending wb s' = []" using c by (simp add: pending_def emptied_def)
  then have "stream ob wb s' = stream ob wb s @ (if read_count (ctx s) = 0 then [] else [0x87])"
    using s'(2) by (simp add: stream_def flushed_def)
  then have "advance ob wb s (if read_count (ctx s) = 0 then [] else [Single 0x87]) s'"
    by (auto simp: advance_def decode_immediate decode.simps [of "[]"])
  moreover have "quiet (if read_count (ctx s) = 0 then [] else [Single 0x87])"
    by (simp add: quiet_def)
  ultimately show ?thesis using c flushed_keeps [OF inv s'(2)] s'(2) by blast
qed

end
