(* ===== verification/Mpsse_Receive.thy ===== *)
theory Mpsse_Receive
  imports Mpsse_Stream
begin

text \<open>
  The data that comes back. A command that reads makes the device report one sample of TDO per
  clock; the driver reserves room for the answer, queues a copy to the caller's buffer and lets
  the next flush run it. \<open>sampled\<close> is the specification of the answers: how the bytes that the
  device reports stand for the samples of a list of commands. The invariant \<open>collects\<close> says
  that the samples which have arrived are, or will be after the next flush, in the caller's
  buffer in the order of the clocks; every step of the clocking loops keeps it.
\<close>

section \<open>The answers of the device\<close>

text \<open>
  Bit 5 of the opcode of a data-shifting command asks for the samples. The device shifts them in
  from the top of each byte (the least significant bit first), so that a byte with fewer than
  eight samples has them in its upper bits.
\<close>

fun reply_count :: "mpsse_cmd \<Rightarrow> nat" where
  "reply_count (Shift op n d) = (if bit op 5 then n else 0)"
| "reply_count (Tms op bs tdi) = (if bit op 5 then length bs else 0)"
| "reply_count (Single op) = (if op = 0x81 \<or> op = 0x83 then 8 else 0)"
| "reply_count _ = 0"

definition reply_bytes :: "mpsse_cmd \<Rightarrow> nat" where
  "reply_bytes c = (reply_count c + 7) div 8"

fun sampled :: "mpsse_cmd list \<Rightarrow> u8 list \<Rightarrow> bool list" where
  "sampled [] ys = []"
| "sampled (c # cs) ys =
     drop (8 * reply_bytes c - reply_count c) (bits_of (take (reply_bytes c) ys)) @
     sampled cs (drop (reply_bytes c) ys)"

definition reply_length :: "mpsse_cmd list \<Rightarrow> nat" where
  "reply_length cs = sum_list (map reply_bytes cs)"

definition samples :: "mpsse_cmd list \<Rightarrow> nat" where
  "samples cs = sum_list (map reply_count cs)"

lemma reply_simps [simp]:
  "reply_length [] = 0" "reply_length (c # cs) = reply_bytes c + reply_length cs"
  "reply_length (cs @ ds) = reply_length cs + reply_length ds"
  "samples [] = 0" "samples (c # cs) = reply_count c + samples cs"
  "samples (cs @ ds) = samples cs + samples ds"
  by (simp_all add: reply_length_def samples_def)

lemma reply_count_le: "reply_count c \<le> 8 * reply_bytes c"
  unfolding reply_bytes_def by (rule le_ceil8)

lemma length_sampled: "length ys = reply_length cs \<Longrightarrow> length (sampled cs ys) = samples cs"
  using reply_count_le by (induction cs arbitrary: ys) simp_all

lemma sampled_append:
  "length ys = reply_length cs \<Longrightarrow> sampled (cs @ ds) (ys @ zs) = sampled cs ys @ sampled ds zs"
  by (induction cs arbitrary: ys) (simp_all add: append_assoc)

lemma quiet_replies [simp]:
  "quiet cs \<Longrightarrow> reply_length cs = 0" "quiet cs \<Longrightarrow> samples cs = 0" "quiet cs \<Longrightarrow> sampled cs [] = []"
  by (auto simp: quiet_def reply_bytes_def)

text \<open>Any samples can be reported.\<close>

lemma sampled_onto: "length bs = samples cs \<Longrightarrow> \<exists>ys. length ys = reply_length cs \<and> sampled cs ys = bs"
proof (induction cs arbitrary: bs)
  case (Cons c cs)
  let ?n = "reply_count c" and ?k = "reply_bytes c"
  obtain ys where ys: "length ys = reply_length cs" "sampled cs ys = drop ?n bs"
    using Cons.IH [of "drop ?n bs"] Cons.prems by auto
  define xs where "xs = bytes_of (replicate (8 * ?k - ?n) False @ take ?n bs)"
  have l: "length (replicate (8 * ?k - ?n) False @ take ?n bs) = 8 * ?k"
    using Cons.prems reply_count_le [of c] by simp
  have "length xs = ?k" "bits_of xs = replicate (8 * ?k - ?n) False @ take ?n bs"
    unfolding xs_def using l by (auto intro: length_bytes_of bits_of_bytes_of)
  with ys show ?case by (intro exI [of _ "xs @ ys"]) simp
qed simp

text \<open>
  What a part of a run receives: the flushes in it ask for some bytes each and get at least as
  many; the answer is the bytes that were asked for.
\<close>

definition answered :: "'u observer \<Rightarrow> 'u mpsse \<Rightarrow> u8 list \<Rightarrow> 'u mpsse \<Rightarrow> bool" where
  "answered ob s ys s' \<longleftrightarrow> (\<exists>As. replies ob (device s') = replies ob (device s) @ concat (map snd As) \<and>
     (\<forall>(k, X) \<in> set As. k \<le> length X) \<and> ys = concat (map (\<lambda>(k, X). take k X) As))"

lemma answered_same: "replies ob (device s') = replies ob (device s) \<Longrightarrow> answered ob s [] s'"
  unfolding answered_def by (intro exI [of _ "[]"]) simp

lemma answered_one:
  "replies ob (device s') = replies ob (device s) @ X \<Longrightarrow> k \<le> length X \<Longrightarrow> answered ob s (take k X) s'"
  unfolding answered_def by (intro exI [of _ "[(k, X)]"]) simp

lemma answered_trans:
  assumes "answered ob s xs s'" and "answered ob s' ys s''"
  shows "answered ob s (xs @ ys) s''"
proof -
  from assms(1) obtain As where 1: "replies ob (device s') = replies ob (device s) @ concat (map snd As)"
    "\<forall>(k, X) \<in> set As. k \<le> length X" "xs = concat (map (\<lambda>(k, X). take k X) As)"
    unfolding answered_def by blast
  from assms(2) obtain Bs where 2: "replies ob (device s'') = replies ob (device s') @ concat (map snd Bs)"
    "\<forall>(k, X) \<in> set Bs. k \<le> length X" "ys = concat (map (\<lambda>(k, X). take k X) Bs)"
    unfolding answered_def by blast
  show ?thesis
    unfolding answered_def using 1 2 by (intro exI [of _ "As @ Bs"]) auto
qed

section \<open>The caller's buffer\<close>

text \<open>
  \<open>collects own rb b a D cs ys es s\<close>: the commands \<open>cs\<close> were issued while block \<open>b\<close> held
  \<open>D\<close>, and \<open>ys\<close> is the part of their answer that has arrived. When the rest arrives in the
  read buffer, the queued copies put all the samples in block \<open>b\<close>, from bit \<open>a\<close> on. The copies
  can be queued because there is one byte of the read buffer for each.
\<close>

definition collects ::
    "nat set \<Rightarrow> nat \<Rightarrow> nat \<Rightarrow> nat \<Rightarrow> u8 list \<Rightarrow> mpsse_cmd list \<Rightarrow> u8 list \<Rightarrow>
     bit_copy_queue_entry list \<Rightarrow> 'u mpsse \<Rightarrow> bool" where
  "collects own rb b a D cs ys es s \<longleftrightarrow>
     read_size (ctx s) \<le> room (queue s) + length es \<and> length es \<le> read_count (ctx s) \<and>
     b \<notin> own \<and> sized (memory s) b (length D) \<and> a + samples cs \<le> 8 * length D \<and>
     length ys + read_count (ctx s) = reply_length cs \<and>
     (\<forall>m R. (\<forall>c. c \<notin> own \<longrightarrow> m c = memory s c) \<longrightarrow> m rb = Some R \<longrightarrow> read_count (ctx s) \<le> length R \<longrightarrow>
        (\<exists>m'. run_copies m es = Some m' \<and> m' rb = Some R \<and>
           m' b = Some (bytes_of (blit (bits_of D) a
             (sampled cs (ys @ take (read_count (ctx s)) R)) 0 (samples cs)))))"

lemma collects_run:
  assumes "collects own rb b a D cs ys es s" and "\<And>c. c \<notin> own \<Longrightarrow> m c = memory s c"
    and "m rb = Some R" and "read_count (ctx s) \<le> length R"
  obtains m' where "run_copies m es = Some m'" "m' rb = Some R"
    "m' b = Some (bytes_of (blit (bits_of D) a
       (sampled cs (ys @ take (read_count (ctx s)) R)) 0 (samples cs)))"
proof -
  from assms(1) have "\<forall>m R. (\<forall>c. c \<notin> own \<longrightarrow> m c = memory s c) \<longrightarrow> m rb = Some R \<longrightarrow>
      read_count (ctx s) \<le> length R \<longrightarrow> (\<exists>m'. run_copies m es = Some m' \<and> m' rb = Some R \<and>
         m' b = Some (bytes_of (blit (bits_of D) a
           (sampled cs (ys @ take (read_count (ctx s)) R)) 0 (samples cs))))"
    unfolding collects_def by (elim conjE)
  then show ?thesis using assms(2-4) that by blast
qed

lemma collects_fields:
  assumes "collects own rb b a D cs ys es s"
  shows "read_size (ctx s) \<le> room (queue s) + length es" "length es \<le> read_count (ctx s)"
    "b \<notin> own" "sized (memory s) b (length D)" "a + samples cs \<le> 8 * length D"
    "length ys + read_count (ctx s) = reply_length cs"
  using assms unfolding collects_def by - (elim conjE, assumption)+

lemma collects_start:
  assumes "memory s b = Some D" and "b \<notin> own" and "a \<le> 8 * length D"
    and "read_count (ctx s) = 0" and "read_size (ctx s) \<le> room (queue s)"
  shows "collects own rb b a D [] [] [] s"
  using assms by (simp add: collects_def sized_def)

lemma collects_end:
  assumes "collects own rb b a D cs ys [] s" and "read_count (ctx s) = 0"
    and "\<exists>R. memory s rb = Some R"
  shows "memory s b = Some (bytes_of (blit (bits_of D) a (sampled cs ys) 0 (samples cs)))"
    and "length ys = reply_length cs"
  using assms by (auto simp: collects_def)

text \<open>A step that leaves the reads and the caller's memory alone.\<close>

lemma collects_frame:
  assumes "collects own rb b a D cs ys es s" and "ctx s' = (ctx s)\<lparr>write_count := w\<rparr>"
    and "queue s' = queue s" and "\<And>c. c \<notin> own \<Longrightarrow> memory s' c = memory s c"
  shows "collects own rb b a D cs ys es s'"
  using assms unfolding collects_def sized_def by simp

lemma blit_more:
  assumes "a + length xs + n \<le> length d" and "so + n \<le> length s"
  shows "blit (blit d a xs 0 (length xs)) (a + length xs) s so n =
    blit d a (xs @ take n (drop so s)) 0 (length xs + n)"
proof -
  have "length (take n (drop so s)) = n" using assms(2) by simp
  then show ?thesis using assms(1) by (simp add: blit_def ac_simps)
qed

text \<open>A read that is queued after its command.\<close>

lemma collects_read:
  assumes c: "collects own rb b a D cs ys es s" and inv: "minv wb rb cb es s"
    and own: "own = own_blocks wb rb cb"
    and n: "reply_count c = n" "off + n = 8 * ((n + 7) div 8)" "a + samples cs + n \<le> 8 * length D"
    and pos: "a + samples cs = 8 * p + at"
    and s': "ctx s' = (ctx s)\<lparr>read_count := read_count (ctx s) + (n + 7) div 8\<rparr>" "memory s' = memory s"
      "room (queue s') = room (queue s) - 1" and rm: "0 < room (queue s)" and n0: "0 < n"
  shows "collects own rb b a D (cs @ [c]) ys
    (es @ [read_entry (Ptr b p) at rb (read_count (ctx s)) off n]) s'"
proof -
  let ?k = "(n + 7) div 8" and ?rc = "read_count (ctx s)"
  let ?e = "read_entry (Ptr b p) at rb ?rc off n"
  have k: "reply_bytes c = ?k" and k0: "0 < ?k" using n(1) n0 by (simp_all add: reply_bytes_def)
  have "\<exists>m'. run_copies m (es @ [?e]) = Some m' \<and> m' rb = Some R \<and>
      m' b = Some (bytes_of (blit (bits_of D) a
        (sampled (cs @ [c]) (ys @ take (?rc + ?k) R)) 0 (samples (cs @ [c]))))"
    if m: "\<forall>x. x \<notin> own \<longrightarrow> m x = memory s x" "m rb = Some R" "?rc + ?k \<le> length R" for m R
  proof -
    let ?xs = "sampled cs (ys @ take ?rc R)"
    have rb: "rb \<noteq> b" using collects_fields(3) [OF c] own by auto
    have le: "?rc \<le> length R" using m(3) by simp
    then have lr: "length (ys @ take ?rc R) = reply_length cs" using collects_fields(6) [OF c] by simp
    have lx: "length ?xs = samples cs" using length_sampled [OF lr] .
    obtain m1 where m1: "run_copies m es = Some m1" "m1 rb = Some R"
      "m1 b = Some (bytes_of (blit (bits_of D) a ?xs 0 (samples cs)))"
      using collects_run [of own rb b a D cs ys es s m R] c m(1,2) le by blast
    let ?B = "blit (bits_of D) a ?xs 0 (samples cs)"
    have lB: "length ?B = 8 * length D" using n(3) lx by simp
    then have B: "bits_of (bytes_of ?B) = ?B" "length (bytes_of ?B) = length D" by simp_all
    have so: "8 * ?rc + off + n \<le> 8 * length R" using m(3) n(2) by linarith
    have cp: "bit_copy m1 (Ptr b p) at (Ptr rb ?rc) off n =
        Some (set_block_bits m1 b (blit ?B (8 * p + at) (bits_of R) (8 * ?rc + off) n))"
      using bit_copy_known [OF m1(2,3) rb so, of p at] B pos n(3) by simp
    have "blit ?B (8 * p + at) (bits_of R) (8 * ?rc + off) n =
        blit (bits_of D) a (?xs @ take n (drop (8 * ?rc + off) (bits_of R))) 0 (samples cs + n)"
      using blit_more [of a ?xs n "bits_of D" "8 * ?rc + off" "bits_of R"] lx n(3) so pos by simp
    moreover have "take n (drop (8 * ?rc + off) (bits_of R)) = sampled [c] (take ?k (drop ?rc R))"
    proof -
      have "drop off (take (8 * ?k) (drop (8 * ?rc) (bits_of R))) =
          take n (drop (8 * ?rc + off) (bits_of R))"
      proof -
        have "8 * ?k - off = n" using n(2) by linarith
        then show ?thesis by (simp add: drop_take add.commute)
      qed
      moreover have "8 * ?k - n = off" using n(2) by linarith
      ultimately show ?thesis
        using n(1) k by (simp flip: take_bits_of drop_bits_of)
    qed
    moreover have "sampled (cs @ [c]) (ys @ take (?rc + ?k) R) = ?xs @ sampled [c] (take ?k (drop ?rc R))"
      using sampled_append [OF lr, of "[c]" "take ?k (drop ?rc R)"] by (simp add: take_add del: sampled.simps)
    moreover have "set_block_bits m1 b X rb = Some R" for X using m1(2) rb by simp
    ultimately show ?thesis
      using m1(1) cp n(1) by (simp add: run_copies_append read_entry_def set_block_bits_def del: sampled.simps)
  qed
  moreover have "read_size (ctx s') \<le> room (queue s') + length (es @ [?e])"
    "length (es @ [?e]) \<le> read_count (ctx s')"
    using collects_fields(1,2) [OF c] s' rm k0 by simp_all
  moreover have "length ys + read_count (ctx s') = reply_length (cs @ [c])"
    "a + samples (cs @ [c]) \<le> 8 * length D"
    using collects_fields(5,6) [OF c] s'(1) n k by simp_all
  moreover have "read_count (ctx s') = ?rc + ?k" using s'(1) by simp
  ultimately show ?thesis
    unfolding collects_def s'(2) using collects_fields(3,4) [OF c] by (simp only:) blast
qed

section \<open>The parts of a run\<close>

text \<open>
  A part of a run receives into \<open>in_buf\<close>, from bit \<open>at\<close> on: whatever was collected before it
  is still collected after it, with the samples of its commands appended.
\<close>

definition receives ::
    "'u observer \<Rightarrow> nat \<Rightarrow> nat \<Rightarrow> nat \<Rightarrow> ptr \<Rightarrow> nat \<Rightarrow> mpsse_cmd list \<Rightarrow>
     bit_copy_queue_entry list \<Rightarrow> 'u mpsse \<Rightarrow> bit_copy_queue_entry list \<Rightarrow> 'u mpsse \<Rightarrow> bool" where
  "receives ob wb rb cb in_buf at cs es s es' s' \<longleftrightarrow>
     (in_buf \<noteq> Null \<longrightarrow> samples cs = clocks cs) \<and>
     (\<exists>zs. answered ob s zs s' \<and>
       (\<forall>b p a D cs0 ys. in_buf = Ptr b p \<longrightarrow> collects (own_blocks wb rb cb) rb b a D cs0 ys es s \<longrightarrow>
          a + samples cs0 = 8 * p + at \<longrightarrow> 8 * p + at + clocks cs \<le> 8 * length D \<longrightarrow>
          collects (own_blocks wb rb cb) rb b a D (cs0 @ cs) (ys @ zs) es' s'))"

lemma receives_refl: "receives ob wb rb cb in_buf at [] es s es s"
  unfolding receives_def using answered_same [of ob s s] by (intro conjI exI [of _ "[]"]) simp_all

lemma receives_at:
  "receives ob wb rb cb in_buf at cs es s es' s' \<Longrightarrow> (in_buf \<noteq> Null \<Longrightarrow> at' = at) \<Longrightarrow>
    receives ob wb rb cb in_buf at' cs es s es' s'"
  unfolding receives_def by (cases in_buf) auto

lemma receives_trans:
  assumes "receives ob wb rb cb in_buf at cs es s es1 s1"
    and "receives ob wb rb cb in_buf (at + clocks cs) ds es1 s1 es2 s2"
  shows "receives ob wb rb cb in_buf at (cs @ ds) es s es2 s2"
proof -
  let ?C = "collects (own_blocks wb rb cb) rb"
  from assms(1) obtain xs where 1: "in_buf \<noteq> Null \<longrightarrow> samples cs = clocks cs" "answered ob s xs s1"
    "\<And>b p a D cs0 ys. in_buf = Ptr b p \<Longrightarrow> ?C b a D cs0 ys es s \<Longrightarrow> a + samples cs0 = 8 * p + at \<Longrightarrow>
      8 * p + at + clocks cs \<le> 8 * length D \<Longrightarrow> ?C b a D (cs0 @ cs) (ys @ xs) es1 s1"
    unfolding receives_def by blast
  from assms(2) obtain zs where 2: "in_buf \<noteq> Null \<longrightarrow> samples ds = clocks ds" "answered ob s1 zs s2"
    "\<And>b p a D cs0 ys. in_buf = Ptr b p \<Longrightarrow> ?C b a D cs0 ys es1 s1 \<Longrightarrow>
      a + samples cs0 = 8 * p + (at + clocks cs) \<Longrightarrow>
      8 * p + (at + clocks cs) + clocks ds \<le> 8 * length D \<Longrightarrow> ?C b a D (cs0 @ ds) (ys @ zs) es2 s2"
    unfolding receives_def by blast
  have "?C b a D (cs0 @ cs @ ds) (ys @ xs @ zs) es2 s2"
    if b: "in_buf = Ptr b p" "?C b a D cs0 ys es s" "a + samples cs0 = 8 * p + at"
      "8 * p + at + clocks (cs @ ds) \<le> 8 * length D" for b p a D cs0 ys
  proof -
    have "?C b a D (cs0 @ cs) (ys @ xs) es1 s1" using b by (intro 1(3)) (simp_all only: stream_simps, linarith)
    then have "?C b a D ((cs0 @ cs) @ ds) ((ys @ xs) @ zs) es2 s2"
      using b 1(1) by (intro 2(3)) (simp_all add: add.assoc)
    then show ?thesis by simp
  qed
  moreover have "in_buf \<noteq> Null \<longrightarrow> samples (cs @ ds) = clocks (cs @ ds)" using 1(1) 2(1) by simp
  ultimately show ?thesis
    unfolding receives_def using answered_trans [OF 1(2) 2(2)] by blast
qed

text \<open>A flush hands over what has been asked for.\<close>

lemma flushed_receives:
  assumes inv: "minv wb rb cb es s" and fl: "flushed ob wb rb cb es s s'" and q: "quiet cs"
  shows "receives ob wb rb cb in_buf at cs es s [] s'"
proof -
  let ?rc = "read_count (ctx s)" and ?own = "own_blocks wb rb cb"
  from fl obtain X m R where X: "replies ob (device s') = replies ob (device s) @ X" "?rc \<le> length X"
    and m: "\<forall>c. c \<notin> {wb, rb, cb} \<longrightarrow> m c = memory s c" "m rb = Some R" "take ?rc R = take ?rc X"
      "run_copies m es = Some (memory s')"
    and rest: "ctx s' = emptied (ctx s)" "room (queue s') = room (queue s) + length es" "minv wb rb cb [] s'"
    unfolding flushed_def by blast
  have "length (take ?rc R) = ?rc" using m(3) X(2) by simp
  then have R: "?rc \<le> length R" by simp
  have "collects ?own rb b a D (cs0 @ cs) (ys @ take ?rc X) [] s'"
    if c: "collects ?own rb b a D cs0 ys es s" for b a D cs0 ys
  proof -
    obtain m' where m': "run_copies m es = Some m'"
      "m' b = Some (bytes_of (blit (bits_of D) a (sampled cs0 (ys @ take ?rc R)) 0 (samples cs0)))"
      using collects_run [of ?own rb b a D cs0 ys es s m R] c m(1,2) R by auto
    let ?zs = "ys @ take ?rc X"
    have lz: "length ?zs = reply_length cs0" using collects_fields(6) [OF c] X(2) by simp
    have sm: "sampled (cs0 @ cs) ?zs = sampled cs0 ?zs"
      using sampled_append [OF lz, of cs "[]"] q by simp
    have len: "length (blit (bits_of D) a (sampled cs0 ?zs) 0 (samples cs0)) = 8 * length D"
      using length_sampled [OF lz] collects_fields(5) [OF c] by simp
    have mb: "memory s' b = Some (bytes_of (blit (bits_of D) a (sampled cs0 ?zs) 0 (samples cs0)))"
      using m' m(3,4) by simp
    then have "sized (memory s') b (length D)" using len by (simp add: sized_def)
    moreover have "b \<notin> ?own" using collects_fields(3) [OF c] .
    ultimately show ?thesis
      unfolding collects_def using mb sm q lz rest(1,2) collects_fields(1,5) [OF c]
      by (simp add: emptied_def)
  qed
  moreover have "answered ob s (take ?rc X) s'" using X by (rule answered_one)
  ultimately show ?thesis unfolding receives_def using q by (intro conjI exI [of _ "take ?rc X"]) auto
qed

text \<open>A command, with the optional read that follows it.\<close>

lemma command_receives:
  assumes inv: "minv wb rb cb es s" and frame: "ctx s1 = (ctx s)\<lparr>write_count := w\<rparr>" "queue s1 = queue s"
      "\<And>c. c \<notin> own_blocks wb rb cb \<Longrightarrow> memory s1 c = memory s c" and inv1: "minv wb rb cb es s1"
    and s': "ctx s' = (ctx s1)\<lparr>read_count := read_count (ctx s1) + (if in_buf = Null then 0 else (n + 7) div 8)\<rparr>"
      "memory s' = memory s1" "device s' = device s"
    and es': "\<And>b p. in_buf = Ptr b p \<Longrightarrow> 0 < room (queue s1) \<Longrightarrow>
      es' = es @ [read_entry in_buf at rb (read_count (ctx s1)) off n] \<and> room (queue s') = room (queue s1) - 1"
    and room: "in_buf \<noteq> Null \<Longrightarrow> read_count (ctx s1) + (n + 7) div 8 \<le> read_size (ctx s1)"
    and n: "clocks_of c = n" "0 < n" "off + n = 8 * ((n + 7) div 8)"
    and rd: "in_buf \<noteq> Null \<Longrightarrow> reply_count c = n"
  shows "receives ob wb rb cb in_buf at [c] es s es' s'"
proof -
  let ?own = "own_blocks wb rb cb"
  have "collects ?own rb b a D (cs0 @ [c]) (ys @ []) es' s'"
    if b: "in_buf = Ptr b p" and c0: "collects ?own rb b a D cs0 ys es s"
      and at: "a + samples cs0 = 8 * p + at" "8 * p + at + clocks [c] \<le> 8 * length D" for b p a D cs0 ys
  proof -
    have c1: "collects ?own rb b a D cs0 ys es s1"
      by (rule collects_frame [OF c0 frame]) assumption
    have nn: "in_buf \<noteq> Null" using b by simp
    have k0: "0 < (n + 7) div 8" using n(2) by (simp add: div_greater_zero_iff)
    have rm: "0 < room (queue s1)" using collects_fields(1,2) [OF c1] room [OF nn] k0 by linarith
    have at': "a + samples cs0 + n \<le> 8 * length D" using at n(1) by simp
    have "ctx s' = (ctx s1)\<lparr>read_count := read_count (ctx s1) + (n + 7) div 8\<rparr>" using s'(1) nn by simp
    from collects_read [OF c1 inv1 refl rd [OF nn] n(3) at' at(1) this s'(2) _ rm n(2)] es' [OF b rm] b
    show ?thesis by simp
  qed
  moreover have "answered ob s [] s'" by (rule answered_same) (simp add: s'(3))
  moreover have "in_buf \<noteq> Null \<longrightarrow> samples [c] = clocks [c]" using rd n(1) by simp
  ultimately show ?thesis unfolding receives_def by blast
qed

text \<open>
  A run that starts with nothing to read and ends with a flush: the samples of its commands are
  in the caller's buffer, and nothing else of the block has changed.
\<close>

lemma receives_end:
  assumes run: "receives ob wb rb cb (Ptr b p) at cs [] s es s1" and inv: "minv wb rb cb es s1"
    and fl: "flushed ob wb rb cb es s1 s2" and q: "quiet qs"
    and start: "read_count (ctx s) = 0" "read_size (ctx s) \<le> room (queue s)"
      "memory s b = Some D" "b \<notin> own_blocks wb rb cb" "8 * p + at + clocks cs \<le> 8 * length D"
  shows "\<exists>ys. answered ob s ys s2 \<and> length ys = reply_length (cs @ qs) \<and>
    length (sampled (cs @ qs) ys) = clocks cs \<and>
    memory s2 b = Some (bytes_of (blit (bits_of D) (8 * p + at) (sampled (cs @ qs) ys) 0 (clocks cs)))"
proof -
  let ?own = "own_blocks wb rb cb"
  have "collects ?own rb b (8 * p + at) D [] [] [] s"
    using start by (intro collects_start) simp_all
  moreover have "receives ob wb rb cb (Ptr b p) (at + clocks cs) qs es s1 [] s2"
    by (rule flushed_receives [OF inv fl q])
  note run2 = receives_trans [OF run this]
  moreover have "8 * p + at + clocks (cs @ qs) \<le> 8 * length D" using start(5) q by simp
  ultimately obtain ys where ys: "answered ob s ys s2"
    "collects ?own rb b (8 * p + at) D ([] @ cs @ qs) ([] @ ys) [] s2"
    unfolding receives_def by (metis add_0_right reply_simps(4))
  have sm: "samples (cs @ qs) = clocks cs" using run2 q by (simp add: receives_def)
  have "read_count (ctx s2) = 0" "\<exists>R. memory s2 rb = Some R"
    using fl by (auto simp: flushed_def emptied_def minv_def sized_def)
  note e = collects_end [OF ys(2) this, unfolded append_Nil sm]
  show ?thesis using ys(1) e length_sampled [OF e(2)] sm by auto
qed

end
