(* ===== verification/Mpsse_Clock.thy ===== *)
theory Mpsse_Clock
  imports Mpsse_Receive
begin

text \<open>
  The clocking loops on a prompt device. One iteration emits one command that carries the next
  bits of the caller's buffer; the loops end, and the commands they emit carry exactly the
  requested bits.
\<close>

section \<open>The commands as bytes\<close>

lemma unat_of_nat_small: "n < 256 \<Longrightarrow> unat (of_nat n :: u8) = n"
  by (simp add: unat_of_nat take_bit_nat_eq_self)

lemma unat_low_byte: "unat (of_nat n AND 0xff :: u8) = n mod 256"
proof -
  have "(of_nat n AND 0xff :: u8) = of_nat n"
    by (rule bit_word_eqI) (auto simp: bit_simps mask_eq_exp_minus_1 [symmetric] less_Suc_eq
        numeral_eq_Suc)
  then show ?thesis by (simp add: unat_of_nat take_bit_eq_mod)
qed

lemma split_16:
  assumes "j < 65536"
  shows "unat (of_nat j AND 0xff :: u8) + 256 * unat (of_nat (j div 2 ^ 8) :: u8) = j"
proof -
  have "j div 256 < 256" using assms by (simp add: less_mult_imp_div_less)
  then have "unat (of_nat (j div 2 ^ 8) :: u8) = j div 256"
    by (simp add: unat_of_nat_small)
  then show ?thesis by (simp only: unat_low_byte) simp
qed

lemma length_field:
  assumes "0 < k" and "k \<le> 65536"
  shows "unat (of_nat (k - 1) AND 0xff :: u8) + 256 * unat (of_nat ((k - 1) div 2 ^ 8) :: u8) + 1 = k"
  using split_16 [of "k - 1"] assms by linarith

text \<open>The opcodes of the data-shifting commands.\<close>

definition shift_mode :: "bool \<Rightarrow> u8 \<Rightarrow> bool" where
  "shift_mode w M \<longleftrightarrow> shift_op M \<and> \<not> bit M 1 \<and> bit M 3 \<and> bit M 4 = w"

lemma shift_mode_bits:
  "shift_mode w M \<Longrightarrow> shift_op (0x02 OR M) \<and> bit (0x02 OR M) 1 \<and> bit (0x02 OR M) 3 \<and> bit (0x02 OR M) 4 = w"
  by (auto simp: shift_mode_def shift_op_def bit_simps)

lemma bit_mode_5: "bit (0x02 OR M :: u8) 5 = bit M 5"
  by (simp add: bit_simps)

lemma take_byte_bits: "n \<le> 8 \<Longrightarrow> take n (bits_of [d]) = map (bit d) [0..<n]"
  by (simp add: bits_of_Cons byte_bits_def take_map)

lemma decode_bits_out:
  assumes "shift_mode True M" and "0 < n" and "n < 8"
  shows "decode [0x02 OR M, of_nat (n - 1), d] = Some [Shift (0x02 OR M) n (Some (map (bit d) [0..<n]))]"
proof (rule decode_one)
  have "unat (of_nat (n - 1) :: u8) = n - 1" using assms(3) by (simp add: unat_of_nat_small)
  then show "next_cmd [0x02 OR M, of_nat (n - 1), d] =
      Some (Shift (0x02 OR M) n (Some (map (bit d) [0..<n])), [])"
    using shift_mode_bits [OF assms(1)] shift_op_other [of "0x02 OR M"] assms(2,3)
    by (simp add: tdi_bits_lsb take_byte_bits)
qed

lemma decode_bits_in:
  assumes "shift_mode False M" and "0 < n" and "n < 8"
  shows "decode [0x02 OR M, of_nat (n - 1)] = Some [Shift (0x02 OR M) n None]"
proof (rule decode_one)
  have "unat (of_nat (n - 1) :: u8) = n - 1" using assms(3) by (simp add: unat_of_nat_small)
  then show "next_cmd [0x02 OR M, of_nat (n - 1)] = Some (Shift (0x02 OR M) n None, [])"
    using shift_mode_bits [OF assms(1)] shift_op_other [of "0x02 OR M"] assms(2,3) by simp
qed

lemma next_cmd_bytes:
  assumes "shift_op M" "\<not> bit M 1" "bit M 3" and "unat lo + 256 * unat hi + 1 = k"
  shows "next_cmd (M # lo # hi # r) =
    (if bit M 4 then
       if k \<le> length r then Some (Shift M (8 * k) (Some (bits_of (take k r))), drop k r) else None
     else Some (Shift M (8 * k) None, r))"
  using assms(1-3) shift_op_other [OF assms(1)] by (simp add: Let_def tdi_bits_lsb flip: assms(4))

lemma decode_bytes_out:
  assumes M: "shift_mode True M" and k: "0 < k" "k \<le> 65536" and d: "length data = k"
  shows "decode ([M, of_nat (k - 1) AND 0xff, of_nat ((k - 1) div 2 ^ 8)] @ data) =
    Some [Shift M (8 * k) (Some (bits_of data))]"
  using next_cmd_bytes [OF _ _ _ length_field [OF k], of M data] M d
  by (intro decode_one) (simp add: shift_mode_def del: next_cmd.simps)

lemma decode_bytes_in:
  assumes M: "shift_mode False M" and k: "0 < k" "k \<le> 65536"
  shows "decode [M, of_nat (k - 1) AND 0xff, of_nat ((k - 1) div 2 ^ 8)] = Some [Shift M (8 * k) None]"
  using next_cmd_bytes [OF _ _ _ length_field [OF k], of M "[]"] M
  by (intro decode_one) (simp add: shift_mode_def del: next_cmd.simps)

text \<open>The mode of the caller becomes the opcode of such a command.\<close>

lemma shift_mode_intro:
  assumes "\<not> bit mode 7 \<and> \<not> bit mode 6 \<and> \<not> bit mode 1 \<and> bit mode 3"
    and "bit mode 4 \<longrightarrow> out \<noteq> Null \<or> in_buf = Null"
  shows "shift_mode (out \<noteq> Null \<or> in_buf = Null) (clock_mode out in_buf mode)"
  using assms by (simp add: shift_mode_def shift_op_def clock_mode_def Let_def bit_or_iff) auto

lemma decode_tms:
  assumes "tms_op M" and "0 < n" and "n \<le> 7"
  shows "decode [M, of_nat (n - 1), d] = Some [Tms M (map (bit d) [0..<n]) (bit d 7)]"
proof (rule decode_one)
  have "unat (of_nat (n - 1) :: u8) = n - 1" using assms(3) by (simp add: unat_of_nat_small)
  moreover have "M \<noteq> 0x80 \<and> M \<noteq> 0x82 \<and> M \<noteq> 0x86 \<and> \<not> single_op M"
    using assms(1) by (auto simp: tms_op_def single_op_def)
  ultimately show "next_cmd [M, of_nat (n - 1), d] = Some (Tms M (map (bit d) [0..<n]) (bit d 7), [])"
    using assms by simp
qed

section \<open>The caller's buffers\<close>

definition out_ok :: "nat set \<Rightarrow> mem \<Rightarrow> ptr \<Rightarrow> nat \<Rightarrow> nat \<Rightarrow> bool" where
  "out_ok busy m out off n \<longleftrightarrow>
     (case out of Null \<Rightarrow> True
      | Ptr b p \<Rightarrow> b \<notin> busy \<and> (\<exists>S. m b = Some S \<and> 8 * p + off + n \<le> 8 * length S))"

definition in_ok :: "nat set \<Rightarrow> mem \<Rightarrow> ptr \<Rightarrow> nat \<Rightarrow> nat \<Rightarrow> bool" where
  "in_ok own m in_buf off n \<longleftrightarrow>
     (case in_buf of Null \<Rightarrow> True
      | Ptr b p \<Rightarrow> b \<notin> own \<and> (\<exists>D. m b = Some D \<and> 8 * p + off + n \<le> 8 * length D))"

text \<open>The bits that a transfer puts on TDI: zeros when there is neither input nor output.\<close>

definition wanted :: "mem \<Rightarrow> ptr \<Rightarrow> ptr \<Rightarrow> nat \<Rightarrow> nat \<Rightarrow> bool list" where
  "wanted m out in_buf off n =
     (case out of
        Null \<Rightarrow> if in_buf = Null then replicate n False else []
      | Ptr b p \<Rightarrow> take n (drop (8 * p + off) (bits_of (the (m b)))))"

lemma wanted_split: "wanted m out in_buf off (n + k) =
    wanted m out in_buf off n @ wanted m out in_buf (off + n) k"
proof (cases out)
  case Null
  then show ?thesis by (simp add: wanted_def replicate_add)
next
  case (Ptr b p)
  have "8 * p + (off + n) = n + (8 * p + off)" by simp
  then show ?thesis unfolding wanted_def Ptr ptr.case by (simp only: take_add drop_drop)
qed

definition ptr_blocks :: "ptr \<Rightarrow> nat set" where
  "ptr_blocks p = (case block_of p of None \<Rightarrow> {} | Some b \<Rightarrow> {b})"

lemma emit_ready:
  assumes r: "ready L ob wb rb cb es s" and fits: "write_count (ctx s) + length bs < write_size (ctx s)"
  shows "ready L ob wb rb cb es (emit wb bs s)"
    and "stream ob wb (emit wb bs s) = stream ob wb s @ bs"
    and "keeps (own_blocks wb rb cb) s (emit wb bs s)"
proof -
  have inv: "minv wb rb cb es s" using r by (simp add: ready_def)
  then obtain W where W: "memory s wb = Some W" "length W = write_size (ctx s)"
    by (auto simp: minv_def sized_def)
  show "ready L ob wb rb cb es (emit wb bs s)"
    using r minv_emit [OF inv fits] by (simp add: ready_def)
  show "stream ob wb (emit wb bs s) = stream ob wb s @ bs"
    using pending_emit [OF W(1)] W(2) fits by (simp add: stream_def)
  show "keeps (own_blocks wb rb cb) s (emit wb bs s)"
    using sized_emit [of s _ _ bs W wb] W fits by (auto simp: keeps_def)
qed

text \<open>The optional read at the end of a command.\<close>

lemma opt_read:
  assumes r: "ready L ob wb rb cb es s" and wc: "0 < write_count (ctx s)"
    and ok: "in_ok (own_blocks wb rb cb) (memory s) in_buf at n"
    and room: "in_buf \<noteq> Null \<Longrightarrow> read_count (ctx s) + (n + 7) div 8 \<le> read_size (ctx s)"
    and n: "0 < n" "n < 2 ^ 31" and off: "off + n = 8 * ((n + 7) div 8)"
  shows "\<exists>s' es'. (if in_buf \<noteq> Null then do {
        (k, s) \<leftarrow> buffer_add_read in_buf at n off s;
        Some (v\<lparr>in_at := u32_add (in_at v) k\<rparr>, s)
      } else Some (v, s)) =
      Some (if in_buf \<noteq> Null then v\<lparr>in_at := u32_add (in_at v) n\<rparr> else v, s') \<and>
    ready L ob wb rb cb es' s' \<and> stream ob wb s' = stream ob wb s \<and> memory s' = memory s \<and>
    dst_blocks es' \<subseteq> dst_blocks es \<union> ptr_blocks in_buf \<and> device s' = device s \<and>
    (in_buf \<noteq> Null \<longrightarrow> 0 < room (queue s) \<longrightarrow>
       es' = es @ [read_entry in_buf at rb (read_count (ctx s)) off n] \<and>
       room (queue s') = room (queue s) - 1) \<and>
    ctx s' = (ctx s)\<lparr>read_count := read_count (ctx s) + (if in_buf = Null then 0 else (n + 7) div 8)\<rparr>"
proof (cases in_buf)
  case Null
  then show ?thesis using r by (intro exI [of _ s] exI [of _ es]) simp
next
  case (Ptr ib io)
  with ok obtain D where D: "memory s ib = Some D" "ib \<notin> own_blocks wb rb cb"
    "8 * io + at + n \<le> 8 * length D"
    by (auto simp: in_ok_def)
  have inv: "minv wb rb cb es s" using r by (simp add: ready_def)
  have rm: "read_count (ctx s) + (n + 7) div 8 \<le> read_size (ctx s)" using room Ptr by simp
  obtain s' es' where s': "buffer_add_read (Ptr ib io) at n off s = Some (n, s')"
    "minv wb rb cb es' s'" "expects ((n + 7) div 8) s s'"
    "if room (queue s) = 0 then es' = es
     else es' = es @ [read_entry (Ptr ib io) at rb (read_count (ctx s)) off n] \<and>
       room (queue s') = room (queue s) - 1"
    using buffer_add_read_expects [OF inv D rm n(2) eq_imp_le [OF off] wc n(1)] by blast
  note ex = expects_fields [OF s'(3)]
  have "ready L ob wb rb cb es' s'" using r s'(2) ex by (simp add: ready_def)
  moreover have "dst_blocks es' \<subseteq> dst_blocks es \<union> ptr_blocks in_buf"
    using s'(4) Ptr by (auto simp: ptr_blocks_def read_entry_def dst_blocks_def split: if_splits)
  ultimately show ?thesis
    using s'(1,4) ex Ptr by (intro exI [of _ s'] exI [of _ es']) (simp add: stream_def)
qed

text \<open>The optional payload of a command.\<close>

lemma opt_write:
  assumes r: "ready L ob wb rb cb es s" and ok: "out_ok (own_blocks wb rb cb) (memory s) out at n"
    and fits: "out \<noteq> Null \<Longrightarrow> write_count (ctx s) + (n + 7) div 8 < write_size (ctx s)"
    and n: "n < 2 ^ 31"
  shows "\<exists>data. (if out \<noteq> Null then do {
        (k, s) \<leftarrow> buffer_write out at n s;
        Some (v\<lparr>out_at := u32_add (out_at v) k\<rparr>, s)
      } else Some (v, s)) =
      Some (if out \<noteq> Null then v\<lparr>out_at := u32_add (out_at v) n\<rparr> else v, emit wb data s) \<and>
    length data = (if out \<noteq> Null then (n + 7) div 8 else 0) \<and>
    (out \<noteq> Null \<longrightarrow> take n (bits_of data) = wanted (memory s) out in_buf at n)"
proof (cases out)
  case Null
  obtain W where "memory s wb = Some W"
    using r by (auto simp: ready_def minv_def sized_def)
  with Null show ?thesis by (intro exI [of _ "[]"]) simp
next
  case (Ptr b p)
  with ok obtain S where S: "memory s b = Some S" "b \<noteq> wb" "8 * p + at + n \<le> 8 * length S"
    by (auto simp: out_ok_def)
  have inv: "minv wb rb cb es s" using r by (simp add: ready_def)
  have "write_count (ctx s) + (n + 7) div 8 \<le> write_size (ctx s)" using fits Ptr by simp
  then obtain data where "buffer_write (Ptr b p) at n s = Some (n, emit wb data s)"
    "length data = (n + 7) div 8" "take n (bits_of data) = take n (drop (8 * p + at) (bits_of S))"
    using buffer_write_emit [OF inv S _ n] by blast
  then show ?thesis using Ptr S(1) by (intro exI [of _ data]) (simp add: wanted_def)
qed

text \<open>Several bytes emitted one after the other.\<close>

lemma emit_then_emit:
  assumes "ready L ob wb rb cb es s"
    and "write_count (ctx s) + length xs + length ys < write_size (ctx s)"
  shows "emit wb ys (emit wb xs s) = emit wb (xs @ ys) s"
proof -
  obtain W where "memory s wb = Some W" "length W = write_size (ctx s)"
    using assms(1) by (auto simp: ready_def minv_def sized_def)
  with emit_emit [of s wb W xs ys] assms(2) show ?thesis by simp
qed

lemma ready_write_byte: "ready L ob wb rb cb es s \<Longrightarrow> buffer_write_byte b s = Some (emit wb [b] s)"
  by (rule buffer_write_byte_emit [of wb rb cb es]) (simp add: ready_def)

lemma out_ok_memory:
  "out_ok busy m out at n \<Longrightarrow> own \<subseteq> busy \<Longrightarrow> (\<And>c. c \<notin> own \<Longrightarrow> m' c = m c) \<Longrightarrow> out_ok busy m' out at n"
proof (cases out)
  case Null
  then show ?thesis by (simp add: out_ok_def)
next
  case (Ptr b p)
  assume "out_ok busy m out at n" and "own \<subseteq> busy" and "\<And>c. c \<notin> own \<Longrightarrow> m' c = m c"
  moreover have "b \<notin> busy" using Ptr \<open>out_ok busy m out at n\<close> by (simp add: out_ok_def)
  ultimately have "m' b = m b" by blast
  with Ptr \<open>out_ok busy m out at n\<close> show ?thesis by (simp add: out_ok_def)
qed

lemma out_ok_busy: "out_ok busy m out at n \<Longrightarrow> busy' \<subseteq> busy \<Longrightarrow> out_ok busy' m out at n"
  by (auto simp: out_ok_def split: ptr.splits)

lemma in_ok_memory:
  assumes "in_ok own m in_buf at n" and "\<And>c k. sized m c k \<Longrightarrow> sized m' c k"
  shows "in_ok own m' in_buf at n"
proof (cases in_buf)
  case Null
  then show ?thesis by (simp add: in_ok_def)
next
  case (Ptr b p)
  with assms(1) obtain D where D: "b \<notin> own" "m b = Some D" "8 * p + at + n \<le> 8 * length D"
    by (auto simp: in_ok_def)
  then have "sized m' b (length D)" by (intro assms(2)) (simp add: sized_def)
  with D Ptr show ?thesis by (auto simp: in_ok_def sized_def)
qed

lemma wanted_memory:
  "out_ok busy m out at n \<Longrightarrow> own \<subseteq> busy \<Longrightarrow> (\<And>c. c \<notin> own \<Longrightarrow> m' c = m c) \<Longrightarrow>
    wanted m' out in_buf at' k = wanted m out in_buf at' k"
proof (cases out)
  case Null
  then show ?thesis by (simp add: wanted_def)
next
  case (Ptr b p)
  assume "out_ok busy m out at n" and "own \<subseteq> busy" and "\<And>c. c \<notin> own \<Longrightarrow> m' c = m c"
  moreover have "b \<notin> busy" using Ptr \<open>out_ok busy m out at n\<close> by (simp add: out_ok_def)
  ultimately have "m' b = m b" by blast
  with Ptr show ?thesis by (simp add: wanted_def)
qed

section \<open>One iteration of mpsse_clock_data\<close>

text \<open>The effect of an iteration that clocks \<open>n\<close> bits.\<close>

definition clock_step ::
    "'u libusb \<Rightarrow> 'u observer \<Rightarrow> nat \<Rightarrow> nat \<Rightarrow> nat \<Rightarrow> ptr \<Rightarrow> ptr \<Rightarrow> nat \<Rightarrow>
     bit_copy_queue_entry list \<Rightarrow> clock_vars \<Rightarrow> 'u mpsse \<Rightarrow>
     bit_copy_queue_entry list \<Rightarrow> clock_vars \<Rightarrow> 'u mpsse \<Rightarrow> bool" where
  "clock_step L ob wb rb cb out in_buf n es v s es' v' s' \<longleftrightarrow>
     ready L ob wb rb cb es' s' \<and>
     (\<exists>cmd. advance ob wb s [cmd] s' \<and> clocks_of cmd = n \<and>
        tdi_of cmd = wanted (memory s) out in_buf (out_at v) n \<and>
        receives ob wb rb cb in_buf (in_at v) [cmd] es s es' s') \<and>
     keeps (own_blocks wb rb cb) s s' \<and> dst_blocks es' \<subseteq> dst_blocks es \<union> ptr_blocks in_buf \<and>
     v' = \<lparr>out_at = (if out \<noteq> Null then u32_add (out_at v) n else out_at v),
           in_at = (if in_buf \<noteq> Null then u32_add (in_at v) n else in_at v), rest = rest v - n\<rparr>"

text \<open>
  After the header \<open>h\<close> and the payload \<open>data\<close>, the optional read ends the command.
\<close>

lemma clock_finish:
  assumes r: "ready L ob wb rb cb es s"
    and fits: "write_count (ctx s) + length bs < write_size (ctx s)" and bs: "bs \<noteq> []"
    and dec: "decode bs = Some [cmd]" and cmd: "clocks_of cmd = n"
      "tdi_of cmd = wanted (memory s) out in_buf (out_at v) n"
      "in_buf \<noteq> Null \<Longrightarrow> reply_count cmd = n"
    and ok: "in_ok (own_blocks wb rb cb) (memory s) in_buf (in_at v) n"
    and room: "in_buf \<noteq> Null \<Longrightarrow> read_count (ctx s) + (n + 7) div 8 \<le> read_size (ctx s)"
    and n: "0 < n" "n < 2 ^ 31" and off: "off + n = 8 * ((n + 7) div 8)"
    and v1: "v1 = (if out \<noteq> Null then v\<lparr>out_at := u32_add (out_at v) n\<rparr> else v)"
  shows "\<exists>v' s' es'. (if in_buf \<noteq> Null then do {
        (k, s) \<leftarrow> buffer_add_read in_buf (in_at v1) n off (emit wb bs s);
        Some (v1\<lparr>in_at := u32_add (in_at v1) k\<rparr>, s)
      } else Some (v1, emit wb bs s)) = Some (v', s') \<and>
    clock_step L ob wb rb cb out in_buf n es v s es' (v'\<lparr>rest := rest v - n\<rparr>) s'"
proof -
  note e = emit_ready [OF r fits]
  have at: "in_at v1 = in_at v" by (simp add: v1)
  have ok': "in_ok (own_blocks wb rb cb) (memory (emit wb bs s)) in_buf (in_at v) n"
    using ok e(3) by (auto intro: in_ok_memory simp: keeps_def)
  have room': "read_count (ctx (emit wb bs s)) + (n + 7) div 8 \<le> read_size (ctx (emit wb bs s))"
    if "in_buf \<noteq> Null" using room [OF that] by simp
  obtain s' es' where s': "(if in_buf \<noteq> Null then do {
        (k, s) \<leftarrow> buffer_add_read in_buf (in_at v1) n off (emit wb bs s);
        Some (v1\<lparr>in_at := u32_add (in_at v1) k\<rparr>, s)
      } else Some (v1, emit wb bs s)) =
      Some (if in_buf \<noteq> Null then v1\<lparr>in_at := u32_add (in_at v1) n\<rparr> else v1, s')"
    "ready L ob wb rb cb es' s'" "stream ob wb s' = stream ob wb (emit wb bs s)"
    "memory s' = memory (emit wb bs s)" "dst_blocks es' \<subseteq> dst_blocks es \<union> ptr_blocks in_buf"
    "device s' = device s"
    "in_buf \<noteq> Null \<Longrightarrow> 0 < room (queue (emit wb bs s)) \<Longrightarrow>
      es' = es @ [read_entry in_buf (in_at v) rb (read_count (ctx (emit wb bs s))) off n] \<and>
      room (queue s') = room (queue (emit wb bs s)) - 1"
    "ctx s' = (ctx (emit wb bs s))\<lparr>read_count := read_count (ctx (emit wb bs s)) +
      (if in_buf = Null then 0 else (n + 7) div 8)\<rparr>"
    using opt_read [OF e(1) _ ok' room' n off, of v1] bs unfolding at by auto
  have inv: "minv wb rb cb es s" and inv1: "minv wb rb cb es (emit wb bs s)"
    using r e(1) by (simp_all add: ready_def)
  have rc: "receives ob wb rb cb in_buf (in_at v) [cmd] es s es' s'"
    by (rule command_receives [OF inv _ _ _ inv1 s'(8,4,6) _ room' cmd(1) n(1) off cmd(3),
          of "write_count (ctx s) + length bs"])
      (use s'(7) in \<open>simp_all add: emit_def\<close>)
  have "advance ob wb s [cmd] s'" using s'(3) e(2) dec by (auto simp: advance_def)
  moreover have "keeps (own_blocks wb rb cb) s s'" using e(3) s'(4) by (simp add: keeps_def)
  ultimately have "clock_step L ob wb rb cb out in_buf n es v s es'
      ((if in_buf \<noteq> Null then v1\<lparr>in_at := u32_add (in_at v1) n\<rparr> else v1)\<lparr>rest := rest v - n\<rparr>) s'"
    using s'(2,5) cmd(1,2) rc unfolding clock_step_def by (cases v) (auto simp: v1)
  with s'(1) show ?thesis by blast
qed

lemma zero_byte_bits: "map (bit (0 :: u8)) [0..<n] = replicate n False"
  by (rule nth_equalityI) auto

text \<open>The header and the payload of a command, before the optional read.\<close>

lemma command_bytes:
  assumes r: "ready L ob wb rb cb es s" and ok: "out_ok (own_blocks wb rb cb) (memory s) out at n"
    and fits: "write_count (ctx s) + length h + (if out \<noteq> Null then (n + 7) div 8 else 0) < write_size (ctx s)"
    and n: "n < 2 ^ 31"
  shows "\<exists>data. (if out \<noteq> Null then do {
        (k, s) \<leftarrow> buffer_write out at n (emit wb h s);
        Some (v\<lparr>out_at := u32_add (out_at v) k\<rparr>, s)
      } else Some (v, emit wb h s)) =
      Some (if out \<noteq> Null then v\<lparr>out_at := u32_add (out_at v) n\<rparr> else v, emit wb (h @ data) s) \<and>
    length data = (if out \<noteq> Null then (n + 7) div 8 else 0) \<and>
    (out \<noteq> Null \<longrightarrow> take n (bits_of data) = wanted (memory s) out in_buf at n)"
proof -
  have h: "write_count (ctx s) + length h < write_size (ctx s)" using fits by simp
  note e = emit_ready [OF r h]
  have ok': "out_ok (own_blocks wb rb cb) (memory (emit wb h s)) out at n"
    by (rule out_ok_memory [OF ok subset_refl]) simp
  have w: "wanted (memory (emit wb h s)) out in_buf at n = wanted (memory s) out in_buf at n"
    by (rule wanted_memory [OF ok subset_refl]) simp
  have fits': "write_count (ctx (emit wb h s)) + (n + 7) div 8 < write_size (ctx (emit wb h s))"
    if "out \<noteq> Null" using that fits by simp
  obtain data where d: "(if out \<noteq> Null then do {
        (k, s) \<leftarrow> buffer_write out at n (emit wb h s);
        Some (v\<lparr>out_at := u32_add (out_at v) k\<rparr>, s)
      } else Some (v, emit wb h s)) =
      Some (if out \<noteq> Null then v\<lparr>out_at := u32_add (out_at v) n\<rparr> else v, emit wb data (emit wb h s))"
    "length data = (if out \<noteq> Null then (n + 7) div 8 else 0)"
    "out \<noteq> Null \<longrightarrow> take n (bits_of data) = wanted (memory s) out in_buf at n"
    using opt_write [OF e(1) ok' fits' n, of v in_buf] w by auto
  moreover have "emit wb data (emit wb h s) = emit wb (h @ data) s"
    using emit_then_emit [OF r, of h data] d(2) fits by simp
  ultimately show ?thesis by (intro exI [of _ data]) simp
qed

lemma two_bytes:
  assumes r: "ready L ob wb rb cb es s" and "write_count (ctx s) + 2 < write_size (ctx s)"
  shows "do { s \<leftarrow> buffer_write_byte a s; s \<leftarrow> buffer_write_byte b s; f s } = f (emit wb [a, b] s)"
proof -
  have "write_count (ctx s) + length [a] < write_size (ctx s)" using assms(2) by simp
  note e = emit_ready(1) [OF r this]
  show ?thesis
    using ready_write_byte [OF r] ready_write_byte [OF e] emit_then_emit [OF r, of "[a]" "[b]"] assms(2)
    by simp
qed

lemma clock_bits_law:
  assumes r: "ready L ob wb rb cb es s" and n: "n = rest v" "0 < n" "n < 8"
    and M: "shift_mode (out \<noteq> Null \<or> in_buf = Null) M"
    and rd: "in_buf \<noteq> Null \<Longrightarrow> bit M 5"
    and fits: "write_count (ctx s) + (if out \<noteq> Null \<or> in_buf = Null then 3 else 2) < write_size (ctx s)"
    and room: "in_buf \<noteq> Null \<Longrightarrow> read_count (ctx s) < read_size (ctx s)"
    and o: "out_ok (own_blocks wb rb cb) (memory s) out (out_at v) n"
    and i: "in_ok (own_blocks wb rb cb) (memory s) in_buf (in_at v) n"
  shows "\<exists>v' s' es'. clock_bits out in_buf M v s = Some (v', s') \<and>
    clock_step L ob wb rb cb out in_buf n es v s es' v' s'"
proof -
  let ?h = "[0x02 OR M, of_nat (n - 1)]"
  have c8: "(n + 7) div 8 = 1" using n by simp
  have n31: "n < 2 ^ 31" using n(3) by simp
  have two: "write_count (ctx s) + 2 < write_size (ctx s)" using fits by (simp split: if_splits)
  note head = two_bytes [OF r two, of "0x02 OR M" "of_nat (n - 1)"]
  have f: "write_count (ctx s) + length ?h + (if out \<noteq> Null then (n + 7) div 8 else 0) < write_size (ctx s)"
    using fits c8 by (auto split: if_splits)
  obtain data where d: "(if out \<noteq> Null then do {
        (k, s) \<leftarrow> buffer_write out (out_at v) n (emit wb ?h s);
        Some (v\<lparr>out_at := u32_add (out_at v) k\<rparr>, s)
      } else Some (v, emit wb ?h s)) =
      Some (if out \<noteq> Null then v\<lparr>out_at := u32_add (out_at v) n\<rparr> else v, emit wb (?h @ data) s)"
    "length data = (if out \<noteq> Null then 1 else 0)"
    "out \<noteq> Null \<longrightarrow> take n (bits_of data) = wanted (memory s) out in_buf (out_at v) n"
    using command_bytes [OF r o f n31, of v in_buf] c8 by auto
  define v1 where "v1 = (if out \<noteq> Null then v\<lparr>out_at := u32_add (out_at v) n\<rparr> else v)"
  define z where "z = (if out = Null \<and> in_buf = Null then [0x00 :: u8] else [])"
  let ?bs = "?h @ data @ z"
  have lz: "length data + length z \<le> (if out \<noteq> Null \<or> in_buf = Null then 1 else 0)"
    using d(2) by (auto simp: z_def)
  then have fb: "write_count (ctx s) + length ?bs < write_size (ctx s)"
    using fits by (auto split: if_splits)
  have "\<exists>cmd. decode ?bs = Some [cmd] \<and> clocks_of cmd = n \<and>
    tdi_of cmd = wanted (memory s) out in_buf (out_at v) n \<and> (in_buf \<noteq> Null \<longrightarrow> reply_count cmd = n)"
  proof (cases "out \<noteq> Null \<or> in_buf = Null")
    case True
    then have "length (data @ z) = 1" using d(2) by (auto simp: z_def)
    then obtain b where b: "data @ z = [b]" by (metis One_nat_def length_0_conv length_Suc_conv)
    have "map (bit b) [0..<n] = wanted (memory s) out in_buf (out_at v) n"
    proof (cases "out = Null")
      case True
      with \<open>out \<noteq> Null \<or> in_buf = Null\<close> d(2) b have "b = 0" and "in_buf = Null"
        by (simp_all add: z_def)
      with True show ?thesis using zero_byte_bits [of n] by (simp add: wanted_def)
    next
      case False
      then have "data = [b]" using b by (simp add: z_def)
      with False d(3) n(3) show ?thesis by (simp add: take_byte_bits)
    qed
    with decode_bits_out [of M n b] M True n b rd show ?thesis by (simp add: bit_mode_5)
  next
    case False
    then have "data @ z = []" using d(2) by (simp add: z_def)
    with decode_bits_in [of M n] M False n rd show ?thesis by (simp add: wanted_def bit_mode_5)
  qed
  then obtain cmd where cmd: "decode ?bs = Some [cmd]" "clocks_of cmd = n"
    "tdi_of cmd = wanted (memory s) out in_buf (out_at v) n" "in_buf \<noteq> Null \<Longrightarrow> reply_count cmd = n" by blast
  have rm: "read_count (ctx s) + (n + 7) div 8 \<le> read_size (ctx s)" if "in_buf \<noteq> Null"
    using room [OF that] c8 by simp
  have off: "8 - n + n = 8 * ((n + 7) div 8)" using n(3) c8 by simp
  obtain v' s' es' where fin: "(if in_buf \<noteq> Null then do {
        (k, s) \<leftarrow> buffer_add_read in_buf (in_at v1) n (8 - n) (emit wb ?bs s);
        Some (v1\<lparr>in_at := u32_add (in_at v1) k\<rparr>, s)
      } else Some (v1, emit wb ?bs s)) = Some (v', s')"
    "clock_step L ob wb rb cb out in_buf n es v s es' (v'\<lparr>rest := rest v - n\<rparr>) s'"
    using clock_finish [OF r fb _ cmd i rm n(2) n31 off v1_def] by auto
  have rest: "rest v1 = n" "rest v = n" using n(1) by (simp_all add: v1_def)
  have body: "clock_bits out in_buf M v s = do {
     (v, s) \<leftarrow> (if in_buf \<noteq> Null then do {
         (k, s) \<leftarrow> buffer_add_read in_buf (in_at v1) n (8 - n) (emit wb (?h @ data) s);
         Some (v1\<lparr>in_at := u32_add (in_at v1) k\<rparr>, s)
       } else Some (v1, emit wb (?h @ data) s));
     s \<leftarrow> (if out = Null \<and> in_buf = Null then buffer_write_byte 0x00 s else Some s);
     Some (v\<lparr>rest := 0\<rparr>, s)
   }"
    unfolding clock_bits_def rest(2) head d(1) v1_def [symmetric] bind.bind_lunit prod.case rest(1) ..
  have zero: "v'\<lparr>rest := rest v - n\<rparr> = v'\<lparr>rest := 0\<rparr>" using n(1) by simp
  show ?thesis
  proof (cases "out = Null \<and> in_buf = Null")
    case True
    have h0: "write_count (ctx s) + length ?h < write_size (ctx s)" using two by simp
    have dn: "data = []" using d(2) True by simp
    then have "buffer_write_byte 0x00 (emit wb ?h s) = Some (emit wb ?bs s)"
      using ready_write_byte [OF emit_ready(1) [OF r h0]] emit_then_emit [OF r, of ?h "[0x00]"] fb True
      by (simp add: z_def)
    then have "clock_bits out in_buf M v s = Some (v1\<lparr>rest := 0\<rparr>, emit wb ?bs s)"
      unfolding body using True dn by simp
    with fin zero True show ?thesis by auto
  next
    case False
    then have zn: "z = []" by (simp add: z_def)
    have "clock_bits out in_buf M v s = Some (v'\<lparr>rest := 0\<rparr>, s')"
      using fin(1) False unfolding body zn append_Nil2 by (auto split: if_splits)
    with fin(2) zero show ?thesis by auto
  qed
qed

lemma this_bytes_bounds:
  assumes inv: "minv wb rb cb es s" and len: "8 \<le> len"
    and fits: "write_count (ctx s) + (if out \<noteq> Null \<or> in_buf = Null then 4 else 3) < write_size (ctx s)"
    and room: "in_buf \<noteq> Null \<Longrightarrow> read_count (ctx s) < read_size (ctx s)"
    and k: "k = clock_this_bytes out in_buf len (ctx s)"
  shows "0 < k" "k \<le> 65536" "8 * k \<le> len"
    "write_count (ctx s) + 3 + (if out \<noteq> Null \<or> in_buf = Null then k else 0) < write_size (ctx s)"
    "in_buf \<noteq> Null \<Longrightarrow> read_count (ctx s) + k \<le> read_size (ctx s)"
proof -
  define q where "q = len div 8"
  have q: "0 < q" "8 * q \<le> len" using len by (simp_all add: q_def div_greater_zero_iff)
  define sp where "sp = write_size (ctx s) - write_count (ctx s) - 1"
  define rs where "rs = read_size (ctx s) - read_count (ctx s)"
  note sz = minv_sizes [OF inv]
  have sp: "buffer_write_space (ctx s) = sp" "sp < 2 ^ 28"
    using minv_write_space [OF inv] sz(2) by (simp_all add: sp_def)
  have rs: "buffer_read_space (ctx s) = rs" using minv_read_space [OF inv] by (simp add: rs_def)
  have r0: "0 < rs" if "in_buf \<noteq> Null" using room [OF that] by (simp add: rs_def)
  have s4: "(if out \<noteq> Null \<or> in_buf = Null then 4 else 3) \<le> sp" using fits by (simp add: sp_def)
  have s3: "u32_sub sp 3 = sp - 3" using s4 sp(2) by (simp split: if_splits)
  define k1 where "k1 = min q 65536"
  define k2 where "k2 = (if out \<noteq> Null \<or> in_buf = Null then min k1 (sp - 3) else k1)"
  have a3: "u32_add k1 3 = k1 + 3" by (simp add: k1_def)
  have kk: "k = (if in_buf \<noteq> Null then min k2 rs else k2)"
    unfolding k clock_this_bytes_def Let_def q_def [symmetric] sp(1) rs
    using a3 s3 s4 by (auto simp: k2_def k1_def min_def split: if_splits)
  show "0 < k" using q(1) s4 r0 by (auto simp: kk k2_def k1_def split: if_splits)
  show "k \<le> 65536" by (auto simp: kk k2_def k1_def min_def)
  have "k \<le> q" by (auto simp: kk k2_def k1_def min_def)
  with q(2) show "8 * k \<le> len" by linarith
  have "(if out \<noteq> Null \<or> in_buf = Null then k else 0) + 3 \<le> sp"
    using s4 by (auto simp: kk k2_def min_def split: if_splits)
  then show "write_count (ctx s) + 3 + (if out \<noteq> Null \<or> in_buf = Null then k else 0) < write_size (ctx s)"
    using s4 unfolding sp_def by linarith
  show "read_count (ctx s) + k \<le> read_size (ctx s)" if "in_buf \<noteq> Null"
  proof -
    have "k \<le> rs" using that by (simp add: kk)
    then show ?thesis using room [OF that] by (simp add: rs_def)
  qed
qed

lemma bits_of_zero_bytes: "bits_of (replicate k 0) = replicate (8 * k) False"
  by (rule bits_of_zeros)

lemma three_bytes:
  assumes r: "ready L ob wb rb cb es s" and "write_count (ctx s) + 3 < write_size (ctx s)"
  shows "do { s \<leftarrow> buffer_write_byte a s; s \<leftarrow> buffer_write_byte b s; s \<leftarrow> buffer_write_byte c s; f s } =
    f (emit wb [a, b, c] s)"
proof -
  have "write_count (ctx s) + length [a] < write_size (ctx s)"
    and "write_count (ctx s) + length [a, b] < write_size (ctx s)" using assms(2) by simp_all
  note e = emit_ready(1) [OF r this(1)] emit_ready(1) [OF r this(2)]
  show ?thesis
    using ready_write_byte [OF r] ready_write_byte [OF e(1)] ready_write_byte [OF e(2)]
      emit_then_emit [OF r, of "[a]" "[b]"] emit_then_emit [OF r, of "[a, b]" "[c]"] assms(2)
    by simp
qed

lemma clock_bytes_law:
  assumes r: "ready L ob wb rb cb es s" and len: "8 \<le> rest v"
    and k: "k = clock_this_bytes out in_buf (rest v) (ctx s)"
    and M: "shift_mode (out \<noteq> Null \<or> in_buf = Null) M"
    and rd: "in_buf \<noteq> Null \<Longrightarrow> bit M 5"
    and fits: "write_count (ctx s) + (if out \<noteq> Null \<or> in_buf = Null then 4 else 3) < write_size (ctx s)"
    and room: "in_buf \<noteq> Null \<Longrightarrow> read_count (ctx s) < read_size (ctx s)"
    and o: "out_ok (own_blocks wb rb cb) (memory s) out (out_at v) (8 * k)"
    and i: "in_ok (own_blocks wb rb cb) (memory s) in_buf (in_at v) (8 * k)"
  shows "\<exists>v' s' es'. clock_bytes out in_buf M v s = Some (v', s') \<and>
    clock_step L ob wb rb cb out in_buf (8 * k) es v s es' v' s'"
proof -
  have inv: "minv wb rb cb es s" using r by (simp add: ready_def)
  note kb = this_bytes_bounds [OF inv len fits room k]
  let ?h = "[M, of_nat (k - 1) AND 0xff, of_nat ((k - 1) div 2 ^ 8)]"
  have c8: "(8 * k + 7) div 8 = k" by simp
  have n31: "8 * k < 2 ^ 31" and n0: "0 < 8 * k" using kb(1,2) by simp_all
  have three: "write_count (ctx s) + 3 < write_size (ctx s)" using kb(4) by (simp split: if_splits)
  note head = three_bytes [OF r three, of M "of_nat (k - 1) AND 0xff" "of_nat ((k - 1) div 2 ^ 8)"]
  have f: "write_count (ctx s) + length ?h + (if out \<noteq> Null then (8 * k + 7) div 8 else 0) <
      write_size (ctx s)"
    using kb(4) c8 by (auto split: if_splits)
  obtain data where d: "(if out \<noteq> Null then do {
        (n, s) \<leftarrow> buffer_write out (out_at v) (8 * k) (emit wb ?h s);
        Some (v\<lparr>out_at := u32_add (out_at v) n\<rparr>, s)
      } else Some (v, emit wb ?h s)) =
      Some (if out \<noteq> Null then v\<lparr>out_at := u32_add (out_at v) (8 * k)\<rparr> else v, emit wb (?h @ data) s)"
    "length data = (if out \<noteq> Null then k else 0)"
    "out \<noteq> Null \<longrightarrow> take (8 * k) (bits_of data) = wanted (memory s) out in_buf (out_at v) (8 * k)"
    using command_bytes [OF r o f n31, of v in_buf] unfolding c8 by blast
  define v1 where "v1 = (if out \<noteq> Null then v\<lparr>out_at := u32_add (out_at v) (8 * k)\<rparr> else v)"
  define z where "z = (if out = Null \<and> in_buf = Null then replicate k (0x00 :: u8) else [])"
  let ?bs = "?h @ data @ z"
  have lz: "length data + length z = (if out \<noteq> Null \<or> in_buf = Null then k else 0)"
    using d(2) by (auto simp: z_def)
  then have fb: "write_count (ctx s) + length ?bs < write_size (ctx s)"
    using kb(4) by (auto split: if_splits)
  have "\<exists>cmd. decode ?bs = Some [cmd] \<and> clocks_of cmd = 8 * k \<and>
    tdi_of cmd = wanted (memory s) out in_buf (out_at v) (8 * k) \<and> (in_buf \<noteq> Null \<longrightarrow> reply_count cmd = 8 * k)"
  proof (cases "out \<noteq> Null \<or> in_buf = Null")
    case True
    then have l: "length (data @ z) = k" using lz by simp
    have "bits_of (data @ z) = wanted (memory s) out in_buf (out_at v) (8 * k)"
    proof (cases "out = Null")
      case True
      with \<open>out \<noteq> Null \<or> in_buf = Null\<close> d(2) have "data @ z = replicate k 0" and "in_buf = Null"
        by (simp_all add: z_def)
      then show ?thesis using True by (simp add: wanted_def bits_of_zero_bytes)
    next
      case False
      then show ?thesis using d(2,3) by (simp add: z_def)
    qed
    moreover have "decode ?bs = Some [Shift M (8 * k) (Some (bits_of (data @ z)))]"
      using decode_bytes_out [OF _ kb(1,2) l, of M] M True by simp
    ultimately show ?thesis using rd by simp
  next
    case False
    then have "data @ z = []" using d(2) by (simp add: z_def)
    then have "decode ?bs = Some [Shift M (8 * k) None]"
      using decode_bytes_in [OF _ kb(1,2), of M] M False by simp
    with False rd show ?thesis by (simp add: wanted_def)
  qed
  then obtain cmd where cmd: "decode ?bs = Some [cmd]" "clocks_of cmd = 8 * k"
    "tdi_of cmd = wanted (memory s) out in_buf (out_at v) (8 * k)"
    "in_buf \<noteq> Null \<Longrightarrow> reply_count cmd = 8 * k" by blast
  have rm: "read_count (ctx s) + (8 * k + 7) div 8 \<le> read_size (ctx s)" if "in_buf \<noteq> Null"
    using kb(5) that c8 by simp
  have off: "0 + 8 * k = 8 * ((8 * k + 7) div 8)" using c8 by simp
  obtain v' s' es' where fin: "(if in_buf \<noteq> Null then do {
        (n, s) \<leftarrow> buffer_add_read in_buf (in_at v1) (8 * k) 0 (emit wb ?bs s);
        Some (v1\<lparr>in_at := u32_add (in_at v1) n\<rparr>, s)
      } else Some (v1, emit wb ?bs s)) = Some (v', s')"
    "clock_step L ob wb rb cb out in_buf (8 * k) es v s es' (v'\<lparr>rest := rest v - 8 * k\<rparr>) s'"
    using clock_finish [OF r fb _ cmd i rm n0 n31 off v1_def] by auto
  have k0: "(k > 0) = True" using kb(1) by simp
  have m8: "k * 8 = 8 * k" by simp
  have body: "clock_bytes out in_buf M v s = do {
     (v, s) \<leftarrow> (if in_buf \<noteq> Null then do {
         (n, s) \<leftarrow> buffer_add_read in_buf (in_at v1) (8 * k) 0 (emit wb (?h @ data) s);
         Some (v1\<lparr>in_at := u32_add (in_at v1) n\<rparr>, s)
       } else Some (v1, emit wb (?h @ data) s));
     s \<leftarrow> (if out = Null \<and> in_buf = Null then write_zeros k s else Some s);
     Some (v\<lparr>rest := rest v - 8 * k\<rparr>, s)
   }"
    unfolding clock_bytes_def Let_def k [symmetric] k0 if_True head m8 d(1) v1_def [symmetric]
      bind.bind_lunit prod.case ..
  have rest: "rest v1 = rest v" by (simp add: v1_def)
  show ?thesis
  proof (cases "out = Null \<and> in_buf = Null")
    case True
    have h0: "write_count (ctx s) + length ?h < write_size (ctx s)" using three by simp
    have dn: "data = []" using d(2) True by simp
    have "minv wb rb cb es (emit wb ?h s)" using emit_ready(1) [OF r h0] by (simp add: ready_def)
    moreover have "write_count (ctx (emit wb ?h s)) + k < write_size (ctx (emit wb ?h s))"
      using kb(4) True by simp
    ultimately have "write_zeros k (emit wb ?h s) = Some (emit wb (replicate k 0) (emit wb ?h s))"
      by (rule write_zeros_emit)
    also have "emit wb (replicate k 0) (emit wb ?h s) = emit wb ?bs s"
      using emit_then_emit [OF r, of ?h "replicate k 0"] fb True dn by (simp add: z_def)
    finally have "clock_bytes out in_buf M v s = Some (v1\<lparr>rest := rest v - 8 * k\<rparr>, emit wb ?bs s)"
      unfolding body using True dn rest by simp
    with fin True show ?thesis by auto
  next
    case False
    then have zn: "z = []" by (auto simp: z_def)
    have rv: "rest v' = rest v"
      using fin(1) rest False by (auto split: if_splits bind_splits)
    have neg: "(out = Null \<and> in_buf = Null) = False" using False by simp
    have "clock_bytes out in_buf M v s = Some (v'\<lparr>rest := rest v - 8 * k\<rparr>, s')"
      using fin(1) rv unfolding body zn append_Nil2 neg if_False by (auto split: if_splits)
    with fin(2) show ?thesis by auto
  qed
qed

section \<open>The loop of mpsse_clock_data\<close>

text \<open>The flush before a command, when there is no room for the smallest one.\<close>

lemma clock_room_law:
  assumes r: "ready L ob wb rb cb es s"
  shows "\<exists>s1 es1 cs. clock_room L out in_buf len s = Some s1 \<and> ready L ob wb rb cb es1 s1 \<and>
    advance ob wb s cs s1 \<and> quiet cs \<and> keeps (own_blocks wb rb cb \<union> dst_blocks es) s s1 \<and>
    dst_blocks es1 \<subseteq> dst_blocks es \<and> receives ob wb rb cb in_buf at cs es s es1 s1 \<and>
    write_count (ctx s1) + (if out \<noteq> Null \<or> in_buf = Null then 4 else 3) <
      write_size (ctx s1) + (if len < 8 then 1 else 0) \<and>
    (in_buf \<noteq> Null \<longrightarrow> read_count (ctx s1) < read_size (ctx s1))"
proof -
  have inv: "minv wb rb cb es s" using r by (simp add: ready_def)
  note sz = minv_sizes [OF inv]
  let ?need = "if out \<noteq> Null \<or> in_buf = Null then 4 else (3 :: nat)"
  let ?bit = "if len < 8 then 1 else (0 :: nat)"
  have n: "(if out \<noteq> Null \<or> (out = Null \<and> in_buf = Null) then 4 else (3 :: nat)) = ?need" by auto
  have sp: "u32_add (buffer_write_space (ctx s)) ?bit = write_size (ctx s) - write_count (ctx s) - 1 + ?bit"
    using minv_write_space [OF inv] sz(2) by (auto intro: u32_add_small)
  let ?flush = "write_size (ctx s) - write_count (ctx s) - 1 + ?bit < ?need \<or>
    (in_buf \<noteq> Null \<and> read_size (ctx s) - read_count (ctx s) < 1)"
  have room: "clock_room L out in_buf len s = (if ?flush then flush_into_retval L s else Some s)"
    unfolding clock_room_def Let_def n sp minv_read_space [OF inv] ..
  show ?thesis
  proof (cases ?flush)
    case True
    obtain s1 cs where s1: "flush_into_retval L s = Some s1" "ready L ob wb rb cb [] s1"
      "ctx s1 = emptied (ctx s)" "advance ob wb s cs s1" "quiet cs"
      "keeps (own_blocks wb rb cb \<union> dst_blocks es) s s1" "flushed ob wb rb cb es s s1"
      using flush_ready [OF r] by blast
    moreover have "receives ob wb rb cb in_buf at cs es s [] s1"
      using flushed_receives [OF inv s1(7,5)] .
    ultimately show ?thesis
      using True room sz(1,3) by (intro exI [of _ s1] exI [of _ "[]"] exI [of _ cs]) (auto simp: emptied_def)
  next
    case False
    then have "write_count (ctx s) + ?need < write_size (ctx s) + ?bit"
      using sz(7) by linarith
    moreover have "in_buf \<noteq> Null \<longrightarrow> read_count (ctx s) < read_size (ctx s)"
      using False by auto
    moreover have "clock_room L out in_buf len s = Some s" using room False by (simp only: if_False)
    moreover have "keeps (own_blocks wb rb cb \<union> dst_blocks es) s s" by (simp add: keeps_def)
    ultimately show ?thesis
      using r advance_refl receives_refl by (intro exI [of _ s] exI [of _ es] exI [of _ "[]"]) (auto simp: quiet_def)
  qed
qed

lemma out_ok_less: "out_ok busy m out at n \<Longrightarrow> k \<le> n \<Longrightarrow> out_ok busy m out at k"
  by (auto simp: out_ok_def split: ptr.splits)

lemma in_ok_less: "in_ok own m in_buf at n \<Longrightarrow> k \<le> n \<Longrightarrow> in_ok own m in_buf at k"
  by (auto simp: in_ok_def split: ptr.splits)

lemma out_ok_next: "out_ok busy m out at n \<Longrightarrow> k \<le> n \<Longrightarrow> out_ok busy m out (at + k) (n - k)"
  by (auto simp: out_ok_def split: ptr.splits)

lemma in_ok_next: "in_ok own m in_buf at n \<Longrightarrow> k \<le> n \<Longrightarrow> in_ok own m in_buf (at + k) (n - k)"
  by (auto simp: in_ok_def split: ptr.splits)

text \<open>
  The effect of a part of a transfer that clocks the next \<open>n\<close> bits, possibly with flushes;
  \<open>bits\<close> are the bits it carries, on the line that \<open>line\<close> selects.
\<close>

definition clocked ::
    "(mpsse_cmd list \<Rightarrow> 'a list) \<Rightarrow> 'u libusb \<Rightarrow> 'u observer \<Rightarrow> nat \<Rightarrow> nat \<Rightarrow> nat \<Rightarrow> ptr \<Rightarrow> nat \<Rightarrow>
     'a list \<Rightarrow> nat \<Rightarrow> bit_copy_queue_entry list \<Rightarrow> 'u mpsse \<Rightarrow> bit_copy_queue_entry list \<Rightarrow> 'u mpsse \<Rightarrow> bool" where
  "clocked line L ob wb rb cb in_buf at bits n es s es' s' \<longleftrightarrow>
     ready L ob wb rb cb es' s' \<and>
     (\<exists>cs. advance ob wb s cs s' \<and> line cs = bits \<and> clocks cs = n \<and>
        receives ob wb rb cb in_buf at cs es s es' s') \<and>
     keeps (own_blocks wb rb cb \<union> dst_blocks es \<union> ptr_blocks in_buf) s s' \<and>
     dst_blocks es' \<subseteq> dst_blocks es \<union> ptr_blocks in_buf"

lemma clocked_trans:
  assumes "clocked line L ob wb rb cb in_buf at xs n es s es1 s1"
    and "clocked line L ob wb rb cb in_buf at' ys k es1 s1 es2 s2"
    and "\<And>cs ds. line (cs @ ds) = line cs @ line ds"
    and "in_buf \<noteq> Null \<Longrightarrow> at' = at + n"
  shows "clocked line L ob wb rb cb in_buf at (xs @ ys) (n + k) es s es2 s2"
proof -
  let ?B = "own_blocks wb rb cb \<union> dst_blocks es \<union> ptr_blocks in_buf"
  from assms(1) obtain cs where 1: "advance ob wb s cs s1" "line cs = xs" "clocks cs = n"
    "keeps ?B s s1" "dst_blocks es1 \<subseteq> dst_blocks es \<union> ptr_blocks in_buf"
    "receives ob wb rb cb in_buf at cs es s es1 s1"
    by (auto simp: clocked_def)
  from assms(2) obtain ds where 2: "advance ob wb s1 ds s2" "line ds = ys" "clocks ds = k"
    "keeps (own_blocks wb rb cb \<union> dst_blocks es1 \<union> ptr_blocks in_buf) s1 s2"
    "dst_blocks es2 \<subseteq> dst_blocks es1 \<union> ptr_blocks in_buf" "ready L ob wb rb cb es2 s2"
    "receives ob wb rb cb in_buf at' ds es1 s1 es2 s2"
    by (auto simp: clocked_def)
  have "receives ob wb rb cb in_buf (at + clocks cs) ds es1 s1 es2 s2"
    using receives_at [OF 2(7)] 1(3) assms(4) by simp
  with receives_trans [OF 1(6)] have "receives ob wb rb cb in_buf at (cs @ ds) es s es2 s2" .
  have "keeps ?B s1 s2" using 2(4) 1(5) by (auto intro: keeps_mono)
  with 1(4) have "keeps ?B s s2" by (auto simp: keeps_def)
  moreover have "dst_blocks es2 \<subseteq> dst_blocks es \<union> ptr_blocks in_buf" using 1(5) 2(5) by blast
  moreover have "line (cs @ ds) = xs @ ys" "clocks (cs @ ds) = n + k"
    using 1(2,3) 2(2,3) assms(3) by simp_all
  moreover note \<open>receives ob wb rb cb in_buf at (cs @ ds) es s es2 s2\<close>
  ultimately show ?thesis
    using advance_trans [OF 1(1) 2(1)] 2(6) unfolding clocked_def by blast
qed

lemma clock_body_law:
  assumes r: "ready L ob wb rb cb es s" and pos: "0 < rest v"
    and M: "shift_mode (out \<noteq> Null \<or> in_buf = Null) M"
    and rd: "in_buf \<noteq> Null \<Longrightarrow> bit M 5"
    and o: "out_ok (own_blocks wb rb cb \<union> dst_blocks es) (memory s) out (out_at v) (rest v)"
    and i: "in_ok (own_blocks wb rb cb) (memory s) in_buf (in_at v) (rest v)"
  shows "\<exists>v' s' es' n. clock_body L out in_buf M v s = Some (v', s') \<and> 0 < n \<and> n \<le> rest v \<and>
    clocked tdi_stream L ob wb rb cb in_buf (in_at v) (wanted (memory s) out in_buf (out_at v) n) n es s es' s' \<and>
    v' = \<lparr>out_at = (if out \<noteq> Null then u32_add (out_at v) n else out_at v),
          in_at = (if in_buf \<noteq> Null then u32_add (in_at v) n else in_at v), rest = rest v - n\<rparr>"
proof -
  let ?own = "own_blocks wb rb cb"
  obtain s1 es1 cs where s1: "clock_room L out in_buf (rest v) s = Some s1" "ready L ob wb rb cb es1 s1"
    "advance ob wb s cs s1" "quiet cs" "keeps (?own \<union> dst_blocks es) s s1"
    "dst_blocks es1 \<subseteq> dst_blocks es"
    "write_count (ctx s1) + (if out \<noteq> Null \<or> in_buf = Null then 4 else 3) <
      write_size (ctx s1) + (if rest v < 8 then 1 else 0)"
    "in_buf \<noteq> Null \<longrightarrow> read_count (ctx s1) < read_size (ctx s1)"
    "receives ob wb rb cb in_buf (in_at v) cs es s es1 s1"
    using clock_room_law [OF r] by blast
  have m1: "memory s1 c = memory s c" if "c \<notin> ?own \<union> dst_blocks es" for c
    using that s1(5) by (simp add: keeps_def)
  have w: "wanted (memory s1) out in_buf (out_at v) k = wanted (memory s) out in_buf (out_at v) k" for k
    by (rule wanted_memory [OF o subset_refl m1])
  have "out_ok (?own \<union> dst_blocks es) (memory s1) out (out_at v) (rest v)"
    by (rule out_ok_memory [OF o subset_refl m1])
  then have o1: "out_ok ?own (memory s1) out (out_at v) (rest v)" by (rule out_ok_busy) simp
  have i1: "in_ok ?own (memory s1) in_buf (in_at v) (rest v)"
    using i s1(5) by (auto intro: in_ok_memory simp: keeps_def)
  have "\<exists>v' s' es' n. clock_body L out in_buf M v s = Some (v', s') \<and> 0 < n \<and> n \<le> rest v \<and>
    clock_step L ob wb rb cb out in_buf n es1 v s1 es' v' s'"
  proof (cases "rest v < 8")
    case True
    have f: "write_count (ctx s1) + (if out \<noteq> Null \<or> in_buf = Null then 3 else 2) < write_size (ctx s1)"
      using s1(7) True by (auto split: if_splits)
    show ?thesis
      using clock_bits_law [OF s1(2) refl pos True M rd f _ o1 i1] s1(1,8) True pos
      by (auto simp: clock_body_def)
  next
    case False
    then have len: "8 \<le> rest v" by simp
    have f: "write_count (ctx s1) + (if out \<noteq> Null \<or> in_buf = Null then 4 else 3) < write_size (ctx s1)"
      using s1(7) False by simp
    define k where "k = clock_this_bytes out in_buf (rest v) (ctx s1)"
    have inv: "minv wb rb cb es1 s1" using s1(2) by (simp add: ready_def)
    have rm: "in_buf \<noteq> Null \<Longrightarrow> read_count (ctx s1) < read_size (ctx s1)" using s1(8) by simp
    have kb: "0 < k" "8 * k \<le> rest v"
      using this_bytes_bounds(1,3) [OF inv len f rm k_def] by simp_all
    have "\<exists>v' s' es'. clock_bytes out in_buf M v s1 = Some (v', s') \<and>
      clock_step L ob wb rb cb out in_buf (8 * k) es1 v s1 es' v' s'"
      by (rule clock_bytes_law [OF s1(2) len k_def M rd f rm out_ok_less [OF o1 kb(2)] in_ok_less [OF i1 kb(2)]])
    then obtain v' s' es' where "clock_bytes out in_buf M v s1 = Some (v', s')"
      "clock_step L ob wb rb cb out in_buf (8 * k) es1 v s1 es' v' s'" by blast
    with s1(1) False kb show ?thesis
      by (intro exI [of _ v'] exI [of _ s'] exI [of _ es'] exI [of _ "8 * k"]) (simp add: clock_body_def)
  qed
  then obtain v' s' es' n where b: "clock_body L out in_buf M v s = Some (v', s')" "0 < n" "n \<le> rest v"
    and st: "clock_step L ob wb rb cb out in_buf n es1 v s1 es' v' s'" by blast
  from st obtain cmd where cmd: "advance ob wb s1 [cmd] s'" "clocks_of cmd = n"
    "tdi_of cmd = wanted (memory s1) out in_buf (out_at v) n" "keeps ?own s1 s'"
    "dst_blocks es' \<subseteq> dst_blocks es1 \<union> ptr_blocks in_buf" "ready L ob wb rb cb es' s'"
    "receives ob wb rb cb in_buf (in_at v) [cmd] es1 s1 es' s'"
    by (auto simp: clock_step_def)
  have "receives ob wb rb cb in_buf (in_at v + clocks cs) [cmd] es1 s1 es' s'"
    using cmd(7) s1(4) by simp
  note rv = receives_trans [OF s1(9) this]
  have "keeps (?own \<union> dst_blocks es \<union> ptr_blocks in_buf) s s'"
    using s1(5) cmd(4) by (auto simp: keeps_def)
  moreover have "tdi_stream (cs @ [cmd]) = wanted (memory s) out in_buf (out_at v) n"
    "clocks (cs @ [cmd]) = n" using s1(4) cmd(2,3) w by simp_all
  ultimately have "clocked tdi_stream L ob wb rb cb in_buf (in_at v)
      (wanted (memory s) out in_buf (out_at v) n) n es s es' s'"
    using advance_trans [OF s1(3) cmd(1)] cmd(5,6) s1(6) rv unfolding clocked_def by blast
  with b st show ?thesis by (auto simp: clock_step_def)
qed

lemma wanted_0: "wanted m out in_buf at 0 = []"
  by (cases out) (simp_all add: wanted_def)

lemma clocked_refl:
  "ready L ob wb rb cb es s \<Longrightarrow> line [] = [] \<Longrightarrow> clocked line L ob wb rb cb in_buf at [] 0 es s es s"
  using advance_refl [of ob wb s] receives_refl by (auto simp: clocked_def keeps_def intro!: exI [of _ "[]"])

text \<open>
  Both clocking functions are loops over a body that clocks the next bits; \<open>g\<close> is what a bit of
  the caller's buffer puts on the line.
\<close>

lemma clocked_loop:
  assumes loop: "\<And>v s. loop v s = (if rest v > 0 then do { (v, s) \<leftarrow> body v s; loop v s } else Some s)"
    and body: "\<And>v s es. ready L ob wb rb cb es s \<Longrightarrow> 0 < rest v \<Longrightarrow>
      out_ok (own_blocks wb rb cb \<union> dst_blocks es) (memory s) out (out_at v) (rest v) \<Longrightarrow>
      in_ok (own_blocks wb rb cb) (memory s) in_buf (in_at v) (rest v) \<Longrightarrow>
      \<exists>v' s' es' n. body v s = Some (v', s') \<and> 0 < n \<and> n \<le> rest v \<and>
        clocked line L ob wb rb cb in_buf (in_at v) (map g (wanted (memory s) out in_buf (out_at v) n)) n es s es' s' \<and>
        v' = \<lparr>out_at = (if out \<noteq> Null then u32_add (out_at v) n else out_at v),
              in_at = (if in_buf \<noteq> Null then u32_add (in_at v) n else in_at v), rest = rest v - n\<rparr>"
    and line: "line [] = []" "\<And>cs ds. line (cs @ ds) = line cs @ line ds"
  assumes "ready L ob wb rb cb es s"
    and "out_ok (own_blocks wb rb cb \<union> dst_blocks es \<union> ptr_blocks in_buf) (memory s) out (out_at v) (rest v)"
    and "in_ok (own_blocks wb rb cb) (memory s) in_buf (in_at v) (rest v)"
    and "out_at v + rest v < 2 ^ 32" and "in_at v + rest v < 2 ^ 32"
  shows "\<exists>s' es'. loop v s = Some s' \<and>
    clocked line L ob wb rb cb in_buf (in_at v)
      (map g (wanted (memory s) out in_buf (out_at v) (rest v))) (rest v) es s es' s'"
  using assms(5-)
proof (induction "rest v" arbitrary: v s es rule: less_induct)
  case less
  let ?own = "own_blocks wb rb cb" and ?B = "own_blocks wb rb cb \<union> dst_blocks es \<union> ptr_blocks in_buf"
  show ?case
  proof (cases "rest v = 0")
    case True
    with clocked_refl [OF less.prems(1), of line in_buf] line(1) show ?thesis
      by (auto simp: loop [of v] wanted_0)
  next
    case False
    have o: "out_ok (?own \<union> dst_blocks es) (memory s) out (out_at v) (rest v)"
      using less.prems(2) by (rule out_ok_busy) blast
    from False obtain v1 s1 es1 n where b: "body v s = Some (v1, s1)" "0 < n"
      "n \<le> rest v" "clocked line L ob wb rb cb in_buf (in_at v)
        (map g (wanted (memory s) out in_buf (out_at v) n)) n es s es1 s1"
      "v1 = \<lparr>out_at = (if out \<noteq> Null then u32_add (out_at v) n else out_at v),
          in_at = (if in_buf \<noteq> Null then u32_add (in_at v) n else in_at v), rest = rest v - n\<rparr>"
      using body [OF less.prems(1) _ o less.prems(3)] by blast
    have at: "out_at v1 = (if out \<noteq> Null then out_at v + n else out_at v)"
      "in_at v1 = (if in_buf \<noteq> Null then in_at v + n else in_at v)" "rest v1 = rest v - n"
      using b(3,5) less.prems(4,5) by simp_all
    have r1: "ready L ob wb rb cb es1 s1" and k1: "keeps ?B s s1"
      and d1: "dst_blocks es1 \<subseteq> dst_blocks es \<union> ptr_blocks in_buf"
      using b(4) by (auto simp: clocked_def)
    have m1: "memory s1 c = memory s c" if "c \<notin> ?B" for c using that k1 by (simp add: keeps_def)
    have "out_ok ?B (memory s1) out (out_at v) (rest v)"
      by (rule out_ok_memory [OF less.prems(2) subset_refl m1])
    then have "out_ok ?B (memory s1) out (out_at v1) (rest v1)"
      using out_ok_next [of ?B "memory s1" out "out_at v" "rest v" n] b(3) at
      by (cases out) (auto simp: out_ok_def)
    then have o1: "out_ok (?own \<union> dst_blocks es1 \<union> ptr_blocks in_buf) (memory s1) out (out_at v1) (rest v1)"
      by (rule out_ok_busy) (use d1 in blast)
    have "in_ok ?own (memory s1) in_buf (in_at v) (rest v)"
      using less.prems(3) k1 by (auto intro: in_ok_memory simp: keeps_def)
    then have i1: "in_ok ?own (memory s1) in_buf (in_at v1) (rest v1)"
      using in_ok_next [of ?own "memory s1" in_buf "in_at v" "rest v" n] b(3) at
      by (cases in_buf) (auto simp: in_ok_def)
    have "out_at v1 \<le> out_at v + n" and "in_at v1 \<le> in_at v + n" using at by simp_all
    then have lim: "out_at v1 + rest v1 < 2 ^ 32" "in_at v1 + rest v1 < 2 ^ 32"
      using less.prems(4,5) b(3) at(3) by linarith+
    have lt: "rest v1 < rest v" using at(3) b(2,3) by simp
    obtain s2 es2 where s2: "loop v1 s1 = Some s2"
      "clocked line L ob wb rb cb in_buf (in_at v1)
        (map g (wanted (memory s1) out in_buf (out_at v1) (rest v1))) (rest v1) es1 s1 es2 s2"
      using less.hyps [OF lt r1 o1 i1 lim] by blast
    have "wanted (memory s1) out in_buf (out_at v1) (rest v1) =
        wanted (memory s) out in_buf (out_at v + n) (rest v - n)"
      using wanted_memory [OF less.prems(2) subset_refl m1, of in_buf "out_at v + n" "rest v - n"] at
      by (cases out) (auto simp: wanted_def)
    then have "wanted (memory s) out in_buf (out_at v) (rest v) =
        wanted (memory s) out in_buf (out_at v) n @ wanted (memory s1) out in_buf (out_at v1) (rest v1)"
      using wanted_split [of "memory s" out in_buf "out_at v" n "rest v - n"] b(3) by simp
    then have "clocked line L ob wb rb cb in_buf (in_at v)
        (map g (wanted (memory s) out in_buf (out_at v) (rest v))) (rest v) es s es2 s2"
      using clocked_trans [OF b(4) s2(2) line(2)] at(2,3) b(3) by simp
    moreover have "loop v s = Some s2"
      using False b(1) s2(1) by (simp add: loop [of v])
    ultimately show ?thesis by blast
  qed
qed

lemma clock_loop_law:
  assumes "ready L ob wb rb cb es s" and M: "shift_mode (out \<noteq> Null \<or> in_buf = Null) M"
    and rd: "in_buf \<noteq> Null \<Longrightarrow> bit M 5"
    and "out_ok (own_blocks wb rb cb \<union> dst_blocks es \<union> ptr_blocks in_buf) (memory s) out (out_at v) (rest v)"
    and "in_ok (own_blocks wb rb cb) (memory s) in_buf (in_at v) (rest v)"
    and "out_at v + rest v < 2 ^ 32" and "in_at v + rest v < 2 ^ 32"
  shows "\<exists>s' es'. clock_loop L out in_buf M v s = Some s' \<and>
    clocked tdi_stream L ob wb rb cb in_buf (in_at v)
      (wanted (memory s) out in_buf (out_at v) (rest v)) (rest v) es s es' s'"
proof -
  have "\<exists>s' es'. clock_loop L out in_buf M v s = Some s' \<and>
    clocked tdi_stream L ob wb rb cb in_buf (in_at v)
      (map id (wanted (memory s) out in_buf (out_at v) (rest v))) (rest v) es s es' s'"
    by (rule clocked_loop [where body = "clock_body L out in_buf M", OF clock_loop.simps _ _ _ assms(1,4-)];
        simp only: list.map_id id_apply stream_simps; rule clock_body_law [OF _ _ M rd]; assumption)
  then show ?thesis by (simp only: list.map_id id_apply)
qed

lemma clock_mode_reads: "in_buf \<noteq> Null \<Longrightarrow> bit (clock_mode out in_buf mode) 5"
  by (simp add: clock_mode_def Let_def bit_or_iff)

end
