(* ===== verification/Mpsse_Tms.thy ===== *)
theory Mpsse_Tms
  imports Mpsse_Clock
begin

text \<open>
  \<open>mpsse_clock_tms_cs\<close> and the fixed-length commands on a prompt device: the TMS bits of the
  caller leave in groups of at most seven, each with the requested level of TDI.
\<close>

section \<open>TMS sequences\<close>

lemma tms_byte_law:
  assumes S: "m b = Some S" "b \<noteq> local_block" "8 * p + off + n \<le> 8 * length S" and n: "n \<le> 7"
  shows "\<exists>d. tms_byte (Ptr b p) off n m = Some d \<and> \<not> bit d 7 \<and>
    map (bit d) [0..<n] = take n (drop (8 * p + off) (bits_of S))"
proof -
  let ?m = "m(local_block \<mapsto> [0 :: u8])"
  let ?b = "blit (bits_of [0 :: u8]) 0 (bits_of S) (8 * p + off) n"
  have len: "length ?b = 8" using S(3) n by simp
  have cp: "bit_copy ?m (Ptr local_block 0) 0 (Ptr b p) off n =
      Some (set_block_bits ?m local_block ?b)"
    using bit_copy_known [of ?m b S local_block "[0]" p off n 0 0] S n by simp
  have bys: "bytes_of ?b = [byte_of ?b]"
    using bytes_of_append_byte [of ?b "[]"] len by simp
  have d: "tms_byte (Ptr b p) off n m = Some (byte_of ?b)"
    using cp by (simp add: tms_byte_def bys)
  have bit: "bit (byte_of ?b) j \<longleftrightarrow> j < 8 \<and> ?b ! j" for j
    using bit_byte_of [of ?b j] len by simp
  have nth: "?b ! j \<longleftrightarrow> j < n \<and> bits_of S ! (8 * p + off + j)" if "j < 8" for j
    using that S(3) n by (simp add: nth_blit bits_of_Cons)
  have "\<not> bit (byte_of ?b) 7" using bit [of 7] nth [of 7] n by simp
  moreover have "map (bit (byte_of ?b)) [0..<n] = take n (drop (8 * p + off) (bits_of S))"
    using S(3) n by (intro nth_equalityI) (simp_all add: bit nth)
  ultimately show ?thesis using d by blast
qed

lemma tdi_bit_or:
  assumes "\<not> bit (d :: u8) 7" and "n \<le> 7"
  shows "bit (d OR (if tdi then 0x80 else 0x00)) 7 = tdi"
    and "map (bit (d OR (if tdi then 0x80 else 0x00))) [0..<n] = map (bit d) [0..<n]"
proof -
  have b80: "bit (0x80 :: u8) j \<longleftrightarrow> j = 7" for j
  proof -
    have "(0x80 :: u8) = push_bit 7 1" by simp
    then show ?thesis by (simp only: bit_push_bit_iff bit_1_iff) auto
  qed
  show "bit (d OR (if tdi then 0x80 else 0x00)) 7 = tdi"
    using assms(1) by (cases tdi) (simp_all only: bit_or_iff b80 if_True if_False or.right_neutral simp_thms)
  have "bit (d OR (if tdi then 0x80 else 0x00)) j = bit d j" if "j < n" for j
  proof -
    have "j \<noteq> 7" using that assms(2) by simp
    then show ?thesis
      by (cases tdi) (simp_all only: bit_or_iff b80 if_True if_False or.right_neutral simp_thms)
  qed
  then show "map (bit (d OR (if tdi then 0x80 else 0x00))) [0..<n] = map (bit d) [0..<n]"
    by (intro map_cong) (simp_all only: set_upt atLeastLessThan_iff)
qed

lemma tms_body_law:
  assumes r: "ready L ob wb rb cb es s" and pos: "0 < rest v" and M: "tms_op M" and nn: "out \<noteq> Null"
    and md: "in_buf \<noteq> Null \<Longrightarrow> bit M 5"
    and o: "out_ok (own_blocks wb rb cb \<union> dst_blocks es) (memory s) out (out_at v) (rest v)"
    and i: "in_ok (own_blocks wb rb cb) (memory s) in_buf (in_at v) (rest v)"
  shows "\<exists>v' s' es' n. tms_body L out in_buf tdi M v s = Some (v', s') \<and> 0 < n \<and> n \<le> rest v \<and>
    clocked tms_stream L ob wb rb cb in_buf (in_at v)
      (map (\<lambda>b. (b, tdi)) (wanted (memory s) out in_buf (out_at v) n)) n es s es' s' \<and>
    v' = \<lparr>out_at = u32_add (out_at v) n,
          in_at = (if in_buf \<noteq> Null then u32_add (in_at v) n else in_at v), rest = rest v - n\<rparr>"
proof -
  let ?own = "own_blocks wb rb cb"
  define n where "n = min (rest v) 7"
  have n: "0 < n" "n \<le> 7" "n \<le> rest v" using pos by (simp_all add: n_def)
  have c8: "(n + 7) div 8 = 1" using n by simp
  have inv: "minv wb rb cb es s" using r by (simp add: ready_def)
  note sz = minv_sizes [OF inv]
  let ?flush = "buffer_write_space (ctx s) < 3 \<or> (in_buf \<noteq> Null \<and> buffer_read_space (ctx s) < 1)"
  have "\<exists>s1 es1 cs. (if ?flush then flush_into_retval L s else Some s) = Some s1 \<and>
    ready L ob wb rb cb es1 s1 \<and> advance ob wb s cs s1 \<and> quiet cs \<and>
    keeps (?own \<union> dst_blocks es) s s1 \<and> dst_blocks es1 \<subseteq> dst_blocks es \<and>
    receives ob wb rb cb in_buf (in_at v) cs es s es1 s1 \<and>
    write_count (ctx s1) + 3 < write_size (ctx s1) \<and>
    (in_buf \<noteq> Null \<longrightarrow> read_count (ctx s1) < read_size (ctx s1))"
  proof (cases ?flush)
    case True
    obtain s1 cs where s1: "flush_into_retval L s = Some s1" "ready L ob wb rb cb [] s1"
      "ctx s1 = emptied (ctx s)" "advance ob wb s cs s1" "quiet cs"
      "keeps (?own \<union> dst_blocks es) s s1" "flushed ob wb rb cb es s s1"
      using flush_ready [OF r] by blast
    moreover have "receives ob wb rb cb in_buf (in_at v) cs es s [] s1"
      using flushed_receives [OF inv s1(7,5)] .
    ultimately show ?thesis
      using True sz(1,3)
      by (intro exI [of _ s1] exI [of _ "[]"] exI [of _ cs]) (auto simp: emptied_def)
  next
    case False
    have "keeps (?own \<union> dst_blocks es) s s" by (simp add: keeps_def)
    moreover have "write_count (ctx s) + 3 < write_size (ctx s)"
      and "in_buf \<noteq> Null \<longrightarrow> read_count (ctx s) < read_size (ctx s)"
      using False minv_write_space [OF inv] minv_read_space [OF inv] by auto
    moreover have "(if ?flush then flush_into_retval L s else Some s) = Some s"
      using False by (simp only: if_False)
    ultimately show ?thesis
      using r advance_refl receives_refl by (intro exI [of _ s] exI [of _ es] exI [of _ "[]"]) (auto simp: quiet_def)
  qed
  then obtain s1 es1 cs where s1: "(if ?flush then flush_into_retval L s else Some s) = Some s1"
    "ready L ob wb rb cb es1 s1" "advance ob wb s cs s1" "quiet cs"
    "keeps (?own \<union> dst_blocks es) s s1" "dst_blocks es1 \<subseteq> dst_blocks es"
    "write_count (ctx s1) + 3 < write_size (ctx s1)"
    "in_buf \<noteq> Null \<longrightarrow> read_count (ctx s1) < read_size (ctx s1)"
    "receives ob wb rb cb in_buf (in_at v) cs es s es1 s1" by blast
  have m1: "memory s1 c = memory s c" if "c \<notin> ?own \<union> dst_blocks es" for c
    using that s1(5) by (simp add: keeps_def)
  have w: "wanted (memory s1) out in_buf (out_at v) n = wanted (memory s) out in_buf (out_at v) n"
    by (rule wanted_memory [OF o subset_refl m1])
  have "out_ok (?own \<union> dst_blocks es) (memory s1) out (out_at v) (rest v)"
    by (rule out_ok_memory [OF o subset_refl m1])
  then have "out_ok ?own (memory s1) out (out_at v) (rest v)" by (rule out_ok_busy) simp
  then have o1: "out_ok ?own (memory s1) out (out_at v) n" using n(3) by (rule out_ok_less)
  have "in_ok ?own (memory s1) in_buf (in_at v) (rest v)"
    using i s1(5) by (auto intro: in_ok_memory simp: keeps_def)
  then have i1: "in_ok ?own (memory s1) in_buf (in_at v) n"
    using n(3) by (rule in_ok_less)
  from nn obtain b p where bp: "out = Ptr b p" by (cases out) auto
  with o1 obtain S where S: "memory s1 b = Some S" "b \<notin> ?own" "8 * p + out_at v + n \<le> 8 * length S"
    by (auto simp: out_ok_def)
  have blw: "b \<noteq> local_block" "b \<noteq> wb" using S(2) by simp_all
  define h where "h = [M, of_nat (n - 1) :: u8]"
  have Sm: "memory (emit wb h s1) b = Some S" using S(1) blw by simp
  obtain d where d: "tms_byte (Ptr b p) (out_at v) n (memory (emit wb h s1)) = Some d" "\<not> bit d 7"
    "map (bit d) [0..<n] = take n (drop (8 * p + out_at v) (bits_of S))"
    using tms_byte_law [of "memory (emit wb h s1)" b S p "out_at v" n] Sm blw(1) S(3) n(2) by blast
  define e where "e = d OR (if tdi then 0x80 else 0x00)"
  note eb = tdi_bit_or [OF d(2) n(2), of tdi, folded e_def]
  have bits: "map (bit e) [0..<n] = wanted (memory s1) out in_buf (out_at v) n"
    using eb(2) d(3) S(1) by (simp add: wanted_def bp)
  have lw: "length (wanted (memory s) out in_buf (out_at v) n) = n"
    by (metis bits w diff_zero length_map length_upt)
  let ?bs = "[M, of_nat (n - 1), e]"
  have dec: "decode ?bs = Some [Tms M (map (bit e) [0..<n]) tdi]"
    using decode_tms [of M n e] M n eb(1) by simp
  have fb: "write_count (ctx s1) + length ?bs < write_size (ctx s1)"
    and two: "write_count (ctx s1) + 2 < write_size (ctx s1)" using s1(7) by simp_all
  have fh: "write_count (ctx s1) + length h < write_size (ctx s1)" using two by (simp add: h_def)
  have last: "buffer_write_byte e (emit wb h s1) = Some (emit wb ?bs s1)"
    using ready_write_byte [OF emit_ready(1) [OF s1(2) fh], of e]
      emit_then_emit [OF s1(2), of h "[e]"] s1(7) by (simp add: h_def)
  define v1 where "v1 = v\<lparr>out_at := u32_add (out_at v) n\<rparr>"
  note er = emit_ready [OF s1(2) fb]
  have rm: "read_count (ctx (emit wb ?bs s1)) + (n + 7) div 8 \<le> read_size (ctx (emit wb ?bs s1))"
    if "in_buf \<noteq> Null" using s1(8) that c8 by simp
  have ib: "in_ok ?own (memory (emit wb ?bs s1)) in_buf (in_at v1) n"
    using i1 er(3) by (auto intro: in_ok_memory simp: keeps_def v1_def)
  have n31: "n < 2 ^ 31" and off: "8 - n + n = 8 * ((n + 7) div 8)" using n c8 by simp_all
  obtain s' es' where rd: "(if in_buf \<noteq> Null then do {
        (k, s) \<leftarrow> buffer_add_read in_buf (in_at v1) n (8 - n) (emit wb ?bs s1);
        Some (v1\<lparr>in_at := u32_add (in_at v1) k\<rparr>, s)
      } else Some (v1, emit wb ?bs s1)) =
      Some (if in_buf \<noteq> Null then v1\<lparr>in_at := u32_add (in_at v1) n\<rparr> else v1, s')"
    "ready L ob wb rb cb es' s'" "stream ob wb s' = stream ob wb (emit wb ?bs s1)"
    "memory s' = memory (emit wb ?bs s1)" "dst_blocks es' \<subseteq> dst_blocks es1 \<union> ptr_blocks in_buf"
    "device s' = device (emit wb ?bs s1)"
    "in_buf \<noteq> Null \<Longrightarrow> 0 < room (queue (emit wb ?bs s1)) \<Longrightarrow>
      es' = es1 @ [read_entry in_buf (in_at v) rb (read_count (ctx (emit wb ?bs s1))) (8 - n) n] \<and>
      room (queue s') = room (queue (emit wb ?bs s1)) - 1"
    "ctx s' = (ctx (emit wb ?bs s1))\<lparr>read_count := read_count (ctx (emit wb ?bs s1)) +
      (if in_buf = Null then 0 else (n + 7) div 8)\<rparr>"
    using opt_read [OF er(1) _ ib rm n(1) n31 off, of v1] by (auto simp: v1_def)
  have nb: "(if rest v > 7 then 7 else rest v) = n" by (simp add: n_def min_def)
  have npos: "(0 < n) = True" using n(1) by simp
  have rest: "rest v1 = rest v" by (simp add: v1_def)
  have body: "tms_body L out in_buf tdi M v s =
      Some ((if in_buf \<noteq> Null then v1\<lparr>in_at := u32_add (in_at v1) n\<rparr> else v1)\<lparr>rest := rest v - n\<rparr>, s')"
    unfolding tms_body_def s1(1) bind.bind_lunit nb Let_def npos if_True
      two_bytes [OF s1(2) two, of M "of_nat (n - 1)"] h_def [symmetric] bp d(1) e_def [symmetric] last
      v1_def [symmetric]
    using rd(1) rest by (auto simp: bp split: if_splits)
  have "advance ob wb s1 [Tms M (map (bit e) [0..<n]) tdi] s'"
    using rd(3) er(2) dec by (auto simp: advance_def)
  have inv1: "minv wb rb cb es1 s1" and inv2: "minv wb rb cb es1 (emit wb ?bs s1)"
    using s1(2) er(1) by (simp_all add: ready_def)
  have "receives ob wb rb cb in_buf (in_at v) [Tms M (map (bit e) [0..<n]) tdi] es1 s1 es' s'"
    by (rule command_receives [OF inv1 _ _ _ inv2 rd(8,4) _ _ rm _ n(1) off, of "write_count (ctx s1) + length ?bs"])
      (use rd(6,7) md in \<open>simp_all add: emit_def\<close>)
  then have "receives ob wb rb cb in_buf (in_at v + clocks cs) [Tms M (map (bit e) [0..<n]) tdi] es1 s1 es' s'"
    using s1(4) by simp
  note rv = receives_trans [OF s1(9) this]
  from advance_trans [OF s1(3) \<open>advance ob wb s1 [Tms M (map (bit e) [0..<n]) tdi] s'\<close>]
  have adv: "advance ob wb s (cs @ [Tms M (map (bit e) [0..<n]) tdi]) s'" .
  have "keeps (?own \<union> dst_blocks es \<union> ptr_blocks in_buf) s s'"
    using s1(5) er(3) rd(4) by (auto simp: keeps_def)
  moreover have "tms_stream (cs @ [Tms M (map (bit e) [0..<n]) tdi]) =
      map (\<lambda>b. (b, tdi)) (wanted (memory s) out in_buf (out_at v) n)"
    "clocks (cs @ [Tms M (map (bit e) [0..<n]) tdi]) = n"
    using s1(4) bits w lw by simp_all
  ultimately have "clocked tms_stream L ob wb rb cb in_buf (in_at v)
      (map (\<lambda>b. (b, tdi)) (wanted (memory s) out in_buf (out_at v) n)) n es s es' s'"
    using adv rd(2,5) s1(6) rv unfolding clocked_def by blast
  then show ?thesis
    using body n(1,3)
    by (intro exI conjI) (assumption | rule body | (cases v; simp add: v1_def))+
qed

lemma tms_loop_law:
  assumes "ready L ob wb rb cb es s" and M: "tms_op M" and nn: "out \<noteq> Null"
    and md: "in_buf \<noteq> Null \<Longrightarrow> bit M 5"
    and "out_ok (own_blocks wb rb cb \<union> dst_blocks es \<union> ptr_blocks in_buf) (memory s) out (out_at v) (rest v)"
    and "in_ok (own_blocks wb rb cb) (memory s) in_buf (in_at v) (rest v)"
    and "out_at v + rest v < 2 ^ 32" and "in_at v + rest v < 2 ^ 32"
  shows "\<exists>s' es'. tms_loop L out in_buf tdi M v s = Some s' \<and>
    clocked tms_stream L ob wb rb cb in_buf (in_at v)
      (map (\<lambda>b. (b, tdi)) (wanted (memory s) out in_buf (out_at v) (rest v))) (rest v) es s es' s'"
proof (rule clocked_loop [where body = "tms_body L out in_buf tdi M", OF tms_loop.simps _ _ _ assms(1,5-)])
  have t: "(out \<noteq> Null) = True" using nn by simp
  fix v :: clock_vars and s es
  assume "ready L ob wb rb cb es s" and "0 < rest v"
    and "out_ok (own_blocks wb rb cb \<union> dst_blocks es) (memory s) out (out_at v) (rest v)"
    and "in_ok (own_blocks wb rb cb) (memory s) in_buf (in_at v) (rest v)"
  from tms_body_law [OF this(1,2) M nn md this(3,4)]
  show "\<exists>v' s' es' n. tms_body L out in_buf tdi M v s = Some (v', s') \<and> 0 < n \<and> n \<le> rest v \<and>
    clocked tms_stream L ob wb rb cb in_buf (in_at v)
      (map (\<lambda>b. (b, tdi)) (wanted (memory s) out in_buf (out_at v) n)) n es s es' s' \<and>
    v' = \<lparr>out_at = (if out \<noteq> Null then u32_add (out_at v) n else out_at v),
          in_at = (if in_buf \<noteq> Null then u32_add (in_at v) n else in_at v), rest = rest v - n\<rparr>"
    unfolding t if_True .
qed (simp_all only: stream_simps)

end
