(* ===== verification/Mpsse_Config.thy ===== *)
theory Mpsse_Config
  imports Mpsse_Tms
begin

text \<open>
  The fixed-length commands on a prompt device, the clock divisor, and what a flush that fails
  in the middle of a command does to the context.
\<close>

section \<open>Fixed-length commands\<close>

lemma ensure_write_space_law:
  assumes r: "ready L ob wb rb cb es s" and n: "n \<le> 4"
  shows "\<exists>s1 es1 cs. ensure_write_space L n s = Some s1 \<and> ready L ob wb rb cb es1 s1 \<and>
    advance ob wb s cs s1 \<and> quiet cs \<and> write_count (ctx s1) + n < write_size (ctx s1) \<and>
    chip_type (ctx s1) = chip_type (ctx s)"
proof -
  have inv: "minv wb rb cb es s" using r by (simp add: ready_def)
  note sz = minv_sizes [OF inv]
  show ?thesis
  proof (cases "buffer_write_space (ctx s) < n")
    case True
    obtain s1 cs where "flush_into_retval L s = Some s1" "ready L ob wb rb cb [] s1"
      "ctx s1 = emptied (ctx s)" "advance ob wb s cs s1" "quiet cs"
      using flush_ready [OF r] by blast
    with True sz(1) n show ?thesis
      by (intro exI [of _ s1] exI [of _ "[]"] exI [of _ cs]) (simp add: ensure_write_space_def emptied_def)
  next
    case False
    then have "write_count (ctx s) + n < write_size (ctx s)"
      using minv_write_space [OF inv] sz(7) by simp
    with False r advance_refl [of ob wb s] show ?thesis
      by (intro exI [of _ s] exI [of _ es] exI [of _ "[]"])
        (simp add: ensure_write_space_def quiet_def)
  qed
qed

lemma emit_advance:
  assumes "ready L ob wb rb cb es s" and "advance ob wb s0 cs s"
    and "write_count (ctx s) + length bs < write_size (ctx s)" and "decode bs = Some ds"
  shows "ready L ob wb rb cb es (emit wb bs s)" "advance ob wb s0 (cs @ ds) (emit wb bs s)"
    "chip_type (ctx (emit wb bs s)) = chip_type (ctx s)"
proof -
  note e = emit_ready [OF assms(1,3)]
  show "ready L ob wb rb cb es (emit wb bs s)" by (rule e(1))
  have "advance ob wb s ds (emit wb bs s)" using e(2) assms(4) by (auto simp: advance_def)
  with assms(2) show "advance ob wb s0 (cs @ ds) (emit wb bs s)" by (rule advance_trans)
  show "chip_type (ctx (emit wb bs s)) = chip_type (ctx s)" by simp
qed

text \<open>The result of a command function: its command leaves, possibly after a flush.\<close>

definition issues ::
    "'u libusb \<Rightarrow> 'u observer \<Rightarrow> nat \<Rightarrow> nat \<Rightarrow> nat \<Rightarrow> 'u mpsse \<Rightarrow> mpsse_cmd list \<Rightarrow> 'u mpsse \<Rightarrow> bool" where
  "issues L ob wb rb cb s ds s' \<longleftrightarrow> (\<exists>es' cs. ready L ob wb rb cb es' s' \<and> quiet cs \<and>
     advance ob wb s (cs @ ds) s' \<and> chip_type (ctx s') = chip_type (ctx s))"

lemma ready_retval: "ready L ob wb rb cb es s \<Longrightarrow> retval (ctx s) = ERROR_OK"
  by (simp add: ready_def)

lemma pins_law:
  assumes r: "ready L ob wb rb cb es s" and op: "op = 0x80 \<or> op = 0x82"
  shows "\<exists>s'. do { s \<leftarrow> ensure_write_space L 3 s; s \<leftarrow> buffer_write_byte op s;
      s \<leftarrow> buffer_write_byte d s; buffer_write_byte dir s } = Some s' \<and>
    issues L ob wb rb cb s [Pins op d dir] s'"
proof -
  obtain s1 es1 cs where s1: "ensure_write_space L 3 s = Some s1" "ready L ob wb rb cb es1 s1"
    "advance ob wb s cs s1" "quiet cs" "write_count (ctx s1) + 3 < write_size (ctx s1)"
    "chip_type (ctx s1) = chip_type (ctx s)"
    using ensure_write_space_law [OF r, of 3] by auto
  have "write_count (ctx s1) + length [op, d, dir] < write_size (ctx s1)" using s1(5) by simp
  moreover have "decode [op, d, dir] = Some [Pins op d dir]" using op by (intro decode_one) auto
  ultimately have e: "ready L ob wb rb cb es1 (emit wb [op, d, dir] s1)"
    "advance ob wb s (cs @ [Pins op d dir]) (emit wb [op, d, dir] s1)"
    "chip_type (ctx (emit wb [op, d, dir] s1)) = chip_type (ctx s1)"
    using emit_advance [OF s1(2,3)] by blast+
  have "do { s \<leftarrow> buffer_write_byte op s1; s \<leftarrow> buffer_write_byte d s; buffer_write_byte dir s } =
      Some (emit wb [op, d, dir] s1)"
    using three_bytes [OF s1(2,5), of op d dir Some] by simp
  with e s1(1,4,6) show ?thesis
    unfolding issues_def by (intro exI [of _ "emit wb [op, d, dir] s1"]) auto
qed

lemma single_byte_law:
  assumes r: "ready L ob wb rb cb es s"
    and b: "b = (if var then val_if_true else val_if_false)" "single_op b"
  shows "\<exists>s'. single_byte_boolean_helper L var val_if_true val_if_false s = Some s' \<and>
    issues L ob wb rb cb s [Single b] s'"
proof -
  obtain s1 es1 cs where s1: "ensure_write_space L 1 s = Some s1" "ready L ob wb rb cb es1 s1"
    "advance ob wb s cs s1" "quiet cs" "write_count (ctx s1) + 1 < write_size (ctx s1)"
    "chip_type (ctx s1) = chip_type (ctx s)"
    using ensure_write_space_law [OF r, of 1] by auto
  have "write_count (ctx s1) + length [b] < write_size (ctx s1)" using s1(5) by simp
  moreover have "decode [b] = Some [Single b]" using b(2) by (intro decode_one) (auto simp: single_op_def)
  ultimately have e: "ready L ob wb rb cb es1 (emit wb [b] s1)"
    "advance ob wb s (cs @ [Single b]) (emit wb [b] s1)"
    "chip_type (ctx (emit wb [b] s1)) = chip_type (ctx s1)"
    using emit_advance [OF s1(2,3)] by blast+
  have "single_byte_boolean_helper L var val_if_true val_if_false s = Some (emit wb [b] s1)"
    using ready_retval [OF r] s1(1) ready_write_byte [OF s1(2), of b] b(1)
    by (simp add: single_byte_boolean_helper_def)
  with e s1(4,6) show ?thesis unfolding issues_def by auto
qed

lemma set_divisor_law:
  assumes r: "ready L ob wb rb cb es s"
  shows "\<exists>s'. mpsse_set_divisor L d s = Some s' \<and> issues L ob wb rb cb s [Divisor (unat d)] s'"
proof -
  obtain s1 es1 cs where s1: "ensure_write_space L 3 s = Some s1" "ready L ob wb rb cb es1 s1"
    "advance ob wb s cs s1" "quiet cs" "write_count (ctx s1) + 3 < write_size (ctx s1)"
    "chip_type (ctx s1) = chip_type (ctx s)"
    using ensure_write_space_law [OF r, of 3] by auto
  let ?lo = "ucast (d AND 0xff) :: u8" and ?hi = "ucast (drop_bit 8 d) :: u8"
  have lo: "unat ?lo = unat d mod 256"
  proof -
    have "?lo = ucast d" by (rule bit_word_eqI) (auto simp: bit_simps mask_eq_exp_minus_1 [symmetric]
        less_Suc_eq numeral_eq_Suc)
    then show ?thesis by (simp add: unsigned_ucast_eq take_bit_eq_mod)
  qed
  have "unat d div 256 < 256" using u16_less [of d] by (simp add: less_mult_imp_div_less)
  then have hi: "unat ?hi = unat d div 256"
    by (simp add: unsigned_ucast_eq drop_bit_eq_div unat_div_distrib take_bit_eq_mod)
  have "decode [0x86, ?lo, ?hi] = Some [Divisor (unat d)]"
    using lo hi by (intro decode_one) simp
  moreover have "write_count (ctx s1) + length [0x86, ?lo, ?hi] < write_size (ctx s1)" using s1(5) by simp
  ultimately have e: "ready L ob wb rb cb es1 (emit wb [0x86, ?lo, ?hi] s1)"
    "advance ob wb s (cs @ [Divisor (unat d)]) (emit wb [0x86, ?lo, ?hi] s1)"
    "chip_type (ctx (emit wb [0x86, ?lo, ?hi] s1)) = chip_type (ctx s1)"
    using emit_advance [OF s1(2,3)] by blast+
  have "do { s \<leftarrow> buffer_write_byte 0x86 s1; s \<leftarrow> buffer_write_byte ?lo s; buffer_write_byte ?hi s } =
      Some (emit wb [0x86, ?lo, ?hi] s1)"
    using three_bytes [OF s1(2,5), of "0x86" ?lo ?hi Some] by simp
  with ready_retval [OF r] s1(1) have "mpsse_set_divisor L d s = Some (emit wb [0x86, ?lo, ?hi] s1)"
    by (simp add: mpsse_set_divisor_def)
  with e s1(4,6) show ?thesis unfolding issues_def by auto
qed

section \<open>The clock divisor\<close>

text \<open>
  The divisor of \<open>mpsse_set_frequency\<close> is the least one whose clock is not faster than
  requested, unless the 16 bits of the divisor limit it.
\<close>

lemma ceil_div_bounds:
  fixes b f :: int
  assumes "0 < f" and "0 < b"
  defines "q \<equiv> (b + f - 1) div f"
  shows "b div q \<le> f" and "1 \<le> q" and "\<And>d. b \<le> f * d \<Longrightarrow> q \<le> d"
proof -
  have eq: "f * q + (b + f - 1) mod f = b + f - 1" by (simp add: q_def)
  have md: "0 \<le> (b + f - 1) mod f" "(b + f - 1) mod f < f" using assms(1) by simp_all
  have q1: "b \<le> f * q" using eq md by linarith
  have "0 < q"
  proof (rule ccontr)
    assume "\<not> 0 < q"
    then have "f * q \<le> 0" using assms(1) by (simp add: mult_le_0_iff)
    with q1 assms(2) show False by linarith
  qed
  then show "1 \<le> q" by simp
  have "b div q \<le> (f * q) div q" using \<open>0 < q\<close> q1 by (intro zdiv_mono1)
  also have "(f * q) div q = f" using \<open>0 < q\<close> by simp
  finally show "b div q \<le> f" .
  fix d
  assume "b \<le> f * d"
  then have "f * q < f * d + f" using eq md by linarith
  then have "f * q < f * (d + 1)" by (simp add: distrib_left)
  then have "q < d + 1" using assms(1) by simp
  then show "q \<le> d" by simp
qed

lemma mpsse_divisor_law:
  assumes "0 < f" and "0 < b" and "b div 2 + f < 2 ^ 31" and "2 \<le> b"
  shows "\<exists>d. mpsse_divisor b f = Some d \<and> 0 \<le> d \<and> d \<le> 65535 \<and>
    (d < 65535 \<longrightarrow> b div 2 div (1 + d) \<le> f) \<and>
    (\<forall>e. 0 \<le> e \<longrightarrow> b div 2 \<le> f * (1 + e) \<longrightarrow> d \<le> e)"
proof -
  define q where "q = (b div 2 + f - 1) div f"
  have b2: "0 < b div 2" using assms(4) by simp
  note q = ceil_div_bounds [OF assms(1) b2, folded q_def]
  have d: "mpsse_divisor b f = Some (if q - 1 > 65535 then 65535 else q - 1)"
    using assms(3) by (simp add: mpsse_divisor_def Let_def flip: q_def)
  have "q - 1 \<le> e" if "b div 2 \<le> f * (1 + e)" for e using q(3) [OF that] by simp
  with q(1,2) show ?thesis
    unfolding d by (intro exI [of _ "if q - 1 > 65535 then 65535 else q - 1"]) (auto, fastforce)
qed

section \<open>mpsse_set_frequency\<close>

text \<open>The commands of a list other than the \<open>SEND_IMMEDIATE\<close> of the flushes.\<close>

definition effective :: "mpsse_cmd list \<Rightarrow> mpsse_cmd list" where
  "effective cs = filter (\<lambda>c. c \<noteq> Single 0x87) cs"

lemma effective_simps [simp]:
  "effective [] = []" "effective (cs @ ds) = effective cs @ effective ds"
  "effective (c # cs) = (if c = Single 0x87 then effective cs else c # effective cs)"
  "quiet cs \<Longrightarrow> effective cs = []"
  by (auto simp: effective_def quiet_def)

definition configures ::
    "'u libusb \<Rightarrow> 'u observer \<Rightarrow> nat \<Rightarrow> nat \<Rightarrow> nat \<Rightarrow> 'u mpsse \<Rightarrow> mpsse_cmd list \<Rightarrow> 'u mpsse \<Rightarrow> bool" where
  "configures L ob wb rb cb s ds s' \<longleftrightarrow> (\<exists>es' cs. ready L ob wb rb cb es' s' \<and>
     advance ob wb s cs s' \<and> effective cs = ds \<and> chip_type (ctx s') = chip_type (ctx s))"

lemma issues_configures:
  "issues L ob wb rb cb s [c] s' \<Longrightarrow> c \<noteq> Single 0x87 \<Longrightarrow> configures L ob wb rb cb s [c] s'"
  unfolding issues_def configures_def by fastforce

lemma configures_trans:
  assumes "configures L ob wb rb cb s cs s'" and "configures L ob wb rb cb s' ds s''"
  shows "configures L ob wb rb cb s (cs @ ds) s''"
proof -
  from assms obtain es as bs where "ready L ob wb rb cb es s''" "advance ob wb s as s'"
    "advance ob wb s' bs s''" "effective as = cs" "effective bs = ds"
    "chip_type (ctx s'') = chip_type (ctx s)"
    by (auto simp: configures_def)
  with advance_trans [of ob wb s as s' bs s''] show ?thesis
    unfolding configures_def by (intro exI [of _ es] exI [of _ "as @ bs"]) simp
qed

lemma configures_refl: "ready L ob wb rb cb es s \<Longrightarrow> configures L ob wb rb cb s [] s"
  using advance_refl by (fastforce simp: configures_def)

lemma configures_ready: "configures L ob wb rb cb s ds s' \<Longrightarrow> \<exists>es. ready L ob wb rb cb es s'"
  by (auto simp: configures_def)

lemma configures_chip:
  "configures L ob wb rb cb s ds s' \<Longrightarrow> mpsse_is_high_speed (ctx s') = mpsse_is_high_speed (ctx s)"
  by (auto simp: configures_def mpsse_is_high_speed_def)

lemma rtck_law:
  assumes r: "ready L ob wb rb cb es s"
  shows "\<exists>s'. mpsse_rtck_config L en s =
      Some (if mpsse_is_high_speed (ctx s) then ERROR_OK else ERROR_FAIL, s') \<and>
    configures L ob wb rb cb s
      (if mpsse_is_high_speed (ctx s) then [Single (if en then 0x96 else 0x97)] else []) s'"
proof (cases "mpsse_is_high_speed (ctx s)")
  case True
  obtain s' where "single_byte_boolean_helper L en 0x96 0x97 s = Some s'"
    "issues L ob wb rb cb s [Single (if en then 0x96 else 0x97)] s'"
    using single_byte_law [OF r refl, of en "0x96" "0x97"] by (cases en) (auto simp: single_op_def)
  then have "configures L ob wb rb cb s [Single (if en then 0x96 else 0x97)] s'"
    by - (rule issues_configures, assumption, cases en; simp)
  with \<open>single_byte_boolean_helper L en 0x96 0x97 s = Some s'\<close> True show ?thesis
    by (intro exI [of _ s']) (simp add: mpsse_rtck_config_def)
next
  case False
  with configures_refl [OF r] show ?thesis by (auto simp: mpsse_rtck_config_def)
qed

lemma divide_by_5_law:
  assumes r: "ready L ob wb rb cb es s"
  shows "\<exists>s'. mpsse_divide_by_5_config L en s =
      Some (if mpsse_is_high_speed (ctx s) then ERROR_OK else ERROR_FAIL, s') \<and>
    configures L ob wb rb cb s
      (if mpsse_is_high_speed (ctx s) then [Single (if en then 0x8b else 0x8a)] else []) s'"
proof (cases "mpsse_is_high_speed (ctx s)")
  case True
  obtain s' where "single_byte_boolean_helper L en 0x8b 0x8a s = Some s'"
    "issues L ob wb rb cb s [Single (if en then 0x8b else 0x8a)] s'"
    using single_byte_law [OF r refl, of en "0x8b" "0x8a"] by (cases en) (auto simp: single_op_def)
  then have "configures L ob wb rb cb s [Single (if en then 0x8b else 0x8a)] s'"
    by - (rule issues_configures, assumption, cases en; simp)
  with \<open>single_byte_boolean_helper L en 0x8b 0x8a s = Some s'\<close> True show ?thesis
    by (intro exI [of _ s']) (simp add: mpsse_divide_by_5_config_def)
next
  case False
  with configures_refl [OF r] show ?thesis by (auto simp: mpsse_divide_by_5_config_def)
qed

text \<open>The choice of the base clock.\<close>

definition fast_clock :: "mpsse_ctx \<Rightarrow> int \<Rightarrow> bool" where
  "fast_clock c f \<longleftrightarrow> mpsse_is_high_speed c \<and> f > 457"

lemma base_clock_law:
  assumes r: "ready L ob wb rb cb es s"
  shows "\<exists>s'. (if f > 60000000 div 2 div 65536 then do {
             (rc, s) \<leftarrow> mpsse_divide_by_5_config L False s;
             if rc = ERROR_OK then Some (60000000 :: int, s)
             else do {
               (_, s) \<leftarrow> mpsse_divide_by_5_config L True s;
               Some (12000000, s)
             }
           }
           else do {
             (_, s) \<leftarrow> mpsse_divide_by_5_config L True s;
             Some (12000000, s)
           }) = Some (if fast_clock (ctx s) f then 60000000 else 12000000, s') \<and>
    configures L ob wb rb cb s
      (if mpsse_is_high_speed (ctx s) then [Single (if f > 457 then 0x8a else 0x8b)] else []) s'"
proof (cases "f > 457")
  case True
  obtain s1 where s1: "mpsse_divide_by_5_config L False s =
      Some (if mpsse_is_high_speed (ctx s) then ERROR_OK else ERROR_FAIL, s1)"
    "configures L ob wb rb cb s (if mpsse_is_high_speed (ctx s) then [Single 0x8a] else []) s1"
    using divide_by_5_law [OF r, of False, unfolded if_False] by blast
  show ?thesis
  proof (cases "mpsse_is_high_speed (ctx s)")
    case hs: True
    with s1 True show ?thesis by (auto simp: fast_clock_def)
  next
    case hs: False
    obtain es1 where "ready L ob wb rb cb es1 s1" using configures_ready [OF s1(2)] by blast
    then obtain s2 where "mpsse_divide_by_5_config L True s1 = Some (ERROR_FAIL, s2)"
      "configures L ob wb rb cb s1 [] s2"
      using divide_by_5_law [of L ob wb rb cb es1 s1 True] configures_chip [OF s1(2)] hs by auto
    with s1 True hs configures_trans [of L ob wb rb cb s "[]" s1 "[]" s2] show ?thesis
      by (auto simp: fast_clock_def)
  qed
next
  case False
  obtain s1 where "mpsse_divide_by_5_config L True s =
      Some (if mpsse_is_high_speed (ctx s) then ERROR_OK else ERROR_FAIL, s1)"
    "configures L ob wb rb cb s (if mpsse_is_high_speed (ctx s) then [Single 0x8b] else []) s1"
    using divide_by_5_law [OF r, of True, unfolded if_True] by blast
  with False show ?thesis by (auto simp: fast_clock_def)
qed

lemma set_frequency_law:
  assumes r: "ready L ob wb rb cb es s" and f: "0 < f" "f + 30000000 < 2 ^ 31"
  defines "base \<equiv> (if fast_clock (ctx s) f then 60000000 else 12000000 :: int)"
  shows "\<exists>s' d. mpsse_set_frequency L f s = Some (base div 2 div (1 + d), s') \<and>
    mpsse_divisor base f = Some d \<and> 0 \<le> d \<and> d \<le> 65535 \<and>
    configures L ob wb rb cb s
      ((if mpsse_is_high_speed (ctx s)
        then [Single 0x97, Single (if f > 457 then 0x8a else 0x8b)] else []) @ [Divisor (nat d)]) s'"
proof -
  have b: "0 < base" "2 \<le> base" "base div 2 + f < 2 ^ 31" using f(2) by (auto simp: base_def)
  obtain d where d: "mpsse_divisor base f = Some d" "0 \<le> d" "d \<le> 65535"
    using mpsse_divisor_law [OF f(1) b(1,3,2)] by blast
  obtain s1 where s1: "mpsse_rtck_config L False s =
      Some (if mpsse_is_high_speed (ctx s) then ERROR_OK else ERROR_FAIL, s1)"
    "configures L ob wb rb cb s (if mpsse_is_high_speed (ctx s) then [Single 0x97] else []) s1"
    using rtck_law [OF r, of False, unfolded if_False] by blast
  obtain es1 where r1: "ready L ob wb rb cb es1 s1" using configures_ready [OF s1(2)] by blast
  have hs1: "mpsse_is_high_speed (ctx s1) = mpsse_is_high_speed (ctx s)" using configures_chip [OF s1(2)] .
  then have fc: "fast_clock (ctx s1) f = fast_clock (ctx s) f" by (simp add: fast_clock_def)
  note s2' = base_clock_law [OF r1, of f, unfolded fc base_def [symmetric] hs1]
  obtain s2 where s2: "(if f > 60000000 div 2 div 65536 then do {
             (rc, s) \<leftarrow> mpsse_divide_by_5_config L False s1;
             if rc = ERROR_OK then Some (60000000 :: int, s)
             else do {
               (_, s) \<leftarrow> mpsse_divide_by_5_config L True s;
               Some (12000000, s)
             }
           }
           else do {
             (_, s) \<leftarrow> mpsse_divide_by_5_config L True s1;
             Some (12000000, s)
           }) = Some (base, s2)"
    "configures L ob wb rb cb s1
      (if mpsse_is_high_speed (ctx s) then [Single (if f > 457 then 0x8a else 0x8b)] else []) s2"
    using s2' by blast
  obtain es2 where r2: "ready L ob wb rb cb es2 s2" using configures_ready [OF s2(2)] by blast
  obtain s3 where s3: "mpsse_set_divisor L (of_int d) s2 = Some s3"
    "issues L ob wb rb cb s2 [Divisor (unat (of_int d :: u16))] s3"
    using set_divisor_law [OF r2] by blast
  have "unat (of_int d :: u16) = nat d"
    using d(2,3) by (simp add: unsigned_of_int take_bit_int_eq_self)
  then have c3: "configures L ob wb rb cb s2 [Divisor (nat d)] s3"
    using issues_configures [OF s3(2)] by simp
  have neg: "(f < 0) = False" "(f = 0) = False" "(d \<ge> 0) = True" using f(1) d(2) by simp_all
  have "mpsse_set_frequency L f s = Some (base div 2 div (1 + d), s3)"
    unfolding mpsse_set_frequency_def neg if_False s1(1) bind.bind_lunit prod.case s2(1) d(1) if_True s3(1) ..
  moreover have "configures L ob wb rb cb s
      ((if mpsse_is_high_speed (ctx s)
        then [Single 0x97, Single (if f > 457 then 0x8a else 0x8b)] else []) @ [Divisor (nat d)]) s3"
    using configures_trans [OF configures_trans [OF s1(2) s2(2)] c3]
    by (cases "mpsse_is_high_speed (ctx s)") simp_all
  ultimately show ?thesis using d by blast
qed

end
