(* ===== verification/Ftdi_Laws.thy ===== *)
theory Ftdi_Laws
  imports Ftdi Mpsse_Config
begin

text \<open>
  What the operations of \<open>Ftdi\<close> do. The linked list of signals implements a list of signals to
  which \<open>create_signal\<close> appends; the pins the device has been told are always \<open>output\<close> and
  \<open>direction\<close>; and reading a signal gives what the device reports.
\<close>

section \<open>The list of signals\<close>

fun sig_list :: "signal_heap \<Rightarrow> nat option \<Rightarrow> nat list \<Rightarrow> bool" where
  "sig_list h q [] \<longleftrightarrow> q = None"
| "sig_list h q (p # ps) \<longleftrightarrow> q = Some p \<and> (\<exists>s. h p = Some s \<and> sig_name s \<noteq> None \<and> sig_list h (next_signal s) ps)"

text \<open>The abstract list: the signals without their links.\<close>

definition sig_view :: "signal_heap \<Rightarrow> nat list \<Rightarrow> signal list" where
  "sig_view h ps = map (\<lambda>p. (the (h p))\<lparr>next_signal := None\<rparr>) ps"

definition signals_are :: "'u ftdi \<Rightarrow> nat list \<Rightarrow> bool" where
  "signals_are d ps \<longleftrightarrow> sig_list (sig_heap d) (signals d) ps \<and> distinct ps"

lemma sig_list_frame: "sig_list h q ps \<Longrightarrow> p \<notin> set ps \<Longrightarrow> sig_list (h(p := v)) q ps"
  by (induction ps arbitrary: q) auto

lemma sig_list_dom: "sig_list h q ps \<Longrightarrow> p \<in> set ps \<Longrightarrow> h p \<noteq> None"
  by (induction ps arbitrary: q) auto

lemma find_signal_loop_law:
  "sig_list h q ps \<Longrightarrow> find_signal_loop h nam q = Some (find (\<lambda>p. sig_name (the (h p)) = Some nam) ps)"
  by (induction ps arbitrary: q) (auto simp: find_signal_loop.simps)

lemma find_signal_law:
  "signals_are d ps \<Longrightarrow>
    find_signal_by_name nam d = Some (find (\<lambda>p. sig_name (the (sig_heap d p)) = Some nam) ps)"
  by (simp add: signals_are_def find_signal_by_name_def find_signal_loop_law)

definition end_slot :: "signal_slot \<Rightarrow> nat list \<Rightarrow> signal_slot" where
  "end_slot slot ps = (if ps = [] then slot else Next_of (last ps))"

lemma last_slot_law:
  "sig_list (sig_heap d) q ps \<Longrightarrow> read_slot d slot = Some q \<Longrightarrow> last_slot d slot = Some (end_slot slot ps)"
proof (induction ps arbitrary: q slot)
  case Nil
  then show ?case by (simp add: last_slot.simps [of d slot] end_slot_def)
next
  case (Cons p ps)
  then obtain s where "q = Some p" "sig_heap d p = Some s" "sig_list (sig_heap d) (next_signal s) ps" by auto
  with Cons.IH [of "next_signal s" "Next_of p"] Cons.prems(2) show ?case
    by (simp add: last_slot.simps [of d slot] end_slot_def)
qed

text \<open>Storing \<open>v\<close> in the last slot of a list.\<close>

lemma sig_list_snoc:
  assumes "sig_list h q ps" and "ps \<noteq> []" and "distinct ps" and "p \<notin> set ps"
    and "h p = Some t" and "sig_name t \<noteq> None" and "next_signal t = None"
  shows "sig_list (h(last ps \<mapsto> (the (h (last ps)))\<lparr>next_signal := Some p\<rparr>)) q (ps @ [p])"
  using assms(1-4)
proof (induction ps arbitrary: q)
  case (Cons a ps)
  then obtain s where s: "q = Some a" "h a = Some s" "sig_name s \<noteq> None" "sig_list h (next_signal s) ps" by auto
  show ?case
  proof (cases "ps = []")
    case True
    with s Cons.prems assms(5-7) show ?thesis by auto
  next
    case False
    with Cons.prems have "last ps \<noteq> a" by auto
    with Cons.IH [OF s(4) False] Cons.prems s False show ?thesis by auto
  qed
qed simp

definition alloc_ok :: "signal_alloc \<Rightarrow> bool" where
  "alloc_ok A \<longleftrightarrow> (\<forall>h p. calloc_signal A h = Some p \<longrightarrow> h p = None) \<and> (\<forall>n s. strdup A n = Some s \<longrightarrow> s = n)"

definition named :: "string \<Rightarrow> signal" where
  "named nam = zero_signal\<lparr>sig_name := Some nam\<rparr>"

lemma sig_view_cong:
  "(\<And>p. p \<in> set ps \<Longrightarrow> (the (h p))\<lparr>next_signal := None\<rparr> = (the (h' p))\<lparr>next_signal := None\<rparr>) \<Longrightarrow>
    sig_view h ps = sig_view h' ps"
  by (simp add: sig_view_def)

lemma sig_list_last:
  "sig_list h q ps \<Longrightarrow> ps \<noteq> [] \<Longrightarrow> \<exists>s. h (last ps) = Some s \<and> sig_name s \<noteq> None \<and> next_signal s = None"
  by (induction ps arbitrary: q) (auto split: if_splits)

text \<open>\<open>create_signal\<close> appends, and a failure leaves everything as it was.\<close>

lemma create_signal_law:
  assumes A: "alloc_ok A" and ps: "signals_are d ps"
  shows "\<exists>r d'. create_signal A nam d = Some (r, d') \<and>
    (case r of
       None \<Rightarrow> d' = d
     | Some p \<Rightarrow> p \<notin> set ps \<and> signals_are d' (ps @ [p]) \<and>
         sig_view (sig_heap d') (ps @ [p]) = sig_view (sig_heap d) ps @ [named nam] \<and>
         (\<exists>h q. d' = d\<lparr>signals := q, sig_heap := h\<rparr>))"
proof -
  have l: "sig_list (sig_heap d) (signals d) ps" "distinct ps" using ps by (simp_all add: signals_are_def)
  have slot: "last_slot d Signals = Some (end_slot Signals ps)" by (rule last_slot_law [OF l(1)]) simp
  show ?thesis
  proof (cases "ps = []")
    case True
    then have q: "signals d = None" using l(1) by simp
    show ?thesis
    proof (cases "calloc_signal A (sig_heap d)")
      case None
      have "d\<lparr>signals := None\<rparr> = d" using q by (cases d) simp
      with None slot True show ?thesis by (simp add: create_signal_def end_slot_def)
    next
      case (Some p)
      then have new: "sig_heap d p = None" using A by (simp add: alloc_ok_def)
      have restored: "d\<lparr>sig_heap := (sig_heap d)(p := None), signals := None\<rparr> = d"
        using q new by (cases d) (simp add: fun_upd_idem)
      have st: "strdup A nam = None \<or> strdup A nam = Some nam"
        using A by (cases "strdup A nam") (auto simp: alloc_ok_def)
      show ?thesis
      proof (cases "strdup A nam")
        case None
        with Some slot True restored show ?thesis by (simp add: create_signal_def end_slot_def)
      next
        case (Some n)
        let ?d = "d\<lparr>signals := Some p, sig_heap := (sig_heap d)(p \<mapsto> named nam)\<rparr>"
        have "create_signal A nam d = Some (Some p, ?d)"
          using \<open>calloc_signal A (sig_heap d) = Some p\<close> Some st slot True
          by (simp add: create_signal_def end_slot_def named_def)
        moreover have "signals_are ?d (ps @ [p])" and
          "sig_view (sig_heap ?d) (ps @ [p]) = sig_view (sig_heap d) ps @ [named nam]"
          using True by (simp_all add: signals_are_def sig_view_def named_def zero_signal_def)
        ultimately show ?thesis using True by (simp, blast)
      qed
    qed
  next
    case False
    let ?l = "last ps"
    obtain s where s: "sig_heap d ?l = Some s" "sig_name s \<noteq> None" "next_signal s = None"
      using sig_list_last [OF l(1) False] by blast
    have same: "s\<lparr>next_signal := None\<rparr> = s" using s(3) by (cases s) simp
    have slot': "end_slot Signals ps = Next_of ?l" using False by (simp add: end_slot_def)
    show ?thesis
    proof (cases "calloc_signal A (sig_heap d)")
      case None
      have "d\<lparr>sig_heap := (sig_heap d)(?l \<mapsto> s)\<rparr> = d" using s(1) by (cases d) (simp add: fun_upd_idem)
      with None slot slot' s(1) show ?thesis by (simp add: create_signal_def same)
    next
      case (Some p)
      then have new: "sig_heap d p = None" using A by (simp add: alloc_ok_def)
      then have p: "p \<notin> set ps" using sig_list_dom [OF l(1), of p] by auto
      have pl: "p \<noteq> ?l" using new s(1) by auto
      show ?thesis
      proof (cases "strdup A nam")
        case None
        have "d\<lparr>sig_heap := (sig_heap d)(?l \<mapsto> s, p := None)\<rparr> = d"
          using s(1) new by (cases d) (simp add: fun_upd_idem)
        with None Some slot slot' s(1) pl show ?thesis
          by (simp add: create_signal_def same fun_upd_twist [of p])
      next
        case (Some n)
        then have n: "strdup A nam = Some nam" using A by (simp add: alloc_ok_def)
        let ?h = "(sig_heap d)(p \<mapsto> named nam)"
        let ?d = "d\<lparr>sig_heap := ?h(?l \<mapsto> s\<lparr>next_signal := Some p\<rparr>)\<rparr>"
        have "sig_list (?h(?l \<mapsto> (the (?h ?l))\<lparr>next_signal := Some p\<rparr>)) (signals d) (ps @ [p])"
          using sig_list_snoc [OF sig_list_frame [OF l(1) p, of "Some (named nam)"] False l(2) p, where t = "named nam"]
          by (simp add: named_def zero_signal_def)
        then have "signals_are ?d (ps @ [p])" using pl s(1) l(2) p by (simp add: signals_are_def)
        moreover have "create_signal A nam d = Some (Some p, ?d)"
          using \<open>calloc_signal A (sig_heap d) = Some p\<close> n slot slot' s(1) pl
          by (simp add: create_signal_def named_def fun_upd_twist [of p])
        moreover have "sig_view (sig_heap ?d) (ps @ [p]) = sig_view (sig_heap d) ps @ [named nam]"
          using p pl s(1) by (auto simp: sig_view_def named_def zero_signal_def)
        moreover have "?d = d\<lparr>signals := signals d, sig_heap := sig_heap ?d\<rparr>" by (cases d) simp
        then have "\<exists>h q. ?d = d\<lparr>signals := q, sig_heap := h\<rparr>" by (intro exI)
        ultimately show ?thesis using p
          by (intro exI [of _ "Some p"] exI [of _ ?d]) (simp only: option.case simp_thms)
      qed
    qed
  qed
qed

definition default_signal :: "string \<Rightarrow> u16 \<Rightarrow> signal" where
  "default_signal nam bits = (named nam)\<lparr>data_mask := bits\<rparr>"

lemma sig_list_masks:
  assumes "sig_list h q ps" and "h p = Some s" and "next_signal t = next_signal s" and "sig_name t = sig_name s"
  shows "sig_list (h(p \<mapsto> t)) q ps"
  using assms(1) by (induction ps arbitrary: q) (use assms(2-4) in \<open>auto split: if_splits\<close>)

lemma create_default_signal_law:
  assumes A: "alloc_ok A" and ps: "signals_are d ps"
  shows "\<exists>rc d'. create_default_signal A nam bits d = Some (rc, d') \<and>
    (if rc = ERROR_OK then \<exists>p. p \<notin> set ps \<and> signals_are d' (ps @ [p]) \<and>
         sig_view (sig_heap d') (ps @ [p]) = sig_view (sig_heap d) ps @ [default_signal nam bits] \<and>
         (\<exists>h q. d' = d\<lparr>signals := q, sig_heap := h\<rparr>)
     else rc = ERROR_FAIL \<and> d' = d)"
proof -
  obtain r d1 where c: "create_signal A nam d = Some (r, d1)"
    "case r of None \<Rightarrow> d1 = d | Some p \<Rightarrow> p \<notin> set ps \<and> signals_are d1 (ps @ [p]) \<and>
       sig_view (sig_heap d1) (ps @ [p]) = sig_view (sig_heap d) ps @ [named nam] \<and>
       (\<exists>h q. d1 = d\<lparr>signals := q, sig_heap := h\<rparr>)"
    using create_signal_law [OF A ps] by blast
  show ?thesis
  proof (cases r)
    case None
    with c show ?thesis by (simp add: create_default_signal_def ERROR_FAIL_def ERROR_OK_def)
  next
    case (Some p)
    with c have p: "p \<notin> set ps" "signals_are d1 (ps @ [p])"
      "sig_view (sig_heap d1) (ps @ [p]) = sig_view (sig_heap d) ps @ [named nam]"
      "\<exists>h q. d1 = d\<lparr>signals := q, sig_heap := h\<rparr>" by simp_all
    have "sig_heap d1 p \<noteq> None" using p(2) sig_list_dom [of _ _ "ps @ [p]" p] by (auto simp: signals_are_def)
    then obtain s where s: "sig_heap d1 p = Some s" by blast
    let ?t = "s\<lparr>invert_data := False, data_mask := bits, invert_oe := False, oe_mask := 0\<rparr>"
    let ?d = "d1\<lparr>sig_heap := (sig_heap d1)(p \<mapsto> ?t)\<rparr>"
    have "create_default_signal A nam bits d = Some (ERROR_OK, ?d)"
      using c(1) Some s by (simp add: create_default_signal_def)
    moreover have "signals_are ?d (ps @ [p])"
      using p(2) sig_list_masks [of _ _ _ p s ?t] s by (simp add: signals_are_def)
    moreover have "s\<lparr>next_signal := None\<rparr> = named nam" and
      "sig_view (sig_heap d1) ps = sig_view (sig_heap d) ps"
      using p(3) s by (simp_all add: sig_view_def)
    then have "?t\<lparr>next_signal := None\<rparr> = default_signal nam bits"
      by (cases s) (simp add: named_def default_signal_def zero_signal_def)
    with \<open>sig_view (sig_heap d1) ps = sig_view (sig_heap d) ps\<close> p(1)
    have "sig_view (sig_heap ?d) (ps @ [p]) = sig_view (sig_heap d) ps @ [default_signal nam bits]"
      by (auto simp: sig_view_def)
    moreover have "\<exists>h q. ?d = d\<lparr>signals := q, sig_heap := h\<rparr>"
    proof -
      obtain h q where "d1 = d\<lparr>signals := q, sig_heap := h\<rparr>" using p(4) by blast
      then have "?d = d\<lparr>signals := q, sig_heap := sig_heap ?d\<rparr>" by simp
      then show ?thesis by blast
    qed
    ultimately show ?thesis using p(1) by (metis (no_types, lifting))
  qed
qed

text \<open>\<open>d'\<close> is \<open>d\<close> with the signals \<open>xs\<close> appended.\<close>

definition appended :: "'u ftdi \<Rightarrow> nat list \<Rightarrow> signal list \<Rightarrow> 'u ftdi \<Rightarrow> bool" where
  "appended d ps xs d' \<longleftrightarrow> (\<exists>qs h q. signals_are d' (ps @ qs) \<and>
     sig_view (sig_heap d') (ps @ qs) = sig_view (sig_heap d) ps @ xs \<and> d' = d\<lparr>signals := q, sig_heap := h\<rparr>)"

lemma appended_refl: "signals_are d ps \<Longrightarrow> appended d ps [] d"
  unfolding appended_def by (intro exI [of _ "[]"] exI [of _ "sig_heap d"] exI [of _ "signals d"]) simp

lemma appended_step:
  assumes A: "alloc_ok A" and ap: "appended d ps xs d1"
  shows "\<exists>rc d'. create_default_signal A nam bits d1 = Some (rc, d') \<and>
    (rc = ERROR_OK \<and> appended d ps (xs @ [default_signal nam bits]) d' \<or> rc = ERROR_FAIL \<and> appended d ps xs d')"
proof -
  obtain qs h q where 1: "signals_are d1 (ps @ qs)" "sig_view (sig_heap d1) (ps @ qs) = sig_view (sig_heap d) ps @ xs"
    "d1 = d\<lparr>signals := q, sig_heap := h\<rparr>"
    using ap by (auto simp: appended_def)
  obtain rc d' where 2: "create_default_signal A nam bits d1 = Some (rc, d')"
    "if rc = ERROR_OK then \<exists>p. p \<notin> set (ps @ qs) \<and> signals_are d' ((ps @ qs) @ [p]) \<and>
         sig_view (sig_heap d') ((ps @ qs) @ [p]) = sig_view (sig_heap d1) (ps @ qs) @ [default_signal nam bits] \<and>
         (\<exists>h q. d' = d1\<lparr>signals := q, sig_heap := h\<rparr>)
     else rc = ERROR_FAIL \<and> d' = d1"
    using create_default_signal_law [OF A 1(1)] by blast
  show ?thesis
  proof (cases "rc = ERROR_OK")
    case True
    with 2(2) obtain p h' q' where 3: "signals_are d' (ps @ qs @ [p])"
      "sig_view (sig_heap d') (ps @ qs @ [p]) = sig_view (sig_heap d) ps @ xs @ [default_signal nam bits]"
      "d' = d1\<lparr>signals := q', sig_heap := h'\<rparr>"
      using 1(2) by auto
    then have "d' = d\<lparr>signals := q', sig_heap := h'\<rparr>" using 1(3) by simp
    with 3(1,2) have "appended d ps (xs @ [default_signal nam bits]) d'"
      unfolding appended_def by (intro exI [of _ "qs @ [p]"] exI [of _ h'] exI [of _ q']) simp
    with 2(1) True show ?thesis by blast
  next
    case False
    with 2 ap show ?thesis by auto
  qed
qed

text \<open>The four calls of \<open>create_signals\<close> as one pass over a table.\<close>

fun create_all :: "signal_alloc \<Rightarrow> (string \<times> u16) list \<Rightarrow> 'u ftdi \<Rightarrow> (int \<times> 'u ftdi) option" where
  "create_all A [] d = Some (ERROR_OK, d)"
| "create_all A ((nam, bits) # ts) d = do {
     (rc, d) \<leftarrow> create_default_signal A nam bits d;
     if rc \<noteq> ERROR_OK then Some (ERROR_FAIL, d) else create_all A ts d
   }"

definition default_table :: "(string \<times> u16) list" where
  "default_table = [(''TCK'', 0x01), (''TDI'', 0x02), (''TDO'', 0x04), (''TMS'', 0x08)]"

definition default_signals :: "signal list" where
  "default_signals = map (\<lambda>(nam, bits). default_signal nam bits) default_table"

lemma create_signals_all: "create_signals A d = create_all A default_table d"
  unfolding create_signals_def default_table_def create_all.simps by (rule refl)

lemma create_all_law:
  assumes A: "alloc_ok A" and "appended d ps xs d1"
  shows "\<exists>rc d' k. create_all A ts d1 = Some (rc, d') \<and>
    appended d ps (xs @ take k (map (\<lambda>(nam, bits). default_signal nam bits) ts)) d' \<and>
    (rc = ERROR_OK \<and> k = length ts \<or> rc = ERROR_FAIL \<and> k < length ts)"
  using assms(2)
proof (induction ts arbitrary: xs d1)
  case Nil
  then show ?case by auto
next
  case (Cons t ts)
  obtain nam bits where t: "t = (nam, bits)" by (cases t)
  let ?x = "default_signal nam bits"
  have ne: "ERROR_FAIL \<noteq> ERROR_OK" by (simp add: ERROR_FAIL_def ERROR_OK_def)
  obtain rc d2 where 1: "create_default_signal A nam bits d1 = Some (rc, d2)"
    "rc = ERROR_OK \<and> appended d ps (xs @ [?x]) d2 \<or> rc = ERROR_FAIL \<and> appended d ps xs d2"
    using appended_step [OF A Cons.prems] by blast
  show ?case
  proof (cases "rc = ERROR_OK")
    case True
    with 1(2) ne have "appended d ps (xs @ [?x]) d2" by auto
    then obtain rc' d' k where 2: "create_all A ts d2 = Some (rc', d')"
      "appended d ps ((xs @ [?x]) @ take k (map (\<lambda>(nam, bits). default_signal nam bits) ts)) d'"
      "rc' = ERROR_OK \<and> k = length ts \<or> rc' = ERROR_FAIL \<and> k < length ts"
      using Cons.IH by blast
    then show ?thesis using 1(1) True t
      by (intro exI [of _ rc'] exI [of _ d'] exI [of _ "Suc k"]) simp
  next
    case False
    with 1 t show ?thesis
      by (intro exI [of _ ERROR_FAIL] exI [of _ d2] exI [of _ 0]) simp
  qed
qed

lemma create_signals_law:
  assumes "alloc_ok A" and "signals_are d ps"
  shows "\<exists>rc d' k. create_signals A d = Some (rc, d') \<and> appended d ps (take k default_signals) d' \<and>
    (rc = ERROR_OK \<and> k = 4 \<or> rc = ERROR_FAIL \<and> k < 4)"
proof -
  have "length default_table = 4" by (simp add: default_table_def)
  then show ?thesis
    using create_all_law [OF assms(1) appended_refl [OF assms(2)], of default_table]
    by (simp add: create_signals_all default_signals_def)
qed

section \<open>The pins\<close>

text \<open>The levels and directions of the 16 pins after a list of commands.\<close>

definition set_low :: "u8 \<Rightarrow> u16 \<Rightarrow> u16" where
  "set_low b x = ucast b OR (x AND NOT 0xff)"

definition set_high :: "u8 \<Rightarrow> u16 \<Rightarrow> u16" where
  "set_high b x = push_bit 8 (ucast b) OR (x AND 0xff)"

fun pin_cmd :: "mpsse_cmd \<Rightarrow> u16 \<times> u16 \<Rightarrow> u16 \<times> u16" where
  "pin_cmd (Pins op d dir) (x, y) =
     (if op = 0x80 then (set_low d x, set_low dir y) else (set_high d x, set_high dir y))"
| "pin_cmd _ xy = xy"

definition pins_after :: "mpsse_cmd list \<Rightarrow> u16 \<times> u16 \<Rightarrow> u16 \<times> u16" where
  "pins_after cs xy = fold pin_cmd cs xy"

lemma pins_after_simps [simp]:
  "pins_after [] xy = xy" "pins_after (c # cs) xy = pins_after cs (pin_cmd c xy)"
  "pins_after (cs @ ds) xy = pins_after ds (pins_after cs xy)"
  by (simp_all add: pins_after_def)

lemma u16_byte_mask: "(0xff :: u16) = mask 8"
  by (simp add: mask_eq_exp_minus_1)

lemma u16_split:
  assumes "x AND 0xff = y AND 0xff" and "drop_bit 8 x = drop_bit 8 (y :: u16)"
  shows "x = y"
proof (rule bit_word_eqI)
  fix n
  assume "n < LENGTH(16)"
  show "bit x n = bit y n"
  proof (cases "n < 8")
    case True
    with arg_cong [OF assms(1), of "\<lambda>w. bit w n"] show ?thesis by (simp add: u16_byte_mask bit_simps)
  next
    case False
    with arg_cong [OF assms(2), of "\<lambda>w. bit w (n - 8)"] show ?thesis by (simp add: bit_simps)
  qed
qed

lemma set_bytes:
  "set_low (low_byte x) y = x \<longleftrightarrow> drop_bit 8 y = drop_bit 8 x"
  "set_high (high_byte x) y = x \<longleftrightarrow> y AND 0xff = x AND 0xff"
  "set_high (high_byte x) (set_low (low_byte x) y) = x"
  "drop_bit 8 (set_low b y) = drop_bit 8 y" "set_high b y AND 0xff = y AND 0xff"
proof -
  show low: "drop_bit 8 (set_low b y) = drop_bit 8 y" for b y
    unfolding set_low_def u16_byte_mask by (rule bit_word_eqI) (auto simp: bit_simps dest: bit_imp_le_length)
  show high: "set_high b y AND 0xff = y AND 0xff" for b y
    unfolding set_high_def u16_byte_mask by (rule bit_word_eqI) (auto simp: bit_simps)
  have l: "set_low (low_byte x) y AND 0xff = x AND 0xff" for x y
    unfolding set_low_def low_byte_def u16_byte_mask by (rule bit_word_eqI) (auto simp: bit_simps)
  have h: "drop_bit 8 (set_high (high_byte x) y) = drop_bit 8 x" for x y
    unfolding set_high_def high_byte_def u16_byte_mask
    by (rule bit_word_eqI) (auto simp: bit_simps dest: bit_imp_le_length)
  show "set_low (low_byte x) y = x \<longleftrightarrow> drop_bit 8 y = drop_bit 8 x"
    using u16_split [of "set_low (low_byte x) y" x] low [of "low_byte x" y] l by auto
  show "set_high (high_byte x) y = x \<longleftrightarrow> y AND 0xff = x AND 0xff"
    using u16_split [of "set_high (high_byte x) y" x] high [of "high_byte x" y] h by auto
  show "set_high (high_byte x) (set_low (low_byte x) y) = x"
    by (rule u16_split) (simp_all only: high l h)
qed

text \<open>A call of the MPSSE driver on a ready context, as \<open>on_bus\<close> makes it.\<close>

definition talks ::
    "'u libusb \<Rightarrow> 'u observer \<Rightarrow> nat \<Rightarrow> nat \<Rightarrow> nat \<Rightarrow> 'u ftdi \<Rightarrow> mpsse_cmd list \<Rightarrow> 'u ftdi \<Rightarrow> bool" where
  "talks L ob wb rb cb d cs d' \<longleftrightarrow> mpsse_ctx_ptr d' = Open_ctx \<and>
     configures L ob wb rb cb (ftdi_bus d) cs (ftdi_bus d')"

lemma talks_refl: "ready L ob wb rb cb es (ftdi_bus d) \<Longrightarrow> mpsse_ctx_ptr d = Open_ctx \<Longrightarrow> talks L ob wb rb cb d [] d"
  by (simp add: talks_def configures_refl)

lemma talks_trans:
  "talks L ob wb rb cb d cs d' \<Longrightarrow> talks L ob wb rb cb d' ds d'' \<Longrightarrow> talks L ob wb rb cb d (cs @ ds) d''"
  by (auto simp: talks_def intro: configures_trans)

lemma talks_ready: "talks L ob wb rb cb d cs d' \<Longrightarrow> \<exists>es. ready L ob wb rb cb es (ftdi_bus d')"
  by (auto simp: talks_def dest: configures_ready)

lemma on_bus_talks:
  assumes "mpsse_ctx_ptr d = Open_ctx" and "f (ftdi_bus d) = Some s'" and "configures L ob wb rb cb (ftdi_bus d) cs s'"
  shows "on_bus f d = Some (d\<lparr>ftdi_bus := s'\<rparr>) \<and> talks L ob wb rb cb d cs (d\<lparr>ftdi_bus := s'\<rparr>)"
  using assms by (simp add: on_bus_def talks_def)

lemma low_byte_law:
  assumes "ready L ob wb rb cb es (ftdi_bus d)" and "mpsse_ctx_ptr d = Open_ctx"
  shows "\<exists>s'. on_bus (mpsse_set_data_bits_low_byte L x y) d = Some (d\<lparr>ftdi_bus := s'\<rparr>) \<and>
    talks L ob wb rb cb d [Pins 0x80 x y] (d\<lparr>ftdi_bus := s'\<rparr>)"
proof -
  obtain s' where "mpsse_set_data_bits_low_byte L x y (ftdi_bus d) = Some s'"
    "issues L ob wb rb cb (ftdi_bus d) [Pins 0x80 x y] s'"
    using pins_law [OF assms(1), of "0x80" x y] ready_retval [OF assms(1)]
    by (auto simp: mpsse_set_data_bits_low_byte_def)
  with on_bus_talks [OF assms(2)] issues_configures [of L ob wb rb cb "ftdi_bus d" "Pins 0x80 x y" s']
  show ?thesis by auto
qed

lemma high_byte_law:
  assumes "ready L ob wb rb cb es (ftdi_bus d)" and "mpsse_ctx_ptr d = Open_ctx"
  shows "\<exists>s'. on_bus (mpsse_set_data_bits_high_byte L x y) d = Some (d\<lparr>ftdi_bus := s'\<rparr>) \<and>
    talks L ob wb rb cb d [Pins 0x82 x y] (d\<lparr>ftdi_bus := s'\<rparr>)"
proof -
  obtain s' where "mpsse_set_data_bits_high_byte L x y (ftdi_bus d) = Some s'"
    "issues L ob wb rb cb (ftdi_bus d) [Pins 0x82 x y] s'"
    using pins_law [OF assms(1), of "0x82" x y] ready_retval [OF assms(1)]
    by (auto simp: mpsse_set_data_bits_high_byte_def)
  with on_bus_talks [OF assms(2)] issues_configures [of L ob wb rb cb "ftdi_bus d" "Pins 0x82 x y" s']
  show ?thesis by auto
qed

text \<open>The levels and directions that \<open>ftdi_set_signal\<close> aims at.\<close>

definition aim :: "signal \<Rightarrow> bool \<Rightarrow> bool \<Rightarrow> u16 \<times> u16 \<Rightarrow> u16 \<times> u16" where
  "aim s data oe xy =
     (let x = drive data (data_mask s) (fst xy)
      in if oe_mask s = data_mask s then (x, drive oe (oe_mask s) (snd xy))
         else (drive oe (oe_mask s) x, snd xy))"

definition the_pins :: "'u ftdi \<Rightarrow> u16 \<times> u16" where
  "the_pins d = (pin_output d, pin_direction d)"

text \<open>The commands that take the pins from \<open>(x, y)\<close> to \<open>(x', y')\<close>.\<close>

definition pin_cmds :: "u16 \<times> u16 \<Rightarrow> u16 \<times> u16 \<Rightarrow> mpsse_cmd list" where
  "pin_cmds xy xy' =
     (if fst xy' AND 0xff \<noteq> fst xy AND 0xff \<or> snd xy' AND 0xff \<noteq> snd xy AND 0xff
      then [Pins 0x80 (low_byte (fst xy')) (low_byte (snd xy'))] else []) @
     (if drop_bit 8 (fst xy') \<noteq> drop_bit 8 (fst xy) \<or> drop_bit 8 (snd xy') \<noteq> drop_bit 8 (snd xy)
      then [Pins 0x82 (high_byte (fst xy')) (high_byte (snd xy'))] else [])"

lemma pins_after_pin_cmds: "pins_after (pin_cmds xy xy') xy = xy'"
  by (cases xy; cases xy') (auto simp: pin_cmds_def set_bytes intro: u16_split)

lemma ftdi_set_signal_law:
  assumes r: "ready L ob wb rb cb es (ftdi_bus d)" and o: "mpsse_ctx_ptr d = Open_ctx"
    and s: "sig_heap d p = Some s" and m: "data_mask s \<noteq> 0 \<or> oe_mask s \<noteq> 0"
    and l: "signal_level s v = Some (Inr (data, oe))"
  shows "\<exists>d'. ftdi_set_signal L p v d = Some (ERROR_OK, d') \<and> the_pins d' = aim s data oe (the_pins d) \<and>
    talks L ob wb rb cb d (pin_cmds (the_pins d) (the_pins d')) d' \<and>
    (\<exists>s' x y. d' = d\<lparr>pin_output := x, pin_direction := y, ftdi_bus := s'\<rparr>)"
proof -
  define x where "x = fst (aim s data oe (the_pins d))"
  define y where "y = snd (aim s data oe (the_pins d))"
  let ?d = "d\<lparr>pin_output := x, pin_direction := y\<rparr>"
  have p: "aim s data oe (the_pins d) = (x, y)" by (simp add: x_def y_def)
  let ?low = "if x AND 0xff \<noteq> pin_output d AND 0xff \<or> y AND 0xff \<noteq> pin_direction d AND 0xff
    then [Pins 0x80 (low_byte x) (low_byte y)] else []"
  let ?high = "if drop_bit 8 x \<noteq> drop_bit 8 (pin_output d) \<or> drop_bit 8 y \<noteq> drop_bit 8 (pin_direction d)
    then [Pins 0x82 (high_byte x) (high_byte y)] else []"
  obtain s1 where s1: "(if x AND 0xff \<noteq> pin_output d AND 0xff \<or> y AND 0xff \<noteq> pin_direction d AND 0xff
      then on_bus (mpsse_set_data_bits_low_byte L (low_byte x) (low_byte y)) ?d else Some ?d) =
      Some (?d\<lparr>ftdi_bus := s1\<rparr>)" "talks L ob wb rb cb d ?low (?d\<lparr>ftdi_bus := s1\<rparr>)"
  proof (cases "x AND 0xff \<noteq> pin_output d AND 0xff \<or> y AND 0xff \<noteq> pin_direction d AND 0xff")
    case True
    obtain s1 where "on_bus (mpsse_set_data_bits_low_byte L (low_byte x) (low_byte y)) ?d = Some (?d\<lparr>ftdi_bus := s1\<rparr>)"
      "talks L ob wb rb cb ?d [Pins 0x80 (low_byte x) (low_byte y)] (?d\<lparr>ftdi_bus := s1\<rparr>)"
      using low_byte_law [of L ob wb rb cb es ?d] r o by auto
    with True that [of s1] show ?thesis by (auto simp: talks_def)
  next
    case False
    with that [of "ftdi_bus d"] talks_refl [of L ob wb rb cb es d] r o show ?thesis by (auto simp: talks_def)
  qed
  obtain es1 where r1: "ready L ob wb rb cb es1 s1" using talks_ready [OF s1(2)] by auto
  obtain s2 where s2: "(if drop_bit 8 x \<noteq> drop_bit 8 (pin_output d) \<or> drop_bit 8 y \<noteq> drop_bit 8 (pin_direction d)
      then on_bus (mpsse_set_data_bits_high_byte L (high_byte x) (high_byte y)) (?d\<lparr>ftdi_bus := s1\<rparr>)
      else Some (?d\<lparr>ftdi_bus := s1\<rparr>)) = Some (?d\<lparr>ftdi_bus := s2\<rparr>)"
    "talks L ob wb rb cb (?d\<lparr>ftdi_bus := s1\<rparr>) ?high (?d\<lparr>ftdi_bus := s2\<rparr>)"
  proof (cases "drop_bit 8 x \<noteq> drop_bit 8 (pin_output d) \<or> drop_bit 8 y \<noteq> drop_bit 8 (pin_direction d)")
    case True
    obtain s2 where "on_bus (mpsse_set_data_bits_high_byte L (high_byte x) (high_byte y)) (?d\<lparr>ftdi_bus := s1\<rparr>) =
        Some (?d\<lparr>ftdi_bus := s2\<rparr>)"
      "talks L ob wb rb cb (?d\<lparr>ftdi_bus := s1\<rparr>) [Pins 0x82 (high_byte x) (high_byte y)] (?d\<lparr>ftdi_bus := s2\<rparr>)"
      using high_byte_law [of L ob wb rb cb es1 "?d\<lparr>ftdi_bus := s1\<rparr>"] r1 o by auto
    with True that [of s2] show ?thesis by auto
  next
    case False
    with that [of s1] talks_refl [of L ob wb rb cb es1 "?d\<lparr>ftdi_bus := s1\<rparr>"] r1 o show ?thesis by auto
  qed
  let ?d' = "?d\<lparr>ftdi_bus := s2\<rparr>"
  have "ftdi_set_signal L p v d = Some (ERROR_OK, ?d')"
  proof (cases "oe_mask s = data_mask s")
    case True
    then have xy: "drive data (data_mask s) (pin_output d) = x" "drive oe (data_mask s) (pin_direction d) = y"
      by (simp_all add: x_def y_def aim_def the_pins_def)
    have "\<not> (data_mask s = 0 \<and> oe_mask s = 0)" using m by simp
    then show ?thesis
      using s l s1(1) s2(1) True xy by (simp add: ftdi_set_signal_def Let_def cong: if_cong split del: if_split)
  next
    case False
    then have xy: "drive oe (oe_mask s) (drive data (data_mask s) (pin_output d)) = x" "pin_direction d = y"
      by (simp_all add: x_def y_def aim_def the_pins_def)
    have "d\<lparr>pin_direction := y\<rparr> = d" by (simp flip: xy(2))
    then have "ftdi_set_signal L p v d = Some (ERROR_OK, d\<lparr>pin_output := x, ftdi_bus := s2\<rparr>)"
      using s m l s1(1) s2(1) False xy by (auto simp: ftdi_set_signal_def Let_def cong: if_cong split del: if_split)
    moreover have "?d' = d\<lparr>pin_output := x, ftdi_bus := s2\<rparr>" by (simp flip: xy(2))
    ultimately show ?thesis by simp
  qed
  moreover have "talks L ob wb rb cb d (pin_cmds (the_pins d) (the_pins ?d')) ?d'"
  proof -
    have "pin_cmds (the_pins d) (the_pins ?d') = ?low @ ?high" by (simp add: pin_cmds_def the_pins_def)
    then show ?thesis using talks_trans [OF s1(2) s2(2)] by (simp only:)
  qed
  moreover have "the_pins ?d' = aim s data oe (the_pins d)" using p by (simp add: the_pins_def)
  ultimately show ?thesis by (intro exI [of _ ?d'] conjI exI [of _ s2] exI [of _ x] exI [of _ y]) simp_all
qed

text \<open>Any calls of \<open>ftdi_set_signal\<close>, one after the other; the results are ignored.\<close>

fun set_signals :: "'u libusb \<Rightarrow> (nat \<times> char) list \<Rightarrow> 'u ftdi \<Rightarrow> 'u ftdi option" where
  "set_signals L [] d = Some d"
| "set_signals L ((p, v) # cs) d = do { (_, d) \<leftarrow> ftdi_set_signal L p v d; set_signals L cs d }"

definition levels :: "char set" where
  "levels = {CHR ''0'', CHR ''1'', CHR ''z'', CHR ''Z''}"

lemma signal_level_cases:
  "v \<in> levels \<Longrightarrow> (\<exists>data oe. signal_level s v = Some (Inr (data, oe))) \<or> signal_level s v = Some (Inl ERROR_FAIL)"
  by (auto simp: levels_def signal_level_def)

lemma ftdi_set_signal_total:
  assumes r: "ready L ob wb rb cb es (ftdi_bus d)" and o: "mpsse_ctx_ptr d = Open_ctx"
    and s: "sig_heap d p \<noteq> None" and v: "v \<in> levels"
  shows "\<exists>rc d' cs. ftdi_set_signal L p v d = Some (rc, d') \<and> talks L ob wb rb cb d cs d' \<and>
    pins_after cs (the_pins d) = the_pins d' \<and> sig_heap d' = sig_heap d"
proof -
  obtain s where s: "sig_heap d p = Some s" using s by blast
  have idle: ?thesis if "ftdi_set_signal L p v d = Some (ERROR_FAIL, d)"
    using that talks_refl [OF r o] by (intro exI [of _ ERROR_FAIL] exI [of _ d] exI [of _ "[]"]) simp
  show ?thesis
  proof (cases "data_mask s = 0 \<and> oe_mask s = 0")
    case True
    with s idle show ?thesis by (simp add: ftdi_set_signal_def)
  next
    case masks: False
    consider data oe where "signal_level s v = Some (Inr (data, oe))" | "signal_level s v = Some (Inl ERROR_FAIL)"
      using signal_level_cases [OF v] by blast
    then show ?thesis
    proof cases
      case 1
      obtain d' where d': "ftdi_set_signal L p v d = Some (ERROR_OK, d')"
        "talks L ob wb rb cb d (pin_cmds (the_pins d) (the_pins d')) d'"
        "\<exists>s' x y. d' = d\<lparr>pin_output := x, pin_direction := y, ftdi_bus := s'\<rparr>"
        using ftdi_set_signal_law [OF r o s _ 1] masks by blast
      then have "sig_heap d' = sig_heap d" by auto
      with d'(1,2) pins_after_pin_cmds show ?thesis by blast
    next
      case 2
      with s masks idle show ?thesis by (simp add: ftdi_set_signal_def)
    qed
  qed
qed

lemma set_signals_law:
  assumes "ready L ob wb rb cb es (ftdi_bus d)" and "mpsse_ctx_ptr d = Open_ctx"
    and "\<forall>(p, v) \<in> set calls. sig_heap d p \<noteq> None \<and> v \<in> levels"
  shows "\<exists>d' cs. set_signals L calls d = Some d' \<and> talks L ob wb rb cb d cs d' \<and>
    pins_after cs (the_pins d) = the_pins d'"
  using assms
proof (induction calls arbitrary: d es)
  case Nil
  then show ?case using talks_refl [OF Nil(1,2)] by (intro exI [of _ d] exI [of _ "[]"]) simp
next
  case (Cons c calls)
  obtain p v where c: "c = (p, v)" by (cases c)
  obtain rc d1 cs where 1: "ftdi_set_signal L p v d = Some (rc, d1)" "talks L ob wb rb cb d cs d1"
    "pins_after cs (the_pins d) = the_pins d1" "sig_heap d1 = sig_heap d"
    using ftdi_set_signal_total [OF Cons.prems(1,2), of p v] Cons.prems(3) c by auto
  obtain es1 where "ready L ob wb rb cb es1 (ftdi_bus d1)" using talks_ready [OF 1(2)] by blast
  then obtain d' ds where "set_signals L calls d1 = Some d'" "talks L ob wb rb cb d1 ds d'"
    "pins_after ds (the_pins d1) = the_pins d'"
    using Cons.IH [of es1 d1] Cons.prems(3) 1(2,4) by (auto simp: talks_def)
  with 1 c talks_trans [OF 1(2)] show ?case
    by (intro exI [of _ d'] exI [of _ "cs @ ds"]) simp
qed

section \<open>Reading a signal\<close>

lemma buffer_add_read_room:
  "buffer_add_read p io n off s = Some (k, s') \<Longrightarrow> room (queue s') = room (queue s) - 1"
  by (auto simp: buffer_add_read_def bit_copy_queued_def Let_def split: if_splits bind_splits)

lemma read_op_law:
  assumes inv: "minv wb rb cb es s" and rv: "retval (ctx s) = ERROR_OK"
    and b: "memory s b = Some [v]" "b \<notin> own_blocks wb rb cb"
    and fits: "write_count (ctx s) + 1 < write_size (ctx s)" "read_count (ctx s) < read_size (ctx s)"
    and rm: "0 < room (queue s)"
  shows "\<exists>s'. do {
        s \<leftarrow> (if buffer_write_space (ctx s) < 1 \<or> buffer_read_space (ctx s) < 1 then flush_into_retval L s
              else Some s);
        s \<leftarrow> buffer_write_byte op s;
        (_, s) \<leftarrow> buffer_add_read (Ptr b 0) 0 8 0 s;
        Some s
      } = Some s' \<and>
    minv wb rb cb (es @ [read_entry (Ptr b 0) 0 rb (read_count (ctx s)) 0 8]) s' \<and>
    pending wb s' = pending wb s @ [op] \<and>
    ctx s' = (ctx s)\<lparr>write_count := write_count (ctx s) + 1, read_count := read_count (ctx s) + 1\<rparr> \<and>
    (\<forall>c. c \<noteq> wb \<longrightarrow> memory s' c = memory s c) \<and> device s' = device s \<and>
    room (queue s') = room (queue s) - 1"
proof -
  have space: "\<not> (buffer_write_space (ctx s) < 1 \<or> buffer_read_space (ctx s) < 1)"
    using minv_write_space [OF inv] minv_read_space [OF inv] fits by simp
  obtain W where W: "memory s wb = Some W" "length W = write_size (ctx s)"
    using inv by (auto simp: minv_def sized_def)
  let ?e = "emit wb [op] s"
  have inv': "minv wb rb cb es ?e" using fits(1) by (intro minv_emit [OF inv]) simp
  have mem: "memory ?e b = Some [v]" using b by simp
  have pe: "pending wb ?e = pending wb s @ [op]" using pending_emit [OF W(1), of "[op]"] W(2) fits(1) by simp
  obtain s' es' where s': "buffer_add_read (Ptr b 0) 0 8 0 ?e = Some (8, s')" "minv wb rb cb es' s'"
    "expects 1 ?e s'"
    "if room (queue ?e) = 0 then es' = es
      else es' = es @ [read_entry (Ptr b 0) 0 rb (read_count (ctx ?e)) 0 8]"
    using buffer_add_read_expects [OF inv' mem b(2), of 0 0 8 0] fits(2) by auto
  note f = expects_fields [OF s'(3)]
  have es': "es' = es @ [read_entry (Ptr b 0) 0 rb (read_count (ctx s)) 0 8]" using s'(4) rm by simp
  have "pending wb s' = pending wb s @ [op]" using pe f by (simp add: pending_def)
  moreover have "buffer_write_byte op s = Some ?e" by (rule buffer_write_byte_emit [OF inv])
  ultimately show ?thesis
    using space s'(1,2) es' f buffer_add_read_room [OF s'(1)] by (intro exI [of _ s']) simp
qed

lemma copy_byte:
  assumes "m rb = Some R" and "k < length R" and "m b = Some [v]" and "b \<noteq> rb"
  shows "bit_copy m (Ptr b 0) 0 (Ptr rb k) 0 8 = Some (m(b \<mapsto> [R ! k]))"
proof -
  have "bit_copy m (Ptr b 0) 0 (Ptr rb k) 0 8 =
      Some (set_block_bits m b (blit (bits_of [v]) (8 * 0) (bits_of R) (8 * k) (8 * 1)))"
    using bit_copy_known [OF assms(1,3), of k 0 8 0 0] assms(2,4) by simp
  also have "blit (bits_of [v]) (8 * 0) (bits_of R) (8 * k) (8 * 1) = bits_of [R ! k]"
    using assms(2) by (subst blit_bytes) (simp add: blit_def take_Suc_conv_app_nth)
  finally show ?thesis by (simp only: set_block_bits_def bytes_of_bits_of)
qed

lemma flush_rc_ready:
  assumes r: "ready L ob wb rb cb es s"
  shows "\<exists>s' cs. mpsse_flush L s = Some (ERROR_OK, s') \<and> flushed ob wb rb cb es s s' \<and>
    ready L ob wb rb cb [] s' \<and> advance ob wb s cs s' \<and> quiet cs \<and> chip_type (ctx s') = chip_type (ctx s)"
proof -
  obtain s' where 1: "mpsse_flush L s = Some (ERROR_OK, s')" "flushed ob wb rb cb es s s'"
    using flush_prompt [of L ob s wb rb cb es] r by (auto simp: ready_def)
  have c: "ctx s' = emptied (ctx s)" using 1(2) by (simp add: flushed_def)
  then have "s'\<lparr>ctx := (ctx s')\<lparr>retval := ERROR_OK\<rparr>\<rparr> = s'"
    using ready_retval [OF r] by (simp add: set_retval_same emptied_def)
  then have "flush_into_retval L s = Some s'" using 1(1) by (simp add: flush_into_retval_def)
  with flush_ready [OF r] 1 c show ?thesis by (auto simp: emptied_def)
qed

text \<open>Two bytes of the caller's stack.\<close>

definition with_slots :: "nat \<Rightarrow> nat \<Rightarrow> 'u ftdi \<Rightarrow> 'u ftdi" where
  "with_slots lo hi d = on_memory (\<lambda>m. m(lo \<mapsto> [0], hi \<mapsto> [0])) d"

lemma minv_slots:
  assumes "minv wb rb cb [] (ftdi_bus d)" and "lo \<notin> own_blocks wb rb cb" and "hi \<notin> own_blocks wb rb cb"
  shows "minv wb rb cb [] (ftdi_bus (with_slots lo hi d))"
    and "pending wb (ftdi_bus (with_slots lo hi d)) = pending wb (ftdi_bus d)"
  using assms by (auto simp: minv_def sized_def with_slots_def on_memory_def pending_def)

text \<open>One of the two reads, when the mask asks for it.\<close>

definition slot_entry :: "nat \<Rightarrow> nat \<Rightarrow> nat \<Rightarrow> bit_copy_queue_entry" where
  "slot_entry rb b k = read_entry (Ptr b 0) 0 rb k 0 8"

lemma run_slot_entries:
  assumes "m rb = Some R" and "take n R = take n X" and "n \<le> length X" and "n \<le> length R"
    and "n = of_bool l + of_bool h" and "m lo = Some [0]" and "m hi = Some [0]" and "lo \<noteq> hi" "lo \<noteq> rb" "hi \<noteq> rb"
  shows "\<exists>m'. run_copies m ((if l then [slot_entry rb lo 0] else []) @
      (if h then [slot_entry rb hi (of_bool l)] else [])) = Some m' \<and>
    m' lo = Some [if l then X ! 0 else 0] \<and> m' hi = Some [if h then X ! of_bool l else 0]"
proof -
  have nth: "R ! k = X ! k" if "k < n" for k
    using that arg_cong [OF assms(2), of "\<lambda>xs. xs ! k"] by simp
  have lo: "bit_copy m (Ptr lo 0) 0 (Ptr rb 0) 0 8 = Some (m(lo \<mapsto> [X ! 0]))" if l
  proof -
    have "0 < n" using that assms(5) by simp
    with assms(4) have lt: "0 < length R" by linarith
    then show ?thesis using copy_byte [OF assms(1) lt assms(6,9)] nth [OF \<open>0 < n\<close>] by simp
  qed
  have hi: "bit_copy m' (Ptr hi 0) 0 (Ptr rb (of_bool l)) 0 8 = Some (m'(hi \<mapsto> [X ! of_bool l]))"
    if "m' rb = Some R" "m' hi = Some [0]" h for m'
    using that copy_byte [OF that(1) _ that(2) assms(10), of "of_bool l"] nth [of "of_bool l"] assms(4,5) by simp
  show ?thesis
    using lo hi [of m] hi [of "m(lo \<mapsto> [X ! 0])"] assms
    by (cases l; cases h) (simp_all add: slot_entry_def read_entry_def)
qed

text \<open>
  The levels of the 16 pins from the answers to the commands for the lower and for the upper ones;
  a half that was not asked for counts as zero.
\<close>

definition answer_byte :: "u8 list \<Rightarrow> u8" where
  "answer_byte bs = (case bs of [] \<Rightarrow> 0 | b # _ \<Rightarrow> b)"

definition levels_of :: "u8 list \<Rightarrow> u8 list \<Rightarrow> u16" where
  "levels_of xs ys = push_bit 8 (ucast (answer_byte ys)) OR ucast (answer_byte xs)"

lemma answer_bytes:
  assumes "length X = of_bool l + of_bool h"
  shows "answer_byte (take (of_bool l) X) = (if l then X ! 0 else 0)"
    and "answer_byte (drop (of_bool l) X) = (if h then X ! of_bool l else 0)"
  using assms by (cases X; cases l; cases h; auto simp: answer_byte_def neq_Nil_conv length_Suc_conv)+

text \<open>The commands that ask for the pins of a mask, as bytes.\<close>

definition pin_reads :: "u16 \<Rightarrow> u8 list" where
  "pin_reads bits = (if bits AND 0xff \<noteq> 0 then [0x81] else []) @ (if drop_bit 8 bits \<noteq> 0 then [0x83] else [])"

lemma mask_parts:
  fixes bits :: u16
  assumes "bits \<noteq> 0"
  shows "bits AND 0xff \<noteq> 0 \<or> drop_bit 8 bits \<noteq> 0"
proof -
  have "(0xff :: u16) = mask 8" by (simp add: mask_eq_exp_minus_1)
  then have "bits AND 0xff = take_bit 8 bits" by (simp only: take_bit_eq_mask)
  with assms bits_ident [of 8 bits] show ?thesis by auto
qed

lemma length_pin_reads: "length (pin_reads bits) = of_bool (bits AND 0xff \<noteq> 0) + of_bool (drop_bit 8 bits \<noteq> 0)"
  by (simp add: pin_reads_def)

text \<open>The two read commands of \<open>ftdi_get_signal\<close>.\<close>

definition ask_pins :: "'u libusb \<Rightarrow> nat \<Rightarrow> nat \<Rightarrow> u16 \<Rightarrow> 'u ftdi \<Rightarrow> 'u ftdi option" where
  "ask_pins L lo hi bits d = do {
     d \<leftarrow> (if bits AND 0xff \<noteq> 0 then on_bus (mpsse_read_data_bits_low_byte L (Ptr lo 0)) d else Some d);
     if drop_bit 8 bits \<noteq> 0 then on_bus (mpsse_read_data_bits_high_byte L (Ptr hi 0)) d else Some d
   }"

lemma ask_pins_law:
  assumes inv: "minv wb rb cb [] (ftdi_bus d)" and o: "mpsse_ctx_ptr d = Open_ctx"
    and rv: "retval (ctx (ftdi_bus d)) = ERROR_OK"
    and slots: "lo \<notin> own_blocks wb rb cb" "hi \<notin> own_blocks wb rb cb" "lo \<noteq> hi"
    and fits: "write_count (ctx (ftdi_bus d)) + 3 < write_size (ctx (ftdi_bus d))"
      "read_count (ctx (ftdi_bus d)) = 0" "2 \<le> read_size (ctx (ftdi_bus d))"
    and rm: "2 \<le> room (queue (ftdi_bus d))"
    and es: "es = (if bits AND 0xff \<noteq> 0 then [slot_entry rb lo 0] else []) @
      (if drop_bit 8 bits \<noteq> 0 then [slot_entry rb hi (of_bool (bits AND 0xff \<noteq> 0))] else [])"
  shows "\<exists>s2. ask_pins L lo hi bits (with_slots lo hi d) = Some (with_slots lo hi d\<lparr>ftdi_bus := s2\<rparr>) \<and>
    minv wb rb cb es s2 \<and>
    ctx s2 = (ctx (ftdi_bus d))\<lparr>write_count := write_count (ctx (ftdi_bus d)) + length (pin_reads bits),
      read_count := length (pin_reads bits)\<rparr> \<and>
    pending wb s2 = pending wb (ftdi_bus d) @ pin_reads bits \<and>
    memory s2 lo = Some [0] \<and> memory s2 hi = Some [0] \<and> device s2 = device (ftdi_bus d)"
proof -
  let ?l = "bits AND 0xff \<noteq> 0" and ?h = "drop_bit 8 bits \<noteq> 0" and ?d0 = "with_slots lo hi d"
  let ?s0 = "ftdi_bus ?d0"
  note i0 = minv_slots [OF inv slots(1,2)]
  have d0: "mpsse_ctx_ptr ?d0 = Open_ctx" "ctx ?s0 = ctx (ftdi_bus d)" "queue ?s0 = queue (ftdi_bus d)"
    "device ?s0 = device (ftdi_bus d)" "memory ?s0 lo = Some [0]" "memory ?s0 hi = Some [0]"
    using o slots(3) by (simp_all add: with_slots_def on_memory_def)
  define e1 where "e1 = (if ?l then [slot_entry rb lo 0] else [])"
  obtain s1 where s1: "(if ?l then on_bus (mpsse_read_data_bits_low_byte L (Ptr lo 0)) ?d0 else Some ?d0) =
      Some (?d0\<lparr>ftdi_bus := s1\<rparr>)" "minv wb rb cb e1 s1"
    "ctx s1 = (ctx (ftdi_bus d))\<lparr>write_count := write_count (ctx (ftdi_bus d)) + of_bool ?l, read_count := of_bool ?l\<rparr>"
    "pending wb s1 = pending wb (ftdi_bus d) @ (if ?l then [0x81] else [])"
    "memory s1 lo = Some [0]" "memory s1 hi = Some [0]" "device s1 = device (ftdi_bus d)" "1 \<le> room (queue s1)"
  proof (cases ?l)
    case False
    have "ctx (ftdi_bus d) = (ctx (ftdi_bus d))\<lparr>read_count := 0\<rparr>" using fits(2) by simp
    then show ?thesis using that [of ?s0] False i0 d0 fits rm by (simp add: e1_def)
  next
    case True
    obtain s1 where s1: "mpsse_read_data_bits_low_byte L (Ptr lo 0) ?s0 = Some s1"
      "minv wb rb cb ([] @ [read_entry (Ptr lo 0) 0 rb (read_count (ctx ?s0)) 0 8]) s1"
      "pending wb s1 = pending wb ?s0 @ [0x81]"
      "ctx s1 = (ctx ?s0)\<lparr>write_count := write_count (ctx ?s0) + 1, read_count := read_count (ctx ?s0) + 1\<rparr>"
      "\<forall>c. c \<noteq> wb \<longrightarrow> memory s1 c = memory ?s0 c" "device s1 = device ?s0"
      "room (queue s1) = room (queue ?s0) - 1"
      using read_op_law [OF i0(1) _ d0(5) slots(1), of L "0x81"] fits rm d0(2,3) rv
      by (auto simp: mpsse_read_data_bits_low_byte_def)
    have "on_bus (mpsse_read_data_bits_low_byte L (Ptr lo 0)) ?d0 = Some (?d0\<lparr>ftdi_bus := s1\<rparr>)"
      using s1(1) d0(1) by (simp add: on_bus_def)
    then show ?thesis using that [of s1] True s1(2-) d0 i0(2) fits rm slots by (simp add: e1_def slot_entry_def)
  qed
  let ?d1 = "?d0\<lparr>ftdi_bus := s1\<rparr>"
  obtain s2 where s2: "(if ?h then on_bus (mpsse_read_data_bits_high_byte L (Ptr hi 0)) ?d1 else Some ?d1) =
      Some (?d0\<lparr>ftdi_bus := s2\<rparr>)" "minv wb rb cb es s2"
    "ctx s2 = (ctx s1)\<lparr>write_count := write_count (ctx s1) + of_bool ?h, read_count := read_count (ctx s1) + of_bool ?h\<rparr>"
    "pending wb s2 = pending wb s1 @ (if ?h then [0x83] else [])" "memory s2 lo = Some [0]" "memory s2 hi = Some [0]"
    "device s2 = device s1"
  proof (cases ?h)
    case False
    then show ?thesis using that [of s1] s1 by (simp add: es e1_def)
  next
    case True
    have rd: "read_count (ctx s1) < read_size (ctx s1)" "write_count (ctx s1) + 1 < write_size (ctx s1)"
      "0 < room (queue s1)" "retval (ctx s1) = ERROR_OK"
      using s1(3,8) fits rv by (auto split: if_splits)
    obtain s2 where s2: "mpsse_read_data_bits_high_byte L (Ptr hi 0) s1 = Some s2"
      "minv wb rb cb (e1 @ [read_entry (Ptr hi 0) 0 rb (read_count (ctx s1)) 0 8]) s2"
      "pending wb s2 = pending wb s1 @ [0x83]"
      "ctx s2 = (ctx s1)\<lparr>write_count := write_count (ctx s1) + 1, read_count := read_count (ctx s1) + 1\<rparr>"
      "\<forall>c. c \<noteq> wb \<longrightarrow> memory s2 c = memory s1 c" "device s2 = device s1"
      using read_op_law [OF s1(2) rd(4) s1(6) slots(2) rd(2,1,3), of L "0x83"] rd(4)
      by (auto simp: mpsse_read_data_bits_high_byte_def)
    have "on_bus (mpsse_read_data_bits_high_byte L (Ptr hi 0)) ?d1 = Some (?d0\<lparr>ftdi_bus := s2\<rparr>)"
      using s2(1) d0(1) by (simp add: on_bus_def)
    then show ?thesis using that [of s2] True s2(2-) s1 slots by (simp add: es e1_def slot_entry_def)
  qed
  have "ask_pins L lo hi bits ?d0 = Some (?d0\<lparr>ftdi_bus := s2\<rparr>)"
    unfolding ask_pins_def s1(1) bind.bind_lunit by (rule s2(1))
  moreover have "ctx s2 = (ctx (ftdi_bus d))\<lparr>write_count := write_count (ctx (ftdi_bus d)) + length (pin_reads bits),
      read_count := length (pin_reads bits)\<rparr>"
    unfolding s2(3) s1(3) length_pin_reads by simp
  moreover have "pending wb s2 = pending wb (ftdi_bus d) @ pin_reads bits"
    unfolding s2(4) s1(4) pin_reads_def by simp
  moreover have "device s2 = device (ftdi_bus d)" unfolding s2(7) by (rule s1(7))
  ultimately show ?thesis using s2(2,5,6) by (intro exI [of _ s2] conjI)
qed

text \<open>After the commands comes the flush, whose result is dropped.\<close>

lemma get_signal_run:
  assumes "sig_heap d p = Some s" and "input_mask s \<noteq> 0" and "mpsse_ctx_ptr d = Open_ctx"
    and "ask_pins L lo hi (input_mask s) (with_slots lo hi d) = Some (with_slots lo hi d\<lparr>ftdi_bus := s2\<rparr>)"
    and "mpsse_flush L s2 = Some (rc, s3)" and "memory s3 lo = Some [x]" and "memory s3 hi = Some [y]"
    and "v = (push_bit 8 (ucast y) OR ucast x :: u16)"
  shows "ftdi_get_signal L lo hi p d =
    Some (ERROR_OK, Some ((if invert_input s then NOT v else v) AND input_mask s),
      on_memory (\<lambda>m. m(lo := None, hi := None)) (d\<lparr>ftdi_bus := s3\<rparr>))"
proof -
  let ?d0 = "with_slots lo hi d"
  have d0: "mpsse_ctx_ptr ?d0 = Open_ctx" "sig_heap ?d0 p = Some s" "?d0\<lparr>ftdi_bus := s3\<rparr> = d\<lparr>ftdi_bus := s3\<rparr>"
    using assms(1,3) by (simp_all add: with_slots_def on_memory_def)
  from assms(4) obtain d1 where d1: "(if input_mask s AND 0xff \<noteq> 0
      then on_bus (mpsse_read_data_bits_low_byte L (Ptr lo 0)) ?d0 else Some ?d0) = Some d1"
    "(if drop_bit 8 (input_mask s) \<noteq> 0 then on_bus (mpsse_read_data_bits_high_byte L (Ptr hi 0)) d1 else Some d1) =
      Some (?d0\<lparr>ftdi_bus := s2\<rparr>)"
    unfolding ask_pins_def by (auto split: bind_splits)
  have flush: "on_bus_rc (mpsse_flush L) (?d0\<lparr>ftdi_bus := s2\<rparr>) = Some (rc, d\<lparr>ftdi_bus := s3\<rparr>)"
    using assms(5) d0(1,3) by (simp add: on_bus_rc_def)
  show ?thesis
    unfolding ftdi_get_signal_def with_slots_def [symmetric] Let_def d0(2) bind.bind_lunit if_not_P [OF assms(2)]
      d1 flush prod.case
    using assms(6-8) by simp
qed

lemma ftdi_get_signal_law:
  assumes r: "ready L ob wb rb cb [] (ftdi_bus d)" and o: "mpsse_ctx_ptr d = Open_ctx"
    and s: "sig_heap d p = Some s" and mask: "input_mask s \<noteq> 0"
    and slots: "lo \<notin> own_blocks wb rb cb" "hi \<notin> own_blocks wb rb cb" "lo \<noteq> hi"
    and fits: "write_count (ctx (ftdi_bus d)) + 3 < write_size (ctx (ftdi_bus d))"
      "read_count (ctx (ftdi_bus d)) = 0" "2 \<le> read_size (ctx (ftdi_bus d))"
    and rm: "2 \<le> room (queue (ftdi_bus d))"
    and lower: "lower = (if input_mask s AND 0xff \<noteq> 0 then [0x81] else [])"
    and upper: "upper = (if drop_bit 8 (input_mask s) \<noteq> 0 then [0x83] else [])"
  shows "\<exists>d' xs ys. ftdi_get_signal L lo hi p d = Some (ERROR_OK,
      Some ((if invert_input s then NOT (levels_of xs ys) else levels_of xs ys) AND input_mask s), d') \<and>
    sent ob (device (ftdi_bus d')) =
      sent ob (device (ftdi_bus d)) @ pending wb (ftdi_bus d) @ lower @ upper @ [0x87] \<and>
    answered ob (ftdi_bus d) (xs @ ys) (ftdi_bus d') \<and> length xs = length lower \<and> length ys = length upper"
proof -
  let ?l = "input_mask s AND 0xff \<noteq> 0" and ?h = "drop_bit 8 (input_mask s) \<noteq> 0" and ?n = "length (pin_reads (input_mask s))"
  have inv: "minv wb rb cb [] (ftdi_bus d)" using r by (simp add: ready_def)
  have rv: "retval (ctx (ftdi_bus d)) = ERROR_OK" by (rule ready_retval [OF r])
  define es where "es = (if ?l then [slot_entry rb lo 0] else []) @ (if ?h then [slot_entry rb hi (of_bool ?l)] else [])"
  obtain s2 where s2: "ask_pins L lo hi (input_mask s) (with_slots lo hi d) = Some (with_slots lo hi d\<lparr>ftdi_bus := s2\<rparr>)"
    "minv wb rb cb es s2"
    "ctx s2 = (ctx (ftdi_bus d))\<lparr>write_count := write_count (ctx (ftdi_bus d)) + ?n, read_count := ?n\<rparr>"
    "pending wb s2 = pending wb (ftdi_bus d) @ pin_reads (input_mask s)"
    "memory s2 lo = Some [0]" "memory s2 hi = Some [0]" "device s2 = device (ftdi_bus d)"
    using ask_pins_law [OF inv o rv slots fits rm es_def, of L] by auto
  have r2: "ready L ob wb rb cb es s2" using r s2(2,3,7) by (simp add: ready_def)
  obtain s3 where s3: "mpsse_flush L s2 = Some (ERROR_OK, s3)" "flushed ob wb rb cb es s2 s3"
    using flush_rc_ready [OF r2] by blast
  obtain X m R where X: "replies ob (device s3) = replies ob (device s2) @ X" "?n \<le> length X"
    "\<forall>c. c \<notin> {wb, rb, cb} \<longrightarrow> m c = memory s2 c" "m rb = Some R"
    "take ?n R = take ?n X" "run_copies m es = Some (memory s3)"
    using s3(2) s2(3) unfolding flushed_def by auto
  let ?X = "take ?n X"
  have "length (take ?n R) = ?n" using X(2,5) by simp
  then have lenR: "?n \<le> length R" by simp
  have m: "m lo = Some [0]" "m hi = Some [0]" using X(3) s2(5,6) slots by simp_all
  have rb: "lo \<noteq> rb" "hi \<noteq> rb" using slots by simp_all
  have lX: "?n \<le> length ?X" "take ?n R = take ?n ?X" using X(2,5) by simp_all
  have mem: "memory s3 lo = Some [if ?l then ?X ! 0 else 0]" "memory s3 hi = Some [if ?h then ?X ! of_bool ?l else 0]"
    using run_slot_entries [OF X(4) lX(2,1) lenR length_pin_reads m slots(3) rb] X(6) by (simp_all add: es_def)
  let ?xs = "take (of_bool ?l) ?X" and ?ys = "drop (of_bool ?l) ?X"
  have nX: "length ?X = of_bool ?l + of_bool ?h" using X(2) length_pin_reads [of "input_mask s"] by simp
  have v: "levels_of ?xs ?ys = push_bit 8 (ucast (if ?h then ?X ! of_bool ?l else 0)) OR ucast (if ?l then ?X ! 0 else 0)"
    unfolding levels_of_def answer_bytes [OF nX] ..
  note run = get_signal_run [OF s mask o s2(1) s3(1) mem v]
  have "0 < ?n" using mask_parts [OF mask] by (auto simp: length_pin_reads)
  then have "sent ob (device s3) = sent ob (device (ftdi_bus d)) @ pending wb (ftdi_bus d) @ pin_reads (input_mask s) @ [0x87]"
    using s3(2) s2(3,4,7) by (simp add: flushed_def)
  moreover have "answered ob s2 ?X s3"
    using answered_one [OF X(1), of "?n"] X(2) by simp
  then have "answered ob (ftdi_bus d) ?X s3" using s2(7) by (simp add: answered_def)
  moreover have "pin_reads (input_mask s) = lower @ upper" by (simp add: pin_reads_def lower upper)
  moreover have "length ?xs = length lower" "length ?ys = length upper" using nX by (simp_all add: lower upper)
  moreover have "?xs @ ?ys = ?X" by (rule append_take_drop_id)
  ultimately show ?thesis
    using run by (intro exI [of _ "on_memory (\<lambda>m. m(lo := None, hi := None)) (d\<lparr>ftdi_bus := s3\<rparr>)"] exI [of _ ?xs] exI [of _ ?ys])
      (simp add: on_memory_def answered_def)
qed

text \<open>When the flush fails, for whatever reason, the two variables still hold what they were initialised with.\<close>

lemma ftdi_get_signal_failed:
  assumes inv: "minv wb rb cb [] (ftdi_bus d)" and rv: "retval (ctx (ftdi_bus d)) = ERROR_OK"
    and L: "bulk_ok L ob (unat (max_packet_size (ctx (ftdi_bus d))))" and idle: "idle ob (device (ftdi_bus d))"
    and o: "mpsse_ctx_ptr d = Open_ctx"
    and s: "sig_heap d p = Some s" and mask: "input_mask s \<noteq> 0"
    and slots: "lo \<notin> own_blocks wb rb cb" "hi \<notin> own_blocks wb rb cb" "lo \<noteq> hi"
    and fits: "write_count (ctx (ftdi_bus d)) + 3 < write_size (ctx (ftdi_bus d))"
      "read_count (ctx (ftdi_bus d)) = 0" "2 \<le> read_size (ctx (ftdi_bus d))"
    and rm: "2 \<le> room (queue (ftdi_bus d))"
    and ask: "ask_pins L lo hi (input_mask s) (with_slots lo hi d) = Some d2"
    and fl: "mpsse_flush L (ftdi_bus d2) = Some (rc, s3)" "rc \<noteq> ERROR_OK"
  shows "\<exists>d'. ftdi_get_signal L lo hi p d = Some (ERROR_OK, Some (if invert_input s then input_mask s else 0), d')"
proof -
  obtain es s2 where s2: "d2 = with_slots lo hi d\<lparr>ftdi_bus := s2\<rparr>" "minv wb rb cb es s2"
    "retval (ctx s2) = ERROR_OK" "max_packet_size (ctx s2) = max_packet_size (ctx (ftdi_bus d))"
    "memory s2 lo = Some [0]" "memory s2 hi = Some [0]" "device s2 = device (ftdi_bus d)"
    using ask_pins_law [OF inv o rv slots fits rm refl, of L "input_mask s"] ask rv by auto
  have fl2: "mpsse_flush L s2 = Some (rc, s3)" using fl(1) s2(1) by simp
  have "flush_aborted wb rb cb s2 s3"
    using flush_outcome [OF _ s2(2,3) _ fl2, of ob] L idle s2(4,7) fl(2) by auto
  then have "memory s3 lo = Some [0]" "memory s3 hi = Some [0]"
    using slots s2(5,6) by (simp_all add: flush_aborted_def)
  from get_signal_run [OF s mask o ask [unfolded s2(1)] fl2 this refl] show ?thesis by auto
qed

end
