(* ===== verification/Mpsse_Open_Laws.thy ===== *)
theory Mpsse_Open_Laws
  imports Mpsse_Open Mpsse_Outcome
begin

text \<open>
  Opening a device leaks nothing: when \<open>mpsse_open\<close> fails every handle, library context, block
  and queue node it took is given back, once, and when it succeeds it holds exactly one handle
  and one library context, and the context it returns satisfies the invariant \<open>minv\<close>.
\<close>

section \<open>The contract of libusb\<close>

text \<open>
  The open handles and the library contexts, seen through two observers of the state. An open
  that succeeds gives a handle that is not open; the other functions open and close nothing.
\<close>

type_synonym 'u opened = "('u \<Rightarrow> nat set) \<times> ('u \<Rightarrow> nat set)"

definition handles :: "'u opened \<Rightarrow> 'u \<Rightarrow> nat set" where "handles H = fst H"
definition contexts :: "'u opened \<Rightarrow> 'u \<Rightarrow> nat set" where "contexts H = snd H"

definition same_open :: "'u opened \<Rightarrow> 'u \<Rightarrow> 'u \<Rightarrow> bool" where
  "same_open H u u' \<longleftrightarrow> handles H u' = handles H u \<and> contexts H u' = contexts H u"

definition took_handle :: "'u opened \<Rightarrow> nat \<Rightarrow> 'u \<Rightarrow> 'u \<Rightarrow> bool" where
  "took_handle H h u u' \<longleftrightarrow> h \<noteq> 0 \<and> h \<notin> handles H u \<and> handles H u' = insert h (handles H u) \<and>
     contexts H u' = contexts H u"

definition took_context :: "'u opened \<Rightarrow> nat \<Rightarrow> 'u \<Rightarrow> 'u \<Rightarrow> bool" where
  "took_context H x u u' \<longleftrightarrow> x \<noteq> 0 \<and> x \<notin> contexts H u \<and> contexts H u' = insert x (contexts H u) \<and>
     handles H u' = handles H u"

definition opens_ok :: "'u libusb \<Rightarrow> 'u usb_setup \<Rightarrow> 'u opened \<Rightarrow> bool" where
  "opens_ok L U H \<longleftrightarrow>
     (\<forall>u err x u'. init U u = (err, x, u') \<longrightarrow>
        (if err = LIBUSB_SUCCESS then took_context H x u u' else same_open H u u')) \<and>
     (\<forall>x u. handles H (exit_usb U x u) = handles H u \<and> contexts H (exit_usb U x u) = contexts H u - {x}) \<and>
     (\<forall>d u err h u'. open_device U d u = (err, h, u') \<longrightarrow>
        (if err = LIBUSB_SUCCESS then took_handle H h u u' else same_open H u u')) \<and>
     (\<forall>h u. handles H (close_device U h u) = handles H u - {h} \<and>
        contexts H (close_device U h u) = contexts H u) \<and>
     (\<forall>x u. same_open H u (snd (snd (get_device_list U x u)))) \<and>
     (\<forall>h i u. same_open H u (snd (snd (get_string_ascii U h i u)))) \<and>
     (\<forall>h u. same_open H u (snd (snd (get_configuration U h u)))) \<and>
     (\<forall>h v u. same_open H u (snd (set_configuration U h v u))) \<and>
     (\<forall>h i u. same_open H u (snd (detach_kernel_driver U h i u))) \<and>
     (\<forall>h i u. same_open H u (snd (claim_interface U h i u))) \<and>
     (\<forall>h t r v i n u. same_open H u (snd (control_transfer L h t r v i n u)))"

lemma same_open_refl: "same_open H u u"
  by (simp add: same_open_def)

lemma same_open_trans: "same_open H u u1 \<Longrightarrow> same_open H u1 u2 \<Longrightarrow> same_open H u u2"
  by (simp add: same_open_def)

lemma took_same:
  "same_open H u u1 \<Longrightarrow> took_handle H h u1 u2 \<Longrightarrow> took_handle H h u u2"
  "took_handle H h u u1 \<Longrightarrow> same_open H u1 u2 \<Longrightarrow> took_handle H h u u2"
  "took_context H x u u1 \<Longrightarrow> same_open H u1 u2 \<Longrightarrow> took_context H x u u2"
  by (simp_all add: same_open_def took_handle_def took_context_def)

lemma same_openD:
  assumes "opens_ok L U H"
  shows "get_device_list U x u = (e1, ds, u') \<Longrightarrow> same_open H u u'"
    and "get_string_ascii U h j u = (e2, st, u') \<Longrightarrow> same_open H u u'"
    and "get_configuration U h u = (e3, cf, u') \<Longrightarrow> same_open H u u'"
    and "set_configuration U h v u = (e4, u') \<Longrightarrow> same_open H u u'"
    and "detach_kernel_driver U h i u = (e5, u') \<Longrightarrow> same_open H u u'"
    and "claim_interface U h i u = (e6, u') \<Longrightarrow> same_open H u u'"
    and "control_transfer L h ty rq va ix n u = (e7, u') \<Longrightarrow> same_open H u u'"
  using assms unfolding opens_ok_def by (metis snd_conv)+

lemma close_taken:
  "opens_ok L U H \<Longrightarrow> took_handle H h u u' \<Longrightarrow> same_open H u (close_device U h u')"
  by (auto simp: opens_ok_def took_handle_def same_open_def)

lemma exit_taken:
  "opens_ok L U H \<Longrightarrow> took_context H x u u' \<Longrightarrow> same_open H u (exit_usb U x u')"
  by (auto simp: opens_ok_def took_context_def same_open_def)

lemma init_law:
  assumes "opens_ok L U H" and "init U u = (err, x, u')"
  shows "if err = LIBUSB_SUCCESS then took_context H x u u' else same_open H u u'"
  using assms(1) [unfolded opens_ok_def, THEN conjunct1] assms(2) by blast

lemma open_law:
  assumes "opens_ok L U H" and "open_device U d u = (err, x, u')"
  shows "if err = LIBUSB_SUCCESS then took_handle H x u u' else same_open H u u'"
  using assms(1) [unfolded opens_ok_def, THEN conjunct2, THEN conjunct2, THEN conjunct1] assms(2) by blast

section \<open>Finding and configuring the device\<close>

lemma string_same:
  assumes "opens_ok L U H" and "string_descriptor_equal U h i st u = (r, u')"
  shows "same_open H u u'"
  using assms(2) same_openD(2) [OF assms(1)]
  by (auto simp: string_descriptor_equal_def split: prod.splits if_splits)

definition match_string :: "'u usb_setup \<Rightarrow> nat \<Rightarrow> u8 \<Rightarrow> string option \<Rightarrow> 'u \<Rightarrow> bool \<times> 'u" where
  "match_string U h i st u =
     (case st of None \<Rightarrow> (True, u) | Some p \<Rightarrow> string_descriptor_equal U h i p u)"

lemma match_string_same:
  assumes "opens_ok L U H" and "match_string U h i st u = (r, u')"
  shows "same_open H u u'"
  using assms(2) string_same [OF assms(1)]
  by (auto simp: match_string_def same_open_def split: option.splits)

text \<open>What a search leaves: a fresh handle when a device matched, nothing otherwise.\<close>

definition found_law :: "'u opened \<Rightarrow> 'u \<Rightarrow> mpsse_ctx \<Rightarrow> usb_device_descriptor option \<times> mpsse_ctx \<times> 'u \<Rightarrow> bool" where
  "found_law H u c r \<longleftrightarrow>
     (case r of
        (None, c', u') \<Rightarrow> same_open H u u' \<and> (\<exists>h. c' = c\<lparr>usb_dev := h\<rparr>)
      | (Some d, c', u') \<Rightarrow> took_handle H (usb_dev c') u u' \<and> c' = c\<lparr>usb_dev := usb_dev c'\<rparr>)"

lemma found_none: "same_open H u u' \<Longrightarrow> found_law H u c (None, c, u')"
  by (auto simp: found_law_def intro: exI [of _ "usb_dev c"])

lemma try_device_law:
  assumes ok: "opens_ok L U H"
  shows "found_law H u c (try_device pn U a dev c u)"
proof -
  obtain e0 desc where 0: "get_device_descriptor U dev u = (e0, desc)" by fastforce
  obtain e1 h u1 where 1: "open_device U dev u = (e1, h, u1)" by (metis prod_cases3)
  obtain eq2 u2 where 2: "match_string U h (iProduct desc) (arg_product a) u1 = (eq2, u2)" by fastforce
  obtain eq3 u3 where 3: "match_string U h (iSerialNumber desc) (arg_serial a) u2 = (eq3, u3)" by fastforce
  note run = try_device_def match_string_def [symmetric] 0 1 2 3 Let_def prod.case
  show ?thesis
  proof (cases "e1 = LIBUSB_SUCCESS")
    case False
    then have "same_open H u u1" using open_law [OF ok 1] by simp
    with False show ?thesis unfolding run by (auto intro: found_none same_open_refl)
  next
    case True
    then have t1: "took_handle H h u u1" using open_law [OF ok 1] by simp
    have t2: "took_handle H h u u2" using took_same(2) [OF t1 match_string_same [OF ok 2]] .
    have t3: "took_handle H h u u3" using took_same(2) [OF t2 match_string_same [OF ok 3]] .
    have cl: "found_law H u c (None, c\<lparr>usb_dev := h\<rparr>, close_device U h u')"
      if "took_handle H h u u'" for u'
      using close_taken [OF ok that] by (auto simp: found_law_def)
    have "found_law H u c (Some desc, c\<lparr>usb_dev := h\<rparr>, u3)" using t3 by (simp add: found_law_def)
    then show ?thesis
      using True cl [OF t1] cl [OF t2] cl [OF t3] found_none [OF same_open_refl, of H u c]
      unfolding run by (simp split: option.splits)
  qed
qed

lemma find_device_law:
  assumes ok: "opens_ok L U H"
  shows "found_law H u c (find_device pn U a devs c u)"
proof (induction devs arbitrary: c u)
  case Nil
  then show ?case by (simp add: found_none same_open_refl)
next
  case (Cons dev devs)
  obtain r c1 u1 where t: "try_device pn U a dev c u = (r, c1, u1)" by (metis prod_cases3)
  note law = try_device_law [OF ok, of u c pn a dev, unfolded t]
  show ?case
  proof (cases r)
    case None
    obtain r' c2 u2 where f: "find_device pn U a devs c1 u1 = (r', c2, u2)" by (metis prod_cases3)
    from law None obtain h where "same_open H u u1" "c1 = c\<lparr>usb_dev := h\<rparr>"
      by (auto simp: found_law_def)
    with Cons.IH [of u1 c1] f t None show ?thesis
      by (cases r') (auto simp: found_law_def intro: same_open_trans took_same(1))
  next
    case (Some d)
    with law t show ?thesis by simp
  qed
qed


lemma setup_device_same:
  assumes ok: "opens_ok L U H" and "setup_device L U desc config0 c u = (r, u')"
  shows "same_open H u u'"
proof -
  obtain e1 cfg u1 where 1: "get_configuration U (usb_dev c) u = (e1, cfg, u1)" by (metis prod_cases3)
  obtain e2 u2 where 2: "(if bNumConfigurations desc > 0 \<and> cfg \<noteq> bConfigurationValue config0
      then set_configuration U (usb_dev c) (bConfigurationValue config0) u1
      else (LIBUSB_SUCCESS, u1)) = (e2, u2)" by fastforce
  obtain e3 u3 where 3: "detach_kernel_driver U (usb_dev c) (usb_interface c) u2 = (e3, u3)" by fastforce
  obtain e4 u4 where 4: "claim_interface U (usb_dev c) (usb_interface c) u3 = (e4, u4)" by fastforce
  obtain e5 u5 where 5: "control_transfer L (usb_dev c) FTDI_DEVICE_OUT_REQTYPE SIO_RESET_REQUEST
      SIO_RESET_SIO (usb_index c) (usb_write_timeout c) u4 = (e5, u5)" by fastforce
  have s: "same_open H u u1" "same_open H u1 u2" "same_open H u2 u3" "same_open H u3 u4" "same_open H u4 u5"
    using same_openD [OF ok] 1 2 3 4 5 by (auto simp: same_open_refl split: if_splits)
  have "u' \<in> {u1, u2, u4, u5}"
    using assms(2) unfolding setup_device_def 1 2 3 4 5 Let_def prod.case
    by (auto split: if_splits option.splits)
  with s show ?thesis by (auto simp: same_open_def)
qed

text \<open>What the configuration of the device writes into the context.\<close>

definition configured :: "mpsse_ctx \<Rightarrow> mpsse_ctx \<Rightarrow> bool" where
  "configured c c' \<longleftrightarrow> (\<exists>h t i x p. c' = c\<lparr>usb_dev := h, chip_type := t, in_ep := i, out_ep := x,
     max_packet_size := p\<rparr>)"

lemma configuredI:
  "configured c (c\<lparr>usb_dev := h, chip_type := t, in_ep := i, out_ep := x, max_packet_size := p\<rparr>)"
  unfolding configured_def by blast

lemma scan_endpoints_law:
  "\<exists>i x p. scan_endpoints es c = c\<lparr>in_ep := i, out_ep := x, max_packet_size := p\<rparr>"
proof (induction es arbitrary: c)
  case Nil
  show ?case by (intro exI [of _ "in_ep c"] exI [of _ "out_ep c"] exI [of _ "max_packet_size c"]) simp
next
  case (Cons e es)
  let ?c = "if bEndpointAddress e AND 0x80 \<noteq> 0
        then c\<lparr>in_ep := bEndpointAddress e, max_packet_size := wMaxPacketSize e\<rparr>
        else c\<lparr>out_ep := bEndpointAddress e\<rparr>"
  obtain i x p where "scan_endpoints es ?c = ?c\<lparr>in_ep := i, out_ep := x, max_packet_size := p\<rparr>"
    using Cons.IH [of ?c] by blast
  then have "scan_endpoints (e # es) c = ?c\<lparr>in_ep := i, out_ep := x, max_packet_size := p\<rparr>"
    by (simp only: scan_endpoints.simps)
  also have "\<dots> = c\<lparr>in_ep := i, out_ep := x, max_packet_size := p\<rparr>" by simp
  finally show ?case by blast
qed

lemma read_interface_law:
  assumes "read_interface desc config0 c = Some c'"
  shows "\<exists>i x p. c' = c\<lparr>in_ep := i, out_ep := x, max_packet_size := p\<rparr> \<and> i \<noteq> 0 \<and> x \<noteq> 0"
proof -
  let ?d = "altsettings config0 ! unat (usb_interface c) ! 0"
  let ?es = "take (bNumEndpoints ?d) (endpoints ?d)"
  have c': "c' = scan_endpoints ?es (c\<lparr>in_ep := 0, out_ep := 0\<rparr>)" "in_ep c' \<noteq> 0" "out_ep c' \<noteq> 0"
    using assms by (auto simp: read_interface_def Let_def split: if_splits)
  obtain i x p where "c' = c\<lparr>in_ep := i, out_ep := x, max_packet_size := p\<rparr>"
    using scan_endpoints_law [of ?es "c\<lparr>in_ep := 0, out_ep := 0\<rparr>"] c'(1) by auto
  with c'(2,3) show ?thesis by (intro exI [of _ i] exI [of _ x] exI [of _ p]) simp
qed

lemma setup_device_ctx:
  assumes "setup_device L U desc config0 c u = (Some c', u')"
  shows "\<exists>t i x p. c' = c\<lparr>chip_type := t, in_ep := i, out_ep := x, max_packet_size := p\<rparr> \<and> i \<noteq> 0 \<and> x \<noteq> 0"
proof -
  obtain t where "read_interface desc config0 (c\<lparr>chip_type := t\<rparr>) = Some c'"
    using assms by (auto simp: setup_device_def Let_def split: prod.splits if_splits option.splits)
  from read_interface_law [OF this] obtain i x p where
    "c' = c\<lparr>chip_type := t, in_ep := i, out_ep := x, max_packet_size := p\<rparr>" "i \<noteq> 0" "x \<noteq> 0" by blast
  then show ?thesis by (intro exI [of _ t] exI [of _ i] exI [of _ x] exI [of _ p]) simp
qed

lemma open_matching_law:
  assumes ok: "opens_ok L U H" and "open_matching_device pn L U a c u = Some (found, c', u')"
  shows "if found then took_handle H (usb_dev c') u u' \<and> configured c c' \<and> in_ep c' \<noteq> 0 \<and> out_ep c' \<noteq> 0
    else same_open H u u' \<and> (\<exists>h. c' = c\<lparr>usb_dev := h\<rparr>)"
proof -
  obtain cnt devs u1 where 1: "get_device_list U (usb_ctx c) u = (cnt, devs, u1)" by (metis prod_cases3)
  obtain r c2 u2 where 2: "find_device pn U a (take (nat cnt) devs) c u1 = (r, c2, u2)" by (metis prod_cases3)
  have s1: "same_open H u u1" using same_openD(1) [OF ok 1] .
  note law = find_device_law [OF ok, of u1 c pn a "take (nat cnt) devs", unfolded 2]
  have run: "Some (found, c', u') = Some (case (r, c2, u2) of
          (None, c, u) \<Rightarrow> (False, c, u)
        | (Some desc, c, u) \<Rightarrow>
            let (err, config0) = get_config_descriptor U (usb_dev c) u in
            if err \<noteq> LIBUSB_SUCCESS then (False, c, close_device U (usb_dev c) u)
            else case setup_device L U desc config0 c u of
              (None, u) \<Rightarrow> (False, c, close_device U (usb_dev c) u)
            | (Some c, u) \<Rightarrow> (True, c, u))"
    using assms(2) 1 2 by (simp add: open_matching_device_def split: if_splits)
  show ?thesis
  proof (cases r)
    case None
    with law run s1 show ?thesis by (auto simp: found_law_def intro: same_open_trans)
  next
    case (Some desc)
    obtain e config0 where 3: "get_config_descriptor U (usb_dev c2) u2 = (e, config0)" by fastforce
    obtain r3 u3 where 4: "setup_device L U desc config0 c2 u2 = (r3, u3)" by fastforce
    have t2: "took_handle H (usb_dev c2) u u2"
      using law Some s1 by (simp add: found_law_def took_same(1))
    have t3: "took_handle H (usb_dev c2) u u3" using took_same(2) [OF t2 setup_device_same [OF ok 4]] .
    obtain h where c2: "c2 = c\<lparr>usb_dev := h\<rparr>" using law Some by (simp add: found_law_def) metis
    show ?thesis
    proof (cases "e = LIBUSB_SUCCESS")
      case False
      with run 3 Some have "\<not> found" "c' = c2" "u' = close_device U (usb_dev c2) u2" by simp_all
      with close_taken [OF ok t2] c2 show ?thesis by auto
    next
      case e: True
      show ?thesis
      proof (cases r3)
        case None
        with run 3 4 Some e have "\<not> found" "c' = c2" "u' = close_device U (usb_dev c2) u3" by simp_all
        with close_taken [OF ok t3] c2 show ?thesis by auto
      next
        case r3: (Some c3)
        with run 3 4 Some e have res: "found" "c' = c3" "u' = u3" by simp_all
        obtain t i x p where "c3 = c2\<lparr>chip_type := t, in_ep := i, out_ep := x, max_packet_size := p\<rparr>"
          "i \<noteq> 0" "x \<noteq> 0" using setup_device_ctx [OF 4 [unfolded r3]] by blast
        with res t3 c2 show ?thesis by (auto simp: configuredI)
      qed
    qed
  qed
qed


section \<open>The buffers\<close>

definition malloc_ok :: "(nat \<Rightarrow> mem \<Rightarrow> ptr \<times> mem) \<Rightarrow> bool" where
  "malloc_ok malloc \<longleftrightarrow> (\<forall>n m. malloc n m = (Null, m) \<or>
     (\<exists>b bs. malloc n m = (Ptr b 0, m(b \<mapsto> bs)) \<and> b \<noteq> local_block \<and> m b = None \<and> length bs = n))"

definition owned :: "ptr \<Rightarrow> nat \<Rightarrow> mem \<Rightarrow> mem \<Rightarrow> bool" where
  "owned p n m m' \<longleftrightarrow> p = Null \<and> m' = m \<or>
     (\<exists>b bs. p = Ptr b 0 \<and> m' = m(b \<mapsto> bs) \<and> b \<noteq> local_block \<and> m b = None \<and> length bs = n)"

lemma malloc_owned:
  assumes "malloc_ok malloc" and "malloc n m = (p, m')" shows "owned p n m m'"
proof -
  from assms(1) have "malloc n m = (Null, m) \<or>
      (\<exists>b bs. malloc n m = (Ptr b 0, m(b \<mapsto> bs)) \<and> b \<noteq> local_block \<and> m b = None \<and> length bs = n)"
    unfolding malloc_ok_def by (elim allE)
  then show ?thesis unfolding assms(2) owned_def by auto
qed

lemma free_owned: "owned p n m m' \<Longrightarrow> free_block p m' = Some m"
  by (auto simp: owned_def free_block_def fun_upd_idem)

lemma open_buffers_law:
  assumes ok: "malloc_ok malloc" and run: "open_buffers malloc ch c m = (c', m')"
  shows "\<exists>cb rb wb m1 m2. c' = c\<lparr>read_chunk_size := 16384, read_size := 16384, write_size := 16384,
      read_chunk := cb, read_buffer := rb, write_buffer := wb\<rparr> \<and>
    owned cb 16384 m m1 \<and> owned rb 16384 m1 m2 \<and> owned wb 16384 m2 m'"
proof -
  obtain cb m1 where 1: "malloc 16384 m = (cb, m1)" by fastforce
  obtain rb m2 where 2: "malloc 16384 m1 = (rb, m2)" by fastforce
  obtain wb m3 where 3: "malloc 16384 m2 = (wb, m3)" by fastforce
  have "c' = c\<lparr>read_chunk_size := 16384, read_size := 16384, write_size := 16384,
      read_chunk := cb, read_buffer := rb, write_buffer := wb\<rparr>" "m' = m3"
    using run 1 2 3 by (simp_all add: open_buffers_def Let_def)
  with malloc_owned [OF ok 1] malloc_owned [OF ok 2] malloc_owned [OF ok 3] show ?thesis by blast
qed

section \<open>Closing\<close>

text \<open>What a context holds of the library since the state \<open>u\<close>.\<close>

definition holding :: "'u opened \<Rightarrow> 'u \<Rightarrow> mpsse_ctx \<Rightarrow> 'u \<Rightarrow> bool" where
  "holding H u c u' \<longleftrightarrow>
     (if usb_dev c = 0 then handles H u' = handles H u
      else usb_dev c \<notin> handles H u \<and> handles H u' = insert (usb_dev c) (handles H u)) \<and>
     (if usb_ctx c = 0 then contexts H u' = contexts H u
      else usb_ctx c \<notin> contexts H u \<and> contexts H u' = insert (usb_ctx c) (contexts H u))"

definition holds_memory :: "mem \<Rightarrow> mpsse_ctx \<Rightarrow> mem \<Rightarrow> bool" where
  "holds_memory m c m' \<longleftrightarrow> (\<exists>m1 m2. owned (read_chunk c) (read_chunk_size c) m m1 \<and>
     owned (read_buffer c) (read_size c) m1 m2 \<and> owned (write_buffer c) (write_size c) m2 m')"

lemma mpsse_close_law:
  assumes ok: "opens_ok L U H" and hold: "holding H u (ctx s) (device s)"
    and mem: "holds_memory m (ctx s) (memory s)" and q: "queue_of (read_queue (ctx s)) (queue s) es"
  shows "\<exists>h' u'. mpsse_close U s = Some (m, h', u') \<and> same_open H u u' \<and>
    links h' = Map.empty \<and> ents h' = Map.empty \<and> room h' = room (queue s) + length es + 1"
proof -
  let ?c = "ctx s"
  define u1 where "u1 = (if usb_dev ?c \<noteq> 0 then close_device U (usb_dev ?c) (device s) else device s)"
  define u2 where "u2 = (if usb_ctx ?c \<noteq> 0 then exit_usb U (usb_ctx ?c) u1 else u1)"
  have cl: "handles H (close_device U h v) = handles H v - {h}"
    "contexts H (close_device U h v) = contexts H v"
    "handles H (exit_usb U h v) = handles H v" "contexts H (exit_usb U h v) = contexts H v - {h}" for h v
    using ok by (simp_all add: opens_ok_def)
  have "same_open H u u2"
    using hold by (auto simp: u1_def u2_def holding_def same_open_def cl split: if_splits)
  moreover obtain h where h: "bit_copy_discard (read_queue ?c) (queue s) = Some h"
    "queue_of (read_queue ?c) h []" "room h = room (queue s) + length es"
    using bcq.disc_rep [OF q] by blast
  obtain m1 m2 where "owned (read_chunk ?c) (read_chunk_size ?c) m m1"
     "owned (read_buffer ?c) (read_size ?c) m1 m2" "owned (write_buffer ?c) (write_size ?c) m2 (memory s)"
    using mem by (auto simp: holds_memory_def)
  then have f: "free_block (write_buffer ?c) (memory s) = Some m2" "free_block (read_buffer ?c) m2 = Some m1"
    "free_block (read_chunk ?c) m1 = Some m" using free_owned by blast+
  have "(links h)(read_queue ?c := None) = Map.empty" "ents h = Map.empty"
    using h(2) by (auto simp: queue_of_def intro!: ext)
  moreover have "mpsse_close U s =
      Some (m, h\<lparr>links := (links h)(read_queue ?c := None), room := room h + 1\<rparr>, u2)"
    unfolding mpsse_close_def Let_def u1_def [symmetric] u2_def [symmetric] by (simp add: h(1) f)
  ultimately show ?thesis using h(3) by simp
qed

lemma open_error_law:
  assumes "opens_ok L U H" and "holding H u (ctx s) (device s)"
    and "holds_memory m (ctx s) (memory s)" and "queue_of (read_queue (ctx s)) (queue s) []"
  shows "\<exists>h' u'. open_error U s = Some (None, m, h', u') \<and> same_open H u u' \<and>
    links h' = Map.empty \<and> ents h' = Map.empty \<and> room h' = room (queue s) + 1"
  using mpsse_close_law [OF assms] by (auto simp: open_error_def)


section \<open>mpsse_open\<close>

definition opened ::
    "'u opened \<Rightarrow> 'u \<Rightarrow> mem \<Rightarrow> mpsse_ctx \<Rightarrow> mem \<Rightarrow> copy_heap \<Rightarrow> 'u \<Rightarrow> bool" where
  "opened H u m c m' h' u' \<longleftrightarrow>
     usb_dev c \<noteq> 0 \<and> usb_ctx c \<noteq> 0 \<and> holding H u c u' \<and> holds_memory m c m' \<and>
     read_chunk c \<noteq> Null \<and> read_buffer c \<noteq> Null \<and> write_buffer c \<noteq> Null \<and>
     queue_of (read_queue c) h' [] \<and> write_count c = 0 \<and> read_count c = 0 \<and> retval c = ERROR_OK \<and>
     write_size c = 16384 \<and> read_size c = 16384 \<and> read_chunk_size c = 16384 \<and>
     in_ep c \<noteq> 0 \<and> out_ep c \<noteq> 0"

definition open_result ::
    "'u opened \<Rightarrow> 'u \<Rightarrow> mem \<Rightarrow> nat \<Rightarrow> mpsse_ctx option \<times> mem \<times> copy_heap \<times> 'u \<Rightarrow> bool" where
  "open_result H u m n r \<longleftrightarrow>
     (case r of
        (None, m', h', u') \<Rightarrow> m' = m \<and> same_open H u u' \<and> links h' = Map.empty \<and>
          ents h' = Map.empty \<and> room h' = n
      | (Some c, m', h', u') \<Rightarrow> opened H u m c m' h' u')"

definition settles ::
    "'u opened \<Rightarrow> 'u \<Rightarrow> mem \<Rightarrow> nat \<Rightarrow> (mpsse_ctx option \<times> mem \<times> copy_heap \<times> 'u) option \<Rightarrow> bool" where
  "settles H u m n R \<longleftrightarrow> (\<exists>r. R = Some r \<and> open_result H u m n r)"

lemma open_error_result:
  assumes "opens_ok L U H" and "holding H u (ctx s) (device s)"
    and "holds_memory m (ctx s) (memory s)" and "queue_of (read_queue (ctx s)) (queue s) []"
    and "Suc (room (queue s)) = n"
  shows "settles H u m n (open_error U s)"
  using open_error_law [OF assms(1-4)] assms(5) by (auto simp: open_result_def settles_def)

lemma purge_same:
  assumes "opens_ok L U H" and "mpsse_purge L s = Some s'"
  shows "same_open H (device s) (device s')"
proof -
  obtain e1 u1 where 1: "control_transfer L (usb_dev (ctx s)) FTDI_DEVICE_OUT_REQTYPE SIO_RESET_REQUEST
      SIO_RESET_PURGE_RX (usb_index (ctx s)) (usb_write_timeout (ctx s)) (device s) = (e1, u1)" by fastforce
  obtain e2 u2 where 2: "control_transfer L (usb_dev (ctx s)) FTDI_DEVICE_OUT_REQTYPE SIO_RESET_REQUEST
      SIO_RESET_PURGE_TX (usb_index (ctx s)) (usb_write_timeout (ctx s)) u1 = (e2, u2)" by fastforce
  have "device s' \<in> {u1, u2}"
    using assms(2) 1 2 by (auto simp: mpsse_purge_def Let_def split: bind_splits if_splits)
  with same_openD(7) [OF assms(1) 1] same_openD(7) [OF assms(1) 2] show ?thesis
    by (auto intro: same_open_trans)
qed

lemma holding_same: "holding H u c u1 \<Longrightarrow> same_open H u1 u2 \<Longrightarrow> holding H u c u2"
  by (auto simp: holding_def same_open_def)

text \<open>What follows \<open>open_matching_device\<close>.\<close>

definition open_found ::
    "'u libusb \<Rightarrow> 'u usb_setup \<Rightarrow> mem \<Rightarrow> copy_heap \<Rightarrow> bool \<Rightarrow> mpsse_ctx \<Rightarrow> 'u \<Rightarrow>
     (mpsse_ctx option \<times> mem \<times> copy_heap \<times> 'u) option" where
  "open_found L U m h found c u =
     (if \<not> found then open_error U \<lparr>ctx = c\<lparr>usb_dev := 0\<rparr>, memory = m, queue = h, device = u\<rparr>
      else do {
        let (err, u) = control_transfer L (usb_dev c) FTDI_DEVICE_OUT_REQTYPE
              SIO_SET_LATENCY_TIMER_REQUEST 255 (usb_index c) (usb_write_timeout c) u;
        if err < 0 then open_error U \<lparr>ctx = c, memory = m, queue = h, device = u\<rparr>
        else do {
          let (err, u) = control_transfer L (usb_dev c) FTDI_DEVICE_OUT_REQTYPE
                SIO_SET_BITMODE_REQUEST (0x0b OR push_bit 8 BITMODE_MPSSE) (usb_index c)
                (usb_write_timeout c) u;
          if err < 0 then open_error U \<lparr>ctx = c, memory = m, queue = h, device = u\<rparr>
          else do {
            s \<leftarrow> mpsse_purge L \<lparr>ctx = c, memory = m, queue = h, device = u\<rparr>;
            Some (Some (ctx s), memory s, queue s, device s)
          }
        }
      })"

lemma open_found_result:
  assumes ok: "opens_ok L U H" and hold: "holding H u c u1" and mem: "holds_memory m c m1"
    and q: "queue_of (read_queue c) h1 []" and rm: "Suc (room h1) = n"
    and nz: "usb_dev c \<noteq> 0" "usb_ctx c \<noteq> 0" "in_ep c \<noteq> 0" "out_ep c \<noteq> 0"
    and bufs: "read_chunk c \<noteq> Null" "read_buffer c \<noteq> Null" "write_buffer c \<noteq> Null"
    and cnt: "write_count c = 0" "read_count c = 0" "retval c = ERROR_OK"
      "write_size c = 16384" "read_size c = 16384" "read_chunk_size c = 16384"
  shows "settles H u m n (open_found L U m1 h1 True c u1)"
proof -
  obtain e1 v1 where 1: "control_transfer L (usb_dev c) FTDI_DEVICE_OUT_REQTYPE
      SIO_SET_LATENCY_TIMER_REQUEST 255 (usb_index c) (usb_write_timeout c) u1 = (e1, v1)" by fastforce
  obtain e2 v2 where 2: "control_transfer L (usb_dev c) FTDI_DEVICE_OUT_REQTYPE
      SIO_SET_BITMODE_REQUEST (0x0b OR push_bit 8 BITMODE_MPSSE) (usb_index c)
      (usb_write_timeout c) v1 = (e2, v2)" by fastforce
  have h1: "holding H u c v1" using holding_same [OF hold same_openD(7) [OF ok 1]] .
  have h2: "holding H u c v2" using holding_same [OF h1 same_openD(7) [OF ok 2]] .
  have fail: "settles H u m n (open_error U \<lparr>ctx = c, memory = m1, queue = h1, device = v\<rparr>)"
    if "holding H u c v" for v
    using open_error_result [OF ok, of u "\<lparr>ctx = c, memory = m1, queue = h1, device = v\<rparr>" m n]
      that mem q rm by simp
  let ?s = "\<lparr>ctx = c, memory = m1, queue = h1, device = v2\<rparr>"
  obtain s' where s': "mpsse_purge L ?s = Some s'" "ctx s' = (emptied c)\<lparr>retval := ERROR_OK\<rparr>"
    "memory s' = m1" "queue_of (read_queue c) (queue s') []"
    using mpsse_purge_law [of ?s "[]" L] q by auto
  have c': "ctx s' = c" using s'(2) cnt by (cases c) (simp add: emptied_def)
  have "holding H u c (device s')" using holding_same [OF h2] purge_same [OF ok s'(1)] by simp
  then have good: "settles H u m n (Some (Some c, m1, queue s', device s'))"
    using mem s'(4) nz bufs cnt by (simp add: open_result_def opened_def settles_def)
  show ?thesis
    using fail [OF h1] fail [OF h2] good
    unfolding open_found_def Let_def 1 2 s'(1) prod.case bind.bind_lunit c' s'(3) by simp
qed

lemma open_matching_some:
  assumes "0 \<le> fst (get_device_list U (usb_ctx c) u)"
  shows "\<exists>found c' u'. open_matching_device pn L U a c u = Some (found, c', u')"
proof -
  obtain cnt devs u1 where gl: "get_device_list U (usb_ctx c) u = (cnt, devs, u1)" by (metis prod_cases3)
  then have "\<not> cnt < 0" using assms by simp
  moreover have "\<exists>a b c. Some x = Some (a, b, c)" for x :: "bool \<times> mpsse_ctx \<times> 'a"
    by (cases x) auto
  ultimately show ?thesis
    unfolding open_matching_device_def gl Let_def prod.case by (simp only: if_False)
qed

text \<open>A failure of the enumeration is not survived: the list that is freed was never set.\<close>

lemma open_matching_no_list:
  "fst (get_device_list U (usb_ctx c) u) < 0 \<Longrightarrow> open_matching_device pn L U a c u = None"
  by (auto simp: open_matching_device_def split: prod.splits)

text \<open>
  When a run of \<open>mpsse_open\<close> meets that failure: the context and the three buffers could be
  allocated, the library was initialised, and then it cannot enumerate the devices.
\<close>

definition enumeration_fails ::
    "(nat \<Rightarrow> mem \<Rightarrow> ptr \<times> mem) \<Rightarrow> 'u usb_setup \<Rightarrow> int \<Rightarrow> mem \<Rightarrow> copy_heap \<Rightarrow> 'u \<Rightarrow> bool" where
  "enumeration_fails malloc U channel m h u \<longleftrightarrow> room h \<noteq> 0 \<and>
     (let (c, m) = open_buffers malloc channel (calloc_ctx (fresh h)) m; (err, x, u) = init U u
      in read_chunk c \<noteq> Null \<and> read_buffer c \<noteq> Null \<and> write_buffer c \<noteq> Null \<and>
         err = LIBUSB_SUCCESS \<and> fst (get_device_list U x u) < 0)"

lemma mpsse_open_law:
  assumes ok: "opens_ok L U H" and mal: "malloc_ok malloc"
    and h: "links h = Map.empty" "ents h = Map.empty"
  shows "if enumeration_fails malloc U ch m h u then mpsse_open malloc pn L U a ch m h u = None
    else settles H u m (room h) (mpsse_open malloc pn L U a ch m h u)"
proof (cases "room h = 0")
  case True
  with h show ?thesis
    by (auto simp: mpsse_open_def open_result_def settles_def same_open_refl enumeration_fails_def)
next
  case False
  let ?q = "fresh h"
  let ?h = "h\<lparr>links := (links h)(?q \<mapsto> \<lparr>nxt = 0, prv = 0\<rparr>), fresh := ?q + 1, room := room h - 1\<rparr>"
  obtain h1 where h1: "bit_copy_queue_init ?q ?h = Some h1" "queue_of ?q h1 []" "room h1 = room h - 1"
    using queue_init [of ?h ?q] h by auto
  have rm: "Suc (room h1) = room h" using h1(3) False by simp
  obtain c1 m1 where b: "open_buffers malloc ch (calloc_ctx ?q) m = (c1, m1)" by fastforce
  from open_buffers_law [OF mal b] obtain cb rb wb n1 n2 where
    c1: "c1 = (calloc_ctx ?q)\<lparr>read_chunk_size := 16384, read_size := 16384, write_size := 16384,
      read_chunk := cb, read_buffer := rb, write_buffer := wb\<rparr>"
    and own: "owned cb 16384 m n1" "owned rb 16384 n1 n2" "owned wb 16384 n2 m1" by blast
  have mem: "holds_memory m c m1" if "read_chunk c = cb" "read_buffer c = rb" "write_buffer c = wb"
    "read_chunk_size c = 16384" "read_size c = 16384" "write_size c = 16384" for c
    using own that by (auto simp: holds_memory_def)
  have fail: "settles H u m (room h) (open_error U \<lparr>ctx = c, memory = m1, queue = h1, device = v\<rparr>)"
    if "holding H u c v"
      "read_chunk c = cb" "read_buffer c = rb" "write_buffer c = wb" "read_chunk_size c = 16384"
      "read_size c = 16384" "write_size c = 16384" "read_queue c = ?q" for c v
    using open_error_result [OF ok, of u "\<lparr>ctx = c, memory = m1, queue = h1, device = v\<rparr>" m "room h"]
      that mem [of c] h1(2) rm by simp
  define c2 where "c2 = c1\<lparr>usb_interface := of_int ch, usb_index := of_int (ch + 1),
      usb_read_timeout := 5000, usb_write_timeout := 5000\<rparr>"
  have c2: "usb_dev c2 = 0" "usb_ctx c2 = 0" "read_queue c2 = ?q" "read_chunk c2 = cb" "read_buffer c2 = rb"
    "write_buffer c2 = wb" "read_chunk_size c2 = 16384" "read_size c2 = 16384" "write_size c2 = 16384"
    "write_count c2 = 0" "read_count c2 = 0" "retval c2 = ERROR_OK"
    by (simp_all add: c2_def c1 calloc_ctx_def ERROR_OK_def)
  obtain e2 uc u2 where 2: "init U u = (e2, uc, u2)" by (metis prod_cases3)
  note i2 = init_law [OF ok 2]
  have c1f: "usb_dev c1 = 0" "usb_ctx c1 = 0" "read_queue c1 = ?q" "read_chunk c1 = cb" "read_buffer c1 = rb"
    "write_buffer c1 = wb" "read_chunk_size c1 = 16384" "read_size c1 = 16384" "write_size c1 = 16384"
    by (simp_all add: c1 calloc_ctx_def)
  have hold0: "holding H u c u'" if "same_open H u u'" "usb_dev c = 0" "usb_ctx c = 0" for c u'
    using that by (simp add: holding_def same_open_def)
  let ?matched = "do {
      (found, c, u) \<leftarrow> open_matching_device pn L U a (c2\<lparr>usb_ctx := uc\<rparr>) u2;
      open_found L U m1 h1 found c u
    }"
  have run: "mpsse_open malloc pn L U a ch m h u =
      (if cb = Null \<or> rb = Null \<or> wb = Null
       then open_error U \<lparr>ctx = c1, memory = m1, queue = h1, device = u\<rparr>
       else if e2 \<noteq> LIBUSB_SUCCESS then open_error U \<lparr>ctx = c2, memory = m1, queue = h1, device = u2\<rparr>
       else ?matched)"
    unfolding mpsse_open_def Let_def if_not_P [OF False] h1(1) bind.bind_lunit b prod.case
      c2_def [symmetric] 2 c1f(4-6) open_found_def ..
  have fails: "enumeration_fails malloc U ch m h u \<longleftrightarrow> cb \<noteq> Null \<and> rb \<noteq> Null \<and> wb \<noteq> Null \<and>
      e2 = LIBUSB_SUCCESS \<and> fst (get_device_list U uc u2) < 0"
    unfolding enumeration_fails_def b 2 Let_def prod.case c1f(4-6) using False by simp
  have "?matched = None" if "fst (get_device_list U uc u2) < 0"
    using that by (simp add: open_matching_no_list)
  moreover have "settles H u m (room h) ?matched"
    if go: "cb \<noteq> Null" "rb \<noteq> Null" "wb \<noteq> Null" "e2 = LIBUSB_SUCCESS" "0 \<le> fst (get_device_list U uc u2)"
  proof -
    have t: "took_context H uc u u2" using i2 go(4) by simp
    obtain found c3 u3 where om:
        "open_matching_device pn L U a (c2\<lparr>usb_ctx := uc\<rparr>) u2 = Some (found, c3, u3)"
      using open_matching_some [of U "c2\<lparr>usb_ctx := uc\<rparr>" u2 pn L a] go(5) by auto
    note law = open_matching_law [OF ok om]
    have c3: "usb_ctx c3 = uc" "read_queue c3 = ?q" "read_chunk c3 = cb" "read_buffer c3 = rb"
      "write_buffer c3 = wb" "read_chunk_size c3 = 16384" "read_size c3 = 16384" "write_size c3 = 16384"
      "write_count c3 = 0" "read_count c3 = 0" "retval c3 = ERROR_OK"
      using law c2 by (cases found; force simp: configured_def)+
    have "settles H u m (room h) (open_found L U m1 h1 found c3 u3)"
    proof (cases found)
      case False
      then have "same_open H u2 u3" using law by simp
      then have "holding H u (c3\<lparr>usb_dev := 0\<rparr>) u3"
        using t c3(1) by (auto simp: holding_def took_context_def same_open_def)
      with fail [of "c3\<lparr>usb_dev := 0\<rparr>" u3] False c3 show ?thesis by (simp add: open_found_def)
    next
      case True
      then have th: "took_handle H (usb_dev c3) u2 u3" "in_ep c3 \<noteq> 0" "out_ep c3 \<noteq> 0" using law by simp_all
      then have hold: "holding H u c3 u3" and nz: "usb_dev c3 \<noteq> 0" "usb_ctx c3 \<noteq> 0"
        using t c3(1) by (auto simp: holding_def took_context_def took_handle_def)
      have q3: "queue_of (read_queue c3) h1 []" and b3: "read_chunk c3 \<noteq> Null" "read_buffer c3 \<noteq> Null"
        "write_buffer c3 \<noteq> Null"
        using h1(2) c3(2-5) go(1-3) by simp_all
      from True open_found_result [OF ok hold mem [OF c3(3-8)] q3 rm nz th(2,3) b3 c3(9-11,8,7,6)]
      show ?thesis by simp
    qed
    then show ?thesis unfolding om bind.bind_lunit prod.case .
  qed
  moreover have "settles H u m (room h) (open_error U \<lparr>ctx = c1, memory = m1, queue = h1, device = u\<rparr>)"
    using fail [OF hold0 [OF same_open_refl c1f(1,2)] c1f(4-9,3)] .
  moreover have "settles H u m (room h) (open_error U \<lparr>ctx = c2, memory = m1, queue = h1, device = u2\<rparr>)"
    if "e2 \<noteq> LIBUSB_SUCCESS"
    using fail [OF hold0 [OF _ c2(1,2)] c2(4-9,3)] i2 that by simp
  ultimately show ?thesis unfolding run fails by simp
qed

lemma mpsse_open_some:
  assumes "opens_ok L U H" and "malloc_ok malloc" and "links h = Map.empty" and "ents h = Map.empty"
    and "mpsse_open malloc pn L U a ch m h u = Some r"
  shows "open_result H u m (room h) r"
  using mpsse_open_law [OF assms(1-4), of ch m u pn a] assms(5) by (auto simp: settles_def split: if_splits)

text \<open>A context that was opened is a context the commands can start from.\<close>

lemma opened_minv:
  assumes op: "opened H u m c m' h' u'" and p: "2 < unat (max_packet_size c)" and l: "m local_block = None"
  shows "\<exists>wb rb cb. minv wb rb cb [] \<lparr>ctx = c, memory = m', queue = h', device = u'\<rparr>"
proof -
  from op obtain m1 m2 where own: "owned (read_chunk c) 16384 m m1"
    "owned (read_buffer c) 16384 m1 m2" "owned (write_buffer c) 16384 m2 m'"
    and nn: "read_chunk c \<noteq> Null" "read_buffer c \<noteq> Null" "write_buffer c \<noteq> Null"
    by (auto simp: opened_def holds_memory_def)
  obtain cb cs where c: "read_chunk c = Ptr cb 0" "m1 = m(cb \<mapsto> cs)" "cb \<noteq> local_block" "length cs = 16384"
    using own(1) nn(1) by (auto simp: owned_def)
  obtain rb rs where r: "read_buffer c = Ptr rb 0" "m2 = m1(rb \<mapsto> rs)" "rb \<noteq> local_block" "m1 rb = None"
    "length rs = 16384"
    using own(2) nn(2) by (auto simp: owned_def)
  obtain wb ws where w: "write_buffer c = Ptr wb 0" "m' = m2(wb \<mapsto> ws)" "wb \<noteq> local_block" "m2 wb = None"
    "length ws = 16384"
    using own(3) nn(3) by (auto simp: owned_def)
  have d: "rb \<noteq> cb" "wb \<noteq> rb" "wb \<noteq> cb" using c(2) r(2,4) w(4) by (auto split: if_splits)
  then have s: "sized m' wb 16384" "sized m' rb 16384" "sized m' cb 16384"
    using c(2,4) r(2,5) w(2,5) by (simp_all add: sized_def)
  have "m' local_block = None" using l c(2,3) r(2,3) w(2,3) by simp
  with op p c(1,3) r(1,3) w(1,3) d s have "minv wb rb cb [] \<lparr>ctx = c, memory = m', queue = h', device = u'\<rparr>"
    by (simp add: minv_def opened_def)
  then show ?thesis by blast
qed

end
