(* ===== verification/Ftdi_Init_Laws.thy ===== *)
theory Ftdi_Init_Laws
  imports Ftdi_Laws Mpsse_Open_Laws
begin

text \<open>
  Opening the adapter: \<open>ftdi_initialize\<close> tries the identifiers one after the other without leaking
  anything, and leaves a device that has been opened with its pins and its clock set.
\<close>

section \<open>The configuration\<close>

lemma on_bus_rc_talks:
  assumes "mpsse_ctx_ptr d = Open_ctx" and "f (ftdi_bus d) = Some (rc, s')"
    and "configures L ob wb rb cb (ftdi_bus d) cs s'"
  shows "on_bus_rc f d = Some (rc, d\<lparr>ftdi_bus := s'\<rparr>) \<and> talks L ob wb rb cb d cs (d\<lparr>ftdi_bus := s'\<rparr>)"
  using assms by (simp add: on_bus_rc_def talks_def)

lemma loopback_off_law:
  assumes "ready L ob wb rb cb es (ftdi_bus d)" and "mpsse_ctx_ptr d = Open_ctx"
  shows "\<exists>s'. on_bus (mpsse_loopback_config L False) d = Some (d\<lparr>ftdi_bus := s'\<rparr>) \<and>
    talks L ob wb rb cb d [Single 0x85] (d\<lparr>ftdi_bus := s'\<rparr>)"
proof -
  obtain s' where "mpsse_loopback_config L False (ftdi_bus d) = Some s'"
    "issues L ob wb rb cb (ftdi_bus d) [Single 0x85] s'"
    using single_byte_law [OF assms(1), of "0x85" False "0x84" "0x85"] by (auto simp: mpsse_loopback_config_def single_op_def)
  with on_bus_talks [OF assms(2)] issues_configures [of L ob wb rb cb "ftdi_bus d" "Single 0x85" s']
  show ?thesis by auto
qed

definition clock_cmds :: "mpsse_ctx \<Rightarrow> mpsse_cmd list" where
  "clock_cmds c =
     (if mpsse_is_high_speed c then [Single 0x97, Single 0x8a, Divisor 29] else [Divisor 5])"

lemma clock_1mhz_law:
  assumes r: "ready L ob wb rb cb es (ftdi_bus d)" and o: "mpsse_ctx_ptr d = Open_ctx"
  shows "\<exists>s'. on_bus_rc (mpsse_set_frequency L (jtag_get_speed_khz * 1000)) d = Some (1000000, d\<lparr>ftdi_bus := s'\<rparr>) \<and>
    talks L ob wb rb cb d (clock_cmds (ctx (ftdi_bus d))) (d\<lparr>ftdi_bus := s'\<rparr>)"
proof -
  let ?base = "if fast_clock (ctx (ftdi_bus d)) 1000000 then 60000000 else 12000000 :: int"
  obtain s' x where s': "mpsse_set_frequency L 1000000 (ftdi_bus d) = Some (?base div 2 div (1 + x), s')"
    "mpsse_divisor ?base 1000000 = Some x"
    "configures L ob wb rb cb (ftdi_bus d)
      ((if mpsse_is_high_speed (ctx (ftdi_bus d))
        then [Single 0x97, Single (if (1000000 :: int) > 457 then 0x8a else 0x8b)] else []) @ [Divisor (nat x)]) s'"
    using set_frequency_law [OF r, of 1000000] by auto
  have x: "x = (if mpsse_is_high_speed (ctx (ftdi_bus d)) then 29 else 5)"
    using s'(2) by (simp add: mpsse_divisor_def fast_clock_def Let_def split: if_splits)
  then have "?base div 2 div (1 + x) = 1000000" by (simp add: fast_clock_def)
  with s'(1) have "mpsse_set_frequency L (jtag_get_speed_khz * 1000) (ftdi_bus d) = Some (1000000, s')"
    by (simp add: jtag_get_speed_khz_def)
  moreover have "configures L ob wb rb cb (ftdi_bus d) (clock_cmds (ctx (ftdi_bus d))) s'"
    using s'(3) x by (simp add: clock_cmds_def split: if_splits)
  ultimately show ?thesis using on_bus_rc_talks [OF o] by blast
qed

definition config_cmds :: "u16 \<times> u16 \<Rightarrow> mpsse_ctx \<Rightarrow> mpsse_cmd list" where
  "config_cmds xy c =
     [Pins 0x80 (low_byte (fst xy)) (low_byte (snd xy)), Pins 0x82 (high_byte (fst xy)) (high_byte (snd xy)),
      Single 0x85] @ clock_cmds c"

lemma clock_cmds_chip: "chip_type c = chip_type c' \<Longrightarrow> clock_cmds c = clock_cmds c'"
  by (simp add: clock_cmds_def mpsse_is_high_speed_def)

lemma talks_clock: "talks L ob wb rb cb d cs d' \<Longrightarrow> clock_cmds (ctx (ftdi_bus d')) = clock_cmds (ctx (ftdi_bus d))"
  by (auto simp: talks_def configures_def intro: clock_cmds_chip)

text \<open>Whatever the pins were, they are \<open>output\<close> and \<open>direction\<close> afterwards.\<close>

lemma pins_after_config: "pins_after (config_cmds xy c) zw = xy"
  by (cases xy; cases zw) (simp add: config_cmds_def clock_cmds_def set_bytes)

lemma ftdi_configure_law:
  assumes r: "ready L ob wb rb cb es (ftdi_bus d)" and o: "mpsse_ctx_ptr d = Open_ctx"
  shows "\<exists>d' s'. ftdi_configure L d = Some (ERROR_OK, d') \<and> d' = d\<lparr>freq := 1000000, ftdi_bus := s'\<rparr> \<and>
    talks L ob wb rb cb d (config_cmds (the_pins d) (ctx (ftdi_bus d))) d' \<and>
    ready L ob wb rb cb [] (ftdi_bus d') \<and> write_count (ctx (ftdi_bus d')) = 0 \<and>
    read_count (ctx (ftdi_bus d')) = 0"
proof -
  obtain s1 where s1: "on_bus (mpsse_set_data_bits_low_byte L (low_byte (pin_output d)) (low_byte (pin_direction d))) d =
      Some (d\<lparr>ftdi_bus := s1\<rparr>)"
    "talks L ob wb rb cb d [Pins 0x80 (low_byte (pin_output d)) (low_byte (pin_direction d))] (d\<lparr>ftdi_bus := s1\<rparr>)"
    using low_byte_law [OF r o] by blast
  let ?d1 = "d\<lparr>ftdi_bus := s1\<rparr>"
  obtain es1 where r1: "ready L ob wb rb cb es1 (ftdi_bus ?d1)" using talks_ready [OF s1(2)] by blast
  obtain s2 where s2: "on_bus (mpsse_set_data_bits_high_byte L (high_byte (pin_output d)) (high_byte (pin_direction d))) ?d1 =
      Some (d\<lparr>ftdi_bus := s2\<rparr>)"
    "talks L ob wb rb cb ?d1 [Pins 0x82 (high_byte (pin_output d)) (high_byte (pin_direction d))] (d\<lparr>ftdi_bus := s2\<rparr>)"
    using high_byte_law [OF r1] o by auto
  let ?d2 = "d\<lparr>ftdi_bus := s2\<rparr>"
  obtain es2 where r2: "ready L ob wb rb cb es2 (ftdi_bus ?d2)" using talks_ready [OF s2(2)] by blast
  obtain s3 where s3: "on_bus (mpsse_loopback_config L False) ?d2 = Some (d\<lparr>ftdi_bus := s3\<rparr>)"
    "talks L ob wb rb cb ?d2 [Single 0x85] (d\<lparr>ftdi_bus := s3\<rparr>)"
    using loopback_off_law [OF r2] o by auto
  let ?d3 = "d\<lparr>ftdi_bus := s3\<rparr>"
  obtain es3 where r3: "ready L ob wb rb cb es3 (ftdi_bus ?d3)" using talks_ready [OF s3(2)] by blast
  obtain s4 where s4: "on_bus_rc (mpsse_set_frequency L (jtag_get_speed_khz * 1000)) ?d3 = Some (1000000, d\<lparr>ftdi_bus := s4\<rparr>)"
    "talks L ob wb rb cb ?d3 (clock_cmds (ctx (ftdi_bus ?d3))) (d\<lparr>ftdi_bus := s4\<rparr>)"
    using clock_1mhz_law [OF r3] o by auto
  let ?d4 = "d\<lparr>ftdi_bus := s4\<rparr>"
  obtain es4 where r4: "ready L ob wb rb cb es4 (ftdi_bus ?d4)" using talks_ready [OF s4(2)] by blast
  obtain s5 cs where s5: "mpsse_flush L s4 = Some (ERROR_OK, s5)" "flushed ob wb rb cb es4 s4 s5"
    "ready L ob wb rb cb [] s5" "advance ob wb s4 cs s5" "quiet cs" "chip_type (ctx s5) = chip_type (ctx s4)"
    using flush_rc_ready [of L ob wb rb cb es4 s4] r4 by auto
  let ?d' = "d\<lparr>freq := 1000000, ftdi_bus := s5\<rparr>"
  have t5: "talks L ob wb rb cb ?d4 [] ?d'"
    using s5(3-6) o by (auto simp: talks_def configures_def)
  have clk: "clock_cmds (ctx (ftdi_bus ?d3)) = clock_cmds (ctx (ftdi_bus d))"
    using talks_clock [OF s1(2)] talks_clock [OF s2(2)] talks_clock [OF s3(2)] by simp
  have "ftdi_configure L d = Some (ERROR_OK, ?d')"
    using s1(1) s2(1) s3(1) s4(1) s5(1) o
    by (simp add: ftdi_configure_def) (simp add: on_bus_rc_def)
  moreover have "talks L ob wb rb cb d (config_cmds (the_pins d) (ctx (ftdi_bus d))) ?d'"
    using talks_trans [OF talks_trans [OF talks_trans [OF talks_trans [OF s1(2) s2(2)] s3(2)] s4(2)] t5] clk
    by (simp add: config_cmds_def the_pins_def)
  moreover have "write_count (ctx s5) = 0" "read_count (ctx s5) = 0" using s5(2) by (simp_all add: flushed_def emptied_def)
  ultimately show ?thesis using s5(3) by (intro exI [of _ ?d'] exI [of _ s5]) simp
qed

section \<open>The search for the adapter\<close>

definition closed_as :: "'u opened \<Rightarrow> 'u ftdi \<Rightarrow> 'u ftdi \<Rightarrow> bool" where
  "closed_as H d d' \<longleftrightarrow> mpsse_ctx_ptr d' = No_ctx \<and> memory (ftdi_bus d') = memory (ftdi_bus d) \<and>
     same_open H (device (ftdi_bus d)) (device (ftdi_bus d')) \<and>
     links (queue (ftdi_bus d')) = Map.empty \<and> ents (queue (ftdi_bus d')) = Map.empty \<and>
     room (queue (ftdi_bus d')) = room (queue (ftdi_bus d))"

definition opened_as :: "'u opened \<Rightarrow> 'u ftdi \<Rightarrow> 'u ftdi \<Rightarrow> bool" where
  "opened_as H d d' \<longleftrightarrow> mpsse_ctx_ptr d' = Open_ctx \<and>
     (let s = ftdi_bus d; s' = ftdi_bus d'
      in opened H (device s) (memory s) (ctx s') (memory s') (queue s') (device s'))"

text \<open>The other variables.\<close>

definition same_vars :: "'u ftdi \<Rightarrow> 'u ftdi \<Rightarrow> bool" where
  "same_vars d d' \<longleftrightarrow> d' = d\<lparr>mpsse_ctx_ptr := mpsse_ctx_ptr d', ftdi_bus := ftdi_bus d'\<rparr>"

lemma same_vars_trans: "same_vars d d1 \<Longrightarrow> same_vars d1 d2 \<Longrightarrow> same_vars d d2"
  by (cases d; cases d1; cases d2) (simp add: same_vars_def)

lemma same_vars_fields:
  assumes "same_vars d d'"
  shows "swd_mode d' = swd_mode d" "jtag_output_init d' = jtag_output_init d"
    "jtag_direction_init d' = jtag_direction_init d" "signals d' = signals d" "sig_heap d' = sig_heap d"
  using assms by (cases d; cases d'; simp add: same_vars_def)+

text \<open>The attempt to open an adapter meets a library that cannot enumerate the devices.\<close>

definition search_fails :: "(nat \<Rightarrow> mem \<Rightarrow> ptr \<times> mem) \<Rightarrow> 'u usb_setup \<Rightarrow> 'u ftdi \<Rightarrow> bool" where
  "search_fails malloc U d \<longleftrightarrow>
     (let s = ftdi_bus d
      in enumeration_fails malloc U (uint (ftdi_channel d)) (memory s) (queue s) (device s))"

lemma open_ftdi_law:
  assumes "opens_ok L U H" and "malloc_ok malloc"
    and "links (queue (ftdi_bus d)) = Map.empty" and "ents (queue (ftdi_bus d)) = Map.empty"
  shows "if search_fails malloc U d then open_ftdi malloc pn L U vid pid d = None
    else \<exists>d'. open_ftdi malloc pn L U vid pid d = Some d' \<and> same_vars d d' \<and>
      (closed_as H d d' \<or> opened_as H d d')"
proof (cases "search_fails malloc U d")
  case True
  with mpsse_open_law [OF assms, of "uint (ftdi_channel d)" "memory (ftdi_bus d)" "device (ftdi_bus d)" pn
      "open_args_of vid pid d"]
  show ?thesis by (simp add: search_fails_def open_ftdi_def Let_def)
next
  case False
  let ?s = "ftdi_bus d"
  obtain r where r: "mpsse_open malloc pn L U (open_args_of vid pid d) (uint (ftdi_channel d)) (memory ?s) (queue ?s) (device ?s) = Some r"
    "open_result H (device ?s) (memory ?s) (room (queue ?s)) r"
    using mpsse_open_law [OF assms, of "uint (ftdi_channel d)" "memory (ftdi_bus d)" "device (ftdi_bus d)" pn
      "open_args_of vid pid d"] False
    by (auto simp: settles_def search_fails_def Let_def)
  obtain c m h u where x: "r = (c, m, h, u)" by (cases r) auto
  show ?thesis
  proof (cases c)
    case None
    with r x False show ?thesis by (simp add: open_ftdi_def open_result_def closed_as_def same_vars_def)
  next
    case (Some c)
    with r x False show ?thesis by (simp add: open_ftdi_def open_result_def opened_as_def same_vars_def)
  qed
qed

lemma closed_then_opened: "closed_as H d d1 \<Longrightarrow> opened_as H d1 d2 \<Longrightarrow> opened_as H d d2"
  by (auto simp: closed_as_def opened_as_def opened_def holding_def same_open_def Let_def)

lemma closed_then_closed: "closed_as H d d1 \<Longrightarrow> closed_as H d1 d2 \<Longrightarrow> closed_as H d d2"
  by (auto simp: closed_as_def same_open_def)

text \<open>One of the attempts of a search meets it; the attempts before it found nothing.\<close>

fun search_stuck ::
    "(nat \<Rightarrow> mem \<Rightarrow> ptr \<times> mem) \<Rightarrow> bool \<Rightarrow> 'u libusb \<Rightarrow> 'u usb_setup \<Rightarrow> (u16 \<times> u16) list \<Rightarrow> 'u ftdi \<Rightarrow> bool"
where
  "search_stuck malloc pn L U [] d = False"
| "search_stuck malloc pn L U ((vid, pid) # ids) d =
     ((vid \<noteq> 0 \<or> pid \<noteq> 0) \<and>
      (search_fails malloc U d \<or>
       (case open_ftdi malloc pn L U vid pid d of
          None \<Rightarrow> False
        | Some d1 \<Rightarrow> mpsse_ctx_ptr d1 = No_ctx \<and> search_stuck malloc pn L U ids d1)))"

lemma open_loop_law:
  assumes "opens_ok L U H" and "malloc_ok malloc"
    and "links (queue (ftdi_bus d)) = Map.empty" and "ents (queue (ftdi_bus d)) = Map.empty"
    and "(0, 0) \<in> set ids" and "mpsse_ctx_ptr d = No_ctx"
  shows "if search_stuck malloc pn L U ids d then open_loop malloc pn L U ids d = None
    else \<exists>d'. open_loop malloc pn L U ids d = Some d' \<and> same_vars d d' \<and> (closed_as H d d' \<or> opened_as H d d')"
  using assms(3-6)
proof (induction ids arbitrary: d)
  case (Cons i ids)
  obtain vid pid where i: "i = (vid, pid)" by (cases i)
  have here: "same_vars d d" "closed_as H d d"
    using Cons.prems by (simp_all add: same_vars_def closed_as_def same_open_refl)
  note law = open_ftdi_law [OF assms(1,2) Cons.prems(1,2), of pn vid pid]
  consider "vid = 0 \<and> pid = 0" | "vid \<noteq> 0 \<or> pid \<noteq> 0" "search_fails malloc U d"
    | "vid \<noteq> 0 \<or> pid \<noteq> 0" "\<not> search_fails malloc U d" by blast
  then show ?case
  proof cases
    case 1
    with i here show ?thesis by auto
  next
    case 2
    with law i show ?thesis by auto
  next
    case 3
    then obtain d1 where d1: "open_ftdi malloc pn L U vid pid d = Some d1" "same_vars d d1"
      "closed_as H d d1 \<or> opened_as H d d1"
      using law by auto
    have go: "open_loop malloc pn L U (i # ids) d =
        (if mpsse_ctx_ptr d1 \<noteq> No_ctx then Some d1 else open_loop malloc pn L U ids d1)"
      "search_stuck malloc pn L U (i # ids) d \<longleftrightarrow> mpsse_ctx_ptr d1 = No_ctx \<and> search_stuck malloc pn L U ids d1"
      using 3 i d1(1) by auto
    show ?thesis
    proof (cases "mpsse_ctx_ptr d1 = No_ctx")
      case False
      with go d1 show ?thesis by auto
    next
      case True
      then have c: "closed_as H d d1" using d1(3) by (auto simp: opened_as_def)
      then have "links (queue (ftdi_bus d1)) = Map.empty" "ents (queue (ftdi_bus d1)) = Map.empty"
        by (simp_all add: closed_as_def)
      moreover have "(0, 0) \<in> set ids" using Cons.prems(3) 3(1) i by auto
      ultimately have "if search_stuck malloc pn L U ids d1 then open_loop malloc pn L U ids d1 = None
        else \<exists>d'. open_loop malloc pn L U ids d1 = Some d' \<and> same_vars d1 d' \<and>
          (closed_as H d1 d' \<or> opened_as H d1 d')"
        using Cons.IH [of d1] True by blast
      then show ?thesis
        unfolding go using True same_vars_trans [OF d1(2)] closed_then_closed [OF c] closed_then_opened [OF c]
        by (auto split: if_splits)
    qed
  qed
qed simp

text \<open>Without \<open>swd_mode\<close>.\<close>

lemma ftdi_initialize_jtag:
  assumes "open_loop malloc pn L U (zip (ftdi_vid d) (ftdi_pid d)) d = Some d1" and "same_vars d d1" and "\<not> swd_mode d"
  shows "ftdi_initialize malloc pn L U d =
    (if mpsse_ctx_ptr d1 = No_ctx then Some (ERROR_FAIL, d1)
     else ftdi_configure L (d1\<lparr>pin_output := jtag_output_init d, pin_direction := jtag_direction_init d\<rparr>))"
  using assms same_vars_fields [OF assms(2)] by (simp add: ftdi_initialize_def)

text \<open>The whole initialisation, outside SWD mode, with an adapter that answers.\<close>

lemma ftdi_initialize_law:
  assumes "opens_ok L U H" and "malloc_ok malloc"
    and "links (queue (ftdi_bus d)) = Map.empty" and "ents (queue (ftdi_bus d)) = Map.empty"
    and "(0, 0) \<in> set (zip (ftdi_vid d) (ftdi_pid d))" and "mpsse_ctx_ptr d = No_ctx" and "\<not> swd_mode d"
    and "memory (ftdi_bus d) local_block = None"
    and "open_loop malloc pn L U (zip (ftdi_vid d) (ftdi_pid d)) d = Some d1" and "mpsse_ctx_ptr d1 = Open_ctx"
    and "2 < unat (max_packet_size (ctx (ftdi_bus d1)))" and "idle ob (device (ftdi_bus d1))"
    and "prompt L ob (unat (max_packet_size (ctx (ftdi_bus d1))))"
  shows "\<exists>d' wb rb cb bs cs. ftdi_initialize malloc pn L U d = Some (ERROR_OK, d') \<and>
    sent ob (device (ftdi_bus d')) = sent ob (device (ftdi_bus d1)) @ bs \<and> decode bs = Some cs \<and>
    effective cs = config_cmds (jtag_output_init d, jtag_direction_init d) (ctx (ftdi_bus d1)) \<and>
    pins_after (effective cs) xy = the_pins d' \<and> the_pins d' = (jtag_output_init d, jtag_direction_init d) \<and>
    freq d' = 1000000 \<and> mpsse_ctx_ptr d' = Open_ctx \<and> ready L ob wb rb cb [] (ftdi_bus d')"
proof -
  have d1: "same_vars d d1" "opened_as H d d1"
    using open_loop_law [OF assms(1-6), of pn] assms(9,10) by (auto simp: closed_as_def split: if_splits)
  let ?s = "ftdi_bus d1" and ?d = "d1\<lparr>pin_output := jtag_output_init d, pin_direction := jtag_direction_init d\<rparr>"
  have op: "opened H (device (ftdi_bus d)) (memory (ftdi_bus d)) (ctx ?s) (memory ?s) (queue ?s) (device ?s)"
    using d1(2) by (simp add: opened_as_def Let_def)
  have "\<lparr>ctx = ctx ?s, memory = memory ?s, queue = queue ?s, device = device ?s\<rparr> = ?s" by simp
  then obtain wb rb cb where "minv wb rb cb [] ?s" using opened_minv [OF op assms(11,8)] by metis
  then have r: "ready L ob wb rb cb [] (ftdi_bus ?d)"
    using op assms(12,13) by (simp add: ready_def opened_def)
  have o: "mpsse_ctx_ptr ?d = Open_ctx" using assms(10) by simp
  obtain d' s' where d': "ftdi_configure L ?d = Some (ERROR_OK, d')" "d' = ?d\<lparr>freq := 1000000, ftdi_bus := s'\<rparr>"
      "talks L ob wb rb cb ?d (config_cmds (the_pins ?d) (ctx (ftdi_bus ?d))) d'"
      "ready L ob wb rb cb [] (ftdi_bus d')" "write_count (ctx (ftdi_bus d')) = 0"
    using ftdi_configure_law [OF r o] by blast
  have "ftdi_initialize malloc pn L U d = Some (ERROR_OK, d')"
    using ftdi_initialize_jtag [OF assms(9) d1(1) assms(7)] assms(10) d'(1) by simp
  moreover obtain cs bs where "stream ob wb (ftdi_bus d') = stream ob wb ?s @ bs" "decode bs = Some cs"
      "effective cs = config_cmds (the_pins ?d) (ctx ?s)"
    using d'(3) by (auto simp: talks_def configures_def advance_def)
  moreover have "pending wb ?s = []" "pending wb (ftdi_bus d') = []"
    using op d'(5) by (simp_all add: pending_def opened_def)
  ultimately show ?thesis
    using d'(2,4) assms(10) pins_after_config
    by (intro exI [of _ d'] exI [of _ wb] exI [of _ rb] exI [of _ cb] exI [of _ bs] exI [of _ cs])
      (simp add: stream_def the_pins_def)
qed

end
