(* ===== verification/Shift_Reg.thy ===== *)
theory Shift_Reg
  imports Prelude
begin

text \<open>
  \<^verbatim>\<open>inc/shift_reg.hpp\<close>: the shift registers of the simulated TAP controller. A register
  of the class template \<open>ShiftReg<N>\<close> is the list of its \<open>N\<close> elements, which are \<open>int\<close>; element
  0 is the bit that is shifted out next. The printing in \<open>load\<close> is left out.
\<close>

section \<open>The class\<close>

datatype shift_reg_error = Initializer_List_Mismatch

definition shift_reg_new :: "nat \<Rightarrow> int list" where
  "shift_reg_new N = replicate N 0"

definition shift_reg_of_list :: "nat \<Rightarrow> int list \<Rightarrow> shift_reg_error + int list" where
  "shift_reg_of_list N l = (if length l \<noteq> N then Inl Initializer_List_Mismatch else Inr l)"

definition shift_in :: "int \<Rightarrow> int list \<Rightarrow> int \<times> int list" where
  "shift_in inp arr =
     (let out = arr ! 0;
          arr = rotate1 arr
      in (out, arr[length arr - 1 := inp]))"

definition shift_load :: "u64 \<Rightarrow> int list \<Rightarrow> int list" where
  "shift_load data arr =
     fold (\<lambda>i arr. arr[i := uint (drop_bit i data AND 0x1)]) [0..<length arr] arr"

definition shift_val :: "int list \<Rightarrow> u64" where
  "shift_val arr =
     fold (\<lambda>i tmp. push_bit 1 tmp OR of_int (arr ! (length arr - 1 - i))) [0..<length arr] 0"

definition shift_to_str :: "int list \<Rightarrow> string" where
  "shift_to_str arr =
     fold (\<lambda>i s. s @ (if arr ! (length arr - 1 - i) \<noteq> 0 then ''1'' else ''0'')) [0..<length arr] []"

section \<open>Bit strings\<close>

abbreviation bit_int :: "bool \<Rightarrow> int" where
  "bit_int b \<equiv> of_bool b"

text \<open>A register that holds a bit string.\<close>

definition holds :: "int list \<Rightarrow> bool list \<Rightarrow> bool" where
  "holds arr bs \<longleftrightarrow> arr = map bit_int bs"

lemma shift_in_law:
  assumes "holds arr (b # bs)"
  shows "fst (shift_in (bit_int i) arr) = bit_int b" and "holds (snd (shift_in (bit_int i) arr)) (bs @ [i])"
  using assms by (simp_all add: holds_def shift_in_def Let_def list_update_append)

lemma fold_update:
  "n \<le> length xs \<Longrightarrow> fold (\<lambda>i a. a[i := f i]) [0..<n] xs = map f [0..<n] @ drop n xs"
proof (induction n)
  case (Suc n)
  then have "drop n xs = xs ! n # drop (Suc n) xs" by (simp add: Cons_nth_drop_Suc)
  with Suc show ?case by (simp add: list_update_append)
qed simp

lemma shift_load_holds: "holds (shift_load d arr) (map (bit d) [0..<length arr])"
  unfolding holds_def shift_load_def fold_update [OF order_refl]
  by (auto simp: and_one_eq bit_iff_odd_drop_bit odd_iff_mod_2_eq_one)

lemma bit_shift_step:
  "bit (push_bit 1 t OR of_int (bit_int b) :: u64) k \<longleftrightarrow> k < 64 \<and> (if k = 0 then b else bit t (k - 1))"
proof -
  have "bit (push_bit 1 t) k \<longleftrightarrow> k < 64 \<and> 1 \<le> k \<and> bit t (k - 1)"
    by (simp only: bit_push_bit_iff possible_bit_word) auto
  moreover have "bit (of_int (bit_int b) :: u64) k \<longleftrightarrow> k = 0 \<and> b" by (cases b) (auto simp: bit_1_iff)
  ultimately show ?thesis unfolding bit_or_iff by auto
qed

lemma shift_val_aux:
  assumes "n \<le> length bs" and "length bs \<le> 64"
  shows "bit (fold (\<lambda>i t. push_bit 1 t OR of_int (map bit_int bs ! (length bs - 1 - i))) [0..<n] (0 :: u64)) k
     \<longleftrightarrow> k < n \<and> bs ! (length bs - n + k)"
  using assms
proof (induction n arbitrary: k)
  case (Suc n)
  let ?f = "\<lambda>i t. push_bit 1 t OR (of_int (map bit_int bs ! (length bs - 1 - i)) :: u64)"
  have f: "fold ?f [0..<Suc n] 0 =
      push_bit 1 (fold ?f [0..<n] 0) OR of_int (bit_int (bs ! (length bs - Suc n)))"
    using Suc.prems by (simp del: push_bit_of_0)
  show ?case
    unfolding f bit_shift_step using Suc.IH [of "k - 1"] Suc.prems
    by (cases k) (auto simp: Suc_diff_Suc)
qed simp

lemma shift_val_bit:
  assumes "holds arr bs" and "length bs \<le> 64"
  shows "bit (shift_val arr) k \<longleftrightarrow> k < length bs \<and> bs ! k"
  using assms shift_val_aux [of "length bs" bs k] by (simp add: holds_def shift_val_def)

lemma shift_val_load:
  assumes "length arr \<le> 64"
  shows "shift_val (shift_load d arr) = take_bit (length arr) d"
  using shift_val_bit [OF shift_load_holds] assms
  by (intro bit_eqI) (auto simp: bit_take_bit_iff)

lemma shift_to_str_law:
  assumes "holds arr bs"
  shows "shift_to_str arr = map (\<lambda>b. if b then CHR ''1'' else CHR ''0'') (rev bs)"
proof -
  have "n \<le> length bs \<Longrightarrow>
    fold (\<lambda>i s. s @ (if arr ! (length arr - 1 - i) \<noteq> 0 then ''1'' else ''0'')) [0..<n] [] =
      map (\<lambda>b. if b then CHR ''1'' else CHR ''0'') (take n (rev bs))" for n
  proof (induction n)
    case (Suc n)
    then show ?case using assms by (auto simp: holds_def take_Suc_conv_app_nth rev_nth)
  qed simp
  from this [of "length bs"] assms show ?thesis by (simp add: shift_to_str_def holds_def)
qed

section \<open>Shifting a bit string through a register\<close>

fun shift_all :: "int list \<Rightarrow> int list \<Rightarrow> int list \<times> int list" where
  "shift_all [] arr = ([], arr)"
| "shift_all (i # inp) arr =
     (let (out, arr) = shift_in i arr; (outs, arr) = shift_all inp arr in (out # outs, arr))"

lemma shift_all_law:
  assumes "holds arr bs" and "bs \<noteq> []"
  shows "fst (shift_all (map bit_int inp) arr) = map bit_int (take (length inp) (bs @ inp))"
    and "holds (snd (shift_all (map bit_int inp) arr)) (drop (length inp) (bs @ inp))"
proof -
  have "fst (shift_all (map bit_int inp) arr) = map bit_int (take (length inp) (bs @ inp)) \<and>
    holds (snd (shift_all (map bit_int inp) arr)) (drop (length inp) (bs @ inp))"
    using assms
  proof (induction inp arbitrary: arr bs)
    case (Cons i inp)
    then obtain b cs where bs: "bs = b # cs" by (cases bs) auto
    note step = shift_in_law [OF Cons.prems(1) [unfolded bs], of i]
    obtain a where a: "shift_in (bit_int i) arr = (bit_int b, a)" using step(1) by (metis prod.collapse)
    with step(2) have "holds a (cs @ [i])" by simp
    moreover obtain outs z where "shift_all (map bit_int inp) a = (outs, z)" by fastforce
    ultimately show ?case using Cons.IH [of a "cs @ [i]"] a by (simp add: bs)
  qed simp
  then show "fst (shift_all (map bit_int inp) arr) = map bit_int (take (length inp) (bs @ inp))"
    "holds (snd (shift_all (map bit_int inp) arr)) (drop (length inp) (bs @ inp))" by blast+
qed

text \<open>
  A shift register gives back what is loaded into it, cut to its width, and printed it shows its
  bits with the most significant one first.
\<close>

lemma shift_reg_round_trip:
  assumes "length arr \<le> 64"
  shows "shift_val (shift_load d arr) = take_bit (length arr) d \<and>
    shift_to_str (shift_load d arr) =
      map (\<lambda>i. if bit d i then CHR ''1'' else CHR ''0'') (rev [0..<length arr])"
  using shift_val_load [OF assms] shift_to_str_law [OF shift_load_holds]
  by (simp add: rev_map comp_def)

end
