(* ===== verification/Tap_State.thy ===== *)
theory Tap_State
  imports Prelude
begin

text \<open>
  \<^verbatim>\<open>openocd/src/jtag/interface.c\<close> and \<open>enum tap_state\<close> of \<^verbatim>\<open>jtag.h\<close>: the JTAG
  state machine as the cable drivers follow it, the two tables of TMS sequences between the
  stable states, and the names of the states.

  The reference is the TAP controller of IEEE 1149.1, written once for the two registers
  (\<open>tap_step\<close>). The locale \<open>tap_machine\<close> is the contract of an implementation of it; it is
  interpreted here on \<open>tap_state_transition\<close> and in \<open>Tap_Controller\<close> on the table of the
  simulated device.
\<close>

section \<open>The standard\<close>

datatype register = DR | IR

datatype phase = Select | Capture | Shift | Exit1 | Pause | Exit2 | Update

datatype tap = Reset | Idle | Scan register phase

fun tap_step :: "tap \<Rightarrow> bool \<Rightarrow> tap" where
  "tap_step Reset tms = (if tms then Reset else Idle)"
| "tap_step Idle tms = (if tms then Scan DR Select else Idle)"
| "tap_step (Scan r Select) tms =
     (if tms then (case r of DR \<Rightarrow> Scan IR Select | IR \<Rightarrow> Reset) else Scan r Capture)"
| "tap_step (Scan r Capture) tms = Scan r (if tms then Exit1 else Shift)"
| "tap_step (Scan r Shift) tms = Scan r (if tms then Exit1 else Shift)"
| "tap_step (Scan r Exit1) tms = Scan r (if tms then Update else Pause)"
| "tap_step (Scan r Pause) tms = Scan r (if tms then Exit2 else Pause)"
| "tap_step (Scan r Exit2) tms = Scan r (if tms then Update else Shift)"
| "tap_step (Scan r Update) tms = (if tms then Scan DR Select else Idle)"

fun run_tap :: "('s \<Rightarrow> bool \<Rightarrow> 's option) \<Rightarrow> 's \<Rightarrow> bool list \<Rightarrow> 's option" where
  "run_tap step s [] = Some s"
| "run_tap step s (b # bs) = do { s \<leftarrow> step s b; run_tap step s bs }"

lemma run_tap_append:
  "run_tap step s (bs @ cs) = do { s \<leftarrow> run_tap step s bs; run_tap step s cs }"
  by (induction bs arbitrary: s) (auto split: bind_splits)

lemma five_ones_reset: "foldl tap_step a [True, True, True, True, True] = Reset"
proof (cases a)
  case (Scan r p)
  then show ?thesis by (cases p; cases r) simp_all
qed simp_all

lemma ones_stay: "foldl tap_step Reset (replicate n True) = Reset"
  by (induction n) simp_all

lemma ones_reset:
  assumes "5 \<le> n" shows "foldl tap_step a (replicate n True) = Reset"
proof -
  have "replicate n True = [True, True, True, True, True] @ replicate (n - 5) True"
    using assms by (intro nth_equalityI) (auto simp: nth_append nth_Cons split: nat.splits)
  then show ?thesis by (simp only: foldl_append five_ones_reset ones_stay)
qed

text \<open>An implementation: its states are those of the standard, and maybe some others.\<close>

locale tap_machine =
  fixes step :: "'s \<Rightarrow> bool \<Rightarrow> 's option"
    and tap_of :: "'s \<Rightarrow> tap option"
    and reset :: 's
  assumes step_tap: "tap_of s = Some a \<Longrightarrow> \<exists>s'. step s t = Some s' \<and> tap_of s' = Some (tap_step a t)"
    and tap_inj: "tap_of s = Some a \<Longrightarrow> tap_of s' = Some a \<Longrightarrow> s = s'"
    and reset_tap: "tap_of reset = Some Reset"
begin

lemma run_tap_law:
  "tap_of s = Some a \<Longrightarrow> \<exists>s'. run_tap step s ts = Some s' \<and> tap_of s' = Some (foldl tap_step a ts)"
proof (induction ts arbitrary: s a)
  case (Cons t ts)
  from step_tap [OF Cons.prems] obtain s' where
    "step s t = Some s'" "tap_of s' = Some (tap_step a t)" by blast
  with Cons.IH [of s' "tap_step a t"] show ?case by simp
qed simp

lemma run_tap_iff:
  assumes "tap_of s = Some a"
  shows "run_tap step s ts = Some s' \<longleftrightarrow> tap_of s' = Some (foldl tap_step a ts)"
  using run_tap_law [OF assms, of ts] tap_inj by fastforce

lemma run_resets:
  assumes "tap_of s = Some a" and "5 \<le> n"
  shows "run_tap step s (replicate n True) = Some reset"
  using assms by (simp add: run_tap_iff [OF assms(1)] ones_reset reset_tap)

end

section \<open>tap_state_transition\<close>

datatype tap_state =
    TAP_INVALID | TAP_DREXIT2 | TAP_DREXIT1 | TAP_DRSHIFT | TAP_DRPAUSE | TAP_IRSELECT
  | TAP_DRUPDATE | TAP_DRCAPTURE | TAP_DRSELECT | TAP_IREXIT2 | TAP_IREXIT1 | TAP_IRSHIFT
  | TAP_IRPAUSE | TAP_IDLE | TAP_IRUPDATE | TAP_IRCAPTURE | TAP_RESET

text \<open>The numbers of the enumeration; they order the states.\<close>

fun tap_state_code :: "tap_state \<Rightarrow> int" where
  "tap_state_code TAP_INVALID = - 1"
| "tap_state_code TAP_DREXIT2 = 0x0"
| "tap_state_code TAP_DREXIT1 = 0x1"
| "tap_state_code TAP_DRSHIFT = 0x2"
| "tap_state_code TAP_DRPAUSE = 0x3"
| "tap_state_code TAP_IRSELECT = 0x4"
| "tap_state_code TAP_DRUPDATE = 0x5"
| "tap_state_code TAP_DRCAPTURE = 0x6"
| "tap_state_code TAP_DRSELECT = 0x7"
| "tap_state_code TAP_IREXIT2 = 0x8"
| "tap_state_code TAP_IREXIT1 = 0x9"
| "tap_state_code TAP_IRSHIFT = 0xa"
| "tap_state_code TAP_IRPAUSE = 0xb"
| "tap_state_code TAP_IDLE = 0xc"
| "tap_state_code TAP_IRUPDATE = 0xd"
| "tap_state_code TAP_IRCAPTURE = 0xe"
| "tap_state_code TAP_RESET = 0xf"

lemma tap_state_code_inj: "tap_state_code s = tap_state_code s' \<Longrightarrow> s = s'"
  by (cases s; cases s') simp_all

instantiation tap_state :: linorder
begin

definition less_eq_tap_state :: "tap_state \<Rightarrow> tap_state \<Rightarrow> bool" where
  "less_eq_tap_state s s' \<longleftrightarrow> tap_state_code s \<le> tap_state_code s'"

definition less_tap_state :: "tap_state \<Rightarrow> tap_state \<Rightarrow> bool" where
  "less_tap_state s s' \<longleftrightarrow> tap_state_code s < tap_state_code s'"

instance
  by standard (auto simp: less_eq_tap_state_def less_tap_state_def intro: tap_state_code_inj)

end

text \<open>\<open>exit(1)\<close> has no continuation.\<close>

definition tap_state_transition :: "tap_state \<Rightarrow> bool \<Rightarrow> tap_state option" where
  "tap_state_transition cur_state tms =
     (if tms then
        (case cur_state of
           TAP_RESET \<Rightarrow> Some cur_state
         | TAP_IDLE \<Rightarrow> Some TAP_DRSELECT
         | TAP_DRUPDATE \<Rightarrow> Some TAP_DRSELECT
         | TAP_IRUPDATE \<Rightarrow> Some TAP_DRSELECT
         | TAP_DRSELECT \<Rightarrow> Some TAP_IRSELECT
         | TAP_DRCAPTURE \<Rightarrow> Some TAP_DREXIT1
         | TAP_DRSHIFT \<Rightarrow> Some TAP_DREXIT1
         | TAP_DREXIT1 \<Rightarrow> Some TAP_DRUPDATE
         | TAP_DREXIT2 \<Rightarrow> Some TAP_DRUPDATE
         | TAP_DRPAUSE \<Rightarrow> Some TAP_DREXIT2
         | TAP_IRSELECT \<Rightarrow> Some TAP_RESET
         | TAP_IRCAPTURE \<Rightarrow> Some TAP_IREXIT1
         | TAP_IRSHIFT \<Rightarrow> Some TAP_IREXIT1
         | TAP_IREXIT1 \<Rightarrow> Some TAP_IRUPDATE
         | TAP_IREXIT2 \<Rightarrow> Some TAP_IRUPDATE
         | TAP_IRPAUSE \<Rightarrow> Some TAP_IREXIT2
         | _ \<Rightarrow> None)
      else
        (case cur_state of
           TAP_RESET \<Rightarrow> Some TAP_IDLE
         | TAP_IDLE \<Rightarrow> Some TAP_IDLE
         | TAP_DRUPDATE \<Rightarrow> Some TAP_IDLE
         | TAP_IRUPDATE \<Rightarrow> Some TAP_IDLE
         | TAP_DRSELECT \<Rightarrow> Some TAP_DRCAPTURE
         | TAP_DRCAPTURE \<Rightarrow> Some TAP_DRSHIFT
         | TAP_DRSHIFT \<Rightarrow> Some TAP_DRSHIFT
         | TAP_DREXIT2 \<Rightarrow> Some TAP_DRSHIFT
         | TAP_DREXIT1 \<Rightarrow> Some TAP_DRPAUSE
         | TAP_DRPAUSE \<Rightarrow> Some TAP_DRPAUSE
         | TAP_IRSELECT \<Rightarrow> Some TAP_IRCAPTURE
         | TAP_IRCAPTURE \<Rightarrow> Some TAP_IRSHIFT
         | TAP_IRSHIFT \<Rightarrow> Some TAP_IRSHIFT
         | TAP_IREXIT2 \<Rightarrow> Some TAP_IRSHIFT
         | TAP_IREXIT1 \<Rightarrow> Some TAP_IRPAUSE
         | TAP_IRPAUSE \<Rightarrow> Some TAP_IRPAUSE
         | _ \<Rightarrow> None))"

fun standard_state :: "tap_state \<Rightarrow> tap option" where
  "standard_state TAP_INVALID = None"
| "standard_state TAP_RESET = Some Reset"
| "standard_state TAP_IDLE = Some Idle"
| "standard_state TAP_DRSELECT = Some (Scan DR Select)"
| "standard_state TAP_DRCAPTURE = Some (Scan DR Capture)"
| "standard_state TAP_DRSHIFT = Some (Scan DR Shift)"
| "standard_state TAP_DREXIT1 = Some (Scan DR Exit1)"
| "standard_state TAP_DRPAUSE = Some (Scan DR Pause)"
| "standard_state TAP_DREXIT2 = Some (Scan DR Exit2)"
| "standard_state TAP_DRUPDATE = Some (Scan DR Update)"
| "standard_state TAP_IRSELECT = Some (Scan IR Select)"
| "standard_state TAP_IRCAPTURE = Some (Scan IR Capture)"
| "standard_state TAP_IRSHIFT = Some (Scan IR Shift)"
| "standard_state TAP_IREXIT1 = Some (Scan IR Exit1)"
| "standard_state TAP_IRPAUSE = Some (Scan IR Pause)"
| "standard_state TAP_IREXIT2 = Some (Scan IR Exit2)"
| "standard_state TAP_IRUPDATE = Some (Scan IR Update)"

lemma standard_state_cases:
  "s \<noteq> TAP_INVALID \<Longrightarrow> \<exists>a. standard_state s = Some a" "standard_state s = Some a \<Longrightarrow> s \<noteq> TAP_INVALID"
  by (cases s; simp)+

interpretation follower: tap_machine tap_state_transition standard_state TAP_RESET
proof
  fix s a t assume "standard_state s = Some a"
  then show "\<exists>s'. tap_state_transition s t = Some s' \<and> standard_state s' = Some (tap_step a t)"
    by (cases s; cases t) (auto simp: tap_state_transition_def)
next
  fix s s' a assume "standard_state s = Some a" "standard_state s' = Some a"
  then show "s = s'" by (cases s; cases s') auto
qed simp


section \<open>The followers and the TMS tables\<close>

record tms_sequences =
  bits :: u8
  bit_count :: u8

text \<open>The macro \<open>B8\<close>: a binary number written with the digits of a hexadecimal one.\<close>

definition B8 :: "nat \<Rightarrow> u8 \<Rightarrow> tms_sequences" where
  "B8 x n =
     \<lparr>bits = of_nat
        ((if x mod 2 ^ 4 \<noteq> 0 then 2 ^ 0 else 0) + (if x div 2 ^ 4 mod 2 ^ 4 \<noteq> 0 then 2 ^ 1 else 0)
       + (if x div 2 ^ 8 mod 2 ^ 4 \<noteq> 0 then 2 ^ 2 else 0) + (if x div 2 ^ 12 mod 2 ^ 4 \<noteq> 0 then 2 ^ 3 else 0)
       + (if x div 2 ^ 16 mod 2 ^ 4 \<noteq> 0 then 2 ^ 4 else 0) + (if x div 2 ^ 20 mod 2 ^ 4 \<noteq> 0 then 2 ^ 5 else 0)
       + (if x div 2 ^ 24 mod 2 ^ 4 \<noteq> 0 then 2 ^ 6 else 0) + (if x div 2 ^ 28 mod 2 ^ 4 \<noteq> 0 then 2 ^ 7 else 0)),
      bit_count = n\<rparr>"

definition old_tms_seqs :: "tms_sequences list list" where
  "old_tms_seqs = [
     [B8 0x1111111 7, B8 0x0000000 7, B8 0x0010111 7, B8 0x0001010 7, B8 0x0011011 7, B8 0x0010110 7],
     [B8 0x1111111 7, B8 0x0000000 7, B8 0x0100101 7, B8 0x0000101 7, B8 0x0101011 7, B8 0x0001011 7],
     [B8 0x1111111 7, B8 0x0110001 7, B8 0x0000000 7, B8 0x0000001 7, B8 0x0001111 7, B8 0x0101111 7],
     [B8 0x1111111 7, B8 0x0110000 7, B8 0x0100000 7, B8 0x0010111 7, B8 0x0011110 7, B8 0x0101111 7],
     [B8 0x1111111 7, B8 0x0110001 7, B8 0x0000111 7, B8 0x0010111 7, B8 0x0000000 7, B8 0x0000001 7],
     [B8 0x1111111 7, B8 0x0110000 7, B8 0x0011100 7, B8 0x0010111 7, B8 0x0011110 7, B8 0x0101111 7]]"

definition short_tms_seqs :: "tms_sequences list list" where
  "short_tms_seqs = [
     [B8 0x1111111 7, B8 0x0000000 7, B8 0x0010111 7, B8 0x0001010 7, B8 0x0011011 7, B8 0x0010110 7],
     [B8 0x1111111 7, B8 0x0000000 7, B8 0x001 3, B8 0x0101 4, B8 0x0011 4, B8 0x01011 5],
     [B8 0x1111111 7, B8 0x011 3, B8 0x00111 5, B8 0x01 2, B8 0x001111 6, B8 0x0101111 7],
     [B8 0x1111111 7, B8 0x011 3, B8 0x01 2, B8 0x0 1, B8 0x001111 6, B8 0x0101111 7],
     [B8 0x1111111 7, B8 0x011 3, B8 0x00111 5, B8 0x010111 6, B8 0x001111 6, B8 0x01 2],
     [B8 0x1111111 7, B8 0x011 3, B8 0x00111 5, B8 0x010111 6, B8 0x01 2, B8 0x0 1]]"

text \<open>The pointer \<open>tms_seqs\<close> and the two followers are the variables of the file.\<close>

datatype tms_table = Short_Tms_Seqs | Old_Tms_Seqs

fun table_at :: "tms_table \<Rightarrow> tms_sequences list list" where
  "table_at Short_Tms_Seqs = short_tms_seqs"
| "table_at Old_Tms_Seqs = old_tms_seqs"

record jtag_globals =
  state_follower :: tap_state
  end_state_follower :: tap_state
  tms_seqs :: tms_table

definition jtag_globals_init :: jtag_globals where
  "jtag_globals_init =
     \<lparr>state_follower = TAP_RESET, end_state_follower = TAP_RESET, tms_seqs = Short_Tms_Seqs\<rparr>"

definition tap_set_state_impl :: "tap_state \<Rightarrow> jtag_globals \<Rightarrow> jtag_globals" where
  "tap_set_state_impl new_state g = g\<lparr>state_follower := new_state\<rparr>"

definition tap_set_state :: "tap_state \<Rightarrow> jtag_globals \<Rightarrow> jtag_globals" where
  "tap_set_state new_state = tap_set_state_impl new_state"

definition tap_get_state :: "jtag_globals \<Rightarrow> tap_state" where
  "tap_get_state g = state_follower g"

definition tap_set_end_state :: "tap_state \<Rightarrow> jtag_globals \<Rightarrow> jtag_globals" where
  "tap_set_end_state new_end_state g = g\<lparr>end_state_follower := new_end_state\<rparr>"

definition tap_get_end_state :: "jtag_globals \<Rightarrow> tap_state" where
  "tap_get_end_state g = end_state_follower g"

text \<open>The two followers are independent: setting one leaves what the other reads.\<close>

lemma followers_get_set:
  "tap_get_state (tap_set_state a g) = a"
  "tap_get_end_state (tap_set_end_state a g) = a"
  "tap_get_state (tap_set_end_state a g) = tap_get_state g"
  "tap_get_end_state (tap_set_state a g) = tap_get_end_state g"
  by (simp_all add: tap_get_state_def tap_set_state_def tap_set_state_impl_def
      tap_get_end_state_def tap_set_end_state_def)

definition tap_use_new_tms_table :: "bool \<Rightarrow> jtag_globals \<Rightarrow> jtag_globals" where
  "tap_use_new_tms_table use_new g =
     g\<lparr>tms_seqs := (if use_new then Short_Tms_Seqs else Old_Tms_Seqs)\<rparr>"

definition tap_uses_new_tms_table :: "jtag_globals \<Rightarrow> bool" where
  "tap_uses_new_tms_table g \<longleftrightarrow> tms_seqs g = Short_Tms_Seqs"

definition tap_move_ndx :: "tap_state \<Rightarrow> nat option" where
  "tap_move_ndx astate =
     (case astate of
        TAP_RESET \<Rightarrow> Some 0
      | TAP_IDLE \<Rightarrow> Some 1
      | TAP_DRSHIFT \<Rightarrow> Some 2
      | TAP_DRPAUSE \<Rightarrow> Some 3
      | TAP_IRSHIFT \<Rightarrow> Some 4
      | TAP_IRPAUSE \<Rightarrow> Some 5
      | _ \<Rightarrow> None)"

definition tap_get_tms_path :: "jtag_globals \<Rightarrow> tap_state \<Rightarrow> tap_state \<Rightarrow> int option" where
  "tap_get_tms_path g start dest = do {
     i \<leftarrow> tap_move_ndx start;
     j \<leftarrow> tap_move_ndx dest;
     Some (uint (bits (table_at (tms_seqs g) ! i ! j)))
   }"

definition tap_get_tms_path_len :: "jtag_globals \<Rightarrow> tap_state \<Rightarrow> tap_state \<Rightarrow> int option" where
  "tap_get_tms_path_len g start dest = do {
     i \<leftarrow> tap_move_ndx start;
     j \<leftarrow> tap_move_ndx dest;
     Some (uint (bit_count (table_at (tms_seqs g) ! i ! j)))
   }"

definition tap_is_state_stable :: "tap_state \<Rightarrow> bool" where
  "tap_is_state_stable astate =
     (case astate of
        TAP_RESET \<Rightarrow> True
      | TAP_IDLE \<Rightarrow> True
      | TAP_DRSHIFT \<Rightarrow> True
      | TAP_DRPAUSE \<Rightarrow> True
      | TAP_IRSHIFT \<Rightarrow> True
      | TAP_IRPAUSE \<Rightarrow> True
      | _ \<Rightarrow> False)"


section \<open>Names\<close>

definition tap_name_mapping :: "(tap_state \<times> string) list" where
  "tap_name_mapping = [
     (TAP_RESET, ''RESET''),
     (TAP_IDLE, ''RUN/IDLE''),
     (TAP_DRSELECT, ''DRSELECT''),
     (TAP_DRCAPTURE, ''DRCAPTURE''),
     (TAP_DRSHIFT, ''DRSHIFT''),
     (TAP_DREXIT1, ''DREXIT1''),
     (TAP_DRPAUSE, ''DRPAUSE''),
     (TAP_DREXIT2, ''DREXIT2''),
     (TAP_DRUPDATE, ''DRUPDATE''),
     (TAP_IRSELECT, ''IRSELECT''),
     (TAP_IRCAPTURE, ''IRCAPTURE''),
     (TAP_IRSHIFT, ''IRSHIFT''),
     (TAP_IREXIT1, ''IREXIT1''),
     (TAP_IRPAUSE, ''IRPAUSE''),
     (TAP_IREXIT2, ''IREXIT2''),
     (TAP_IRUPDATE, ''IRUPDATE''),
     (TAP_IDLE, ''IDLE'')]"

text \<open>\<open>strcasecmp(a, b) == 0\<close> in the C locale.\<close>

definition lower :: "char \<Rightarrow> nat" where
  "lower c = (let n = of_char c in if 65 \<le> n \<and> n \<le> 90 then n + 32 else n)"

definition strcaseeq :: "string \<Rightarrow> string \<Rightarrow> bool" where
  "strcaseeq a b \<longleftrightarrow> map lower a = map lower b"

fun name_of_state :: "(tap_state \<times> string) list \<Rightarrow> tap_state \<Rightarrow> string" where
  "name_of_state [] state = ''???''"
| "name_of_state ((symbol, name) # ms) state = (if symbol = state then name else name_of_state ms state)"

definition tap_state_name :: "tap_state \<Rightarrow> string" where
  "tap_state_name state = name_of_state tap_name_mapping state"

fun state_of_name :: "(tap_state \<times> string) list \<Rightarrow> string \<Rightarrow> tap_state" where
  "state_of_name [] name = TAP_INVALID"
| "state_of_name ((symbol, n) # ms) name = (if strcaseeq name n then symbol else state_of_name ms name)"

definition tap_state_by_name :: "string \<Rightarrow> tap_state" where
  "tap_state_by_name name = state_of_name tap_name_mapping name"

lemma strcaseeq_cong: "strcaseeq a b \<Longrightarrow> strcaseeq a c = strcaseeq b c"
  by (simp add: strcaseeq_def)

lemma state_of_name_cong: "strcaseeq a b \<Longrightarrow> state_of_name ms a = state_of_name ms b"
  by (induction ms) (auto simp: strcaseeq_cong)

lemma name_round_trip: "tap_state_by_name (tap_state_name s) = s"
  by (cases s)
    (simp_all add: tap_state_by_name_def tap_state_name_def tap_name_mapping_def strcaseeq_def lower_def)

lemma name_round_trip_case:
  "strcaseeq n (tap_state_name s) \<Longrightarrow> tap_state_by_name n = s"
  using state_of_name_cong [of n "tap_state_name s" tap_name_mapping] name_round_trip [of s]
  by (simp add: tap_state_by_name_def)

section \<open>The tables drive the state machine\<close>

text \<open>The bits that a driver clocks out for a move, first bit first.\<close>

definition tms_path :: "jtag_globals \<Rightarrow> tap_state \<Rightarrow> tap_state \<Rightarrow> bool list option" where
  "tms_path g start dest = do {
     b \<leftarrow> tap_get_tms_path g start dest;
     n \<leftarrow> tap_get_tms_path_len g start dest;
     Some (map (bit b) [0..<nat n])
   }"

text \<open>The sequences as lists of TMS values, computed once.\<close>

definition seq_path :: "tms_sequences \<Rightarrow> bool list" where
  "seq_path q = map (bit (bits q)) [0..<unat (bit_count q)]"

definition path_table :: "tms_table \<Rightarrow> bool list list list" where
  "path_table t = map (map seq_path) (table_at t)"

lemma path_table_short: fixes T F defines "T \<equiv> True" and "F \<equiv> False" shows
  "path_table Short_Tms_Seqs = [
     [[T, T, T, T, T, T, T], [F, F, F, F, F, F, F], [T, T, T, F, T, F, F], [F, T, F, T, F, F, F],
      [T, T, F, T, T, F, F], [F, T, T, F, T, F, F]],
     [[T, T, T, T, T, T, T], [F, F, F, F, F, F, F], [T, F, F], [T, F, T, F], [T, T, F, F],
      [T, T, F, T, F]],
     [[T, T, T, T, T, T, T], [T, T, F], [T, T, T, F, F], [T, F], [T, T, T, T, F, F],
      [T, T, T, T, F, T, F]],
     [[T, T, T, T, T, T, T], [T, T, F], [T, F], [F], [T, T, T, T, F, F], [T, T, T, T, F, T, F]],
     [[T, T, T, T, T, T, T], [T, T, F], [T, T, T, F, F], [T, T, T, F, T, F], [T, T, T, T, F, F],
      [T, F]],
     [[T, T, T, T, T, T, T], [T, T, F], [T, T, T, F, F], [T, T, T, F, T, F], [T, F], [F]]]"
  by (simp add: path_table_def seq_path_def short_tms_seqs_def B8_def upt_rec T_def F_def)

lemma path_table_old: fixes T F defines "T \<equiv> True" and "F \<equiv> False" shows
  "path_table Old_Tms_Seqs = [
     [[T, T, T, T, T, T, T], [F, F, F, F, F, F, F], [T, T, T, F, T, F, F], [F, T, F, T, F, F, F],
      [T, T, F, T, T, F, F], [F, T, T, F, T, F, F]],
     [[T, T, T, T, T, T, T], [F, F, F, F, F, F, F], [T, F, T, F, F, T, F], [T, F, T, F, F, F, F],
      [T, T, F, T, F, T, F], [T, T, F, T, F, F, F]],
     [[T, T, T, T, T, T, T], [T, F, F, F, T, T, F], [F, F, F, F, F, F, F], [T, F, F, F, F, F, F],
      [T, T, T, T, F, F, F], [T, T, T, T, F, T, F]],
     [[T, T, T, T, T, T, T], [F, F, F, F, T, T, F], [F, F, F, F, F, T, F], [T, T, T, F, T, F, F],
      [F, T, T, T, T, F, F], [T, T, T, T, F, T, F]],
     [[T, T, T, T, T, T, T], [T, F, F, F, T, T, F], [T, T, T, F, F, F, F], [T, T, T, F, T, F, F],
      [F, F, F, F, F, F, F], [T, F, F, F, F, F, F]],
     [[T, T, T, T, T, T, T], [F, F, F, F, T, T, F], [F, F, T, T, T, F, F], [T, T, T, F, T, F, F],
      [F, T, T, T, T, F, F], [T, T, T, T, F, T, F]]]"
  by (simp add: path_table_def seq_path_def old_tms_seqs_def B8_def upt_rec T_def F_def)

lemma tap_move_ndx_less: "tap_move_ndx s = Some i \<Longrightarrow> i < 6"
  by (cases s) (auto simp: tap_move_ndx_def)

lemma table_size: "length (table_at t) = 6" "\<forall>r \<in> set (table_at t). length r = 6"
  by (cases t; simp add: short_tms_seqs_def old_tms_seqs_def)+

lemma tms_path_table:
  "tms_path g start dest = do {
     i \<leftarrow> tap_move_ndx start;
     j \<leftarrow> tap_move_ndx dest;
     Some (path_table (tms_seqs g) ! i ! j)
   }"
proof (cases "tap_move_ndx start"; cases "tap_move_ndx dest")
  fix i j assume ij: "tap_move_ndx start = Some i" "tap_move_ndx dest = Some j"
  with tap_move_ndx_less have "i < 6" "j < 6" by blast+
  moreover from this have "length (table_at (tms_seqs g) ! i) = 6"
    using table_size [of "tms_seqs g"] nth_mem by metis
  ultimately show ?thesis using ij table_size(1) [of "tms_seqs g"]
    by (auto simp: tms_path_def tap_get_tms_path_def tap_get_tms_path_len_def path_table_def
        seq_path_def bit_uint_iff dest: bit_imp_le_length)
qed (simp_all add: tms_path_def tap_get_tms_path_def)

lemmas path_simps = tms_path_table tap_move_ndx_def path_table_short path_table_old

lemma stable_cases:
  assumes "tap_is_state_stable s"
  obtains "s = TAP_RESET" | "s = TAP_IDLE" | "s = TAP_DRSHIFT" | "s = TAP_DRPAUSE"
    | "s = TAP_IRSHIFT" | "s = TAP_IRPAUSE"
  using assms by (cases s) (simp_all add: tap_is_state_stable_def)

lemma path_undefined:
  "tms_path g start dest = None \<longleftrightarrow> \<not> (tap_is_state_stable start \<and> tap_is_state_stable dest)"
  by (cases start; cases dest)
    (simp_all add: tms_path_def tap_get_tms_path_def tap_get_tms_path_len_def tap_move_ndx_def
      tap_is_state_stable_def)

lemma stable_loops:
  "tap_is_state_stable s \<longleftrightarrow> (\<exists>t. tap_state_transition s t = Some s)"
  by (cases s) (auto simp: tap_is_state_stable_def tap_state_transition_def)

lemma path_drives:
  assumes "tap_is_state_stable start" and "tap_is_state_stable dest"
  shows "\<exists>bs. tms_path g start dest = Some bs \<and> run_tap tap_state_transition start bs = Some dest"
  by (cases "tms_seqs g"; rule stable_cases [OF assms(1)]; rule stable_cases [OF assms(2)])
    (simp_all add: path_simps tap_state_transition_def)

text \<open>The states that a sequence visits, the first one left out.\<close>

fun tap_trace :: "tap \<Rightarrow> bool list \<Rightarrow> tap list" where
  "tap_trace a [] = []"
| "tap_trace a (t # ts) = tap_step a t # tap_trace (tap_step a t) ts"

lemma path_updates:
  assumes "tms_path g start dest = Some bs" and "standard_state start = Some a"
    and "Scan r Update \<in> set (tap_trace a bs)"
  shows "a = Scan r Shift \<or> a = Scan r Pause"
proof -
  have st: "tap_is_state_stable start" "tap_is_state_stable dest"
    using assms(1) path_undefined [of g start dest] by auto
  show ?thesis
    by (insert assms(1,2) [symmetric] assms(3), cases "tms_seqs g";
        rule stable_cases [OF st(1)]; rule stable_cases [OF st(2)])
      (simp_all add: path_simps)
qed

lemma path_resumes:
  assumes "tap_uses_new_tms_table g"
    and "(start, dest) \<in> {(TAP_DRSHIFT, TAP_DRPAUSE), (TAP_DRPAUSE, TAP_DRSHIFT),
           (TAP_IRSHIFT, TAP_IRPAUSE), (TAP_IRPAUSE, TAP_IRSHIFT)}"
    and "tms_path g start dest = Some bs" and "standard_state start = Some (Scan r p)"
  shows "set (tap_trace (Scan r p) bs) \<subseteq> {Scan r Exit1, Scan r Pause, Scan r Exit2, Scan r Shift}"
  using assms by (auto simp: path_simps tap_uses_new_tms_table_def)

text \<open>
  A state is stable in the sense of \<open>tap_is_state_stable\<close> exactly when a constant TMS level
  keeps the state machine in it.
\<close>

lemma stable_iff_loops:
  "tap_is_state_stable s \<longleftrightarrow> (\<exists>t. \<forall>n. run_tap tap_state_transition s (replicate n t) = Some s)"
proof
  assume "tap_is_state_stable s"
  then obtain t where "tap_state_transition s t = Some s" using stable_loops by blast
  then have "run_tap tap_state_transition s (replicate n t) = Some s" for n by (induction n) simp_all
  then show "\<exists>t. \<forall>n. run_tap tap_state_transition s (replicate n t) = Some s" by blast
next
  assume "\<exists>t. \<forall>n. run_tap tap_state_transition s (replicate n t) = Some s"
  then obtain t where "run_tap tap_state_transition s (replicate 1 t) = Some s" by blast
  then show "tap_is_state_stable s" using stable_loops by (cases "tap_state_transition s t") auto
qed

end
