(* ===== verification/Tap_Controller.thy ===== *)
theory Tap_Controller
  imports Shift_Reg Tap_State
begin

text \<open>
  \<^verbatim>\<open>inc/jtag_tap_controller.hpp\<close>: the simulated TAP controller of an Altera device that the
  dummy driver clocks. The model has the class's state, its table of transitions and its
  \<open>step\<close>; the messages to the debug socket are left out. \<open>step\<close> returns the bit that the code
  stores through \<open>tdo\<close> when the pointer is not null.

  The laws say that the table is the state machine of the standard (\<open>device\<close>), that the
  registers keep their widths, and what a scan reads and writes: the identification code, the
  instruction register, the bypass register.
\<close>

section \<open>The class\<close>

datatype TapState =
    TEST_LOGIC_RESET | RUN_TEST_IDLE | SELECT_DR_SCAN | SELECT_IR_SCAN
  | CAPTURE_DR | SHIFT_DR | EXIT1_DR | PAUSE_DR | EXIT2_DR | UPDATE_DR
  | CAPTURE_IR | SHIFT_IR | EXIT1_IR | PAUSE_IR | EXIT2_IR | UPDATE_IR

datatype TapInstr =
    SAMPLE_PRELOAD | EXTEST | BYPASS | USER_CODE | IDCODE | HIGHZ | CLAMP | PULSE_NCONFIG
  | CONFIG_IO | LOCK | UNLOCK | KEY_CLR_VREG | KEY_VERIFY | EXTEST_PULSE | EXTEST_TRAIN
  | UNKNOWN1 | UNKNOWN2

record tap_controller =
  cur_state :: TapState
  cur_instr :: TapInstr
  ir :: "int list"
  dr :: "int list"
  bypassr :: "int list"
  bit_cntr :: u32

definition tap_controller_new :: tap_controller where
  "tap_controller_new =
     \<lparr>cur_state = TEST_LOGIC_RESET, cur_instr = IDCODE, ir = shift_reg_new 10,
      dr = shift_reg_new 32, bypassr = shift_reg_new 1, bit_cntr = 0\<rparr>"

definition instr_from_bits :: "int \<Rightarrow> TapInstr" where
  "instr_from_bits v =
     (if v = 0b0000000101 then SAMPLE_PRELOAD
      else if v = 0b0000001111 then EXTEST
      else if v = 0b1111111111 then BYPASS
      else if v = 0b0000000111 then USER_CODE
      else if v = 0b0000000110 then IDCODE
      else if v = 0b0000001011 then HIGHZ
      else if v = 0b0000001010 then CLAMP
      else if v = 0b0000000001 then PULSE_NCONFIG
      else if v = 0b0000001101 then CONFIG_IO
      else if v = 0b0111110000 then LOCK
      else if v = 0b1100110001 then UNLOCK
      else if v = 0b0000101001 then KEY_CLR_VREG
      else if v = 0b0000010011 then KEY_VERIFY
      else if v = 0b0010001111 then EXTEST_PULSE
      else if v = 0b0001001111 then EXTEST_TRAIN
      else if v = 0b0000000010 then UNKNOWN1
      else if v = 0b0000000100 then UNKNOWN2
      else BYPASS)"

fun instr_to_str :: "TapInstr \<Rightarrow> string" where
  "instr_to_str SAMPLE_PRELOAD = ''SAMPLE_PRELOAD''"
| "instr_to_str EXTEST = ''EXTEST''"
| "instr_to_str BYPASS = ''BYPASS''"
| "instr_to_str USER_CODE = ''USER_CODE''"
| "instr_to_str IDCODE = ''IDCODE''"
| "instr_to_str HIGHZ = ''HIGHZ''"
| "instr_to_str CLAMP = ''CLAMP''"
| "instr_to_str PULSE_NCONFIG = ''PULSE_NCONFIG''"
| "instr_to_str CONFIG_IO = ''CONFIG_IO''"
| "instr_to_str LOCK = ''LOCK''"
| "instr_to_str UNLOCK = ''UNLOCK''"
| "instr_to_str KEY_CLR_VREG = ''KEY_CLR_VREG''"
| "instr_to_str KEY_VERIFY = ''KEY_VERIFY''"
| "instr_to_str EXTEST_PULSE = ''EXTEST_PULSE''"
| "instr_to_str EXTEST_TRAIN = ''EXTEST_TRAIN''"
| "instr_to_str UNKNOWN1 = ''UNKNOWN1''"
| "instr_to_str UNKNOWN2 = ''UNKNOWN2''"

definition jtag_tap_next_state :: "(TapState \<times> TapState list) list" where
  "jtag_tap_next_state = [
     (TEST_LOGIC_RESET, [RUN_TEST_IDLE, TEST_LOGIC_RESET]),
     (RUN_TEST_IDLE, [RUN_TEST_IDLE, SELECT_DR_SCAN]),
     (SELECT_DR_SCAN, [CAPTURE_DR, SELECT_IR_SCAN]),
     (CAPTURE_DR, [SHIFT_DR, EXIT1_DR]),
     (SHIFT_DR, [SHIFT_DR, EXIT1_DR]),
     (EXIT1_DR, [PAUSE_DR, UPDATE_DR]),
     (PAUSE_DR, [PAUSE_DR, EXIT2_DR]),
     (EXIT2_DR, [SHIFT_DR, UPDATE_DR]),
     (UPDATE_DR, [RUN_TEST_IDLE, SELECT_DR_SCAN]),
     (SELECT_IR_SCAN, [CAPTURE_IR, TEST_LOGIC_RESET]),
     (CAPTURE_IR, [SHIFT_IR, EXIT1_IR]),
     (SHIFT_IR, [SHIFT_IR, EXIT1_IR]),
     (EXIT1_IR, [PAUSE_IR, UPDATE_IR]),
     (PAUSE_IR, [PAUSE_IR, EXIT2_IR]),
     (EXIT2_IR, [SHIFT_IR, UPDATE_IR]),
     (UPDATE_IR, [RUN_TEST_IDLE, SELECT_DR_SCAN])]"

fun jtag_to_str :: "TapState \<Rightarrow> string" where
  "jtag_to_str TEST_LOGIC_RESET = ''Test-Logic-Reset''"
| "jtag_to_str RUN_TEST_IDLE = ''Run-Test/Idle''"
| "jtag_to_str SELECT_DR_SCAN = ''Select-DR-Scan''"
| "jtag_to_str SELECT_IR_SCAN = ''Select-IR-Scan''"
| "jtag_to_str CAPTURE_DR = ''Capture-DR''"
| "jtag_to_str SHIFT_DR = ''Shift-DR''"
| "jtag_to_str EXIT1_DR = ''Exit1-DR''"
| "jtag_to_str PAUSE_DR = ''Pause-DR''"
| "jtag_to_str EXIT2_DR = ''Exit2-DR''"
| "jtag_to_str UPDATE_DR = ''Update-DR''"
| "jtag_to_str CAPTURE_IR = ''Capture-IR''"
| "jtag_to_str SHIFT_IR = ''Shift-IR''"
| "jtag_to_str EXIT1_IR = ''Exit1-IR''"
| "jtag_to_str PAUSE_IR = ''Pause-IR''"
| "jtag_to_str EXIT2_IR = ''Exit2-IR''"
| "jtag_to_str UPDATE_IR = ''Update-IR''"

text \<open>\<open>jtag_tap_next_state.at(s)[tms]\<close>: an index outside the array has no continuation.\<close>

definition next_state :: "TapState \<Rightarrow> int \<Rightarrow> TapState option" where
  "next_state s tms = do {
     row \<leftarrow> map_of jtag_tap_next_state s;
     if 0 \<le> tms \<and> tms < 2 then Some (row ! nat tms) else None
   }"

definition step :: "int \<Rightarrow> int \<Rightarrow> tap_controller \<Rightarrow> (int \<times> tap_controller) option" where
  "step tms tdi c = do {
     nxt_state \<leftarrow> next_state (cur_state c) tms;
     let (tdo, c) =
       (case cur_state c of
          TEST_LOGIC_RESET \<Rightarrow> (1, c\<lparr>cur_instr := IDCODE\<rparr>)
        | CAPTURE_DR \<Rightarrow>
            (case cur_instr c of
               IDCODE \<Rightarrow> (1, c\<lparr>dr := shift_load 0x029070DD (dr c)\<rparr>)
             | BYPASS \<Rightarrow> (1, c\<lparr>bypassr := shift_load 1 (bypassr c)\<rparr>)
             | _ \<Rightarrow> (1, c))
        | SHIFT_DR \<Rightarrow>
            (case cur_instr c of
               IDCODE \<Rightarrow> (let (out, a) = shift_in tdi (dr c) in (out, c\<lparr>dr := a\<rparr>))
             | BYPASS \<Rightarrow> (let (out, a) = shift_in tdi (bypassr c) in (out, c\<lparr>bypassr := a\<rparr>))
             | UNKNOWN1 \<Rightarrow> (1, c\<lparr>bit_cntr := bit_cntr c + 1\<rparr>)
             | UNKNOWN2 \<Rightarrow> (1, c)
             | _ \<Rightarrow> (1, c))
        | CAPTURE_IR \<Rightarrow> (1, c\<lparr>ir := shift_load 0b0101010101 (ir c)\<rparr>)
        | SHIFT_IR \<Rightarrow> (let (out, a) = shift_in tdi (ir c) in (out, c\<lparr>ir := a\<rparr>))
        | UPDATE_IR \<Rightarrow> (1, c\<lparr>cur_instr := instr_from_bits (sint (ucast (shift_val (ir c)) :: 32 word))\<rparr>)
        | _ \<Rightarrow> (1, c));
     Some (tdo, c\<lparr>cur_state := nxt_state\<rparr>)
   }"

text \<open>The messages name each state and each instruction by a string of its own.\<close>

lemma jtag_to_str_eq_iff: "jtag_to_str s = jtag_to_str t \<longleftrightarrow> s = t"
  by (cases s; cases t) simp_all

lemma instr_to_str_eq_iff: "instr_to_str i = instr_to_str j \<longleftrightarrow> i = j"
  by (cases i; cases j) simp_all

section \<open>The table is the state machine of the standard\<close>

fun device_state :: "TapState \<Rightarrow> tap option" where
  "device_state TEST_LOGIC_RESET = Some Reset"
| "device_state RUN_TEST_IDLE = Some Idle"
| "device_state SELECT_DR_SCAN = Some (Scan DR Select)"
| "device_state CAPTURE_DR = Some (Scan DR Capture)"
| "device_state SHIFT_DR = Some (Scan DR Shift)"
| "device_state EXIT1_DR = Some (Scan DR Exit1)"
| "device_state PAUSE_DR = Some (Scan DR Pause)"
| "device_state EXIT2_DR = Some (Scan DR Exit2)"
| "device_state UPDATE_DR = Some (Scan DR Update)"
| "device_state SELECT_IR_SCAN = Some (Scan IR Select)"
| "device_state CAPTURE_IR = Some (Scan IR Capture)"
| "device_state SHIFT_IR = Some (Scan IR Shift)"
| "device_state EXIT1_IR = Some (Scan IR Exit1)"
| "device_state PAUSE_IR = Some (Scan IR Pause)"
| "device_state EXIT2_IR = Some (Scan IR Exit2)"
| "device_state UPDATE_IR = Some (Scan IR Update)"

lemma next_state_table [simp]:
  "next_state TEST_LOGIC_RESET (bit_int t) = Some (if t then TEST_LOGIC_RESET else RUN_TEST_IDLE)"
  "next_state RUN_TEST_IDLE (bit_int t) = Some (if t then SELECT_DR_SCAN else RUN_TEST_IDLE)"
  "next_state SELECT_DR_SCAN (bit_int t) = Some (if t then SELECT_IR_SCAN else CAPTURE_DR)"
  "next_state CAPTURE_DR (bit_int t) = Some (if t then EXIT1_DR else SHIFT_DR)"
  "next_state SHIFT_DR (bit_int t) = Some (if t then EXIT1_DR else SHIFT_DR)"
  "next_state EXIT1_DR (bit_int t) = Some (if t then UPDATE_DR else PAUSE_DR)"
  "next_state PAUSE_DR (bit_int t) = Some (if t then EXIT2_DR else PAUSE_DR)"
  "next_state EXIT2_DR (bit_int t) = Some (if t then UPDATE_DR else SHIFT_DR)"
  "next_state UPDATE_DR (bit_int t) = Some (if t then SELECT_DR_SCAN else RUN_TEST_IDLE)"
  "next_state SELECT_IR_SCAN (bit_int t) = Some (if t then TEST_LOGIC_RESET else CAPTURE_IR)"
  "next_state CAPTURE_IR (bit_int t) = Some (if t then EXIT1_IR else SHIFT_IR)"
  "next_state SHIFT_IR (bit_int t) = Some (if t then EXIT1_IR else SHIFT_IR)"
  "next_state EXIT1_IR (bit_int t) = Some (if t then UPDATE_IR else PAUSE_IR)"
  "next_state PAUSE_IR (bit_int t) = Some (if t then EXIT2_IR else PAUSE_IR)"
  "next_state EXIT2_IR (bit_int t) = Some (if t then UPDATE_IR else SHIFT_IR)"
  "next_state UPDATE_IR (bit_int t) = Some (if t then SELECT_DR_SCAN else RUN_TEST_IDLE)"
  by (cases t; simp add: next_state_def jtag_tap_next_state_def)+

interpretation device: tap_machine "\<lambda>s t. next_state s (bit_int t)" device_state TEST_LOGIC_RESET
proof
  fix s a t assume "device_state s = Some a"
  then show "\<exists>s'. next_state s (bit_int t) = Some s' \<and> device_state s' = Some (tap_step a t)"
    by (cases s) auto
next
  fix s s' a assume "device_state s = Some a" "device_state s' = Some a"
  then show "s = s'" by (cases s; cases s') auto
qed simp


section \<open>The invariant\<close>

definition bit_reg :: "nat \<Rightarrow> int list \<Rightarrow> bool" where
  "bit_reg n arr \<longleftrightarrow> (\<exists>bs. holds arr bs \<and> length bs = n)"

definition controller_ok :: "tap_controller \<Rightarrow> bool" where
  "controller_ok c \<longleftrightarrow> bit_reg 10 (ir c) \<and> bit_reg 32 (dr c) \<and> bit_reg 1 (bypassr c)"

lemma bit_reg_new [simp]: "bit_reg n (shift_reg_new n)"
  unfolding bit_reg_def holds_def shift_reg_new_def
  by (intro exI [of _ "replicate n False"]) simp

lemma bit_reg_length [dest]: "bit_reg n arr \<Longrightarrow> length arr = n"
  by (auto simp: bit_reg_def holds_def)

lemma bit_reg_load [simp]: "bit_reg n arr \<Longrightarrow> bit_reg n (shift_load d arr)"
  using shift_load_holds [of d arr] bit_reg_length [of n arr]
  unfolding bit_reg_def by (intro exI [of _ "map (bit d) [0..<length arr]"]) simp

lemma bit_reg_shift:
  assumes "bit_reg n arr" and "0 < n"
  shows "bit_reg n (snd (shift_in (bit_int i) arr))" and "\<exists>b. fst (shift_in (bit_int i) arr) = bit_int b"
proof -
  from assms obtain b bs where bs: "holds arr (b # bs)" "Suc (length bs) = n"
    by (metis bit_reg_def length_0_conv length_Cons neq_Nil_conv not_gr_zero)
  then show "bit_reg n (snd (shift_in (bit_int i) arr))"
    using shift_in_law(2) [OF bs(1), of i] unfolding bit_reg_def by (intro exI [of _ "bs @ [i]"]) simp
  from shift_in_law(1) [OF bs(1)] show "\<exists>b. fst (shift_in (bit_int i) arr) = bit_int b" by blast
qed

lemma controller_new_ok: "controller_ok tap_controller_new"
  by (simp add: controller_ok_def tap_controller_new_def)

text \<open>A clock edge with levels \<open>t\<close> and \<open>i\<close> on TMS and TDI.\<close>

definition edge :: "bool \<Rightarrow> bool \<Rightarrow> tap_controller \<Rightarrow> (int \<times> tap_controller) option" where
  "edge t i c = step (bit_int t) (bit_int i) c"

lemma next_state_some: "\<exists>s'. next_state s (bit_int t) = Some s' \<and>
    device_state s' = map_option (\<lambda>a. tap_step a t) (device_state s)"
  by (cases s) simp_all

lemma edge_law:
  assumes "controller_ok c"
  shows "\<exists>o_bit c'. edge t i c = Some (bit_int o_bit, c') \<and> controller_ok c' \<and>
    next_state (cur_state c) (bit_int t) = Some (cur_state c')"
proof -
  obtain s' where s': "next_state (cur_state c) (bit_int t) = Some s'"
    using next_state_some [of "cur_state c" t] by blast
  from assms have r: "bit_reg 10 (ir c)" "bit_reg 32 (dr c)" "bit_reg 1 (bypassr c)"
    by (simp_all add: controller_ok_def)
  note sh = bit_reg_shift [OF r(1), of i] bit_reg_shift [OF r(2), of i] bit_reg_shift [OF r(3), of i]
  obtain a a' d d' y y' where
    e: "shift_in (bit_int i) (ir c) = (bit_int a, a')" "shift_in (bit_int i) (dr c) = (bit_int d, d')"
    "shift_in (bit_int i) (bypassr c) = (bit_int y, y')"
    using sh by (metis prod.collapse zero_less_numeral zero_less_one)
  then have "bit_reg 10 a'" "bit_reg 32 d'" "bit_reg 1 y'" using sh by simp_all
  moreover have one: "\<exists>b. (1 :: int) = bit_int b" by (rule exI [of _ True]) simp
  ultimately show ?thesis
    using r s' e unfolding edge_def step_def
    by (cases "cur_state c"; cases "cur_instr c") (auto simp: controller_ok_def one)
qed

section \<open>Runs\<close>

fun edges :: "(bool \<times> bool) list \<Rightarrow> tap_controller \<Rightarrow> (int list \<times> tap_controller) option" where
  "edges [] c = Some ([], c)"
| "edges ((t, i) # es) c = do {
     (tdo, c) \<leftarrow> edge t i c;
     (tdos, c) \<leftarrow> edges es c;
     Some (tdo # tdos, c)
   }"

lemma edges_append:
  "edges (es @ fs) c = do {
     (as, c) \<leftarrow> edges es c;
     (bs, c) \<leftarrow> edges fs c;
     Some (as @ bs, c)
   }"
  by (induction es c rule: edges.induct) (auto split: bind_splits prod.splits)

lemma edges_then:
  "edges es c = Some (as, c1) \<Longrightarrow> edges fs c1 = Some (bs, c2) \<Longrightarrow> edges (es @ fs) c = Some (as @ bs, c2)"
  by (simp add: edges_append)

text \<open>A run keeps the invariant, never gets stuck, and follows the state machine.\<close>

lemma edges_law:
  "controller_ok c \<Longrightarrow> \<exists>bs c'. edges es c = Some (map bit_int bs, c') \<and> length bs = length es \<and>
     controller_ok c' \<and>
     run_tap (\<lambda>s t. next_state s (bit_int t)) (cur_state c) (map fst es) = Some (cur_state c')"
proof (induction es arbitrary: c)
  case (Cons e es)
  obtain t i where e: "e = (t, i)" by fastforce
  obtain b c1 where 1: "edge t i c = Some (bit_int b, c1)" "controller_ok c1"
    "next_state (cur_state c) (bit_int t) = Some (cur_state c1)"
    using edge_law [OF Cons.prems] by blast
  from Cons.IH [OF 1(2)] obtain bs c' where "edges es c1 = Some (map bit_int bs, c')"
    "length bs = length es" "controller_ok c'"
    "run_tap (\<lambda>s t. next_state s (bit_int t)) (cur_state c1) (map fst es) = Some (cur_state c')"
    by blast
  with 1 show ?case by (intro exI [of _ "b # bs"] exI [of _ c']) (simp add: e)
qed simp


section \<open>Scans\<close>

text \<open>Shifting stays in the shift state; the register of the instruction moves.\<close>

lemma edges_shift_dr:
  assumes "cur_state c = SHIFT_DR" and "cur_instr c = IDCODE"
  shows "edges (map (Pair False) inp) c =
    Some (fst (shift_all (map bit_int inp) (dr c)), c\<lparr>dr := snd (shift_all (map bit_int inp) (dr c))\<rparr>)"
  using assms
proof (induction inp arbitrary: c)
  case (Cons i inp)
  obtain b a where ba: "shift_in (bit_int i) (dr c) = (b, a)" by fastforce
  have "edge False i c = Some (b, c\<lparr>dr := a\<rparr>)"
    using Cons.prems ba next_state_table(5) [of False] by (simp add: edge_def step_def)
  with Cons.IH [of "c\<lparr>dr := a\<rparr>"] Cons.prems ba show ?case by (simp split: prod.splits)
qed simp

lemma edges_shift_bypass:
  assumes "cur_state c = SHIFT_DR" and "cur_instr c = BYPASS"
  shows "edges (map (Pair False) inp) c =
    Some (fst (shift_all (map bit_int inp) (bypassr c)),
      c\<lparr>bypassr := snd (shift_all (map bit_int inp) (bypassr c))\<rparr>)"
  using assms
proof (induction inp arbitrary: c)
  case (Cons i inp)
  obtain b a where ba: "shift_in (bit_int i) (bypassr c) = (b, a)" by fastforce
  have "edge False i c = Some (b, c\<lparr>bypassr := a\<rparr>)"
    using Cons.prems ba next_state_table(5) [of False] by (simp add: edge_def step_def)
  with Cons.IH [of "c\<lparr>bypassr := a\<rparr>"] Cons.prems ba show ?case by (simp split: prod.splits)
qed simp

lemma edges_shift_ir:
  assumes "cur_state c = SHIFT_IR"
  shows "edges (map (Pair False) inp) c =
    Some (fst (shift_all (map bit_int inp) (ir c)), c\<lparr>ir := snd (shift_all (map bit_int inp) (ir c))\<rparr>)"
  using assms
proof (induction inp arbitrary: c)
  case (Cons i inp)
  obtain b a where ba: "shift_in (bit_int i) (ir c) = (b, a)" by fastforce
  have "edge False i c = Some (b, c\<lparr>ir := a\<rparr>)"
    using Cons.prems ba next_state_table(12) [of False] by (simp add: edge_def step_def)
  with Cons.IH [of "c\<lparr>ir := a\<rparr>"] Cons.prems ba show ?case by (simp split: prod.splits)
qed simp

lemma edges_reset:
  assumes "controller_ok c" and "5 \<le> length tdis"
  shows "\<exists>bs c'. edges (map (Pair True) tdis) c = Some (map bit_int bs, c') \<and> length bs = length tdis \<and>
    controller_ok c' \<and> cur_state c' = TEST_LOGIC_RESET"
proof -
  obtain bs c' where e: "edges (map (Pair True) tdis) c = Some (map bit_int bs, c')"
    "length bs = length tdis" "controller_ok c'"
    "run_tap (\<lambda>s t. next_state s (bit_int t)) (cur_state c) (map fst (map (Pair True) tdis)) =
      Some (cur_state c')"
    using edges_law [OF assms(1), of "map (Pair True) tdis"] by auto
  have "map fst (map (Pair True) tdis) = replicate (length tdis) True"
    by (induction tdis) simp_all
  moreover obtain a where "device_state (cur_state c) = Some a" by (cases "cur_state c") simp_all
  ultimately have "cur_state c' = TEST_LOGIC_RESET"
    using device.run_resets [OF _ assms(2)] e(4) by simp
  with e show ?thesis by blast
qed

text \<open>From the reset state to the shift state of the data register, which then has the code.\<close>

lemma holds_bit_reg: "bit_reg n arr \<Longrightarrow> length arr = n \<Longrightarrow> holds (shift_load d arr) (map (bit d) [0..<n])"
  using shift_load_holds [of d arr] by simp

lemma edges_to_idcode:
  assumes "controller_ok c" and "cur_state c = TEST_LOGIC_RESET"
  shows "\<exists>bs c'. edges [(False, a), (True, b), (False, d), (False, e)] c = Some (bs, c') \<and>
    length bs = 4 \<and> cur_state c' = SHIFT_DR \<and> cur_instr c' = IDCODE \<and>
    dr c' = shift_load 0x029070DD (dr c)"
  using assms next_state_table(1) [of False] next_state_table(2) [of True] next_state_table(3) [of False]
    next_state_table(4) [of False]
  by (simp add: edge_def step_def)

lemma idcode_read:
  assumes ok: "controller_ok c" and n: "length tdis \<ge> 5" and inp: "length inp = 32"
  shows "\<exists>bs c'. edges (map (Pair True) tdis @
      [(False, a), (True, b), (False, d), (False, e)] @ map (Pair False) inp) c = Some (bs, c') \<and>
    drop (length tdis + 4) bs = map (\<lambda>i. bit_int (bit (0x029070DD :: u32) i)) [0..<32]"
proof -
  obtain bs1 c1 where 1: "edges (map (Pair True) tdis) c = Some (map bit_int bs1, c1)"
    "length bs1 = length tdis" "controller_ok c1" "cur_state c1 = TEST_LOGIC_RESET"
    using edges_reset [OF ok n] by blast
  obtain bs2 c2 where 2: "edges [(False, a), (True, b), (False, d), (False, e)] c1 = Some (bs2, c2)"
    "length bs2 = 4" "cur_state c2 = SHIFT_DR" "cur_instr c2 = IDCODE"
    "dr c2 = shift_load 0x029070DD (dr c1)"
    using edges_to_idcode [OF 1(3,4)] by blast
  have dr1: "length (dr c1) = 32" using 1(3) by (auto simp: controller_ok_def)
  have "holds (dr c2) (map (bit (0x029070DD :: u64)) [0..<32])"
    using shift_load_holds [of "0x029070DD" "dr c1"] 2(5) dr1 by simp
  from shift_all_law(1) [OF this, of inp] inp
  have out: "fst (shift_all (map bit_int inp) (dr c2)) = map bit_int (map (bit (0x029070DD :: u64)) [0..<32])"
    by simp
  have "map bit_int (map (bit (0x029070DD :: u64)) [0..<32]) =
      map (\<lambda>i. bit_int (bit (0x029070DD :: u32) i)) [0..<32]"
    by (simp add: upt_rec)
  with out have "edges (map (Pair False) inp) c2 =
      Some (map (\<lambda>i. bit_int (bit (0x029070DD :: u32) i)) [0..<32],
        c2\<lparr>dr := snd (shift_all (map bit_int inp) (dr c2))\<rparr>)"
    using edges_shift_dr [OF 2(3,4), of inp] by (simp only:)
  from edges_then [OF 1(1) edges_then [OF 2(1) this]] show ?thesis
    using 1(2) 2(2) by (intro exI conjI) (assumption, simp)
qed

lemma uint_word_of_less:
  assumes "length l \<le> LENGTH('a)" shows "uint (word_of l :: 'a::len word) < 2 ^ length l"
proof -
  have "take_bit (length l) (word_of l :: 'a word) = word_of l"
    using assms by (intro bit_word_eqI) (auto simp: bit_take_bit_iff bit_word_of)
  then show ?thesis by (metis take_bit_int_less_exp unsigned_take_bit_eq)
qed

lemma sint_ucast_small:
  fixes w :: u64
  assumes "uint w < 2 ^ 31" shows "sint (ucast w :: 32 word) = uint w"
proof -
  have "signed_take_bit 31 (uint w) = uint w"
    by (rule signed_take_bit_int_eq_self) (use assms in \<open>auto intro: order_trans [OF _ uint_ge_0]\<close>)
  then show ?thesis by (simp add: signed_ucast_eq)
qed

text \<open>
  Loading an instruction: a scan of the instruction register from the idle state. The ten bits
  are clocked in first bit first, the last one with TMS high, and the update takes effect on
  the clock that leaves the update state.
\<close>

definition ir_scan :: "bool list \<Rightarrow> bool \<Rightarrow> (bool \<times> bool) list" where
  "ir_scan inp i = [(True, False), (True, False), (False, False), (False, False)] @
     map (Pair False) inp @ [(True, i), (True, False), (False, False)]"

lemma ir_scan_law:
  assumes ok: "controller_ok c" and idle: "cur_state c = RUN_TEST_IDLE" and len: "length inp = 9"
  shows "\<exists>bs c'. edges (ir_scan inp i) c = Some (bs, c') \<and> cur_state c' = RUN_TEST_IDLE \<and>
    cur_instr c' = instr_from_bits (uint (word_of (inp @ [i]) :: u64)) \<and>
    take 10 (drop 4 bs) = map (\<lambda>k. bit_int (bit (0b0101010101 :: u64) k)) [0..<10]"
proof -
  let ?c1 = "c\<lparr>cur_state := SHIFT_IR, ir := shift_load 0b0101010101 (ir c)\<rparr>"
  have 1: "edges [(True, False), (True, False), (False, False), (False, False)] c = Some ([1, 1, 1, 1], ?c1)"
    using idle next_state_table(2,3) [of True] next_state_table(10,11) [of False]
    by (simp add: edge_def step_def)
  have "length (ir c) = 10" using ok by (auto simp: controller_ok_def)
  then have h: "holds (ir ?c1) (map (bit (0b0101010101 :: u64)) [0..<10])"
    using shift_load_holds [of "0b0101010101" "ir c"] by simp
  have inp10: "length (inp @ [i]) = 10" using len by simp
  note all = shift_all_law [OF h, of "inp @ [i]", unfolded inp10]
  have split: "shift_all (xs @ [y]) arr =
      (let (o1, a1) = shift_all xs arr; (o2, a2) = shift_in y a1 in (o1 @ [o2], a2))" for xs y arr
    by (induction xs arbitrary: arr) (simp_all split: prod.splits)
  obtain o1 a1 where 2: "shift_all (map bit_int inp) (ir ?c1) = (o1, a1)" by fastforce
  obtain o2 a2 where 3: "shift_in (bit_int i) a1 = (o2, a2)" by fastforce
  have outs: "o1 @ [o2] = map bit_int (map (bit (0b0101010101 :: u64)) [0..<10])"
    and a2: "holds a2 (inp @ [i])"
    using all split [of "map bit_int inp" "bit_int i" "ir ?c1"] 2 3 inp10 by simp_all
  have val: "shift_val a2 = word_of (inp @ [i])"
    using shift_val_bit [OF a2] inp10 by (intro bit_eqI) (simp add: bit_word_of)
  have 4: "edges [(True, i), (True, False), (False, False)] (?c1\<lparr>ir := a1\<rparr>) =
      Some ([o2, 1, 1], c\<lparr>cur_state := RUN_TEST_IDLE, ir := a2,
        cur_instr := instr_from_bits (sint (ucast (shift_val a2) :: 32 word))\<rparr>)"
    using 3 next_state_table(12,13) [of True] next_state_table(16) [of False]
    by (simp add: edge_def step_def)
  have "sint (ucast (shift_val a2) :: 32 word) = uint (shift_val a2)"
    using uint_word_of_less [of "inp @ [i]", where 'a = 64] val inp10 by (intro sint_ucast_small) simp
  with val have instr: "instr_from_bits (sint (ucast (shift_val a2) :: 32 word)) =
      instr_from_bits (uint (word_of (inp @ [i]) :: u64))" by simp
  have "edges (map (Pair False) inp) ?c1 = Some (o1, ?c1\<lparr>ir := a1\<rparr>)"
    using edges_shift_ir [of ?c1 inp] 2 by simp
  from edges_then [OF 1 edges_then [OF this 4]]
  have run: "edges (ir_scan inp i) c = Some ([1, 1, 1, 1] @ o1 @ [o2, 1, 1],
      c\<lparr>cur_state := RUN_TEST_IDLE, ir := a2,
        cur_instr := instr_from_bits (sint (ucast (shift_val a2) :: 32 word))\<rparr>)"
    unfolding ir_scan_def .
  have "length o1 = 9" using arg_cong [OF outs, of length] by simp
  then have "take 10 (drop 4 ([1, 1, 1, 1] @ o1 @ [o2, 1, 1])) = o1 @ [o2]" by simp
  also have "\<dots> = map (\<lambda>k. bit_int (bit (0b0101010101 :: u64) k)) [0..<10]" using outs by simp
  finally show ?thesis using run instr by simp
qed

text \<open>
  In bypass the device is one flip-flop: what is shifted in comes out one clock later.
\<close>

lemma bypass_delays:
  assumes "controller_ok c" and "cur_state c = SHIFT_DR" and "cur_instr c = BYPASS"
  shows "\<exists>b c'. edges (map (Pair False) inp) c = Some (map bit_int (take (length inp) (b # inp)), c')"
proof -
  obtain b where b: "holds (bypassr c) [b]"
    using assms(1) by (auto simp: controller_ok_def bit_reg_def length_Suc_conv)
  with edges_shift_bypass [OF assms(2,3), of inp] shift_all_law(1) [OF b, of inp] show ?thesis by auto
qed

text \<open>Five or more clocks with TMS high bring both machines to their reset state, from anywhere.\<close>

lemma ones_reset_both:
  assumes "5 \<le> n"
  shows "standard_state s \<noteq> None \<Longrightarrow> run_tap tap_state_transition s (replicate n True) = Some TAP_RESET"
    and "device_state t \<noteq> None \<Longrightarrow>
      run_tap (\<lambda>s b. next_state s (bit_int b)) t (replicate n True) = Some TEST_LOGIC_RESET"
  using follower.run_resets device.run_resets assms by fastforce+

end
