(* ===== verification/Quartus_Driver.thy ===== *)
theory Quartus_Driver
  imports Binary_Buffer Tap_Controller
begin

text \<open>
  \<^verbatim>\<open>src/jtag_hw_dummy.cpp\<close> and \<^verbatim>\<open>inc/q_defs.h\<close>: the hardware driver that Quartus
  loads, with the simulated TAP controller in place of a cable. Quartus queues clock edges with
  \<open>clock_raw\<close> and \<open>clock_multiple\<close>, and \<open>do_flush\<close> clocks them and hands the TDO bits to the
  server. The functions that the driver for the FT232H shares with it (\<open>Otma_Driver\<close>) are
  defined on the record \<open>driver\<close>, which both extend.

  The functions of the server are opaque: a call of one is an entry of the trace \<open>calls\<close>, and
  a call through a null pointer has no continuation. \<open>malloc\<close> is a parameter; the messages to
  the debug socket are left out.
\<close>

section \<open>The interface with Quartus\<close>

text \<open>Function pointers and \<open>void *\<close> values are addresses; 0 is the null pointer.\<close>

record server_ops_t =
  rsvd0 :: nat
  p_op_store_tdo :: nat
  p_op_store_unknown_tdo :: nat
  rsvd1 :: nat
  p_op_tdo_needed :: nat
  p_op_indicate_flush :: nat

datatype server_call =
    Store_Tdo nat nat "u8 list" nat
  | Indicate_Flush nat nat

datatype driver_fn =
    Find_Devs | Find_Descriptions | Init_Dev | Do_Close | Set_Param | Get_Param
  | Direct_Control | Clock_Raw | Clock_Multiple | Do_Flush

record virtual_fns_st =
  st_size :: nat
  dev_description :: string
  st_flags :: nat
  reserved01 :: "nat list"
  p_find_devs :: driver_fn
  p_find_descriptions :: driver_fn
  p_init_dev :: driver_fn
  p_close :: driver_fn
  p_set_param :: driver_fn
  p_get_param :: driver_fn
  p_direct_control :: driver_fn
  p_clock_raw :: driver_fn
  p_clock_multiple :: driver_fn
  reserved03 :: "nat list"
  p_do_flush :: driver_fn
  reserved04 :: "nat list"

record driver =
  server_ops :: server_ops_t
  server_ops_data :: nat
  tdo_data :: ptr
  tms_data :: ptr
  tdi_data :: ptr
  tdo_data_count :: nat
  tdi_data_count :: nat
  calls :: "server_call list"

definition DATA_SIZE_BYTES :: nat where "DATA_SIZE_BYTES = 32 * 1024 * 1024"

text \<open>A packed struct of 64-bit pointers.\<close>

definition sizeof_virtual_fns_st :: nat where
  "sizeof_virtual_fns_st = 4 + 32 + 4 + 2 * 8 + 9 * 8 + 8 + 8 + 5 * 8"

definition fns_table :: "string \<Rightarrow> virtual_fns_st" where
  "fns_table descr =
     \<lparr>st_size = sizeof_virtual_fns_st, dev_description = descr, st_flags = 0x800,
      reserved01 = [0, 0], p_find_devs = Find_Devs, p_find_descriptions = Find_Descriptions,
      p_init_dev = Init_Dev, p_close = Do_Close, p_set_param = Set_Param, p_get_param = Get_Param,
      p_direct_control = Direct_Control, p_clock_raw = Clock_Raw, p_clock_multiple = Clock_Multiple,
      reserved03 = [0], p_do_flush = Do_Flush, reserved04 = [0, 0, 0, 0, 0]\<rparr>"

definition fns :: virtual_fns_st where
  "fns = fns_table ''Dummy JTAG device''"

section \<open>Opening\<close>

definition c_string :: "string \<Rightarrow> u8 list" where
  "c_string s = map of_char s @ [0]"

definition find_devs :: "nat \<Rightarrow> ptr \<Rightarrow> nat \<Rightarrow> mem \<Rightarrow> (int \<times> mem) option" where
  "find_devs dev_index out_desc api_ver m =
     (if api_ver < 4 then Some (0, m)
      else if dev_index \<ge> 1 then Some (0, m)
      else do {
        m \<leftarrow> store_bytes m out_desc (c_string ''bus-instance'');
        Some (1, m)
      })"

definition find_descriptions :: "string \<Rightarrow> bool" where
  "find_descriptions description \<longleftrightarrow> description = ''bus-instance''"

definition init_dev ::
    "string \<Rightarrow> server_ops_t \<Rightarrow> nat \<Rightarrow> 'a driver_scheme \<Rightarrow> int \<times> 'a driver_scheme" where
  "init_dev desc s_server_ops parent d =
     (if parent = 0 then (1, d)
      else if desc \<noteq> ''bus-instance'' then (1, d)
      else (1, d\<lparr>server_ops := s_server_ops, server_ops_data := parent\<rparr>))"

definition do_close :: "'a driver_scheme \<Rightarrow> 'a driver_scheme" where
  "do_close d = d"

definition set_param :: "string \<Rightarrow> nat \<Rightarrow> 'a driver_scheme \<Rightarrow> int \<times> 'a driver_scheme" where
  "set_param arg2 arg3 d = (0, d)"

definition get_param :: "string \<Rightarrow> 'a driver_scheme \<Rightarrow> int \<times> 'a driver_scheme" where
  "get_param arg2 d = (0, d)"

definition direct_control :: "int \<Rightarrow> 'a driver_scheme \<Rightarrow> int \<times> 'a driver_scheme" where
  "direct_control arg2 d = (0, d)"

text \<open>\<open>if (!tdo_data) tdo_data = malloc(DATA_SIZE_BYTES);\<close> and so on.\<close>

definition alloc_buffers ::
    "(nat \<Rightarrow> mem \<Rightarrow> ptr \<times> mem) \<Rightarrow> 'a driver_scheme \<Rightarrow> mem \<Rightarrow> 'a driver_scheme \<times> mem" where
  "alloc_buffers malloc d m =
     (let (d, m) = (if tdo_data d = Null
                    then let (p, m) = malloc DATA_SIZE_BYTES m in (d\<lparr>tdo_data := p\<rparr>, m) else (d, m));
          (d, m) = (if tms_data d = Null
                    then let (p, m) = malloc DATA_SIZE_BYTES m in (d\<lparr>tms_data := p\<rparr>, m) else (d, m));
          (d, m) = (if tdi_data d = Null
                    then let (p, m) = malloc DATA_SIZE_BYTES m in (d\<lparr>tdi_data := p\<rparr>, m) else (d, m))
      in (d, m))"

definition get_supported_hardware ::
    "(nat \<Rightarrow> mem \<Rightarrow> ptr \<times> mem) \<Rightarrow> nat \<Rightarrow> 'a driver_scheme \<Rightarrow> mem \<Rightarrow>
     virtual_fns_st option \<times> 'a driver_scheme \<times> mem" where
  "get_supported_hardware malloc hw_type d m =
     (let (d, m) = alloc_buffers malloc d m
      in (if hw_type \<noteq> 0 then None else Some fns, d, m))"

section \<open>Queueing\<close>

text \<open>\<open>p[n / 8] |= (v << (n % 8))\<close>, the shift on \<open>unsigned\<close> and the store on \<open>uint8_t\<close>.\<close>

definition or_bit :: "mem \<Rightarrow> ptr \<Rightarrow> nat \<Rightarrow> u32 \<Rightarrow> mem option" where
  "or_bit m p n v = do {
     b \<leftarrow> load m p (n div 8);
     store m p (n div 8) (b OR ucast (push_bit (n mod 8) v))
   }"

text \<open>The loop variable is an \<open>unsigned int\<close> and the bound an \<open>unsigned long\<close>.\<close>

partial_function (option) clock_raw_loop ::
    "u32 \<Rightarrow> u32 \<Rightarrow> nat \<Rightarrow> nat \<Rightarrow> 'a driver_scheme \<Rightarrow> mem \<Rightarrow> ('a driver_scheme \<times> mem) option" where
  "clock_raw_loop jtag_tms jtag_tdi len i d m =
     (if i < len then do {
        m \<leftarrow> or_bit m (tdi_data d) (tdi_data_count d) jtag_tdi;
        m \<leftarrow> or_bit m (tms_data d) (tdi_data_count d) jtag_tms;
        clock_raw_loop jtag_tms jtag_tdi len (u32_add i 1)
          (d\<lparr>tdi_data_count := u32_add (tdi_data_count d) 1\<rparr>) m
      } else Some (d, m))"

definition clock_raw ::
    "u32 \<Rightarrow> u32 \<Rightarrow> nat \<Rightarrow> 'a driver_scheme \<Rightarrow> mem \<Rightarrow> ('a driver_scheme \<times> mem) option" where
  "clock_raw jtag_tms jtag_tdi len d m = clock_raw_loop jtag_tms jtag_tdi len 0 d m"

partial_function (option) clock_multiple_loop ::
    "u32 \<Rightarrow> ptr \<Rightarrow> nat \<Rightarrow> nat \<Rightarrow> 'a driver_scheme \<Rightarrow> mem \<Rightarrow> ('a driver_scheme \<times> mem) option" where
  "clock_multiple_loop jtag_tms p_bits len i d m =
     (if i < len then do {
        b \<leftarrow> load m p_bits (i div 8);
        let in_bit = drop_bit (i mod 8) b AND 0x1;
        m \<leftarrow> or_bit m (tdi_data d) (tdi_data_count d) (ucast in_bit);
        m \<leftarrow> or_bit m (tms_data d) (tdi_data_count d) jtag_tms;
        clock_multiple_loop jtag_tms p_bits len (u32_add i 1)
          (d\<lparr>tdi_data_count := u32_add (tdi_data_count d) 1\<rparr>) m
      } else Some (d, m))"

definition clock_multiple ::
    "u32 \<Rightarrow> ptr \<Rightarrow> nat \<Rightarrow> nat \<Rightarrow> 'a driver_scheme \<Rightarrow> mem \<Rightarrow> (int \<times> 'a driver_scheme \<times> mem) option"
where
  "clock_multiple jtag_tms p_bits len field_144_minus_len d m = do {
     (d, m) \<leftarrow> clock_multiple_loop jtag_tms p_bits len 0 d m;
     Some (0, d, m)
   }"

section \<open>Flushing\<close>

record dummy_driver = driver +
  jtag_controller :: tap_controller

fun flush_loop :: "nat \<Rightarrow> dummy_driver \<Rightarrow> mem \<Rightarrow> (dummy_driver \<times> mem) option" where
  "flush_loop 0 d m = Some (d, m)"
| "flush_loop (Suc k) d m =
     (let i = tdi_data_count d - Suc k in do {
        b \<leftarrow> load m (tms_data d) (i div 8);
        let tms = uint (drop_bit (i mod 8) b AND 1);
        b \<leftarrow> load m (tdi_data d) (i div 8);
        let tdi = uint (drop_bit (i mod 8) b AND 1);
        (tdo, c) \<leftarrow> step tms tdi (jtag_controller d);
        m \<leftarrow> or_bit m (tdo_data d) i (of_int tdo);
        flush_loop k (d\<lparr>jtag_controller := c, tdo_data_count := u32_add (tdo_data_count d) 1\<rparr>) m
      })"

text \<open>What follows the clocking: the bits go to the server and the buffers are cleared.\<close>

definition memset :: "mem \<Rightarrow> ptr \<Rightarrow> u8 \<Rightarrow> nat \<Rightarrow> mem option" where
  "memset m p v n = store_bytes m p (replicate n v)"

definition hand_over :: "'a driver_scheme \<Rightarrow> mem \<Rightarrow> ('a driver_scheme \<times> mem) option" where
  "hand_over d m = do {
     tdo \<leftarrow> load_bytes m (tdo_data d) ((tdo_data_count d + 7) div 8);
     d \<leftarrow> (if p_op_store_tdo (server_ops d) = 0 then None
          else Some (d\<lparr>calls := calls d @ [Store_Tdo (p_op_store_tdo (server_ops d))
                 (server_ops_data d) tdo (tdo_data_count d)]\<rparr>));
     let d = d\<lparr>tdi_data_count := 0, tdo_data_count := 0\<rparr>;
     m \<leftarrow> memset m (tdi_data d) 0 DATA_SIZE_BYTES;
     m \<leftarrow> memset m (tms_data d) 0 DATA_SIZE_BYTES;
     m \<leftarrow> memset m (tdo_data d) 0 DATA_SIZE_BYTES;
     d \<leftarrow> (if p_op_indicate_flush (server_ops d) = 0 then None
          else Some (d\<lparr>calls := calls d @ [Indicate_Flush (p_op_indicate_flush (server_ops d))
                 (server_ops_data d)]\<rparr>));
     Some (d, m)
   }"

definition do_flush :: "dummy_driver \<Rightarrow> mem \<Rightarrow> (int \<times> dummy_driver \<times> mem) option" where
  "do_flush d m = do {
     (d, m) \<leftarrow> flush_loop (tdi_data_count d) d m;
     (d, m) \<leftarrow> hand_over d m;
     Some (1, d, m)
   }"

end
