(* ===== verification/Quartus_Laws.thy ===== *)
theory Quartus_Laws
  imports Quartus_Driver
begin

text \<open>
  The laws of the drivers that Quartus loads. \<open>queues d m es\<close> says that the buffers of the
  driver hold the clock edges \<open>es\<close>, pairs of the levels of TMS and TDI, and are clear
  elsewhere: \<open>clock_raw\<close> and \<open>clock_multiple\<close> append edges, a flush clocks them in order and
  leaves the queue empty.
\<close>

section \<open>Buffers that hold a bit string\<close>

definition padded :: "bool list \<Rightarrow> bool list" where
  "padded bs = bs @ replicate (8 * DATA_SIZE_BYTES - length bs) False"

lemma length_padded [simp]:
  "length bs \<le> 8 * DATA_SIZE_BYTES \<Longrightarrow> length (padded bs) = 8 * DATA_SIZE_BYTES"
  by (simp add: padded_def)

lemma bits_of_padded [simp]:
  "length bs \<le> 8 * DATA_SIZE_BYTES \<Longrightarrow> bits_of (bytes_of (padded bs)) = padded bs"
  by (rule bits_of_bytes_of [where n = DATA_SIZE_BYTES]) simp

lemma length_bytes_padded [simp]:
  "length bs \<le> 8 * DATA_SIZE_BYTES \<Longrightarrow> length (bytes_of (padded bs)) = DATA_SIZE_BYTES"
  by (rule length_bytes_of) simp

lemma nth_padded: "i < 8 * DATA_SIZE_BYTES \<Longrightarrow> padded bs ! i \<longleftrightarrow> i < length bs \<and> bs ! i"
  by (auto simp: padded_def nth_append)

lemma padded_snoc:
  assumes "length bs < 8 * DATA_SIZE_BYTES"
  shows "(padded bs)[length bs := v] = padded (bs @ [v])"
proof -
  have "replicate (8 * DATA_SIZE_BYTES - length bs) False =
      False # replicate (8 * DATA_SIZE_BYTES - Suc (length bs)) False"
    using assms by (metis Suc_diff_Suc replicate_Suc)
  then show ?thesis by (simp add: padded_def list_update_append)
qed

lemma bytes_padded_Nil: "bytes_of (padded []) = replicate DATA_SIZE_BYTES 0"
proof (rule bytes_of_eq, rule nth_equalityI)
  fix i assume "i < length (bits_of (replicate DATA_SIZE_BYTES 0))"
  then have "i < 8 * DATA_SIZE_BYTES" by simp
  then show "bits_of (replicate DATA_SIZE_BYTES 0) ! i = padded [] ! i"
    by (simp add: nth_bits_of nth_padded less_mult_imp_div_less)
qed simp

section \<open>One bit\<close>

lemma ucast_push_bit_of_bool:
  assumes "k < 8"
  shows "b OR ucast (push_bit k (of_bool v :: u32)) = put_bit (b :: u8) k (bit b k \<or> v)"
  using assms by (intro bit_word_eqI) (cases v; auto simp: bit_simps bit_put_bit bit_1_iff)

lemma or_bit_known:
  assumes "m b = Some bs" and "i < 8 * length bs"
  shows "or_bit m (Ptr b 0) i (of_bool v) =
    Some (m(b \<mapsto> bytes_of ((bits_of bs)[i := bits_of bs ! i \<or> v])))"
proof -
  have "i div 8 < length bs" using assms(2) by linarith
  with assms show ?thesis
    by (simp add: or_bit_def ucast_push_bit_of_bool bytes_of_update_bit nth_bits_of)
qed

lemma or_bit_padded:
  assumes "m b = Some (bytes_of (padded bs))" and "length bs < 8 * DATA_SIZE_BYTES"
  shows "or_bit m (Ptr b 0) (length bs) (of_bool v) = Some (m(b \<mapsto> bytes_of (padded (bs @ [v]))))"
proof -
  have "\<not> padded bs ! length bs" using assms(2) by (simp add: nth_padded)
  with or_bit_known [of m b "bytes_of (padded bs)" "length bs" v] assms(1) assms(2) show ?thesis
    by (simp add: padded_snoc)
qed

text \<open>A write outside the buffer has no continuation.\<close>

lemma or_bit_outside: "m b = Some bs \<Longrightarrow> 8 * length bs \<le> i \<Longrightarrow> or_bit m (Ptr b 0) i v = None"
  by (auto simp: or_bit_def)

section \<open>The queue\<close>

definition buffers :: "'a driver_scheme \<Rightarrow> mem \<Rightarrow> (bool \<times> bool) list \<Rightarrow> bool list \<Rightarrow> bool" where
  "buffers d m es tdos \<longleftrightarrow> (\<exists>bt bi bo. tms_data d = Ptr bt 0 \<and> tdi_data d = Ptr bi 0 \<and>
     tdo_data d = Ptr bo 0 \<and> distinct [bt, bi, bo] \<and> length es \<le> 8 * DATA_SIZE_BYTES \<and>
     m bt = Some (bytes_of (padded (map fst es))) \<and> m bi = Some (bytes_of (padded (map snd es))) \<and>
     m bo = Some (bytes_of (padded tdos)) \<and>
     tdi_data_count d = length es \<and> tdo_data_count d = length tdos)"

definition queues :: "'a driver_scheme \<Rightarrow> mem \<Rightarrow> (bool \<times> bool) list \<Rightarrow> bool" where
  "queues d m es \<longleftrightarrow> buffers d m es []"

text \<open>The blocks of the driver, and what a step may change.\<close>

definition driver_blocks :: "'a driver_scheme \<Rightarrow> nat set" where
  "driver_blocks d = {b. \<exists>p \<in> {tms_data d, tdi_data d, tdo_data d}. block_of p = Some b}"

definition only_queue :: "'a driver_scheme \<Rightarrow> mem \<Rightarrow> 'a driver_scheme \<Rightarrow> mem \<Rightarrow> bool" where
  "only_queue d m d' m' \<longleftrightarrow> (\<exists>n. d' = d\<lparr>tdi_data_count := n\<rparr>) \<and>
     (\<forall>b. b \<notin> driver_blocks d \<longrightarrow> m' b = m b)"

lemma only_queue_refl: "only_queue d m d m"
  by (auto simp: only_queue_def intro: exI [of _ "tdi_data_count d"])

lemma only_queue_trans:
  "only_queue d m d1 m1 \<Longrightarrow> only_queue d1 m1 d2 m2 \<Longrightarrow> only_queue d m d2 m2"
  by (auto simp: only_queue_def driver_blocks_def)

lemma data_size_bound: "8 * DATA_SIZE_BYTES < 2 ^ 32"
  by (simp add: DATA_SIZE_BYTES_def)

lemma append_edge:
  assumes "queues d m es" and n: "length es < 8 * DATA_SIZE_BYTES"
  shows "\<exists>m1 m2. or_bit m (tdi_data d) (tdi_data_count d) (of_bool i) = Some m1 \<and>
    or_bit m1 (tms_data d) (tdi_data_count d) (of_bool t) = Some m2 \<and>
    queues (d\<lparr>tdi_data_count := u32_add (tdi_data_count d) 1\<rparr>) m2 (es @ [(t, i)]) \<and>
    only_queue d m (d\<lparr>tdi_data_count := u32_add (tdi_data_count d) 1\<rparr>) m2"
proof -
  from assms obtain bt bi bo where q: "tms_data d = Ptr bt 0" "tdi_data d = Ptr bi 0" "tdo_data d = Ptr bo 0"
    "distinct [bt, bi, bo]" "m bt = Some (bytes_of (padded (map fst es)))"
    "m bi = Some (bytes_of (padded (map snd es)))" "m bo = Some (bytes_of (padded []))"
    "tdi_data_count d = length es" "tdo_data_count d = 0"
    by (auto simp: queues_def buffers_def)
  let ?m1 = "m(bi \<mapsto> bytes_of (padded (map snd es @ [i])))"
  have 1: "or_bit m (tdi_data d) (tdi_data_count d) (of_bool i) = Some ?m1"
    using or_bit_padded [of m bi "map snd es" i] q n by simp
  have 2: "or_bit ?m1 (tms_data d) (tdi_data_count d) (of_bool t) =
      Some (?m1(bt \<mapsto> bytes_of (padded (map fst es @ [t]))))"
    using or_bit_padded [of ?m1 bt "map fst es" t] q n by simp
  have "length es + 1 < 2 ^ 32" using n data_size_bound by linarith
  then have c: "u32_add (tdi_data_count d) 1 = length es + 1" unfolding q(8) by (rule u32_add_small)
  show ?thesis
    by (intro exI conjI, rule 1, rule 2)
      (use q n in \<open>auto simp: queues_def buffers_def only_queue_def driver_blocks_def c [unfolded q(8) One_nat_def]\<close>)
qed


text \<open>A loop whose body appends one edge, for every value of the loop variable.\<close>

lemma queue_loop:
  assumes unfold: "\<And>i d m. loop i d m = (if i < len then do {
        (d, m) \<leftarrow> body i d m;
        loop (u32_add i 1) d m
      } else Some (d, m))"
    and body: "\<And>i d m es. P m \<Longrightarrow> i < len \<Longrightarrow> queues d m es \<Longrightarrow> length es < 8 * DATA_SIZE_BYTES \<Longrightarrow>
      driver_blocks d = B \<Longrightarrow>
      \<exists>d' m'. body i d m = Some (d', m') \<and> queues d' m' (es @ [f i]) \<and> only_queue d m d' m'"
    and frame: "\<And>m m'. P m \<Longrightarrow> \<forall>b. b \<notin> B \<longrightarrow> m' b = m b \<Longrightarrow> P m'"
    and "queues d m es" and "length es + (len - i) \<le> 8 * DATA_SIZE_BYTES" and "len < 2 ^ 32"
    and "P m" and "driver_blocks d = B"
  shows "\<exists>d' m'. loop i d m = Some (d', m') \<and> queues d' m' (es @ map f [i..<len]) \<and> only_queue d m d' m'"
  using assms(4-5,7-8)
proof (induction "len - i" arbitrary: i d m es)
  case 0
  then show ?case using unfold [of i d m] only_queue_refl by auto
next
  case (Suc k)
  then have i: "i < len" by simp
  then have "length es < 8 * DATA_SIZE_BYTES" using Suc.prems(2) by simp
  then obtain d1 m1 where 1: "body i d m = Some (d1, m1)" "queues d1 m1 (es @ [f i])"
    "only_queue d m d1 m1"
    using body [OF Suc.prems(3) i Suc.prems(1) _ Suc.prems(4)] by blast
  have inc: "u32_add i 1 = i + 1" using i assms(6) by simp
  have "driver_blocks d1 = B" "P m1"
    using 1(3) Suc.prems(4) frame [OF Suc.prems(3), of m1] by (auto simp: only_queue_def driver_blocks_def)
  moreover have "k = len - (i + 1)" "length (es @ [f i]) + (len - (i + 1)) \<le> 8 * DATA_SIZE_BYTES"
    using Suc.hyps(2) Suc.prems(2) i by simp_all
  ultimately obtain d' m' where 2: "loop (i + 1) d1 m1 = Some (d', m')"
    "queues d' m' ((es @ [f i]) @ map f [i + 1..<len])" "only_queue d1 m1 d' m'"
    using Suc.hyps(1) [OF _ 1(2)] by blast
  have "loop i d m = Some (d', m')" using unfold [of i d m] i 1(1) 2(1) inc by simp
  moreover have "es @ map f [i..<len] = (es @ [f i]) @ map f [i + 1..<len]"
    using i by (simp add: upt_conv_Cons)
  ultimately show ?case using 2(2) only_queue_trans [OF 1(3) 2(3)] by metis
qed

lemma clock_raw_law:
  assumes "queues d m es" and n: "length es + len \<le> 8 * DATA_SIZE_BYTES"
  shows "\<exists>d' m'. clock_raw (of_bool t) (of_bool i) len d m = Some (d', m') \<and>
    queues d' m' (es @ replicate len (t, i)) \<and> only_queue d m d' m'"
proof -
  let ?body = "\<lambda>k d m. do {
        m \<leftarrow> or_bit m (tdi_data d) (tdi_data_count d) (of_bool i);
        m \<leftarrow> or_bit m (tms_data d) (tdi_data_count d) (of_bool t);
        Some (d\<lparr>tdi_data_count := u32_add (tdi_data_count d) 1\<rparr>, m)
      }"
  have "\<exists>d' m'. clock_raw_loop (of_bool t) (of_bool i) len 0 d m = Some (d', m') \<and>
    queues d' m' (es @ map (\<lambda>_. (t, i)) [0..<len]) \<and> only_queue d m d' m'"
  proof (rule queue_loop [where body = ?body and P = "\<lambda>_. True" and B = "driver_blocks d"])
    show "clock_raw_loop (of_bool t) (of_bool i) len k d m = (if k < len then do {
        (d, m) \<leftarrow> ?body k d m;
        clock_raw_loop (of_bool t) (of_bool i) len (u32_add k 1) d m
      } else Some (d, m))" for k d m
      by (subst clock_raw_loop.simps) (simp cong: if_cong)
  next
    fix k and d :: "'a driver_scheme" and m es
    assume "queues d m es" "length es < 8 * DATA_SIZE_BYTES"
    from append_edge [OF this, of i t]
    show "\<exists>d' m'. ?body k d m = Some (d', m') \<and> queues d' m' (es @ [(t, i)]) \<and> only_queue d m d' m'"
      by auto
  qed (use assms data_size_bound in auto)
  then show ?thesis by (simp add: clock_raw_def map_replicate_const)
qed

lemma clock_multiple_law:
  assumes "queues d m es" and n: "length es + len \<le> 8 * DATA_SIZE_BYTES"
    and p: "m pb = Some bs" "len \<le> 8 * (length bs - off)" "off \<le> length bs" "pb \<notin> driver_blocks d"
  shows "\<exists>d' m'. clock_multiple (of_bool t) (Ptr pb off) len x d m = Some (0, d', m') \<and>
    queues d' m' (es @ map (Pair t) (take len (drop (8 * off) (bits_of bs)))) \<and> only_queue d m d' m'"
proof -
  let ?body = "\<lambda>k d m. do {
        b \<leftarrow> load m (Ptr pb off) (k div 8);
        let in_bit = drop_bit (k mod 8) b AND 0x1;
        m \<leftarrow> or_bit m (tdi_data d) (tdi_data_count d) (ucast in_bit);
        m \<leftarrow> or_bit m (tms_data d) (tdi_data_count d) (of_bool t);
        Some (d\<lparr>tdi_data_count := u32_add (tdi_data_count d) 1\<rparr>, m)
      }"
  let ?f = "\<lambda>k. (t, bits_of bs ! (8 * off + k))"
  have "\<exists>d' m'. clock_multiple_loop (of_bool t) (Ptr pb off) len 0 d m = Some (d', m') \<and>
    queues d' m' (es @ map ?f [0..<len]) \<and> only_queue d m d' m'"
  proof (rule queue_loop [where body = ?body and P = "\<lambda>m. m pb = Some bs" and B = "driver_blocks d"])
    show "clock_multiple_loop (of_bool t) (Ptr pb off) len k d m = (if k < len then do {
        (d, m) \<leftarrow> ?body k d m;
        clock_multiple_loop (of_bool t) (Ptr pb off) len (u32_add k 1) d m
      } else Some (d, m))" for k d m
      by (subst clock_multiple_loop.simps) (simp add: Let_def cong: if_cong)
  next
    fix k and d :: "'a driver_scheme" and m es
    assume "m pb = Some bs" and k: "k < len" and q: "queues d m es" "length es < 8 * DATA_SIZE_BYTES"
    moreover have kb: "off + k div 8 < length bs" using p(2,3) k by linarith
    ultimately have "load m (Ptr pb off) (k div 8) = Some (bs ! (off + k div 8))" by simp
    moreover have "ucast (drop_bit (k mod 8) (bs ! (off + k div 8)) AND 0x1) =
        (of_bool (bits_of bs ! (8 * off + k)) :: u32)"
      using kb by (simp add: nth_bits_of and_one_eq bit_iff_odd_drop_bit odd_iff_mod_2_eq_one)
    ultimately show "\<exists>d' m'. ?body k d m = Some (d', m') \<and> queues d' m' (es @ [?f k]) \<and> only_queue d m d' m'"
      using append_edge [OF q, of "bits_of bs ! (8 * off + k)" t] by (auto simp: Let_def)
  qed (use assms data_size_bound in auto)
  moreover have "map ?f [0..<len] = map (Pair t) (take len (drop (8 * off) (bits_of bs)))"
    using p(2,3) by (intro nth_equalityI) auto
  ultimately show ?thesis by (auto simp: clock_multiple_def)
qed


section \<open>Flushing\<close>

lemma uint_bit_of: "uint (drop_bit k b AND 1 :: u8) = bit_int (bit b k)"
  by (simp add: and_one_eq bit_iff_odd_drop_bit odd_iff_mod_2_eq_one)

lemma flush_loop_law:
  assumes "buffers d m es tdos" and "controller_ok (jtag_controller d)" and "length tdos + k = length es"
  shows "\<exists>bs c m'. edges (drop (length tdos) es) (jtag_controller d) = Some (map bit_int bs, c) \<and>
    controller_ok c \<and>
    flush_loop k d m = Some (d\<lparr>jtag_controller := c, tdo_data_count := length es\<rparr>, m') \<and>
    buffers (d\<lparr>jtag_controller := c, tdo_data_count := length es\<rparr>) m' es (tdos @ bs) \<and>
    (\<forall>b. b \<notin> driver_blocks d \<longrightarrow> m' b = m b)"
  using assms
proof (induction k arbitrary: d m tdos)
  case 0
  then have "tdo_data_count d = length es" by (auto simp: buffers_def)
  with 0 show ?case by (intro exI [of _ "[]"]) (simp add: buffers_def)
next
  case (Suc k)
  let ?i = "length tdos"
  from Suc.prems(1) obtain bt bi bo where q: "tms_data d = Ptr bt 0" "tdi_data d = Ptr bi 0"
    "tdo_data d = Ptr bo 0" "distinct [bt, bi, bo]" "length es \<le> 8 * DATA_SIZE_BYTES"
    "m bt = Some (bytes_of (padded (map fst es)))" "m bi = Some (bytes_of (padded (map snd es)))"
    "m bo = Some (bytes_of (padded tdos))" "tdi_data_count d = length es" "tdo_data_count d = length tdos"
    by (auto simp: buffers_def)
  have i: "?i < length es" "tdi_data_count d - Suc k = ?i" "?i < 8 * DATA_SIZE_BYTES"
    using Suc.prems(3) q(5,9) by simp_all
  then have i8: "?i div 8 < DATA_SIZE_BYTES" by linarith
  obtain t u where tu: "es ! ?i = (t, u)" by fastforce
  have rd: "uint (drop_bit (?i mod 8) (bytes_of (padded xs) ! (?i div 8)) AND 1) = bit_int (xs ! ?i)"
    if "length xs = length es" for xs
  proof -
    have "bit (bytes_of (padded xs) ! (?i div 8)) (?i mod 8) = bits_of (bytes_of (padded xs)) ! ?i"
      using that i q(5) by (subst nth_bits_of) simp_all
    also have "\<dots> = xs ! ?i" using that i q(5) by (simp add: nth_padded)
    finally show ?thesis by (simp add: uint_bit_of)
  qed
  obtain b c1 where 1: "edge t u (jtag_controller d) = Some (bit_int b, c1)" "controller_ok c1"
    using edge_law [OF Suc.prems(2)] by blast
  let ?m1 = "m(bo \<mapsto> bytes_of (padded (tdos @ [b])))"
  let ?d1 = "d\<lparr>jtag_controller := c1, tdo_data_count := u32_add (tdo_data_count d) 1\<rparr>"
  have inc: "u32_add (tdo_data_count d) 1 = length (tdos @ [b])"
    using i q(10) data_size_bound by (subst u32_add_small) simp_all
  have step: "flush_loop (Suc k) d m = flush_loop k ?d1 ?m1"
    using q i i8 1(1) rd [of "map fst es"] rd [of "map snd es"] tu or_bit_padded [of m bo tdos b]
    by (simp add: edge_def)
  have bu: "buffers ?d1 ?m1 es (tdos @ [b])"
    unfolding buffers_def inc using q i by (intro exI [of _ bt] exI [of _ bi] exI [of _ bo]) auto
  have jc: "jtag_controller ?d1 = c1" and ln: "length (tdos @ [b]) + k = length es"
    using Suc.prems(3) by simp_all
  obtain bs c m' where 2:
    "edges (drop (length (tdos @ [b])) es) c1 = Some (map bit_int bs, c)" "controller_ok c"
    "flush_loop k ?d1 ?m1 = Some (?d1\<lparr>jtag_controller := c, tdo_data_count := length es\<rparr>, m')"
    "buffers (?d1\<lparr>jtag_controller := c, tdo_data_count := length es\<rparr>) m' es ((tdos @ [b]) @ bs)"
    "\<forall>x. x \<notin> driver_blocks ?d1 \<longrightarrow> m' x = ?m1 x"
    using Suc.IH [OF bu, unfolded jc, OF 1(2) ln] by blast
  have "drop ?i es = (t, u) # drop (length (tdos @ [b])) es"
    using i(1) tu Cons_nth_drop_Suc [of ?i es] by simp
  with 1(1) 2(1) have "edges (drop ?i es) (jtag_controller d) = Some (map bit_int (b # bs), c)" by simp
  moreover have "\<forall>x. x \<notin> driver_blocks d \<longrightarrow> m' x = m x"
    using 2(5) q(3) by (auto simp: driver_blocks_def)
  ultimately show ?case using 2(2,3,4) step by (intro exI [of _ "b # bs"] exI [of _ c] exI [of _ m']) simp
qed

definition server_set :: "'a driver_scheme \<Rightarrow> bool" where
  "server_set d \<longleftrightarrow> p_op_store_tdo (server_ops d) \<noteq> 0 \<and> p_op_indicate_flush (server_ops d) \<noteq> 0"

text \<open>The calls of a flush that answers \<open>tdos\<close>: the bytes that hold the bits, and the signal.\<close>

definition flush_calls :: "'a driver_scheme \<Rightarrow> bool list \<Rightarrow> server_call list" where
  "flush_calls d tdos =
     [Store_Tdo (p_op_store_tdo (server_ops d)) (server_ops_data d)
        (take ((length tdos + 7) div 8) (bytes_of (padded tdos))) (length tdos),
      Indicate_Flush (p_op_indicate_flush (server_ops d)) (server_ops_data d)]"

lemma blit_whole: "length s = length d \<Longrightarrow> blit d 0 s 0 (length s) = s"
  by (rule nth_equalityI) (simp_all add: nth_blit)

lemma memset_clear:
  assumes "m b = Some bs" and "length bs = DATA_SIZE_BYTES"
  shows "memset m (Ptr b 0) 0 DATA_SIZE_BYTES = Some (m(b \<mapsto> bytes_of (padded [])))"
  using assms blit_whole [of "replicate DATA_SIZE_BYTES 0" bs]
  by (simp add: memset_def bytes_padded_Nil)

text \<open>The hand-over, whatever the blocks hold.\<close>

lemma hand_over_known:
  assumes "tms_data d = Ptr bt 0" "tdi_data d = Ptr bi 0" "tdo_data d = Ptr bo 0" "distinct [bt, bi, bo]"
    and "m bt = Some T" "m bi = Some I" "m bo = Some D"
    and "length T = DATA_SIZE_BYTES" "length I = DATA_SIZE_BYTES" "length D = DATA_SIZE_BYTES"
    and "tdo_data_count d \<le> 8 * DATA_SIZE_BYTES" and "server_set d"
  defines "z \<equiv> bytes_of (padded [])"
  shows "hand_over d m = Some (d\<lparr>calls := calls d @
      [Store_Tdo (p_op_store_tdo (server_ops d)) (server_ops_data d)
         (take ((tdo_data_count d + 7) div 8) D) (tdo_data_count d),
       Indicate_Flush (p_op_indicate_flush (server_ops d)) (server_ops_data d)],
      tdi_data_count := 0, tdo_data_count := 0\<rparr>, m(bi \<mapsto> z, bt \<mapsto> z, bo \<mapsto> z))"
proof -
  have "(tdo_data_count d + 7) div 8 \<le> DATA_SIZE_BYTES" using assms(11) by linarith
  then show ?thesis
    using assms(1-12) memset_clear [of m bi I] memset_clear [of "m(bi \<mapsto> z)" bt T]
      memset_clear [of "m(bi \<mapsto> z, bt \<mapsto> z)" bo D]
    by (simp add: hand_over_def server_set_def z_def)
qed

lemma hand_over_law:
  assumes "buffers d m es tdos" and "server_set d" and len: "length tdos \<le> 8 * DATA_SIZE_BYTES"
  shows "\<exists>m'. hand_over d m = Some (d\<lparr>calls := calls d @ flush_calls d tdos,
      tdi_data_count := 0, tdo_data_count := 0\<rparr>, m') \<and>
    queues (d\<lparr>calls := calls d @ flush_calls d tdos, tdi_data_count := 0, tdo_data_count := 0\<rparr>) m' [] \<and>
    (\<forall>b. b \<notin> driver_blocks d \<longrightarrow> m' b = m b)"
proof -
  from assms(1) obtain bt bi bo where q: "tms_data d = Ptr bt 0" "tdi_data d = Ptr bi 0"
    "tdo_data d = Ptr bo 0" "distinct [bt, bi, bo]" "length es \<le> 8 * DATA_SIZE_BYTES"
    "m bt = Some (bytes_of (padded (map fst es)))" "m bi = Some (bytes_of (padded (map snd es)))"
    "m bo = Some (bytes_of (padded tdos))" "tdi_data_count d = length es" "tdo_data_count d = length tdos"
    by (auto simp: buffers_def)
  let ?z = "bytes_of (padded [])"
  let ?m' = "m(bi \<mapsto> ?z, bt \<mapsto> ?z, bo \<mapsto> ?z)"
  have "hand_over d m = Some (d\<lparr>calls := calls d @ flush_calls d tdos,
      tdi_data_count := 0, tdo_data_count := 0\<rparr>, ?m')"
    using hand_over_known [OF q(1-4,6-8) _ _ _ _ assms(2)] q(5,10) len by (simp add: flush_calls_def)
  moreover have "queues (d\<lparr>calls := calls d @ flush_calls d tdos, tdi_data_count := 0,
      tdo_data_count := 0\<rparr>) ?m' []"
    using q by (simp add: queues_def buffers_def)
  moreover have "\<forall>b. b \<notin> driver_blocks d \<longrightarrow> ?m' b = m b"
    using q by (auto simp: driver_blocks_def)
  ultimately show ?thesis by blast
qed

lemma do_flush_law:
  assumes "queues d m es" and "controller_ok (jtag_controller d)" and "server_set d"
  shows "\<exists>tdos c d' m'. edges es (jtag_controller d) = Some (map bit_int tdos, c) \<and>
    do_flush d m = Some (1, d', m') \<and> controller_ok c \<and> length tdos = length es \<and>
    d' = d\<lparr>jtag_controller := c, calls := calls d @ flush_calls d tdos, tdi_data_count := 0\<rparr> \<and>
    queues d' m' [] \<and> (\<forall>b. b \<notin> driver_blocks d \<longrightarrow> m' b = m b)"
proof -
  have b: "buffers d m es []" and n: "tdi_data_count d = length es" "tdo_data_count d = 0"
    using assms(1) by (auto simp: queues_def buffers_def)
  obtain bs c m1 where 1: "edges es (jtag_controller d) = Some (map bit_int bs, c)" "controller_ok c"
    "flush_loop (length es) d m = Some (d\<lparr>jtag_controller := c, tdo_data_count := length es\<rparr>, m1)"
    "buffers (d\<lparr>jtag_controller := c, tdo_data_count := length es\<rparr>) m1 es bs"
    "\<forall>b. b \<notin> driver_blocks d \<longrightarrow> m1 b = m b"
    using flush_loop_law [OF b assms(2), of "length es"] by auto
  have len: "length bs = length es" "length bs \<le> 8 * DATA_SIZE_BYTES" using 1(4) by (auto simp: buffers_def)
  let ?d1 = "d\<lparr>jtag_controller := c, tdo_data_count := length es\<rparr>"
  obtain m' where 2: "hand_over ?d1 m1 = Some (?d1\<lparr>calls := calls ?d1 @ flush_calls ?d1 bs,
      tdi_data_count := 0, tdo_data_count := 0\<rparr>, m')"
    "queues (?d1\<lparr>calls := calls ?d1 @ flush_calls ?d1 bs, tdi_data_count := 0, tdo_data_count := 0\<rparr>) m' []"
    "\<forall>b. b \<notin> driver_blocks ?d1 \<longrightarrow> m' b = m1 b"
    using hand_over_law [OF 1(4) _ len(2)] assms(3) by (auto simp: server_set_def)
  let ?d2 = "d\<lparr>jtag_controller := c, calls := calls d @ flush_calls d bs, tdi_data_count := 0\<rparr>"
  have d2: "?d1\<lparr>calls := calls ?d1 @ flush_calls ?d1 bs, tdi_data_count := 0, tdo_data_count := 0\<rparr> = ?d2"
    using n(2) by (cases d) (simp add: flush_calls_def)
  have "do_flush d m = Some (1, ?d2, m')"
    unfolding do_flush_def n(1) 1(3) bind.bind_lunit prod.case 2(1) d2 ..
  moreover have "\<forall>b. b \<notin> driver_blocks d \<longrightarrow> m' b = m b"
    using 1(5) 2(3) by (simp add: driver_blocks_def)
  ultimately show ?thesis using 1(1,2) len(1) 2(2) unfolding d2 by blast
qed


section \<open>The buffers before the first flush\<close>

text \<open>
  \<open>malloc\<close> returns a fresh block of the size asked for; what the block holds is not specified.
  With blocks of zeros (the pages of a large allocation) the queue starts empty; with other
  contents the first edges are read back wrong, because the driver only ever sets bits.
\<close>

definition driver_new :: driver where
  "driver_new = \<lparr>server_ops = \<lparr>rsvd0 = 0, p_op_store_tdo = 0, p_op_store_unknown_tdo = 0, rsvd1 = 0,
      p_op_tdo_needed = 0, p_op_indicate_flush = 0\<rparr>, server_ops_data = 0,
     tdo_data = Null, tms_data = Null, tdi_data = Null, tdo_data_count = 0, tdi_data_count = 0,
     calls = []\<rparr>"

lemma alloc_buffers_law:
  assumes "fresh_malloc malloc contents" and "finite (dom m)"
    and d: "tdo_data d = Null" "tms_data d = Null" "tdi_data d = Null"
  shows "\<exists>bo bt bi os ts zs. alloc_buffers malloc d m =
      (d\<lparr>tdo_data := Ptr bo 0, tms_data := Ptr bt 0, tdi_data := Ptr bi 0\<rparr>,
       m(bo \<mapsto> os, bt \<mapsto> ts, bi \<mapsto> zs)) \<and> distinct [bt, bi, bo] \<and>
    m bo = None \<and> m bt = None \<and> m bi = None \<and>
    length os = DATA_SIZE_BYTES \<and> length ts = DATA_SIZE_BYTES \<and> length zs = DATA_SIZE_BYTES \<and>
    contents os \<and> contents ts \<and> contents zs"
proof -
  have ex: "\<exists>b bs. malloc n m = (Ptr b 0, m(b \<mapsto> bs)) \<and> m b = None \<and> length bs = n \<and> contents bs"
    if "finite (dom m)" for n m using assms(1) that by (auto simp: fresh_malloc_def)
  obtain bo os where 1: "malloc DATA_SIZE_BYTES m = (Ptr bo 0, m(bo \<mapsto> os))" "m bo = None"
    "length os = DATA_SIZE_BYTES" "contents os" using ex [OF assms(2)] by blast
  let ?m1 = "m(bo \<mapsto> os)"
  have "finite (dom ?m1)" using assms(2) by simp
  then obtain bt ts where 2: "malloc DATA_SIZE_BYTES ?m1 = (Ptr bt 0, ?m1(bt \<mapsto> ts))" "?m1 bt = None"
    "length ts = DATA_SIZE_BYTES" "contents ts" using ex by blast
  let ?m2 = "?m1(bt \<mapsto> ts)"
  have "finite (dom ?m2)" using assms(2) by simp
  then obtain bi zs where 3: "malloc DATA_SIZE_BYTES ?m2 = (Ptr bi 0, ?m2(bi \<mapsto> zs))" "?m2 bi = None"
    "length zs = DATA_SIZE_BYTES" "contents zs" using ex by blast
  have "bt \<noteq> bo" "m bt = None" using 2(2) by (auto split: if_splits)
  moreover have "bi \<noteq> bo" "bi \<noteq> bt" "m bi = None" using 3(2) by (auto split: if_splits)
  ultimately have "distinct [bt, bi, bo]" "m bt = None" "m bi = None" by auto
  moreover have "alloc_buffers malloc d m =
      (d\<lparr>tdo_data := Ptr bo 0, tms_data := Ptr bt 0, tdi_data := Ptr bi 0\<rparr>, ?m2(bi \<mapsto> zs))"
    unfolding alloc_buffers_def by (simp add: d 1(1) 2(1) 3(1))
  ultimately show ?thesis using 1(2-4) 2(3,4) 3(3,4) by blast
qed

lemma alloc_zero_law:
  assumes "fresh_malloc malloc (\<lambda>bs. set bs \<subseteq> {0})" and "finite (dom m)"
    and "tdo_data d = Null" "tms_data d = Null" "tdi_data d = Null"
    and "tdi_data_count d = 0" "tdo_data_count d = 0"
  shows "\<exists>d' m'. get_supported_hardware malloc 0 d m = (Some fns, d', m') \<and> queues d' m' [] \<and>
    (\<forall>b. b \<in> dom m \<longrightarrow> m' b = m b)"
proof -
  obtain bo bt bi os ts zs where a: "alloc_buffers malloc d m =
      (d\<lparr>tdo_data := Ptr bo 0, tms_data := Ptr bt 0, tdi_data := Ptr bi 0\<rparr>,
       m(bo \<mapsto> os, bt \<mapsto> ts, bi \<mapsto> zs))" "distinct [bt, bi, bo]"
    "m bo = None" "m bt = None" "m bi = None"
    "length os = DATA_SIZE_BYTES" "length ts = DATA_SIZE_BYTES" "length zs = DATA_SIZE_BYTES"
    "set os \<subseteq> {0}" "set ts \<subseteq> {0}" "set zs \<subseteq> {0}"
    using alloc_buffers_law [OF assms(1-5)] by blast
  have z: "xs = bytes_of (padded [])" if "length xs = DATA_SIZE_BYTES" "set xs \<subseteq> {0}" for xs
    using that by (auto simp: bytes_padded_Nil intro: replicate_eqI)
  let ?d = "d\<lparr>tdo_data := Ptr bo 0, tms_data := Ptr bt 0, tdi_data := Ptr bi 0\<rparr>"
  let ?m = "m(bo \<mapsto> os, bt \<mapsto> ts, bi \<mapsto> zs)"
  have "queues ?d ?m []"
    unfolding queues_def buffers_def z [OF a(6,9)] z [OF a(7,10)] z [OF a(8,11)]
    using a(2) assms(6,7) by (intro exI [of _ bt] exI [of _ bi] exI [of _ bo]) simp
  moreover have "\<forall>b. b \<in> dom m \<longrightarrow> ?m b = m b" using a(3-5) by auto
  moreover have "get_supported_hardware malloc 0 d m = (Some fns, ?d, ?m)"
    by (simp add: get_supported_hardware_def a(1))
  ultimately show ?thesis by blast
qed

text \<open>
  With a \<open>malloc\<close> that leaves the first bit of its blocks at \<open>x\<close>, that bit gets into the first edge.
\<close>

lemma uninitialised_buffers:
  assumes "fresh_malloc malloc (\<lambda>bs. bs \<noteq> [] \<longrightarrow> bits_of bs ! 0 = x)" and "finite (dom m)"
    and "tdo_data d = Null" "tms_data d = Null" "tdi_data d = Null" and "tdi_data_count d = 0"
  shows "\<exists>d1 m1 d2 m2 bt bi ts js. get_supported_hardware malloc 0 d m = (Some fns, d1, m1) \<and>
    clock_raw (of_bool tms) (of_bool tdi) 1 d1 m1 = Some (d2, m2) \<and>
    tms_data d2 = Ptr bt 0 \<and> tdi_data d2 = Ptr bi 0 \<and> tdi_data_count d2 = 1 \<and>
    m2 bt = Some ts \<and> m2 bi = Some js \<and> bits_of ts ! 0 = (tms \<or> x) \<and> bits_of js ! 0 = (tdi \<or> x)"
proof -
  obtain bo bt bi os bs zs where a: "alloc_buffers malloc d m =
      (d\<lparr>tdo_data := Ptr bo 0, tms_data := Ptr bt 0, tdi_data := Ptr bi 0\<rparr>,
       m(bo \<mapsto> os, bt \<mapsto> bs, bi \<mapsto> zs))" "distinct [bt, bi, bo]"
    "length bs = DATA_SIZE_BYTES" "length zs = DATA_SIZE_BYTES"
    "bs \<noteq> [] \<longrightarrow> bits_of bs ! 0 = x" "zs \<noteq> [] \<longrightarrow> bits_of zs ! 0 = x"
    using alloc_buffers_law [OF assms(1-5)] by blast
  have "0 < DATA_SIZE_BYTES" by (simp add: DATA_SIZE_BYTES_def)
  then have l: "0 < length bs" "0 < length zs" "bits_of bs ! 0 = x" "bits_of zs ! 0 = x" using a(3-6) by auto
  let ?d = "d\<lparr>tdo_data := Ptr bo 0, tms_data := Ptr bt 0, tdi_data := Ptr bi 0\<rparr>"
  let ?m = "m(bo \<mapsto> os, bt \<mapsto> bs, bi \<mapsto> zs)"
  let ?js = "bytes_of ((bits_of zs)[0 := bits_of zs ! 0 \<or> tdi])" and ?ts = "bytes_of ((bits_of bs)[0 := bits_of bs ! 0 \<or> tms])"
  have "or_bit ?m (Ptr bi 0) 0 (of_bool tdi) = Some (?m(bi \<mapsto> ?js))"
    using or_bit_known [of ?m bi zs 0 tdi] l(2) by simp
  moreover have "or_bit (?m(bi \<mapsto> ?js)) (Ptr bt 0) 0 (of_bool tms) = Some (?m(bi \<mapsto> ?js, bt \<mapsto> ?ts))"
    using or_bit_known [of "?m(bi \<mapsto> ?js)" bt bs 0 tms] l(1) a(2) by simp
  ultimately have "clock_raw (of_bool tms) (of_bool tdi) 1 ?d ?m =
      Some (?d\<lparr>tdi_data_count := 1\<rparr>, ?m(bi \<mapsto> ?js, bt \<mapsto> ?ts))"
    using assms(6) unfolding clock_raw_def
    by (subst clock_raw_loop.simps) (simp add: clock_raw_loop.simps [of _ _ "Suc 0" "Suc 0"])
  moreover have "bits_of ?ts ! 0 = (tms \<or> x)" "bits_of ?js ! 0 = (tdi \<or> x)"
    using l by (auto simp: bits_of_bytes_of [where n = "length bs"] bits_of_bytes_of [where n = "length zs"])
  moreover have "get_supported_hardware malloc 0 d m = (Some fns, ?d, ?m)"
    by (simp add: get_supported_hardware_def a(1))
  moreover have "(?m(bi \<mapsto> ?js, bt \<mapsto> ?ts)) bt = Some ?ts" "(?m(bi \<mapsto> ?js, bt \<mapsto> ?ts)) bi = Some ?js"
    using a(2) by simp_all
  ultimately show ?thesis
    by (intro exI [of _ ?d] exI [of _ ?m] exI [of _ "?d\<lparr>tdi_data_count := 1\<rparr>"] exI [of _ "?m(bi \<mapsto> ?js, bt \<mapsto> ?ts)"]
      exI [of _ bt] exI [of _ bi] exI [of _ ?ts] exI [of _ ?js] conjI) simp_all
qed

end
