(* ===== verification/Otma_Driver.thy ===== *)
theory Otma_Driver
  imports Quartus_Laws Mpsse_Tms Mpsse_Open
begin

text \<open>
  \<^verbatim>\<open>src/jtag_hw_otma.cpp\<close>: the hardware driver for the FT232H. It shares the queueing
  functions with the driver of \<open>Quartus_Driver\<close> and clocks the queued edges with
  \<open>mpsse_clock_tms_cs\<close>, one command per edge, followed by one flush. The memory of the process
  is the memory of the MPSSE state; \<open>ctx_open\<close> says whether the global pointer \<open>ctx\<close> is set.

  The law: on a prompt device a flush sends exactly the queued pairs of TMS and TDI levels, in
  order, reads one bit per edge, and leaves the queue empty.
\<close>

section \<open>The driver\<close>

record 'u otma_driver = driver +
  ctx_open :: bool
  usb :: "'u mpsse"

definition otma_fns :: virtual_fns_st where
  "otma_fns = fns_table ''OTMA FT232H''"

text \<open>\<open>LSB_FIRST | POS_EDGE_IN | NEG_EDGE_OUT\<close>\<close>

definition POS_EDGE_OUT :: u8 where "POS_EDGE_OUT = 0x00"
definition NEG_EDGE_OUT :: u8 where "NEG_EDGE_OUT = 0x01"
definition POS_EDGE_IN :: u8 where "POS_EDGE_IN = 0x00"
definition NEG_EDGE_IN :: u8 where "NEG_EDGE_IN = 0x04"
definition MSB_FIRST :: u8 where "MSB_FIRST = 0x00"
definition LSB_FIRST :: u8 where "LSB_FIRST = 0x08"

definition JTAG_MODE :: u8 where "JTAG_MODE = LSB_FIRST OR POS_EDGE_IN OR NEG_EDGE_OUT"

text \<open>The driver reports a device even when \<open>mpsse_open\<close> fails.\<close>

definition otma_find_devs ::
    "(nat \<Rightarrow> mem \<Rightarrow> ptr \<times> mem) \<Rightarrow> bool \<Rightarrow> 'u libusb \<Rightarrow> 'u usb_setup \<Rightarrow> nat \<Rightarrow> ptr \<Rightarrow> nat \<Rightarrow>
     'u otma_driver \<Rightarrow> (int \<times> 'u otma_driver) option" where
  "otma_find_devs malloc port_numbers L U dev_index out_desc api_ver d =
     (if api_ver < 4 then Some (0, d)
      else if dev_index \<ge> 1 then Some (0, d)
      else do {
        d \<leftarrow> (if \<not> ctx_open d then do {
            (c, m, h, u) \<leftarrow> mpsse_open malloc port_numbers L U
              \<lparr>arg_vid = Some 0x0403, arg_pid = Some 0x6014, arg_product = None, arg_serial = None,
               arg_location = None\<rparr> 0 (memory (usb d)) (queue (usb d)) (device (usb d));
            let s = (usb d)\<lparr>memory := m, queue := h, device := u\<rparr>;
            Some (case c of
                None \<Rightarrow> d\<lparr>usb := s\<rparr>
              | Some c \<Rightarrow> d\<lparr>ctx_open := True, usb := s\<lparr>ctx := c\<rparr>\<rparr>)
          } else Some d);
        m \<leftarrow> store_bytes (memory (usb d)) out_desc (c_string ''bus-instance'');
        Some (1, d\<lparr>usb := (usb d)\<lparr>memory := m\<rparr>\<rparr>)
      })"

definition otma_find_descriptions :: "string \<Rightarrow> bool" where
  "otma_find_descriptions description \<longleftrightarrow> description = ''bus-instance''"

definition otma_init_dev ::
    "string \<Rightarrow> server_ops_t \<Rightarrow> nat \<Rightarrow> 'u otma_driver \<Rightarrow> int \<times> 'u otma_driver" where
  "otma_init_dev desc s_server_ops parent d =
     (if parent = 0 then (1, d)
      else if desc \<noteq> ''bus-instance'' then (1, d)
      else (1, d\<lparr>server_ops := s_server_ops, server_ops_data := parent\<rparr>))"

definition otma_get_supported_hardware ::
    "(nat \<Rightarrow> mem \<Rightarrow> ptr \<times> mem) \<Rightarrow> nat \<Rightarrow> 'u otma_driver \<Rightarrow> virtual_fns_st option \<times> 'u otma_driver" where
  "otma_get_supported_hardware malloc hw_type d =
     (if hw_type \<noteq> 0 then (None, d)
      else
        let (d, m) = alloc_buffers malloc d (memory (usb d))
        in (Some otma_fns, d\<lparr>usb := (usb d)\<lparr>memory := m\<rparr>\<rparr>))"

text \<open>\<open>clock_raw\<close> and \<open>clock_multiple\<close> are the functions of \<open>Quartus_Driver\<close>, word for word.\<close>

definition otma_clock_raw :: "u32 \<Rightarrow> u32 \<Rightarrow> nat \<Rightarrow> 'u otma_driver \<Rightarrow> 'u otma_driver option" where
  "otma_clock_raw jtag_tms jtag_tdi len d = do {
     (d, m) \<leftarrow> clock_raw_loop jtag_tms jtag_tdi len 0 d (memory (usb d));
     Some (d\<lparr>usb := (usb d)\<lparr>memory := m\<rparr>\<rparr>)
   }"

definition otma_clock_multiple ::
    "u32 \<Rightarrow> ptr \<Rightarrow> nat \<Rightarrow> nat \<Rightarrow> 'u otma_driver \<Rightarrow> (int \<times> 'u otma_driver) option" where
  "otma_clock_multiple jtag_tms p_bits len field_144_minus_len d = do {
     (d, m) \<leftarrow> clock_multiple_loop jtag_tms p_bits len 0 d (memory (usb d));
     Some (0, d\<lparr>usb := (usb d)\<lparr>memory := m\<rparr>\<rparr>)
   }"

fun otma_flush_loop :: "'u libusb \<Rightarrow> nat \<Rightarrow> 'u otma_driver \<Rightarrow> 'u otma_driver option" where
  "otma_flush_loop L 0 d = Some d"
| "otma_flush_loop L (Suc k) d =
     (let i = tdi_data_count d - Suc k in do {
        b \<leftarrow> load (memory (usb d)) (tdi_data d) (i div 8);
        let tdi = drop_bit (i mod 8) b AND 1;
        b \<leftarrow> load (memory (usb d)) (tms_data d) (i div 8);
        s \<leftarrow> (if ctx_open d
              then mpsse_clock_tms_cs L (tms_data d) i (tdo_data d) i 1 (tdi \<noteq> 0) JTAG_MODE (usb d)
              else None);
        otma_flush_loop L k (d\<lparr>usb := s, tdo_data_count := u32_add (tdo_data_count d) 1\<rparr>)
      })"

definition otma_do_flush :: "'u libusb \<Rightarrow> 'u otma_driver \<Rightarrow> (int \<times> 'u otma_driver) option" where
  "otma_do_flush L d = do {
     d \<leftarrow> otma_flush_loop L (tdi_data_count d) d;
     (rc, s) \<leftarrow> (if ctx_open d then mpsse_flush L (usb d) else None);
     (d, m) \<leftarrow> hand_over (d\<lparr>usb := s\<rparr>) (memory s);
     Some (1, d\<lparr>usb := s\<lparr>memory := m\<rparr>\<rparr>)
   }"


definition otma_do_close :: "'u otma_driver \<Rightarrow> 'u otma_driver" where
  "otma_do_close d = d"

definition otma_set_param :: "string \<Rightarrow> nat \<Rightarrow> 'u otma_driver \<Rightarrow> int \<times> 'u otma_driver" where
  "otma_set_param arg2 arg3 d = (0, d)"

definition otma_get_param :: "string \<Rightarrow> 'u otma_driver \<Rightarrow> int \<times> 'u otma_driver" where
  "otma_get_param arg2 d = (0, d)"

definition otma_direct_control :: "int \<Rightarrow> 'u otma_driver \<Rightarrow> int \<times> 'u otma_driver" where
  "otma_direct_control arg2 d = (0, d)"

section \<open>The queue of the driver\<close>

definition otma_buffers ::
    "nat set \<Rightarrow> nat \<Rightarrow> 'u otma_driver \<Rightarrow> (bool \<times> bool) list \<Rightarrow> nat \<Rightarrow> bool" where
  "otma_buffers own bo d es n \<longleftrightarrow> (\<exists>bt bi. tms_data d = Ptr bt 0 \<and> tdi_data d = Ptr bi 0 \<and>
     tdo_data d = Ptr bo 0 \<and> distinct [bt, bi, bo] \<and> {bt, bi, bo} \<inter> own = {} \<and>
     length es \<le> 8 * DATA_SIZE_BYTES \<and>
     memory (usb d) bt = Some (bytes_of (padded (map fst es))) \<and>
     memory (usb d) bi = Some (bytes_of (padded (map snd es))) \<and>
     sized (memory (usb d)) bo DATA_SIZE_BYTES \<and>
     tdi_data_count d = length es \<and> tdo_data_count d = n)"

lemma otma_clock_raw_law:
  assumes "queues d (memory (usb d)) es" and "length es + len \<le> 8 * DATA_SIZE_BYTES"
  shows "\<exists>d'. otma_clock_raw (of_bool t) (of_bool i) len d = Some d' \<and>
    queues d' (memory (usb d')) (es @ replicate len (t, i)) \<and> ctx_open d' = ctx_open d \<and>
    device (usb d') = device (usb d) \<and> ctx (usb d') = ctx (usb d)"
proof -
  obtain d' m' where c: "clock_raw_loop (of_bool t) (of_bool i) len 0 d (memory (usb d)) = Some (d', m')"
    "queues d' m' (es @ replicate len (t, i))" "only_queue d (memory (usb d)) d' m'"
    using clock_raw_law [OF assms] unfolding clock_raw_def by blast
  have "queues (d'\<lparr>usb := (usb d')\<lparr>memory := m'\<rparr>\<rparr>) m' (es @ replicate len (t, i))"
    using c(2) by (simp add: queues_def buffers_def)
  with c(1,3) show ?thesis by (auto simp: otma_clock_raw_def only_queue_def)
qed

section \<open>Flushing\<close>

lemma jtag_tms_mode: "tms_op ((JTAG_MODE OR 0x42) OR 0x20)"
  by (simp add: tms_op_def JTAG_MODE_def LSB_FIRST_def POS_EDGE_IN_def NEG_EDGE_OUT_def)

lemma reads_back: "bit ((JTAG_MODE OR 0x42) OR 0x20 :: u8) 5"
  by (simp add: bit_simps)

lemma clock_one_law:
  assumes r: "ready L ob wb rb cb qs s" and T: "memory s bt = Some T" "bt \<noteq> bo" "i < 8 * length T"
    and own: "{bt, bo} \<inter> own_blocks wb rb cb = {}" and dst: "dst_blocks qs \<subseteq> {bo}"
    and D: "memory s bo = Some D" "i < 8 * length D" and i: "i + 1 < 2 ^ 32"
  shows "\<exists>s' qs'. mpsse_clock_tms_cs L (Ptr bt 0) i (Ptr bo 0) i 1 tdi JTAG_MODE s = Some s' \<and>
    clocked tms_stream L ob wb rb cb (Ptr bo 0) i [(bits_of T ! i, tdi)] 1 qs s qs' s'"
proof -
  let ?v = "\<lparr>out_at = i, in_at = i, rest = 1\<rparr>"
  have "out_ok (own_blocks wb rb cb \<union> dst_blocks qs \<union> ptr_blocks (Ptr bo 0)) (memory s) (Ptr bt 0) i 1"
    using T own dst by (auto simp: out_ok_def ptr_blocks_def)
  moreover have "in_ok (own_blocks wb rb cb) (memory s) (Ptr bo 0) i 1"
    using D own by (auto simp: in_ok_def)
  moreover have "wanted (memory s) (Ptr bt 0) (Ptr bo 0) i 1 = [bits_of T ! i]"
    using T(1,3) by (simp add: wanted_def take_Suc_conv_app_nth hd_drop_conv_nth take_Suc)
  ultimately obtain s' qs' where
    "tms_loop L (Ptr bt 0) (Ptr bo 0) tdi ((JTAG_MODE OR 0x42) OR 0x20) ?v s = Some s'"
    "clocked tms_stream L ob wb rb cb (Ptr bo 0) i [(bits_of T ! i, tdi)] 1 qs s qs' s'"
    using tms_loop_law [OF r jtag_tms_mode, of "Ptr bt 0" "Ptr bo 0" ?v tdi] i reads_back by auto
  moreover have "retval (ctx s) = ERROR_OK" using r by (simp add: ready_def)
  ultimately show ?thesis by (auto simp: mpsse_clock_tms_cs_def Let_def)
qed


lemma bit_of_padded:
  assumes "length xs \<le> 8 * DATA_SIZE_BYTES" and "i < length xs"
  shows "bits_of (bytes_of (padded xs)) ! i = xs ! i"
    and "bit (bytes_of (padded xs) ! (i div 8)) (i mod 8) = xs ! i"
proof -
  show 1: "bits_of (bytes_of (padded xs)) ! i = xs ! i" using assms by (simp add: nth_padded)
  have "i < 8 * length (bytes_of (padded xs))" using assms by simp
  from nth_bits_of [OF this] 1 show "bit (bytes_of (padded xs) ! (i div 8)) (i mod 8) = xs ! i" by simp
qed

text \<open>The loop: from edge \<open>n\<close> on, the queued pairs leave on the TMS line.\<close>

lemma otma_flush_loop_law:
  assumes "ready L ob wb rb cb qs (usb d)" and "otma_buffers (own_blocks wb rb cb) bo d es n"
    and "ctx_open d" and "n + k = length es" and "dst_blocks qs \<subseteq> {bo}"
  shows "\<exists>d' qs'. otma_flush_loop L k d = Some d' \<and> ready L ob wb rb cb qs' (usb d') \<and>
    dst_blocks qs' \<subseteq> {bo} \<and> otma_buffers (own_blocks wb rb cb) bo d' es (length es) \<and>
    d' = d\<lparr>usb := usb d', tdo_data_count := length es\<rparr> \<and>
    (\<exists>cs. advance ob wb (usb d) cs (usb d') \<and> tms_stream cs = drop n es \<and> clocks cs = k \<and>
       receives ob wb rb cb (Ptr bo 0) n cs qs (usb d) qs' (usb d'))"
  using assms
proof (induction k arbitrary: d qs n)
  case 0
  then have "tdo_data_count d = length es" by (auto simp: otma_buffers_def)
  with 0 show ?case using advance_refl [of ob wb "usb d"] receives_refl [of ob wb rb cb "Ptr bo 0" n qs "usb d"]
    by (intro exI [of _ d] exI [of _ qs]) (auto intro!: exI [of _ "[]"])
next
  case (Suc k)
  let ?own = "own_blocks wb rb cb"
  from Suc.prems(2) obtain bt bi where q: "tms_data d = Ptr bt 0" "tdi_data d = Ptr bi 0"
    "tdo_data d = Ptr bo 0" "distinct [bt, bi, bo]" "{bt, bi, bo} \<inter> ?own = {}"
    "length es \<le> 8 * DATA_SIZE_BYTES" "memory (usb d) bt = Some (bytes_of (padded (map fst es)))"
    "memory (usb d) bi = Some (bytes_of (padded (map snd es)))"
    "sized (memory (usb d)) bo DATA_SIZE_BYTES" "tdi_data_count d = length es" "tdo_data_count d = n"
    unfolding otma_buffers_def by blast
  obtain D where D: "memory (usb d) bo = Some D" "length D = DATA_SIZE_BYTES"
    using q(9) by (auto simp: sized_def)
  have n: "n < length es" "n < 8 * DATA_SIZE_BYTES" "tdi_data_count d - Suc k = n" "n + 1 < 2 ^ 32"
    using Suc.prems(4) q(6,10) data_size_bound by linarith+
  then have n8: "n div 8 < DATA_SIZE_BYTES" by linarith
  obtain t i where ti: "es ! n = (t, i)" by fastforce
  note bits = bit_of_padded [of "map fst es" n] bit_of_padded [of "map snd es" n]
  obtain s' qs' where c: "mpsse_clock_tms_cs L (Ptr bt 0) n (Ptr bo 0) n 1 i JTAG_MODE (usb d) = Some s'"
    "clocked tms_stream L ob wb rb cb (Ptr bo 0) n [(t, i)] 1 qs (usb d) qs' s'"
    using clock_one_law [OF Suc.prems(1) q(7) _ _ _ Suc.prems(5) D(1) _ n(4), of i] q(4,5,6) n(1,2) D(2)
      bits(1) ti by auto
  from c(2) obtain cs where cs: "advance ob wb (usb d) cs s'" "tms_stream cs = [(t, i)]" "clocks cs = 1"
    and r': "ready L ob wb rb cb qs' s'" and keep: "keeps (?own \<union> dst_blocks qs \<union> ptr_blocks (Ptr bo 0)) (usb d) s'"
    and dst': "dst_blocks qs' \<subseteq> {bo}" and rc: "receives ob wb rb cb (Ptr bo 0) n cs qs (usb d) qs' s'"
    using Suc.prems(5) by (auto simp: clocked_def ptr_blocks_def)
  let ?d = "d\<lparr>usb := s', tdo_data_count := u32_add (tdo_data_count d) 1\<rparr>"
  have inc: "u32_add (tdo_data_count d) 1 = n + 1" using q(11) n(4) by simp
  have "(drop_bit (n mod 8) (bytes_of (padded (map snd es)) ! (n div 8)) AND 1 \<noteq> 0) = i"
    using bits(4) q(6) n(1) ti
    by (simp add: and_one_eq bit_iff_odd_drop_bit odd_iff_mod_2_eq_one)
  then have step: "otma_flush_loop L (Suc k) d = otma_flush_loop L k ?d"
    using q n n8 c(1) Suc.prems(3) by (simp add: Let_def)
  have "memory s' bt = memory (usb d) bt" "memory s' bi = memory (usb d) bi"
    "sized (memory s') bo DATA_SIZE_BYTES"
    using keep q(4,5,9) Suc.prems(5) by (auto simp: keeps_def ptr_blocks_def)
  then have b': "otma_buffers ?own bo ?d es (n + 1)"
    unfolding otma_buffers_def using q inc by (intro exI [of _ bt] exI [of _ bi]) simp
  have r2: "ready L ob wb rb cb qs' (usb ?d)" and "ctx_open ?d" "n + 1 + k = length es"
    using r' Suc.prems(3,4) by simp_all
  from Suc.IH [OF r2 b' this(2,3) dst'] obtain d' qs2 cs2 where IH:
    "otma_flush_loop L k ?d = Some d'" "ready L ob wb rb cb qs2 (usb d')" "dst_blocks qs2 \<subseteq> {bo}"
    "otma_buffers ?own bo d' es (length es)" "d' = ?d\<lparr>usb := usb d', tdo_data_count := length es\<rparr>"
    "advance ob wb s' cs2 (usb d')" "tms_stream cs2 = drop (n + 1) es" "clocks cs2 = k"
    "receives ob wb rb cb (Ptr bo 0) (n + 1) cs2 qs' s' qs2 (usb d')"
    by auto
  have "receives ob wb rb cb (Ptr bo 0) n (cs @ cs2) qs (usb d) qs2 (usb d')"
    using receives_trans [OF rc, of cs2 qs2 "usb d'"] IH(9) cs(3) by simp
  have "d' = d\<lparr>usb := usb d', tdo_data_count := length es\<rparr>" using IH(5) by simp
  moreover have "advance ob wb (usb d) (cs @ cs2) (usb d')" using advance_trans [OF cs(1) IH(6)] .
  moreover have "tms_stream (cs @ cs2) = drop n es" "clocks (cs @ cs2) = Suc k"
    using cs(2,3) IH(7,8) ti n(1) Cons_nth_drop_Suc [of n es] by simp_all
  moreover have "otma_flush_loop L (Suc k) d = Some d'" using IH(1) step by (simp only:)
  moreover note \<open>receives ob wb rb cb (Ptr bo 0) n (cs @ cs2) qs (usb d) qs2 (usb d')\<close>
  ultimately show ?case using IH(2-4) by (intro exI [of _ d'] exI [of _ qs2] conjI exI [of _ "cs @ cs2"])
qed


text \<open>
  A flush of the queue: what the device is sent decodes to commands that put exactly the queued
  levels on TMS and TDI, and the server is given one bit per edge.
\<close>

lemma otma_do_flush_law:
  assumes r: "ready L ob wb rb cb [] (usb d)" and b: "otma_buffers (own_blocks wb rb cb) bo d es 0"
    and ctx_open: "ctx_open d" and srv: "server_set d"
  shows "\<exists>d' bs cs tdo. otma_do_flush L d = Some (1, d') \<and> ready L ob wb rb cb [] (usb d') \<and>
    ctx_open d' \<and> otma_buffers (own_blocks wb rb cb) bo d' [] 0 \<and>
    sent ob (device (usb d')) = sent ob (device (usb d)) @ pending wb (usb d) @ bs \<and>
    decode bs = Some cs \<and> tms_stream cs = es \<and> clocks cs = length es \<and>
    length tdo = (length es + 7) div 8 \<and>
    (read_count (ctx (usb d)) = 0 \<and> read_size (ctx (usb d)) \<le> room (queue (usb d)) \<longrightarrow>
       (\<exists>ys. answered ob (usb d) ys (usb d') \<and> length ys = reply_length cs \<and>
          take (length es) (bits_of tdo) = sampled cs ys)) \<and>
    calls d' = calls d @ [Store_Tdo (p_op_store_tdo (server_ops d)) (server_ops_data d) tdo (length es),
      Indicate_Flush (p_op_indicate_flush (server_ops d)) (server_ops_data d)]"
proof -
  let ?own = "own_blocks wb rb cb"
  have cnt: "tdi_data_count d = length es" using b by (auto simp: otma_buffers_def)
  obtain d1 qs cs where 1: "otma_flush_loop L (length es) d = Some d1" "ready L ob wb rb cb qs (usb d1)"
    "dst_blocks qs \<subseteq> {bo}" "otma_buffers ?own bo d1 es (length es)"
    "d1 = d\<lparr>usb := usb d1, tdo_data_count := length es\<rparr>"
    "advance ob wb (usb d) cs (usb d1)" "tms_stream cs = es" "clocks cs = length es"
    "receives ob wb rb cb (Ptr bo 0) 0 cs [] (usb d) qs (usb d1)"
    using otma_flush_loop_law [OF r b ctx_open, of "length es"] by auto
  have open1: "ctx_open d1" and srv1: "server_set d1"
    using ctx_open srv by (subst 1(5), simp add: server_set_def)+
  have inv: "minv wb rb cb qs (usb d1)" and rv: "retval (ctx (usb d1)) = ERROR_OK"
    and L: "prompt L ob (unat (max_packet_size (ctx (usb d1))))" "2 < read_chunk_size (ctx (usb d1))"
    and idle: "idle ob (device (usb d1))"
    using 1(2) by (simp_all add: ready_def)
  obtain s where s: "mpsse_flush L (usb d1) = Some (ERROR_OK, s)" "flushed ob wb rb cb qs (usb d1) s"
    using flush_prompt [OF L(1) inv rv idle L(2)] by blast
  have keep: "keeps (?own \<union> dst_blocks qs) (usb d1) s" using flushed_keeps [OF inv s(2)] .
  from 1(4) obtain bt bi where q: "tms_data d1 = Ptr bt 0" "tdi_data d1 = Ptr bi 0"
    "tdo_data d1 = Ptr bo 0" "distinct [bt, bi, bo]" "{bt, bi, bo} \<inter> ?own = {}"
    "length es \<le> 8 * DATA_SIZE_BYTES" "memory (usb d1) bt = Some (bytes_of (padded (map fst es)))"
    "memory (usb d1) bi = Some (bytes_of (padded (map snd es)))"
    "sized (memory (usb d1)) bo DATA_SIZE_BYTES" "tdo_data_count d1 = length es"
    unfolding otma_buffers_def by blast
  have m: "memory s bt = Some (bytes_of (padded (map fst es)))"
    "memory s bi = Some (bytes_of (padded (map snd es)))" "sized (memory s) bo DATA_SIZE_BYTES"
  proof -
    have "bt \<notin> ?own \<union> dst_blocks qs" "bi \<notin> ?own \<union> dst_blocks qs" using q(4,5) 1(3) by auto
    with keep q(7-9) show "memory s bt = Some (bytes_of (padded (map fst es)))"
      "memory s bi = Some (bytes_of (padded (map snd es)))" "sized (memory s) bo DATA_SIZE_BYTES"
      by (simp_all add: keeps_def)
  qed
  then obtain D where D: "memory s bo = Some D" "length D = DATA_SIZE_BYTES" by (auto simp: sized_def)
  let ?z = "bytes_of (padded [])" and ?n = "(length es + 7) div 8"
  let ?m = "(memory s)(bi \<mapsto> ?z, bt \<mapsto> ?z, bo \<mapsto> ?z)"
  let ?calls = "[Store_Tdo (p_op_store_tdo (server_ops d)) (server_ops_data d) (take ?n D) (length es),
      Indicate_Flush (p_op_indicate_flush (server_ops d)) (server_ops_data d)]"
  have ops: "server_ops d1 = server_ops d" "server_ops_data d1 = server_ops_data d" "calls d1 = calls d"
    by (subst 1(5), simp)+
  have "server_set (d1\<lparr>usb := s\<rparr>)" using srv1 by (simp add: server_set_def)
  then have ho: "hand_over (d1\<lparr>usb := s\<rparr>) (memory s) =
      Some (d1\<lparr>usb := s, calls := calls d @ ?calls, tdi_data_count := 0, tdo_data_count := 0\<rparr>, ?m)"
    using hand_over_known [of "d1\<lparr>usb := s\<rparr>" bt bi bo "memory s"] q(1-4,6,10) m(1,2) D ops by simp
  let ?d = "d1\<lparr>usb := s\<lparr>memory := ?m\<rparr>, calls := calls d @ ?calls, tdi_data_count := 0, tdo_data_count := 0\<rparr>"
  have "otma_do_flush L d = Some (1, ?d)"
    unfolding otma_do_flush_def cnt 1(1) bind.bind_lunit if_P [OF open1] s(1) prod.case ho by simp
  moreover have "otma_buffers ?own bo ?d [] 0"
    using q(1-5) by (auto simp: otma_buffers_def sized_def)
  moreover have "ready L ob wb rb cb [] (usb ?d)"
  proof -
    have c: "ctx s = emptied (ctx (usb d1))" "minv wb rb cb [] s" "idle ob (device s)"
      using s(2) by (simp_all add: flushed_def)
    have fr: "?m x = memory s x" if "x \<in> ?own" for x using that q(5) by auto
    have "minv wb rb cb [] (s\<lparr>memory := ?m\<rparr>)"
      using c(2) fr [of wb] fr [of rb] fr [of cb] fr [of local_block] by (simp add: minv_def sized_def)
    with c(1,3) rv L show ?thesis by (simp add: ready_def emptied_def)
  qed
  moreover obtain bs where bs: "stream ob wb (usb d1) = stream ob wb (usb d) @ bs" "decode bs = Some cs"
    using 1(6) by (auto simp: advance_def)
  obtain imm where imm: "sent ob (device s) = stream ob wb (usb d1) @ imm" "imm = [] \<or> imm = [0x87]"
    using s(2) by (auto simp: flushed_def stream_def)
  then obtain ics where ics: "decode imm = Some ics" "quiet ics"
    using decode_immediate by (auto simp: decode.simps [of "[]"] quiet_def)
  have tdo: "\<exists>ys. answered ob (usb d) ys (usb ?d) \<and> length ys = reply_length (cs @ ics) \<and>
      take (length es) (bits_of (take ?n D)) = sampled (cs @ ics) ys"
    if start: "read_count (ctx (usb d)) = 0 \<and> read_size (ctx (usb d)) \<le> room (queue (usb d))"
  proof -
    obtain D0 where D0: "memory (usb d) bo = Some D0" "length D0 = DATA_SIZE_BYTES"
      using b by (auto simp: otma_buffers_def sized_def)
    have n8: "8 * 0 + 0 + clocks cs \<le> 8 * length D0" using q(6) D0(2) 1(8) by simp
    have bo: "bo \<notin> ?own" using q(5) by auto
    obtain ys where ys: "answered ob (usb d) ys s" "length ys = reply_length (cs @ ics)"
      "length (sampled (cs @ ics) ys) = length es"
      "D = bytes_of (blit (bits_of D0) 0 (sampled (cs @ ics) ys) 0 (length es))"
      using receives_end [OF 1(9) inv s(2) ics(2) _ _ D0(1) bo n8] start D(1) 1(8) by auto
    have "bits_of D = blit (bits_of D0) 0 (sampled (cs @ ics) ys) 0 (length es)"
      unfolding ys(4) using n8 ys(3) 1(8) by simp
    moreover have "length es \<le> 8 * ?n" by (rule le_ceil8)
    ultimately have "take (length es) (bits_of (take ?n D)) = sampled (cs @ ics) ys"
      using ys(3) by (simp add: blit_def min_def flip: take_bits_of)
    moreover have "answered ob (usb d) ys (usb ?d)" using ys(1) by (simp add: answered_def)
    ultimately show ?thesis using ys(2) by blast
  qed
  have "sent ob (device (usb ?d)) = sent ob (device (usb d)) @ pending wb (usb d) @ (bs @ imm)"
    using imm(1) bs(1) by (simp add: stream_def)
  moreover have "decode (bs @ imm) = Some (cs @ ics)" using bs(2) ics(1) by (simp add: decode_append)
  moreover have "tms_stream (cs @ ics) = es" "clocks (cs @ ics) = length es" using 1(7,8) ics(2) by simp_all
  moreover have "length (take ?n D) = ?n" using D(2) q(6) by simp
  moreover have "ctx_open ?d" "calls ?d = calls d @ ?calls" using open1 by simp_all
  ultimately show ?thesis using tdo by blast
qed

end
