(* ===== verification/Test_Program.thy ===== *)
theory Test_Program
  imports Otma_Driver Ftdi_Laws Mpsse_Open_Laws
begin

text \<open>
  The test program \<^verbatim>\<open>src/test_mpsse.c\<close>. It queues clock edges in its own arrays, with the
  same layout as the hardware drivers, opens an FT232H, clocks the edges through the MPSSE layer,
  flushes, and prints the bytes that came back and the identification code in them. What it prints
  is the result of \<open>test_main\<close>; the three arrays are blocks of the memory of the model.
\<close>

section \<open>The program\<close>

record 'u test_program =
  board :: "'u mpsse"
  arr_tdi :: ptr
  arr_tms :: ptr
  arr_tdo :: ptr
  cur_pos :: nat

definition TEST_BYTES :: nat where "TEST_BYTES = 128"

fun test_clock_loop :: "u32 \<Rightarrow> u32 \<Rightarrow> nat \<Rightarrow> nat \<Rightarrow> 'u test_program \<Rightarrow> mem \<Rightarrow> mem option" where
  "test_clock_loop tms tdi 0 i t m = Some m"
| "test_clock_loop tms tdi (Suc k) i t m = do {
     m \<leftarrow> or_bit m (arr_tdi t) (u32_add (cur_pos t) i) tdi;
     m \<leftarrow> or_bit m (arr_tms t) (u32_add (cur_pos t) i) tms;
     test_clock_loop tms tdi k (i + 1) t m
   }"

definition test_clock_raw :: "u32 \<Rightarrow> u32 \<Rightarrow> int \<Rightarrow> 'u test_program \<Rightarrow> 'u test_program option" where
  "test_clock_raw tms tdi len t = do {
     m \<leftarrow> test_clock_loop tms tdi (nat len) 0 t (memory (board t));
     Some (t\<lparr>board := (board t)\<lparr>memory := m\<rparr>, cur_pos := nat ((int (cur_pos t) + len) mod 2 ^ 32)\<rparr>)
   }"

definition test_clear :: "'u test_program \<Rightarrow> 'u test_program option" where
  "test_clear t = do {
     let t = t\<lparr>cur_pos := 0\<rparr>;
     m \<leftarrow> memset (memory (board t)) (arr_tdi t) 0 TEST_BYTES;
     m \<leftarrow> memset m (arr_tdo t) 0 TEST_BYTES;
     m \<leftarrow> memset m (arr_tms t) 0 TEST_BYTES;
     Some (t\<lparr>board := (board t)\<lparr>memory := m\<rparr>\<rparr>)
   }"

text \<open>The calls of \<open>clock_raw\<close> in \<open>main\<close>: the levels of TMS and TDI and the number of edges.\<close>

definition test_procedure :: "(bool \<times> bool \<times> nat) list" where
  "test_procedure =
     [(True, True, 6), (False, True, 1), (True, True, 1), (False, True, 1), (False, True, 1),
      (False, True, 1), (False, True, 1), (False, True, 1), (False, True, 1), (False, True, 1),
      (False, True, 1), (False, True, 1), (False, True, 1), (False, False, 1), (False, False, 1),
      (False, False, 1), (False, False, 1), (False, False, 1), (False, False, 1), (False, True, 1),
      (False, True, 1), (False, False, 1), (False, False, 1), (False, True, 1), (False, True, 1),
      (False, False, 1), (False, True, 1), (False, True, 1), (False, True, 1), (False, True, 1),
      (False, True, 1), (False, True, 1), (False, True, 1), (False, False, 1), (False, False, 1),
      (False, False, 1), (False, False, 1), (False, True, 96)]"

fun run_procedure :: "(bool \<times> bool \<times> nat) list \<Rightarrow> 'u test_program \<Rightarrow> 'u test_program option" where
  "run_procedure [] t = Some t"
| "run_procedure ((tms, tdi, len) # p) t = do {
     t \<leftarrow> test_clock_raw (of_bool tms) (of_bool tdi) (int len) t;
     run_procedure p t
   }"

text \<open>The loop that loads the edges into the MPSSE layer, from edge \<open>i\<close> on.\<close>

fun test_load_loop :: "'u libusb \<Rightarrow> nat \<Rightarrow> nat \<Rightarrow> 'u test_program \<Rightarrow> 'u test_program option" where
  "test_load_loop L 0 i t = Some t"
| "test_load_loop L (Suc k) i t = do {
     b \<leftarrow> load (memory (board t)) (arr_tdi t) (i div 8);
     let tdi = drop_bit (i mod 8) b AND 1;
     s \<leftarrow> mpsse_clock_tms_cs L (arr_tms t) i (arr_tdo t) i 1 (tdi \<noteq> 0) JTAG_MODE (board t);
     test_load_loop L k (i + 1) (t\<lparr>board := s\<rparr>)
   }"

text \<open>What the program prints after the line with the expected bytes.\<close>

record test_report =
  flush_code :: int
  received :: "u8 list"
  jtag_ident :: u64

definition test_main ::
    "(nat \<Rightarrow> mem \<Rightarrow> ptr \<times> mem) \<Rightarrow> bool \<Rightarrow> 'u libusb \<Rightarrow> 'u usb_setup \<Rightarrow> 'u test_program \<Rightarrow>
     (int \<times> test_report option \<times> 'u test_program) option" where
  "test_main malloc port_numbers L U t = do {
     (c, m, h, u) \<leftarrow> mpsse_open malloc port_numbers L U
       \<lparr>arg_vid = Some 0x0403, arg_pid = Some 0x6014, arg_product = None, arg_serial = None,
        arg_location = None\<rparr> 0 (memory (board t)) (queue (board t)) (device (board t));
     let t = t\<lparr>board := (board t)\<lparr>memory := m, queue := h, device := u\<rparr>\<rparr>;
     case c of
       None \<Rightarrow> Some (1, None, t)
     | Some c \<Rightarrow> do {
         t \<leftarrow> run_procedure test_procedure (t\<lparr>board := (board t)\<lparr>ctx := c\<rparr>\<rparr>);
         t \<leftarrow> test_load_loop L (cur_pos t) 0 t;
         (rc, s) \<leftarrow> mpsse_flush L (board t);
         out \<leftarrow> load_bytes (memory s) (arr_tdo t) ((cur_pos t + 7) div 8);
         b \<leftarrow> load_bytes (memory s) (arr_tdo t) 8;
         let ident = drop_bit 4 (drop_bit 6 (word_of (bits_of b))) AND 0xFFFFFFFF;
         Some (0, Some \<lparr>flush_code = rc, received = out, jtag_ident = ident\<rparr>, t\<lparr>board := s\<rparr>)
       }
   }"

section \<open>The arrays\<close>

definition filled :: "bool list \<Rightarrow> bool list" where
  "filled bs = bs @ replicate (8 * TEST_BYTES - length bs) False"

lemma length_filled [simp]: "length bs \<le> 8 * TEST_BYTES \<Longrightarrow> length (filled bs) = 8 * TEST_BYTES"
  by (simp add: filled_def)

lemma bits_of_filled [simp]: "length bs \<le> 8 * TEST_BYTES \<Longrightarrow> bits_of (bytes_of (filled bs)) = filled bs"
  by (rule bits_of_bytes_of [where n = TEST_BYTES]) simp

lemma length_bytes_filled [simp]: "length bs \<le> 8 * TEST_BYTES \<Longrightarrow> length (bytes_of (filled bs)) = TEST_BYTES"
  by (rule length_bytes_of) simp

lemma nth_filled: "i < length bs \<Longrightarrow> filled bs ! i = bs ! i"
  by (simp add: filled_def nth_append)

lemma bytes_filled_Nil: "bytes_of (filled []) = replicate TEST_BYTES 0"
  by (rule bytes_of_eq) (simp add: filled_def bits_of_zeros)

lemma or_bit_filled:
  assumes "m b = Some (bytes_of (filled bs))" and "length bs < 8 * TEST_BYTES"
  shows "or_bit m (Ptr b 0) (length bs) (of_bool v) = Some (m(b \<mapsto> bytes_of (filled (bs @ [v]))))"
proof -
  have r: "replicate (8 * TEST_BYTES - length bs) False =
      False # replicate (8 * TEST_BYTES - Suc (length bs)) False"
    using assms(2) by (metis Suc_diff_Suc replicate_Suc)
  have "\<not> filled bs ! length bs" by (simp add: filled_def r)
  moreover have "(filled bs)[length bs := v] = filled (bs @ [v])"
    by (simp add: filled_def r list_update_append)
  ultimately show ?thesis
    using or_bit_known [of m b "bytes_of (filled bs)" "length bs" v] assms by simp
qed

lemma test_bytes_bound: "8 * TEST_BYTES < 2 ^ 32"
  by (simp add: TEST_BYTES_def)

text \<open>The edges \<open>es\<close> are queued.\<close>

definition edge_arrays :: "nat \<Rightarrow> nat \<Rightarrow> nat \<Rightarrow> 'u test_program \<Rightarrow> (bool \<times> bool) list \<Rightarrow> bool" where
  "edge_arrays bt bi bo t es \<longleftrightarrow>
     arr_tms t = Ptr bt 0 \<and> arr_tdi t = Ptr bi 0 \<and> arr_tdo t = Ptr bo 0 \<and> distinct [bt, bi, bo] \<and>
     length es \<le> 8 * TEST_BYTES \<and> cur_pos t = length es \<and>
     memory (board t) bt = Some (bytes_of (filled (map fst es))) \<and>
     memory (board t) bi = Some (bytes_of (filled (map snd es))) \<and>
     sized (memory (board t)) bo TEST_BYTES"

text \<open>Only the arrays of the levels change.\<close>

definition queue_only :: "nat \<Rightarrow> nat \<Rightarrow> 'u test_program \<Rightarrow> 'u test_program \<Rightarrow> bool" where
  "queue_only bt bi t t' \<longleftrightarrow> (\<exists>m n. t' = t\<lparr>board := (board t)\<lparr>memory := m\<rparr>, cur_pos := n\<rparr> \<and>
     (\<forall>c. c \<notin> {bt, bi} \<longrightarrow> m c = memory (board t) c))"

lemma queue_only_refl: "queue_only bt bi t t"
  unfolding queue_only_def
  by (intro exI [of _ "memory (board t)"] exI [of _ "cur_pos t"]) simp

lemma queue_only_trans: "queue_only bt bi t t1 \<Longrightarrow> queue_only bt bi t1 t2 \<Longrightarrow> queue_only bt bi t t2"
proof -
  assume "queue_only bt bi t t1"
  then obtain m n where 1: "t1 = t\<lparr>board := (board t)\<lparr>memory := m\<rparr>, cur_pos := n\<rparr>"
    "\<forall>c. c \<notin> {bt, bi} \<longrightarrow> m c = memory (board t) c"
    unfolding queue_only_def by blast
  assume "queue_only bt bi t1 t2"
  then obtain m2 n2 where 2: "t2 = t1\<lparr>board := (board t1)\<lparr>memory := m2\<rparr>, cur_pos := n2\<rparr>"
    "\<forall>c. c \<notin> {bt, bi} \<longrightarrow> m2 c = memory (board t1) c"
    unfolding queue_only_def by blast
  show ?thesis
    unfolding queue_only_def using 1 2 by (intro exI [of _ m2] exI [of _ n2]) simp
qed

lemma test_clock_loop_law:
  assumes "m bt = Some (bytes_of (filled (map fst fs)))" and "m bi = Some (bytes_of (filled (map snd fs)))"
    and "arr_tms t = Ptr bt 0" and "arr_tdi t = Ptr bi 0" and "bt \<noteq> bi"
    and "length fs = cur_pos t + i" and "length fs + k \<le> 8 * TEST_BYTES"
  shows "\<exists>m'. test_clock_loop (of_bool a) (of_bool b) k i t m = Some m' \<and>
    m' bt = Some (bytes_of (filled (map fst (fs @ replicate k (a, b))))) \<and>
    m' bi = Some (bytes_of (filled (map snd (fs @ replicate k (a, b))))) \<and>
    (\<forall>c. c \<notin> {bt, bi} \<longrightarrow> m' c = m c)"
  using assms
proof (induction k arbitrary: m fs i)
  case 0
  then show ?case by simp
next
  case (Suc k)
  have l: "length fs < 8 * TEST_BYTES" using Suc.prems(7) by simp
  then have "cur_pos t + i < 2 ^ 32" using Suc.prems(6) test_bytes_bound by linarith
  then have n: "u32_add (cur_pos t) i = length fs" using Suc.prems(6) by (simp add: u32_add_small)
  let ?m1 = "m(bi \<mapsto> bytes_of (filled (map snd fs @ [b])))"
  let ?m2 = "?m1(bt \<mapsto> bytes_of (filled (map fst fs @ [a])))"
  have 1: "or_bit m (Ptr bi 0) (length fs) (of_bool b) = Some ?m1"
    using or_bit_filled [of m bi "map snd fs" b] Suc.prems(2) l by simp
  have 2: "or_bit ?m1 (Ptr bt 0) (length fs) (of_bool a) = Some ?m2"
    using or_bit_filled [of ?m1 bt "map fst fs" a] Suc.prems(1,5) l by simp
  have m2: "?m2 bt = Some (bytes_of (filled (map fst (fs @ [(a, b)]))))"
    "?m2 bi = Some (bytes_of (filled (map snd (fs @ [(a, b)]))))"
    and i: "length (fs @ [(a, b)]) = cur_pos t + (i + 1)" "length (fs @ [(a, b)]) + k \<le> 8 * TEST_BYTES"
    using Suc.prems(5-7) by simp_all
  obtain m' where m': "test_clock_loop (of_bool a) (of_bool b) k (i + 1) t ?m2 = Some m'"
    "m' bt = Some (bytes_of (filled (map fst ((fs @ [(a, b)]) @ replicate k (a, b)))))"
    "m' bi = Some (bytes_of (filled (map snd ((fs @ [(a, b)]) @ replicate k (a, b)))))"
    "\<forall>c. c \<notin> {bt, bi} \<longrightarrow> m' c = ?m2 c"
    using Suc.IH [OF m2 Suc.prems(3-5) i] by blast
  have "test_clock_loop (of_bool a) (of_bool b) (Suc k) i t m = Some m'"
    by (simp only: test_clock_loop.simps n Suc.prems(3,4) 1 2 bind.bind_lunit m'(1))
  moreover have eq: "(fs @ [(a, b)]) @ replicate k (a, b) = fs @ replicate (Suc k) (a, b)" by simp
  moreover have "m' c = m c" if "c \<notin> {bt, bi}" for c using m'(4) that by auto
  ultimately show ?case using m'(2,3) unfolding eq by blast
qed

lemma test_clock_raw_law:
  assumes "edge_arrays bt bi bo t es" and "length es + n \<le> 8 * TEST_BYTES"
  shows "\<exists>t'. test_clock_raw (of_bool a) (of_bool b) (int n) t = Some t' \<and>
    edge_arrays bt bi bo t' (es @ replicate n (a, b)) \<and> queue_only bt bi t t'"
proof -
  from assms(1) have e: "arr_tms t = Ptr bt 0" "arr_tdi t = Ptr bi 0" "arr_tdo t = Ptr bo 0"
    "distinct [bt, bi, bo]" "cur_pos t = length es" "sized (memory (board t)) bo TEST_BYTES"
    "memory (board t) bt = Some (bytes_of (filled (map fst es)))"
    "memory (board t) bi = Some (bytes_of (filled (map snd es)))"
    by (simp_all add: edge_arrays_def)
  obtain m where m: "test_clock_loop (of_bool a) (of_bool b) n 0 t (memory (board t)) = Some m"
    "m bt = Some (bytes_of (filled (map fst (es @ replicate n (a, b)))))"
    "m bi = Some (bytes_of (filled (map snd (es @ replicate n (a, b)))))"
    "\<forall>c. c \<notin> {bt, bi} \<longrightarrow> m c = memory (board t) c"
    using test_clock_loop_law [of "memory (board t)" bt es bi t 0 n a b] e assms(2) by auto
  have "nat ((int (length es) + int n) mod 2 ^ 32) = length es + n"
    using assms(2) by (simp add: TEST_BYTES_def)
  then have "test_clock_raw (of_bool a) (of_bool b) (int n) t =
      Some (t\<lparr>board := (board t)\<lparr>memory := m\<rparr>, cur_pos := length es + n\<rparr>)"
    using m(1) e(5) by (simp add: test_clock_raw_def)
  moreover have "m bo = memory (board t) bo" using m(4) e(4) by auto
  ultimately show ?thesis
    using m e assms(2) by (auto simp: edge_arrays_def queue_only_def sized_def)
qed

definition procedure_edges :: "(bool \<times> bool \<times> nat) list \<Rightarrow> (bool \<times> bool) list" where
  "procedure_edges p = concat (map (\<lambda>(a, b, n). replicate n (a, b)) p)"

lemma run_procedure_law:
  assumes "edge_arrays bt bi bo t es" and "length es + length (procedure_edges p) \<le> 8 * TEST_BYTES"
  shows "\<exists>t'. run_procedure p t = Some t' \<and> edge_arrays bt bi bo t' (es @ procedure_edges p) \<and>
    queue_only bt bi t t'"
  using assms
proof (induction p arbitrary: t es)
  case Nil
  then show ?case using queue_only_refl by (auto simp: procedure_edges_def)
next
  case (Cons e p)
  obtain a b n where e: "e = (a, b, n)" by (metis prod_cases3)
  have l: "length es + n \<le> 8 * TEST_BYTES" "length (es @ replicate n (a, b)) + length (procedure_edges p) \<le> 8 * TEST_BYTES"
    using Cons.prems(2) by (simp_all add: procedure_edges_def e)
  obtain t1 where t1: "test_clock_raw (of_bool a) (of_bool b) (int n) t = Some t1"
    "edge_arrays bt bi bo t1 (es @ replicate n (a, b))" "queue_only bt bi t t1"
    using test_clock_raw_law [OF Cons.prems(1) l(1)] by blast
  obtain t2 where "run_procedure p t1 = Some t2" "queue_only bt bi t1 t2"
    "edge_arrays bt bi bo t2 ((es @ replicate n (a, b)) @ procedure_edges p)"
    using Cons.IH [OF t1(2) l(2)] by blast
  then show ?case using t1(1) queue_only_trans [OF t1(3)] by (simp add: e procedure_edges_def)
qed

text \<open>After \<open>clear\<close> nothing is queued.\<close>

lemma test_clear_law:
  assumes "edge_arrays bt bi bo t es"
  shows "\<exists>t'. test_clear t = Some t' \<and> edge_arrays bt bi bo t' [] \<and> memory (board t') bo = Some (replicate TEST_BYTES 0)"
proof -
  have clr: "memset m (Ptr b 0) 0 TEST_BYTES = Some (m(b \<mapsto> replicate TEST_BYTES 0))"
    if sz: "sized m b TEST_BYTES" for m b
  proof -
    obtain bs where "m b = Some bs" "length bs = TEST_BYTES" using sz by (auto simp: sized_def)
    then show ?thesis using blit_whole [of "replicate TEST_BYTES 0" bs] by (simp add: memset_def)
  qed
  have s: "sized (memory (board t)) b TEST_BYTES" if b: "b \<in> {bt, bi, bo}" for b
    using assms b by (auto simp: edge_arrays_def sized_def)
  let ?z = "replicate TEST_BYTES (0 :: u8)"
  let ?m1 = "(memory (board t))(bi \<mapsto> ?z)"
  have "sized ?m1 bo TEST_BYTES" "sized (?m1(bo \<mapsto> ?z)) bt TEST_BYTES"
    using s [of bo] s [of bt] by (simp_all add: sized_def)
  then have "test_clear t = Some (t\<lparr>cur_pos := 0, board := (board t)\<lparr>memory := ?m1(bo \<mapsto> ?z, bt \<mapsto> ?z)\<rparr>\<rparr>)"
    using assms clr [OF s, of bi] clr by (simp add: test_clear_def Let_def edge_arrays_def)
  then show ?thesis using assms by (simp add: edge_arrays_def bytes_filled_Nil sized_def)
qed

section \<open>Loading the edges\<close>

lemma test_load_loop_law:
  assumes "ready L ob wb rb cb qs (board t)" and "edge_arrays bt bi bo t es"
    and "{bt, bi, bo} \<inter> own_blocks wb rb cb = {}" and "dst_blocks qs \<subseteq> {bo}" and "i + k = length es"
  shows "\<exists>s qs'. test_load_loop L k i t = Some (t\<lparr>board := s\<rparr>) \<and> ready L ob wb rb cb qs' s \<and>
    (\<exists>cs. advance ob wb (board t) cs s \<and> tms_stream cs = drop i es \<and> clocks cs = k \<and>
       receives ob wb rb cb (Ptr bo 0) i cs qs (board t) qs' s)"
  using assms
proof (induction k arbitrary: t qs i)
  case 0
  then show ?case
    using advance_refl [of ob wb "board t"] receives_refl [of ob wb rb cb "Ptr bo 0" i qs "board t"]
    by (intro exI [of _ "board t"] exI [of _ qs] conjI exI [of _ "[]"]) simp_all
next
  case (Suc k)
  let ?own = "own_blocks wb rb cb"
  from Suc.prems(2) have e: "arr_tms t = Ptr bt 0" "arr_tdi t = Ptr bi 0" "arr_tdo t = Ptr bo 0"
    "distinct [bt, bi, bo]" "length es \<le> 8 * TEST_BYTES" "sized (memory (board t)) bo TEST_BYTES"
    "memory (board t) bt = Some (bytes_of (filled (map fst es)))"
    "memory (board t) bi = Some (bytes_of (filled (map snd es)))"
    by (simp_all add: edge_arrays_def)
  obtain D where D: "memory (board t) bo = Some D" "length D = TEST_BYTES" using e(6) by (auto simp: sized_def)
  have n: "i < length es" "i < 8 * TEST_BYTES" "i + 1 < 2 ^ 32"
    using Suc.prems(5) e(5) test_bytes_bound by linarith+
  have i8: "i div 8 < TEST_BYTES" using n(2) by linarith
  obtain a b where ab: "es ! i = (a, b)" by fastforce
  let ?T = "bytes_of (filled (map fst es))" and ?I = "bytes_of (filled (map snd es))"
  have T: "bits_of ?T ! i = a" and lT: "i < 8 * length ?T"
    using e(5) n(1,2) ab by (simp_all add: nth_filled)
  have "bits_of ?I ! i = b" and lI: "i < 8 * length ?I"
    using e(5) n(1,2) ab by (simp_all add: nth_filled)
  with nth_bits_of [OF lI] have "bit (?I ! (i div 8)) (i mod 8) = b" by simp
  then have tdi: "(drop_bit (i mod 8) (?I ! (i div 8)) AND 1 \<noteq> 0) = b"
    by (simp add: and_one_eq bit_iff_odd_drop_bit odd_iff_mod_2_eq_one)
  have disj: "{bt, bo} \<inter> ?own = {}" and ne: "bt \<noteq> bo" using Suc.prems(3) e(4) by auto
  have lD: "i < 8 * length D" using n(2) D(2) by simp
  obtain s qs' where c: "mpsse_clock_tms_cs L (Ptr bt 0) i (Ptr bo 0) i 1 b JTAG_MODE (board t) = Some s"
    "clocked tms_stream L ob wb rb cb (Ptr bo 0) i [(bits_of ?T ! i, b)] 1 qs (board t) qs' s"
    using clock_one_law [OF Suc.prems(1) e(7) ne lT disj Suc.prems(4) D(1) lD n(3)] by blast
  from c(2) T obtain cs where cs: "advance ob wb (board t) cs s" "tms_stream cs = [(a, b)]" "clocks cs = 1"
    "receives ob wb rb cb (Ptr bo 0) i cs qs (board t) qs' s"
    and r': "ready L ob wb rb cb qs' s"
    and keep: "keeps (?own \<union> dst_blocks qs \<union> ptr_blocks (Ptr bo 0)) (board t) s"
    and dst': "dst_blocks qs' \<subseteq> {bo}"
    using Suc.prems(4) by (auto simp: clocked_def ptr_blocks_def)
  have "memory s bt = memory (board t) bt" "memory s bi = memory (board t) bi"
    "sized (memory s) bo TEST_BYTES"
    using keep e(4,6) Suc.prems(3,4) by (auto simp: keeps_def ptr_blocks_def)
  then have a': "edge_arrays bt bi bo (t\<lparr>board := s\<rparr>) es" using Suc.prems(2) by (simp add: edge_arrays_def)
  have r2: "ready L ob wb rb cb qs' (board (t\<lparr>board := s\<rparr>))" and l2: "(i + 1) + k = length es"
    using r' Suc.prems(5) by simp_all
  from Suc.IH [OF r2 a' Suc.prems(3) dst' l2] obtain s2 qs2 cs2 where IH:
    "test_load_loop L k (i + 1) (t\<lparr>board := s\<rparr>) = Some (t\<lparr>board := s2\<rparr>)" "ready L ob wb rb cb qs2 s2"
    "advance ob wb s cs2 s2" "tms_stream cs2 = drop (i + 1) es" "clocks cs2 = k"
    "receives ob wb rb cb (Ptr bo 0) (i + 1) cs2 qs' s qs2 s2"
    by auto
  have ld: "load (memory (board t)) (arr_tdi t) (i div 8) = Some (?I ! (i div 8))"
    using e(2,5,8) i8 by simp
  have step: "test_load_loop L (Suc k) i t = Some (t\<lparr>board := s2\<rparr>)"
    unfolding test_load_loop.simps ld bind.bind_lunit Let_def tdi e(1,3) c(1) IH(1) ..
  have "receives ob wb rb cb (Ptr bo 0) i (cs @ cs2) qs (board t) qs2 s2"
    using receives_trans [OF cs(4), of cs2 qs2 s2] IH(6) cs(3) by simp
  moreover have "advance ob wb (board t) (cs @ cs2) s2" using advance_trans [OF cs(1) IH(3)] .
  moreover have "tms_stream (cs @ cs2) = drop i es" "clocks (cs @ cs2) = Suc k"
    using cs(2,3) IH(4,5) ab n(1) Cons_nth_drop_Suc [of i es] by simp_all
  ultimately show ?case using step IH(2) by blast
qed

section \<open>The whole program\<close>

text \<open>The caller's blocks are not those of the context, and the opening leaves them alone.\<close>

lemma opened_frame:
  assumes op: "opened H u m c m' h' u'" and b: "m b = Some x"
    and inv: "minv wb rb cb es \<lparr>ctx = c, memory = m', queue = h', device = u'\<rparr>"
  shows "m' b = Some x \<and> b \<notin> {wb, rb, cb}"
proof -
  have p: "write_buffer c = Ptr wb 0" "read_buffer c = Ptr rb 0" "read_chunk c = Ptr cb 0"
    using minv_blocks(1-3) [OF inv] by simp_all
  from op obtain m1 m2 where "owned (Ptr cb 0) 16384 m m1" "owned (Ptr rb 0) 16384 m1 m2"
    "owned (Ptr wb 0) 16384 m2 m'"
    unfolding opened_def holds_memory_def p by auto
  with b show ?thesis by (auto simp: owned_def split: if_splits)
qed

lemma ready_memory:
  assumes "ready L ob wb rb cb [] s" and "\<And>b. b \<in> own_blocks wb rb cb \<Longrightarrow> m b = memory s b"
  shows "ready L ob wb rb cb [] (s\<lparr>memory := m\<rparr>)"
  using assms by (simp add: ready_def minv_def sized_def)

lemma procedure_length: "length (procedure_edges test_procedure) = 138"
  by (simp add: procedure_edges_def test_procedure_def)

text \<open>The identification code is the bits 10 to 41 of the samples.\<close>

lemma ident_of_bits:
  assumes "length xs = 64"
  shows "drop_bit 4 (drop_bit 6 (word_of xs :: u64)) AND 0xFFFFFFFF = word_of (take 32 (drop 10 xs))"
proof (rule bit_word_eqI)
  fix n
  assume "n < LENGTH(64)"
  then have n: "n < 64" by simp
  have m: "bit (0xFFFFFFFF :: u64) n \<longleftrightarrow> n < 32"
  proof -
    have "(0xFFFFFFFF :: u64) = mask 32" by (simp add: mask_eq_exp_minus_1)
    then show ?thesis using n by (simp only: bit_mask_iff) simp
  qed
  show "bit (drop_bit 4 (drop_bit 6 (word_of xs :: u64)) AND 0xFFFFFFFF) n =
      bit (word_of (take 32 (drop 10 xs)) :: u64) n"
    unfolding bit_and_iff m using assms n by (auto simp: bit_drop_bit_eq bit_word_of add.commute)
qed

text \<open>The three arrays are static: they are all zero when \<open>main\<close> starts.\<close>

definition test_start :: "nat \<Rightarrow> nat \<Rightarrow> nat \<Rightarrow> 'u test_program \<Rightarrow> bool" where
  "test_start bt bi bo t \<longleftrightarrow>
     arr_tms t = Ptr bt 0 \<and> arr_tdi t = Ptr bi 0 \<and> arr_tdo t = Ptr bo 0 \<and> distinct [bt, bi, bo] \<and>
     cur_pos t = 0 \<and> memory (board t) local_block = None \<and>
     (\<forall>b \<in> {bt, bi, bo}. memory (board t) b = Some (replicate TEST_BYTES 0))"

lemma test_start_arrays: "test_start bt bi bo t \<Longrightarrow> edge_arrays bt bi bo t []"
  by (simp add: test_start_def edge_arrays_def bytes_filled_Nil sized_def)

text \<open>The edges of \<open>main\<close>, and what it prints when the device answers them.\<close>

lemma test_main_law:
  assumes op: "mpsse_open malloc pn L U
      \<lparr>arg_vid = Some 0x0403, arg_pid = Some 0x6014, arg_product = None, arg_serial = None, arg_location = None\<rparr>
      0 (memory (board t)) (queue (board t)) (device (board t)) = Some (Some c, m, h, u)"
    and od: "opened H (device (board t)) (memory (board t)) c m h u"
    and r0: "ready L ob wb rb cb [] \<lparr>ctx = c, memory = m, queue = h, device = u\<rparr>"
    and st: "test_start bt bi bo t"
    and room: "16384 \<le> room h"
  shows "\<exists>t' r bs cs ys. test_main malloc pn L U t = Some (0, Some r, t') \<and> flush_code r = ERROR_OK \<and>
    sent ob (device (board t')) = sent ob u @ bs \<and> decode bs = Some cs \<and>
    tms_stream cs = procedure_edges test_procedure \<and> clocks cs = 138 \<and>
    answered ob \<lparr>ctx = c, memory = m, queue = h, device = u\<rparr> ys (board t') \<and>
    length ys = reply_length cs \<and> bits_of (received r) = sampled cs ys @ replicate 6 False \<and>
    jtag_ident r = word_of (take 32 (drop 10 (sampled cs ys)))"
proof -
  let ?own = "own_blocks wb rb cb" and ?es = "procedure_edges test_procedure"
  let ?t1 = "t\<lparr>board := \<lparr>ctx = c, memory = m, queue = h, device = u\<rparr>\<rparr>"
  note pl = procedure_length
  let ?D = "replicate TEST_BYTES (0 :: u8)"
  from st have a: "distinct [bt, bi, bo]" "memory (board t) bt = Some ?D"
    "memory (board t) bi = Some ?D" "memory (board t) bo = Some ?D" "length ?D = TEST_BYTES"
    and local_free: "memory (board t) local_block = None"
    by (simp_all add: test_start_def)
  have ar: "edge_arrays bt bi bo t []" by (rule test_start_arrays [OF st])
  have inv0: "minv wb rb cb [] \<lparr>ctx = c, memory = m, queue = h, device = u\<rparr>" using r0 by (simp add: ready_def)
  note fr = opened_frame [OF od _ inv0]
  note ms = fr [OF a(2)] fr [OF a(3)] fr [OF a(4)]
  have own: "{bt, bi, bo} \<inter> ?own = {}" using ms a(2-4) local_free by auto
  have ar1: "edge_arrays bt bi bo ?t1 []" using ar ms a by (simp add: edge_arrays_def sized_def)
  have "length [] + length ?es \<le> 8 * TEST_BYTES" using pl by (simp add: TEST_BYTES_def)
  from run_procedure_law [OF ar1 this] obtain t2 where t2: "run_procedure test_procedure ?t1 = Some t2"
    "edge_arrays bt bi bo t2 ?es" "queue_only bt bi ?t1 t2" by auto
  from t2(3) obtain m2 n2 where b2: "t2 = ?t1\<lparr>board := (board ?t1)\<lparr>memory := m2\<rparr>, cur_pos := n2\<rparr>"
    "\<And>b. b \<notin> {bt, bi} \<Longrightarrow> m2 b = m b"
    unfolding queue_only_def by auto
  have "m2 b = m b" if "b \<in> ?own" for b using that own b2(2) by blast
  then have r2: "ready L ob wb rb cb [] (board t2)"
    using ready_memory [OF r0, of m2] by (simp add: b2(1))
  have z2: "read_count (ctx (board t2)) = 0" "read_size (ctx (board t2)) \<le> room (queue (board t2))"
    "write_count (ctx (board t2)) = 0" "device (board t2) = u" "queue (board t2) = h"
    using od room by (simp_all add: b2(1) opened_def)
  have D: "memory (board t2) bo = Some ?D" using b2(2) [of bo] ms(3) a(1) by (simp add: b2(1))
  obtain s3 es3 cs where s3: "test_load_loop L (length ?es) 0 t2 = Some (t2\<lparr>board := s3\<rparr>)"
    "ready L ob wb rb cb es3 s3" "advance ob wb (board t2) cs s3" "tms_stream cs = ?es" "clocks cs = length ?es"
    "receives ob wb rb cb (Ptr bo 0) 0 cs [] (board t2) es3 s3"
    using test_load_loop_law [OF r2 t2(2) own, of 0 "length ?es"] by auto
  obtain s4 qs where s4: "mpsse_flush L s3 = Some (ERROR_OK, s4)" "flushed ob wb rb cb es3 s3 s4"
    "advance ob wb s3 qs s4" "quiet qs"
    using flush_rc_ready [OF s3(2)] by blast
  have inv3: "minv wb rb cb es3 s3" using s3(2) by (simp add: ready_def)
  have bo: "bo \<notin> ?own" using own by blast
  have n: "clocks cs = 138" "8 * 0 + 0 + clocks cs \<le> 8 * length ?D"
    using s3(5) pl a(5) by (simp_all add: TEST_BYTES_def)
  let ?S = "sampled (cs @ qs)"
  obtain ys where ys: "answered ob (board t2) ys s4" "length ys = reply_length (cs @ qs)"
    "length (?S ys) = 138" "memory s4 bo = Some (bytes_of (blit (bits_of ?D) 0 (?S ys) 0 138))"
    using receives_end [OF s3(6) inv3 s4(2,4) z2(1,2) D bo n(2)] n(1) by auto
  let ?R = "bytes_of (blit (bits_of ?D) 0 (?S ys) 0 138)"
  have bR: "bits_of ?R = ?S ys @ drop 138 (bits_of ?D)" and lR: "length ?R = TEST_BYTES"
    using ys(3) n(2) a(5) by (simp_all add: blit_def n(1) del: length_replicate)
  have pos: "cur_pos (t2\<lparr>board := s3\<rparr>) = 138" "cur_pos t2 = 138" "arr_tdo t2 = Ptr bo 0"
    using t2(2) pl by (simp_all add: edge_arrays_def)
  have l18: "load_bytes (memory s4) (Ptr bo 0) 18 = Some (take 18 ?R)"
    and l8: "load_bytes (memory s4) (Ptr bo 0) 8 = Some (take 8 ?R)"
    using load_bytes_known [of "memory s4" bo ?R 0] ys(4) lR by (simp_all add: TEST_BYTES_def)
  have b8: "bits_of (take 8 ?R) = take 64 (?S ys)"
    using ys(3) by (simp add: bR flip: take_bits_of)
  have ident: "drop_bit 4 (drop_bit 6 (word_of (bits_of (take 8 ?R)) :: u64)) AND 0xFFFFFFFF =
      word_of (take 32 (drop 10 (?S ys)))"
    using ident_of_bits [of "take 64 (?S ys)"] ys(3) by (simp only: b8) (simp add: drop_take)
  let ?r = "\<lparr>flush_code = ERROR_OK, received = take 18 ?R, jtag_ident = word_of (take 32 (drop 10 (?S ys)))\<rparr>"
  have start: "(t\<lparr>board := (board t)\<lparr>memory := m, queue := h, device := u\<rparr>\<rparr>)
      \<lparr>board := (board (t\<lparr>board := (board t)\<lparr>memory := m, queue := h, device := u\<rparr>\<rparr>))\<lparr>ctx := c\<rparr>\<rparr> = ?t1"
    by simp
  have load: "test_load_loop L 138 0 t2 = Some (t2\<lparr>board := s3\<rparr>)" using s3(1) pl by simp
  have c18: "(138 + 7) div 8 = (18 :: nat)" and keep: "arr_tdo (t2\<lparr>board := s3\<rparr>) = Ptr bo 0"
    and s3b: "board (t2\<lparr>board := s3\<rparr>) = s3" "t2\<lparr>board := s3\<rparr>\<lparr>board := s4\<rparr> = t2\<lparr>board := s4\<rparr>"
    using pos(3) by simp_all
  have "test_main malloc pn L U t = Some (0, Some ?r, t2\<lparr>board := s4\<rparr>)"
    unfolding test_main_def op bind.bind_lunit prod.case Let_def option.case start t2(1) pos load s3b
      s4(1) keep c18 l18 l8 ident ..
  moreover have "advance ob wb (board t2) (cs @ qs) s4" using advance_trans [OF s3(3) s4(3)] .
  then obtain bs where "stream ob wb s4 = stream ob wb (board t2) @ bs" "decode bs = Some (cs @ qs)"
    by (auto simp: advance_def)
  moreover have "pending wb s4 = []" "pending wb (board t2) = []"
    using s4(2) z2(3) by (simp_all add: flushed_def emptied_def pending_def)
  moreover have "answered ob \<lparr>ctx = c, memory = m, queue = h, device = u\<rparr> ys s4"
    using ys(1) z2(4) by (simp add: answered_def)
  moreover have "tms_stream (cs @ qs) = ?es" "clocks (cs @ qs) = 138" using s3(4) n(1) s4(4) by simp_all
  moreover have "bits_of (take 18 ?R) = ?S ys @ replicate 6 False"
  proof -
    have "take 6 (drop 138 (bits_of ?D)) = replicate 6 False" by (simp add: bits_of_zeros TEST_BYTES_def)
    then show ?thesis using ys(3) by (simp add: bR flip: take_bits_of)
  qed
  ultimately show ?thesis
    using ys(2) z2(4)
    by (intro exI [of _ "t2\<lparr>board := s4\<rparr>"] exI [of _ ?r] exI [of _ bs] exI [of _ "cs @ qs"] exI [of _ ys])
      (simp add: stream_def)
qed

text \<open>The line that the program announces, and what the simulated controller answers.\<close>

definition expected_bytes :: "u8 list" where
  "expected_bytes =
     [0xff, 0x77, 0xc3, 0x41, 0x0a, 0xfc, 0x03, 0xb3, 0x3f, 0xfc, 0xff, 0xff, 0xff, 0xff, 0xff, 0xff, 0xff, 0x03]"

lemma controller_answers:
  "map_option fst (edges (procedure_edges test_procedure) tap_controller_new) =
    Some (map bit_int (take 138 (bits_of expected_bytes)))"
  by code_simp

lemma expected_tail: "bits_of expected_bytes = take 138 (bits_of expected_bytes) @ replicate 6 False"
  by code_simp

lemma expected_ident: "(word_of (take 32 (drop 10 (bits_of expected_bytes))) :: u64) = 0x029070DD"
  by code_simp

lemma controller_answers_expected:
  assumes "edges (procedure_edges test_procedure) tap_controller_new = Some (map bit_int bs, c)"
    and "bits_of out = bs @ replicate 6 False"
  shows "out = expected_bytes" and "(word_of (take 32 (drop 10 bs)) :: u64) = 0x029070DD"
proof -
  have "map bit_int bs = map bit_int (take 138 (bits_of expected_bytes))"
    using controller_answers assms(1) by simp
  then have bs: "bs = take 138 (bits_of expected_bytes)"
    by (rule map_injective) (simp add: inj_def)
  then have "bits_of out = bits_of expected_bytes" using assms(2) expected_tail by simp
  then show "out = expected_bytes" by (simp add: bits_of_inject)
  show "(word_of (take 32 (drop 10 bs)) :: u64) = 0x029070DD"
    using expected_ident by (simp add: bs drop_take del: word_of_bits_of_Cons)
qed

end
