(* ===== verification/Mpsse_Errors.thy ===== *)
theory Mpsse_Errors
  imports Mpsse_Tms
begin

text \<open>
  What a failure leaves behind. Every command flushes when its bytes do not fit and stores the
  result in \<open>retval\<close>, but goes on and queues its bytes whatever the result is. After a failed
  flush the context is therefore marked (\<open>marked\<close>) and not empty, which the next \<open>mpsse_flush\<close>
  excludes by an assertion.
\<close>

section \<open>A flush that fails\<close>

text \<open>A device that does not accept a write, as when it has been unplugged.\<close>

definition refuses :: "'u libusb \<Rightarrow> bool" where
  "refuses L \<longleftrightarrow> (\<forall>dev ep bs t u. fst (submit_write L dev ep bs t u) \<noteq> LIBUSB_SUCCESS)"

lemma flush_refused:
  assumes L: "refuses L" and inv: "minv wb rb cb es s" and rv: "retval (ctx s) = ERROR_OK"
    and wc: "0 < write_count (ctx s)"
  shows "\<exists>s'. mpsse_flush L s = Some (ERROR_FAIL, s') \<and> flush_aborted wb rb cb s s'"
proof -
  define s0 where "s0 = with_immediate wb s"
  have sh: "shape wb rb cb s0" using with_immediate_law(1) [OF inv] by (simp add: s0_def)
  then obtain W where "memory s0 wb = Some W" "length W = write_size (ctx s0)"
    "write_count (ctx s0) \<le> write_size (ctx s0)" "write_buffer (ctx s0) = Ptr wb 0"
    by (auto simp: shape_def sized_def)
  then have load: "load_bytes (memory s0) (write_buffer (ctx s0)) (write_count (ctx s0)) = Some (pending wb s0)"
    by (simp add: pending_def)
  obtain rc u where sub: "submit_write L (usb_dev (ctx s0)) (out_ep (ctx s0)) (pending wb s0)
      (usb_write_timeout (ctx s0)) (device s0) = (rc, u)" by force
  then have rc: "rc \<noteq> LIBUSB_SUCCESS" using L unfolding refuses_def by (metis fst_conv)
  define w r where "w = \<lparr>finished = False, transferred = 0\<rparr>"
    and "r = \<lparr>finished = (read_count (ctx s0) = 0), transferred = 0\<rparr>"
  have run: "run_transfers L s0 = Some (rc, w, r, s0\<lparr>device := u\<rparr>)"
    using load sub rc by (simp add: run_transfers_def Let_def w_def r_def)
  have "polled rb cb s0 (s0\<lparr>device := u\<rparr>)" by simp
  from flush_result_bad [OF inv s0_def this, of rc w r L] rc obtain s' where
    "flush_result L rc w r (s0\<lparr>device := u\<rparr>) = Some (ERROR_FAIL, s')" "flush_aborted wb rb cb s s'" by auto
  with run show ?thesis using flush_unfold [OF inv rv wc] by (simp add: s0_def)
qed

section \<open>A command whose flush fails\<close>

text \<open>The context after the failed flush \<open>s1\<close> and a command that has queued \<open>bs\<close>.\<close>

definition marked :: "nat \<Rightarrow> 'u mpsse \<Rightarrow> u8 list \<Rightarrow> 'u mpsse \<Rightarrow> bool" where
  "marked wb s1 bs s2 \<longleftrightarrow> retval (ctx s2) = ERROR_FAIL \<and> pending wb s2 = bs \<and> read_count (ctx s2) = 0 \<and>
     device s2 = device s1"

lemma flush_asserts:
  "retval (ctx s) \<noteq> ERROR_OK \<Longrightarrow> 0 < write_count (ctx s) \<Longrightarrow> mpsse_flush L s = None"
  by (simp add: mpsse_flush_def Let_def)

text \<open>The state in which such a command goes on.\<close>

lemma minv_retval: "minv wb rb cb es (s\<lparr>ctx := (ctx s)\<lparr>retval := v\<rparr>\<rparr>) = minv wb rb cb es s"
  by (simp add: minv_def)

lemma failed_flush:
  assumes ab: "flush_aborted wb rb cb s s1" and fl: "mpsse_flush L s = Some (ERROR_FAIL, s1)"
  shows "\<exists>t. flush_into_retval L s = Some t \<and> minv wb rb cb [] t \<and> retval (ctx t) = ERROR_FAIL \<and>
    write_count (ctx t) = 0 \<and> read_count (ctx t) = 0 \<and> pending wb t = [] \<and> device t = device s1 \<and>
    (\<forall>c. c \<notin> {wb, rb, cb} \<longrightarrow> memory t c = memory s c)"
proof -
  let ?t = "s1\<lparr>ctx := (ctx s1)\<lparr>retval := ERROR_FAIL\<rparr>\<rparr>"
  have "minv wb rb cb [] ?t" unfolding minv_retval using ab by (simp add: flush_aborted_def)
  then show ?thesis
    using ab fl by (intro exI [of _ ?t]) (simp add: flush_into_retval_def flush_aborted_def emptied_def pending_def)
qed

lemma emit_marked:
  assumes inv: "minv wb rb cb [] t" and "retval (ctx t) = ERROR_FAIL" and "write_count (ctx t) = 0"
    and "read_count (ctx t) = 0" and "device t = device s1" and bs: "0 < length bs" "length bs < 5"
  shows "marked wb s1 bs (emit wb bs t) \<and> mpsse_flush L (emit wb bs t) = None"
proof -
  obtain W where W: "memory t wb = Some W" "length W = write_size (ctx t)"
    using inv by (auto simp: minv_def sized_def)
  have "pending wb t = []" using assms(3) by (simp add: pending_def)
  then have "pending wb (emit wb bs t) = bs"
    using pending_emit [OF W(1), of bs] W(2) assms(3) bs(2) minv_sizes(1) [OF inv] by simp
  moreover have "mpsse_flush L (emit wb bs t) = None"
    using assms(2,3) bs(1) by (intro flush_asserts) (simp_all add: ERROR_OK_def ERROR_FAIL_def)
  ultimately show ?thesis using assms(2,4,5) by (simp add: marked_def)
qed

text \<open>Bytes after bytes, without a device that answers.\<close>

lemma minv_write_byte:
  assumes inv: "minv wb rb cb es t" and "write_count (ctx t) + length bs + 1 < write_size (ctx t)"
  shows "buffer_write_byte b (emit wb bs t) = Some (emit wb (bs @ [b]) t)"
proof -
  obtain W where W: "memory t wb = Some W" "length W = write_size (ctx t)"
    using inv by (auto simp: minv_def sized_def)
  have "minv wb rb cb es (emit wb bs t)" using assms by (intro minv_emit) simp_all
  from buffer_write_byte_emit [OF this, of b] show ?thesis
    using emit_emit [OF W(1), of bs "[b]"] W(2) assms(2) by simp
qed

lemma three_writes:
  assumes inv: "minv wb rb cb es t" and "write_count (ctx t) = 0"
  shows "do { s \<leftarrow> buffer_write_byte a t; s \<leftarrow> buffer_write_byte b s; buffer_write_byte c s } =
    Some (emit wb [a, b, c] t)"
    and "do { s \<leftarrow> buffer_write_byte a t; buffer_write_byte b s } = Some (emit wb [a, b] t)"
  using buffer_write_byte_emit [OF inv] minv_write_byte [OF inv, of "[a]" b] minv_write_byte [OF inv, of "[a, b]" c]
    minv_sizes(1) [OF inv] assms(2) by simp_all

lemma pins_after_failure:
  assumes inv: "minv wb rb cb es s" and rv: "retval (ctx s) = ERROR_OK"
    and full: "write_size (ctx s) \<le> write_count (ctx s) + 3"
    and fl: "mpsse_flush L s = Some (ERROR_FAIL, s1)" and ab: "flush_aborted wb rb cb s s1"
  shows "\<exists>s2. (if upper then mpsse_set_data_bits_high_byte else mpsse_set_data_bits_low_byte) L data dir s = Some s2 \<and>
    marked wb s1 [if upper then 0x82 else 0x80, data, dir] s2 \<and> mpsse_flush L s2 = None"
proof -
  obtain t where t: "flush_into_retval L s = Some t" "minv wb rb cb [] t" "retval (ctx t) = ERROR_FAIL"
    "write_count (ctx t) = 0" "read_count (ctx t) = 0" "device t = device s1"
    using failed_flush [OF ab fl] by blast
  have sp: "ensure_write_space L 3 s = Some t"
    using full minv_write_space [OF inv] t(1) by (simp add: ensure_write_space_def)
  let ?bs = "[if upper then 0x82 else 0x80, data, dir]"
  have "(if upper then mpsse_set_data_bits_high_byte else mpsse_set_data_bits_low_byte) L data dir s =
      Some (emit wb ?bs t)"
    using rv sp three_writes(1) [OF t(2,4), of "if upper then 0x82 else 0x80" data dir]
    by (cases upper) (simp_all add: mpsse_set_data_bits_low_byte_def mpsse_set_data_bits_high_byte_def)
  with emit_marked [OF t(2-6), of ?bs L] show ?thesis by auto
qed

lemma clock_after_failure:
  assumes inv: "minv wb rb cb es s" and rv: "retval (ctx s) = ERROR_OK"
    and full: "write_size (ctx s) \<le> write_count (ctx s) + 3"
    and fl: "mpsse_flush L s = Some (ERROR_FAIL, s1)" and ab: "flush_aborted wb rb cb s s1"
    and S: "memory s ob = Some S" "ob \<notin> own_blocks wb rb cb" "8 * p + off + n \<le> 8 * length S"
    and n: "0 < n" "n < 8"
  shows "\<exists>s2 b. mpsse_clock_data_out L (Ptr ob p) off n mode s = Some s2 \<and>
    marked wb s1 [0x12 OR mode, of_nat (n - 1), b] s2 \<and> mpsse_flush L s2 = None"
proof -
  obtain t where t: "flush_into_retval L s = Some t" "minv wb rb cb [] t" "retval (ctx t) = ERROR_FAIL"
    "write_count (ctx t) = 0" "read_count (ctx t) = 0" "device t = device s1"
    and tm: "\<forall>c. c \<notin> {wb, rb, cb} \<longrightarrow> memory t c = memory s c"
    using failed_flush [OF ab fl] by blast
  let ?v = "\<lparr>out_at = off, in_at = 0, rest = n\<rparr>" and ?M = "clock_mode (Ptr ob p) Null mode"
  let ?h = "[0x02 OR ?M, of_nat (n - 1) :: u8]"
  have room: "clock_room L (Ptr ob p) Null n s = Some t"
    using full n(2) t(1) minv_write_space [OF inv] minv_sizes(2,7) [OF inv] by (simp add: clock_room_def Let_def)
  have inv2: "minv wb rb cb [] (emit wb ?h t)"
    using minv_sizes(1) [OF t(2)] t(4) by (intro minv_emit [OF t(2)]) simp
  have m: "memory (emit wb ?h t) ob = Some S" "ob \<noteq> wb" using tm S(1,2) by simp_all
  obtain W where W: "memory t wb = Some W" "length W = write_size (ctx t)"
    using t(2) by (auto simp: minv_def sized_def)
  have c8: "(n + 7) div 8 = 1" using n by simp
  obtain bs where bs: "buffer_write (Ptr ob p) off n (emit wb ?h t) = Some (n, emit wb bs (emit wb ?h t))"
    "length bs = 1"
    using buffer_write_emit [OF inv2 m S(3)] c8 n minv_sizes(1) [OF t(2)] t(4) by auto
  then obtain b where b: "bs = [b]" by (metis One_nat_def length_0_conv length_Suc_conv)
  have e: "emit wb [b] (emit wb ?h t) = emit wb (?h @ [b]) t"
    using emit_emit [OF W(1), of ?h "[b]"] W(2) t(4) minv_sizes(1) [OF t(2)] by simp
  have two: "do { s \<leftarrow> buffer_write_byte (0x02 OR ?M) t; buffer_write_byte (of_nat (n - 1)) s } = Some (emit wb ?h t)"
    by (rule three_writes(2) [OF t(2,4)])
  then obtain t1 where t1: "buffer_write_byte (0x02 OR ?M) t = Some t1"
    "buffer_write_byte (of_nat (n - 1)) t1 = Some (emit wb ?h t)"
    by (auto split: bind_splits)
  have M: "0x02 OR ?M = 0x12 OR mode" by (simp add: clock_mode_def) (simp add: or.commute or.left_commute or.assoc)
  have "clock_body L (Ptr ob p) Null ?M ?v s =
      Some (\<lparr>out_at = u32_add off n, in_at = 0, rest = 0\<rparr>, emit wb (?h @ [b]) t)"
    using room n(2) t1 bs(1) b e by (simp add: clock_body_def clock_bits_def)
  then have "mpsse_clock_data_out L (Ptr ob p) off n mode s = Some (emit wb (?h @ [b]) t)"
    using rv n(1) clock_loop.simps [of L "Ptr ob p" Null ?M ?v]
    by (simp add: mpsse_clock_data_out_def mpsse_clock_data_def clock_loop.simps [of _ _ _ _ "\<lparr>out_at = u32_add off n, in_at = 0, rest = 0\<rparr>"])
  with emit_marked [OF t(2-6), of "?h @ [b]" L] M show ?thesis by auto
qed

lemma tms_after_failure:
  assumes inv: "minv wb rb cb es s" and rv: "retval (ctx s) = ERROR_OK"
    and full: "write_size (ctx s) \<le> write_count (ctx s) + 3"
    and fl: "mpsse_flush L s = Some (ERROR_FAIL, s1)" and ab: "flush_aborted wb rb cb s s1"
    and S: "memory s ob = Some S" "ob \<notin> own_blocks wb rb cb" "8 * p + off + n \<le> 8 * length S"
    and n: "0 < n" "n < 8"
  shows "\<exists>s2 b. mpsse_clock_tms_cs_out L (Ptr ob p) off n tdi mode s = Some s2 \<and>
    marked wb s1 [mode OR 0x42, of_nat (n - 1), b] s2 \<and> mpsse_flush L s2 = None"
proof -
  obtain t where t: "flush_into_retval L s = Some t" "minv wb rb cb [] t" "retval (ctx t) = ERROR_FAIL"
    "write_count (ctx t) = 0" "read_count (ctx t) = 0" "device t = device s1"
    and tm: "\<forall>c. c \<notin> {wb, rb, cb} \<longrightarrow> memory t c = memory s c"
    using failed_flush [OF ab fl] by blast
  let ?v = "\<lparr>out_at = off, in_at = 0, rest = n\<rparr>" and ?M = "mode OR 0x42 :: u8"
  let ?h = "[?M, of_nat (n - 1) :: u8]"
  have room: "buffer_write_space (ctx s) < 3" using full minv_write_space [OF inv] by simp
  have m: "memory (emit wb ?h t) ob = Some S" "ob \<noteq> local_block" using tm S(1,2) by simp_all
  obtain d where d: "tms_byte (Ptr ob p) off n (memory (emit wb ?h t)) = Some d"
    using tms_byte_law [of "memory (emit wb ?h t)" ob S p off n] m S(3) n(2) by auto
  let ?b = "d OR (if tdi then 0x80 else 0x00)"
  have two: "do { s \<leftarrow> buffer_write_byte ?M t; buffer_write_byte (of_nat (n - 1)) s } = Some (emit wb ?h t)"
    by (rule three_writes(2) [OF t(2,4)])
  then obtain t1 where t1: "buffer_write_byte ?M t = Some t1"
    "buffer_write_byte (of_nat (n - 1)) t1 = Some (emit wb ?h t)"
    by (auto split: bind_splits)
  have e: "buffer_write_byte ?b (emit wb ?h t) = Some (emit wb (?h @ [?b]) t)"
    using minv_write_byte [OF t(2), of ?h ?b] t(4) minv_sizes(1) [OF t(2)] by simp
  have "tms_body L (Ptr ob p) Null tdi ?M ?v s =
      Some (\<lparr>out_at = u32_add off n, in_at = 0, rest = 0\<rparr>, emit wb (?h @ [?b]) t)"
    using room n t(1) t1 d e by (simp add: tms_body_def Let_def)
  then have "mpsse_clock_tms_cs_out L (Ptr ob p) off n tdi mode s = Some (emit wb (?h @ [?b]) t)"
    using rv n(1) tms_loop.simps [of L "Ptr ob p" Null tdi ?M ?v]
    by (simp add: mpsse_clock_tms_cs_out_def mpsse_clock_tms_cs_def tms_loop.simps [of _ _ _ _ _ "\<lparr>out_at = u32_add off n, in_at = 0, rest = 0\<rparr>"])
  with emit_marked [OF t(2-6), of "?h @ [?b]" L] show ?thesis by auto
qed

end
