(* ===== verification/Simulated_Device.thy ===== *)
theory Simulated_Device
  imports List_Entries Ftdi_Init_Laws Mpsse_Open_Laws Mpsse_Config Otma_Driver Test_Program Mpsse_Errors
begin

text \<open>
  A simulated FT232H behind libusb, a concrete instance of every hypothesis of the development on
  the library: it answers a submission at the next event, accepts a write as a whole and answers
  a read with one packet of at most 64 bytes. It is used only in the witnesses. The functions of
  \<open>sim_libusb\<close> and \<open>sim_setup\<close> stand for no code of the repository.
\<close>

section \<open>The transfers\<close>

record sim_device =
  sim_out :: "u8 list option"
  sim_in :: "nat option"
  sim_sent :: "u8 list"
  sim_replies :: "u8 list"
  sim_handles :: "nat list"
  sim_contexts :: "nat list"

definition sim_start :: sim_device where
  "sim_start = \<lparr>sim_out = None, sim_in = None, sim_sent = [], sim_replies = [], sim_handles = [], sim_contexts = []\<rparr>"

definition sim_packet :: "nat \<Rightarrow> u8 list" where
  "sim_packet n = take (min n 64) ([0x32, 0x60] @ replicate 62 0xa5)"

definition sim_events :: "sim_device \<Rightarrow> int \<times> transfer_event list \<times> sim_device" where
  "sim_events u =
     (LIBUSB_SUCCESS,
      write_events (map_option length (sim_out u)) @ read_events (map_option sim_packet (sim_in u)),
      u\<lparr>sim_out := None, sim_in := None,
        sim_sent := sim_sent u @ (case sim_out u of None \<Rightarrow> [] | Some b \<Rightarrow> b),
        sim_replies := sim_replies u @
          (case sim_in u of None \<Rightarrow> [] | Some n \<Rightarrow> payload 64 (sim_packet n))\<rparr>)"

definition sim_libusb :: "sim_device libusb" where
  "sim_libusb =
     \<lparr>control_transfer = (\<lambda>dev rt rq v i t u. (0, u)),
      submit_write = (\<lambda>dev ep bs t u. (LIBUSB_SUCCESS, u\<lparr>sim_out := Some bs\<rparr>)),
      submit_read = (\<lambda>dev ep n t u. (LIBUSB_SUCCESS, u\<lparr>sim_in := Some n\<rparr>)),
      cancel_write = (\<lambda>u. u), cancel_read = (\<lambda>u. u),
      handle_events = (\<lambda>c. sim_events)\<rparr>"

definition sim_observer :: "sim_device observer" where
  "sim_observer = \<lparr>out_flight = sim_out, in_flight = sim_in, sent = sim_sent, replies = sim_replies\<rparr>"

lemma length_sim_packet [simp]: "length (sim_packet n) = min n 64"
  by (simp add: sim_packet_def)

lemma sim_bulk: "bulk_ok sim_libusb sim_observer 64"
proof -
  have "event_ok sim_observer 64 (map_option length (sim_out u)) (map_option sim_packet (sim_in u))
      (fst (snd (sim_events u))) u (snd (snd (sim_events u)))" for u
    by (auto simp: event_ok_def sim_events_def write_completes_def read_completes_def sim_observer_def
        split: option.splits)
  then have "\<exists>wo ro. event_ok sim_observer 64 wo ro evs u u'" if "sim_events u = (rc, evs, u')" for u rc evs u'
    using that by (metis fst_conv snd_conv)
  then show ?thesis by (simp add: bulk_ok_def sim_libusb_def sim_observer_def)
qed

lemma sim_prompt: "prompt sim_libusb sim_observer 64"
proof -
  have "rc = LIBUSB_SUCCESS \<and> (\<forall>b. sim_out u = Some b \<and> b \<noteq> [] \<longrightarrow> (\<exists>k > 0. Write_Done k \<in> set evs)) \<and>
      (\<forall>n. sim_in u = Some n \<and> 2 < n \<longrightarrow> (\<exists>raw. 2 < length raw \<and> Read_Done raw \<in> set evs))"
    if "sim_events u = (rc, evs, u')" for u rc evs u'
    using that
    by (auto simp: sim_events_def write_events_def read_events_def)
  then show ?thesis
    using sim_bulk by (simp add: prompt_def sim_libusb_def sim_observer_def)
qed

text \<open>The same device after it has been unplugged: it refuses every write.\<close>

definition sim_unplugged :: "sim_device libusb" where
  "sim_unplugged = sim_libusb\<lparr>submit_write := (\<lambda>dev ep bs t u. (LIBUSB_ERROR_NO_DEVICE, u))\<rparr>"

lemma sim_unplugged_bulk: "bulk_ok sim_unplugged sim_observer 64"
  using sim_bulk
  by (simp add: bulk_ok_def sim_unplugged_def sim_libusb_def sim_observer_def LIBUSB_SUCCESS_def
      LIBUSB_ERROR_NO_DEVICE_def)

lemma sim_unplugged_refuses: "refuses sim_unplugged"
  by (simp add: refuses_def sim_unplugged_def LIBUSB_SUCCESS_def LIBUSB_ERROR_NO_DEVICE_def)

section \<open>An open context on it\<close>

text \<open>Blocks 1 to 3 are the buffers of the context, blocks 4 and 5 belong to the caller.\<close>

definition sim_ctx :: mpsse_ctx where
  "sim_ctx =
     \<lparr>usb_ctx = 1, usb_dev = 1, usb_write_timeout = 5000, usb_read_timeout = 5000, in_ep = 0x81,
      out_ep = 0x02, max_packet_size = 64, usb_index = 1, usb_interface = 0, chip_type = TYPE_FT232H,
      write_buffer = Ptr 1 0, write_size = 16, write_count = 0, read_buffer = Ptr 2 0, read_size = 16,
      read_count = 0, read_chunk = Ptr 3 0, read_chunk_size = 16, read_queue = 0, retval = ERROR_OK\<rparr>"

definition sim_queue :: copy_heap where
  "sim_queue = \<lparr>links = [0 \<mapsto> \<lparr>nxt = 0, prv = 0\<rparr>], ents = Map.empty, fresh = 1, room = 32\<rparr>"

definition sim_state :: "sim_device mpsse" where
  "sim_state =
     \<lparr>ctx = sim_ctx,
      memory = [1 \<mapsto> replicate 16 0, 2 \<mapsto> replicate 16 0, 3 \<mapsto> replicate 16 0, 4 \<mapsto> [0x5a, 0xc3, 0x0f, 0x99],
        5 \<mapsto> [0, 0, 0, 0]],
      queue = sim_queue, device = sim_start\<rparr>"

lemma sim_queue_of: "queue_of 0 sim_queue []"
  by (auto simp: queue_of_def sim_queue_def dlist_def nx_def pv_def intro!: exI [of _ "[]"])

lemma sim_minv: "minv 1 2 3 [] sim_state"
  using sim_queue_of by (simp add: minv_def sim_state_def sim_ctx_def sized_def local_block_def)

lemma sim_idle: "idle sim_observer sim_start"
  by (simp add: idle_def sim_observer_def sim_start_def)

lemma sim_ready: "ready sim_libusb sim_observer 1 2 3 [] sim_state"
  using sim_minv sim_prompt sim_idle by (simp add: ready_def sim_state_def sim_ctx_def)

text \<open>With a command in the write buffer, and the buffers of the caller.\<close>

lemma sim_sending:
  "minv 1 2 3 [] (emit 1 [0x4b, 0x04, 0x1f] sim_state)"
  "retval (ctx (emit 1 [0x4b, 0x04, 0x1f] sim_state)) = ERROR_OK"
  "max_packet_size (ctx (emit 1 [0x4b, 0x04, 0x1f] sim_state)) = 64"
  "idle sim_observer (device (emit 1 [0x4b, 0x04, 0x1f] sim_state))"
  "2 < read_chunk_size (ctx (emit 1 [0x4b, 0x04, 0x1f] sim_state))"
  "pending 1 (emit 1 [0x4b, 0x04, 0x1f] sim_state) = [0x4b, 0x04, 0x1f]"
  "read_count (ctx (emit 1 [0x4b, 0x04, 0x1f] sim_state)) = 0"
  "sent sim_observer (device (emit 1 [0x4b, 0x04, 0x1f] sim_state)) = []"
proof -
  show "minv 1 2 3 [] (emit 1 [0x4b, 0x04, 0x1f] sim_state)"
    by (rule minv_emit [OF sim_minv]) (simp add: sim_state_def sim_ctx_def)
qed (use sim_idle in \<open>simp_all add: sim_state_def sim_ctx_def emit_def pending_def blit_def sim_observer_def
      sim_start_def\<close>)

text \<open>With a write buffer that has no room for another command.\<close>

definition sim_full :: "sim_device mpsse" where
  "sim_full = emit 1 (replicate 13 0x85) sim_state"

lemma sim_full_facts:
  "minv 1 2 3 [] sim_full" "retval (ctx sim_full) = ERROR_OK" "max_packet_size (ctx sim_full) = 64"
  "idle sim_observer (device sim_full)" "0 < write_count (ctx sim_full)"
  "write_size (ctx sim_full) \<le> write_count (ctx sim_full) + 3"
  "memory sim_full 4 = Some [0x5a, 0xc3, 0x0f, 0x99]"
proof -
  show "minv 1 2 3 [] sim_full"
    unfolding sim_full_def by (rule minv_emit [OF sim_minv]) (simp add: sim_state_def sim_ctx_def)
qed (use sim_idle in \<open>simp_all add: sim_full_def sim_state_def sim_ctx_def\<close>)

lemma sim_caller:
  "p + n \<le> 32 \<Longrightarrow> busy \<subseteq> {0, 1, 2, 3, 5} \<Longrightarrow> out_ok busy (memory sim_state) (Ptr 4 0) p n"
  "p + n \<le> 32 \<Longrightarrow> in_ok {local_block, 1, 2, 3} (memory sim_state) (Ptr 5 0) p n"
  "in_ok own m Null p n"
  by (auto simp: out_ok_def in_ok_def sim_state_def local_block_def)

section \<open>Opening it\<close>

text \<open>Handles and library contexts are numbered; one FT232H with one interface is on the bus.\<close>

definition sim_fresh :: "nat list \<Rightarrow> nat" where
  "sim_fresh xs = Suc (foldr max xs 0)"

definition sim_setup :: "sim_device usb_setup" where
  "sim_setup =
     \<lparr>init = (\<lambda>u. let x = sim_fresh (sim_contexts u) in
          (LIBUSB_SUCCESS, x, u\<lparr>sim_contexts := x # sim_contexts u\<rparr>)),
      exit_usb = (\<lambda>x u. u\<lparr>sim_contexts := removeAll x (sim_contexts u)\<rparr>),
      get_device_list = (\<lambda>x u. (1, [7], u)),
      get_device_descriptor = (\<lambda>d u. (LIBUSB_SUCCESS,
        \<lparr>idVendor = 0x0403, idProduct = 0x6014, bcdDevice = 0x900, iProduct = 2, iSerialNumber = 3,
         bNumConfigurations = 1\<rparr>)),
      open_device = (\<lambda>d u. let x = sim_fresh (sim_handles u) in
          (LIBUSB_SUCCESS, x, u\<lparr>sim_handles := x # sim_handles u\<rparr>)),
      close_device = (\<lambda>h u. u\<lparr>sim_handles := removeAll h (sim_handles u)\<rparr>),
      get_string_ascii = (\<lambda>h i u. (0, [], u)),
      get_bus_number = (\<lambda>d u. 1),
      get_port_numbers = (\<lambda>d u. (1, [4])),
      get_config_descriptor = (\<lambda>d u. (LIBUSB_SUCCESS,
        \<lparr>bConfigurationValue = 1, bNumInterfaces = 1,
         altsettings = [[\<lparr>bNumEndpoints = 2,
           endpoints = [\<lparr>bEndpointAddress = 0x81, wMaxPacketSize = 64\<rparr>,
             \<lparr>bEndpointAddress = 0x02, wMaxPacketSize = 64\<rparr>]\<rparr>]]\<rparr>)),
      get_configuration = (\<lambda>h u. (LIBUSB_SUCCESS, 1, u)),
      set_configuration = (\<lambda>h v u. (LIBUSB_SUCCESS, u)),
      detach_kernel_driver = (\<lambda>h i u. (LIBUSB_SUCCESS, u)),
      claim_interface = (\<lambda>h i u. (LIBUSB_SUCCESS, u))\<rparr>"

definition sim_opened :: "sim_device opened" where
  "sim_opened = (\<lambda>u. set (sim_handles u), \<lambda>u. set (sim_contexts u))"

lemma sim_fresh_notin [simp]: "sim_fresh xs \<notin> set xs" "0 < sim_fresh xs"
proof -
  have "x \<le> foldr max xs 0" if "x \<in> set xs" for x
    using that by (induction xs) auto
  then show "sim_fresh xs \<notin> set xs" by (fastforce simp: sim_fresh_def)
  show "0 < sim_fresh xs" by (simp add: sim_fresh_def)
qed

lemma sim_opens: "opens_ok sim_libusb sim_setup sim_opened"
  by (auto simp: opens_ok_def sim_libusb_def sim_setup_def sim_opened_def took_context_def
      took_handle_def same_open_def handles_def contexts_def Let_def)

text \<open>An allocator that never fails: the blocks are numbered from 1.\<close>

definition sim_block :: "nat \<Rightarrow> u8 list" where
  "sim_block n = replicate n 0"

lemma length_sim_block [simp]: "length (sim_block n) = n"
  by (simp add: sim_block_def)

definition sim_malloc :: "nat \<Rightarrow> mem \<Rightarrow> ptr \<times> mem" where
  "sim_malloc n m =
     (case find (\<lambda>b. m b = None) [1..<64] of
        None \<Rightarrow> (Null, m)
      | Some b \<Rightarrow> (Ptr b 0, m(b \<mapsto> sim_block n)))"

lemma sim_malloc_ok: "malloc_ok sim_malloc"
  unfolding malloc_ok_def sim_malloc_def
  by (auto simp: local_block_def find_Some_iff split: option.splits)

definition no_queue :: copy_heap where
  "no_queue = \<lparr>links = Map.empty, ents = Map.empty, fresh = 1, room = 20000\<rparr>"

definition any_ft232h :: open_args where
  "any_ft232h = \<lparr>arg_vid = Some 0x0403, arg_pid = Some 0x6014, arg_product = None, arg_serial = None,
     arg_location = None\<rparr>"

text \<open>The opening succeeds on it, when the driver asks for any FT232H.\<close>

lemma sim_blocks:
  "m 1 = None \<Longrightarrow> m 2 = None \<Longrightarrow> m 3 = None \<Longrightarrow> open_buffers sim_malloc ch c m =
    (c\<lparr>read_chunk_size := 16384, read_size := 16384, write_size := 16384, read_chunk := Ptr 1 0,
       read_buffer := Ptr 2 0, write_buffer := Ptr 3 0\<rparr>,
     m(1 \<mapsto> sim_block 16384, 2 \<mapsto> sim_block 16384, 3 \<mapsto> sim_block 16384))"
  by (simp add: open_buffers_def sim_malloc_def upt_rec Let_def numeral_2_eq_2 numeral_3_eq_3)

lemma sim_found:
  assumes "usb_interface c = 0"
  shows "open_matching_device False sim_libusb sim_setup any_ft232h c u =
    Some (True, c\<lparr>usb_dev := sim_fresh (sim_handles u), chip_type := TYPE_FT232H,
      in_ep := 0x81, out_ep := 0x02, max_packet_size := 64\<rparr>, u\<lparr>sim_handles := sim_fresh (sim_handles u) # sim_handles u\<rparr>)"
  using assms
  by (simp add: open_matching_device_def sim_setup_def any_ft232h_def try_device_def setup_device_def
      sim_libusb_def chip_of_device_def read_interface_def Let_def LIBUSB_SUCCESS_def)

lemma sim_open_success:
  assumes m: "m 1 = None" "m 2 = None" "m 3 = None"
  shows "\<exists>c m' h' u'. mpsse_open sim_malloc False sim_libusb sim_setup any_ft232h 0 m no_queue sim_start =
    Some (Some c, m', h', u') \<and> max_packet_size c = 64 \<and> idle sim_observer u' \<and> room h' = 19999"
proof -
  let ?h = "no_queue\<lparr>links := (links no_queue)(fresh no_queue \<mapsto> \<lparr>nxt = 0, prv = 0\<rparr>),
      fresh := fresh no_queue + 1, room := room no_queue - 1\<rparr>"
  obtain h where h: "bit_copy_queue_init (fresh no_queue) ?h = Some h" "queue_of (fresh no_queue) h []"
    "room h = 19999"
    using queue_init [of ?h "fresh no_queue"] by (auto simp: no_queue_def)
  have r: "room no_queue \<noteq> 0" by (simp add: no_queue_def)
  have i: "init sim_setup u = (LIBUSB_SUCCESS, sim_fresh (sim_contexts u),
      u\<lparr>sim_contexts := sim_fresh (sim_contexts u) # sim_contexts u\<rparr>)" for u
    by (simp add: sim_setup_def Let_def)
  have ct: "control_transfer sim_libusb dev rt rq v ix t u = (0, u)" for dev rt rq v ix t u
    by (simp add: sim_libusb_def)
  have p: "\<exists>s. mpsse_purge sim_libusb \<lparr>ctx = c, memory = m, queue = h, device = u\<rparr> = Some s \<and>
      max_packet_size (ctx s) = max_packet_size c \<and> device s = u \<and> room (queue s) = 19999" if "read_queue c = fresh no_queue" for c m u
    using mpsse_purge_law [of "\<lparr>ctx = c, memory = m, queue = h, device = u\<rparr>" "[]" sim_libusb] h(2,3) that
    by (auto simp: emptied_def mpsse_purge_def ct Let_def split: bind_splits if_splits)
  obtain c u where c: "mpsse_open sim_malloc False sim_libusb sim_setup any_ft232h 0 m no_queue sim_start =
      do {
        s \<leftarrow> mpsse_purge sim_libusb \<lparr>ctx = c, memory = m(1 \<mapsto> sim_block 16384, 2 \<mapsto> sim_block 16384,
          3 \<mapsto> sim_block 16384), queue = h, device = u\<rparr>;
        Some (Some (ctx s), memory s, queue s, device s)
      }" "read_queue c = fresh no_queue" "max_packet_size c = 64" "idle sim_observer u"
    by (simp add: mpsse_open_def sim_blocks [OF m] i ct Let_def h(1) [simplified] r sim_found calloc_ctx_def
        idle_def sim_observer_def sim_start_def)
  obtain s where s: "mpsse_purge sim_libusb \<lparr>ctx = c, memory = m(1 \<mapsto> sim_block 16384, 2 \<mapsto> sim_block 16384,
      3 \<mapsto> sim_block 16384), queue = h, device = u\<rparr> = Some s" "max_packet_size (ctx s) = 64" "device s = u"
    "room (queue s) = 19999"
    using p [OF c(2)] c(3) by metis
  show ?thesis unfolding c(1) s(1) bind.bind_lunit using s(2-4) c(4) by blast
qed

section \<open>The hardware drivers on it\<close>

text \<open>The driver of the simulated controller with the queue \<open>es\<close>, in blocks 6 to 8.\<close>

definition sim_queue_memory :: "(bool \<times> bool) list \<Rightarrow> mem" where
  "sim_queue_memory es =
     [6 \<mapsto> bytes_of (padded (map fst es)), 7 \<mapsto> bytes_of (padded (map snd es)), 8 \<mapsto> bytes_of (padded [])]"

definition sim_server :: server_ops_t where
  "sim_server = \<lparr>rsvd0 = 0, p_op_store_tdo = 1, p_op_store_unknown_tdo = 2, rsvd1 = 0,
     p_op_tdo_needed = 3, p_op_indicate_flush = 4\<rparr>"

definition sim_driver :: "(bool \<times> bool) list \<Rightarrow> driver" where
  "sim_driver es = \<lparr>server_ops = sim_server, server_ops_data = 9, tdo_data = Ptr 8 0, tms_data = Ptr 6 0,
     tdi_data = Ptr 7 0, tdo_data_count = 0, tdi_data_count = length es, calls = []\<rparr>"

definition sim_dummy :: "(bool \<times> bool) list \<Rightarrow> dummy_driver" where
  "sim_dummy es = driver.extend (sim_driver es) \<lparr>jtag_controller = tap_controller_new\<rparr>"

lemma sim_dummy_queues:
  assumes "length es \<le> 8 * DATA_SIZE_BYTES"
  shows "queues (sim_dummy es) (sim_queue_memory es) es"
  using assms
  by (simp add: queues_def buffers_def sim_dummy_def sim_driver_def sim_queue_memory_def driver.defs)

lemma sim_dummy_ok: "controller_ok (jtag_controller (sim_dummy es))" "server_set (sim_dummy es)"
  using controller_new_ok
  by (simp_all add: sim_dummy_def sim_driver_def sim_server_def server_set_def driver.defs)

definition sim_otma :: "(bool \<times> bool) list \<Rightarrow> sim_device otma_driver" where
  "sim_otma es = driver.extend (sim_driver es)
     \<lparr>ctx_open = True, usb = sim_state\<lparr>memory := memory sim_state ++ sim_queue_memory es\<rparr>\<rparr>"

lemma sim_otma_ready: "ready sim_libusb sim_observer 1 2 3 [] (usb (sim_otma es))"
  using sim_ready
  by (simp add: sim_otma_def ready_def minv_def sized_def sim_queue_memory_def driver.defs local_block_def
      sim_state_def map_add_def)

lemma sim_otma_buffers:
  assumes "length es \<le> 8 * DATA_SIZE_BYTES"
  shows "otma_buffers (own_blocks 1 2 3) 8 (sim_otma es) es 0"
  using assms
  by (simp add: otma_buffers_def sim_otma_def sim_driver_def sim_queue_memory_def driver.defs sized_def
      local_block_def map_add_def)

lemma sim_otma_set: "ctx_open (sim_otma es)" "server_set (sim_otma es)"
  by (simp_all add: sim_otma_def sim_driver_def sim_server_def server_set_def driver.defs)

section \<open>The test program on it\<close>

definition sim_test :: "sim_device test_program" where
  "sim_test =
     \<lparr>board = sim_state\<lparr>memory := [60 \<mapsto> replicate TEST_BYTES 0, 61 \<mapsto> replicate TEST_BYTES 0,
        62 \<mapsto> replicate TEST_BYTES 0], queue := no_queue, device := sim_start\<rparr>,
      arr_tdi = Ptr 61 0, arr_tms = Ptr 60 0, arr_tdo = Ptr 62 0, cur_pos = 0\<rparr>"

lemma sim_test_start: "test_start 60 61 62 sim_test"
  by (simp add: test_start_def sim_test_def local_block_def)

section \<open>The FTDI interface on it\<close>

definition sim_ftdi :: "sim_device ftdi" where
  "sim_ftdi =
     \<lparr>ftdi_device_desc = None, ftdi_serial = None, ftdi_location = None, ftdi_channel = 0, swd_mode = False,
      ftdi_vid = 0x0403 # replicate 8 0, ftdi_pid = 0x6014 # replicate 8 0, mpsse_ctx_ptr = Open_ctx,
      ftdi_bus = sim_state, signals = None, sig_heap = Map.empty, swd_cmd_queue = Null, freq = 0,
      pin_output = 0x0008, pin_direction = 0x000b, jtag_output_init = 0x0008, jtag_direction_init = 0x000b\<rparr>"

text \<open>Before the adapter is opened, and with a reset line and an input on the upper pins.\<close>

definition sim_unopened :: "sim_device ftdi" where
  "sim_unopened = sim_ftdi\<lparr>mpsse_ctx_ptr := No_ctx, ftdi_bus := (ftdi_bus sim_ftdi)\<lparr>memory := Map.empty,
     queue := no_queue, device := sim_start\<rparr>\<rparr>"

definition sim_reset_line :: signal where
  "sim_reset_line = \<lparr>sig_name = Some ''nSRST'', data_mask = 0x0200, input_mask = 0x0240, oe_mask = 0x0100,
     invert_data = False, invert_input = True, invert_oe = True, next_signal = None\<rparr>"

definition sim_wired :: "sim_device ftdi" where
  "sim_wired = sim_ftdi\<lparr>signals := Some 1, sig_heap := [1 \<mapsto> sim_reset_line]\<rparr>"

definition sim_signal_alloc :: signal_alloc where
  "sim_signal_alloc = \<lparr>calloc_signal = (\<lambda>h. find (\<lambda>p. h p = None) [1..<64]), strdup = Some\<rparr>"

lemma sim_signal_alloc_ok: "alloc_ok sim_signal_alloc"
  by (auto simp: alloc_ok_def sim_signal_alloc_def find_Some_iff)

lemma sim_wired_ready: "ready sim_libusb sim_observer 1 2 3 [] (ftdi_bus sim_wired)"
  using sim_ready by (simp add: sim_wired_def sim_ftdi_def)

section \<open>An allocator with all the memory it needs\<close>

definition sim_allocate :: "nat \<Rightarrow> mem \<Rightarrow> ptr \<times> mem" where
  "sim_allocate n m = (let b = Max (insert 0 (Suc ` dom m)) in (Ptr b 0, m(b \<mapsto> sim_block n)))"

lemma sim_block_free:
  fixes m :: mem
  assumes "finite (dom m)"
  shows "m (Max (insert 0 (Suc ` dom m))) = None"
proof -
  have "Suc b \<le> Max (insert 0 (Suc ` dom m))" if "b \<in> dom m" for b
    using assms that by (intro Max_ge) auto
  then show ?thesis by (meson Suc_n_not_le_n domIff)
qed

lemma sim_allocate_fresh: "fresh_malloc sim_allocate (\<lambda>_. True)"
  using sim_block_free by (auto simp: fresh_malloc_def sim_allocate_def Let_def)

text \<open>One that hands out memory with every bit set.\<close>

definition sim_dirty :: "nat \<Rightarrow> mem \<Rightarrow> ptr \<times> mem" where
  "sim_dirty n m = (let b = Max (insert 0 (Suc ` dom m)) in (Ptr b 0, m(b \<mapsto> replicate n 0xff)))"

lemma sim_dirty_fresh: "fresh_malloc sim_dirty (\<lambda>bs. bs \<noteq> [] \<longrightarrow> bits_of bs ! 0 = True)"
proof -
  have "bits_of (replicate n 0xff) ! 0" if "0 < n" for n
    using that by (cases n) (simp_all add: bits_of_Cons byte_bits_ones nth_append)
  then show ?thesis using sim_block_free by (auto simp: fresh_malloc_def sim_dirty_def Let_def)
qed

section \<open>Lists\<close>

text \<open>Two entries, 2 and 3, behind the head 1, and a hash list with the nodes 5 and 6 and a spare node 7.\<close>

definition sim_list :: lheap where
  "sim_list = [1 \<mapsto> \<lparr>nxt = 2, prv = 3\<rparr>, 2 \<mapsto> \<lparr>nxt = 3, prv = 1\<rparr>, 3 \<mapsto> \<lparr>nxt = 1, prv = 2\<rparr>]"

lemma sim_dlist: "dlist sim_list 1 [2, 3]"
  by (auto simp: sim_list_def dlist_def nx_def pv_def)

definition sim_hheap :: hheap where
  "sim_hheap = \<lparr>heads = [0 \<mapsto> Some 5],
     nodes = [5 \<mapsto> \<lparr>hnext = Some 6, pprev = Some (First 0)\<rparr>, 6 \<mapsto> \<lparr>hnext = None, pprev = Some (Next 5)\<rparr>,
       7 \<mapsto> \<lparr>hnext = None, pprev = None\<rparr>]\<rparr>"

lemma sim_hlist: "hlist sim_hheap 0 [5, 6]" "back_of sim_hheap 7 \<noteq> None"
  by (simp_all add: sim_hheap_def hlist_def back_of_def)

section \<open>The adapter is found\<close>

lemma sim_unopened_ids: "zip (ftdi_vid sim_unopened) (ftdi_pid sim_unopened) = (0x0403, 0x6014) # replicate 8 (0, 0)"
  by (simp add: sim_unopened_def sim_ftdi_def zip_replicate)

lemma sim_unopened_start:
  "links (queue (ftdi_bus sim_unopened)) = Map.empty" "ents (queue (ftdi_bus sim_unopened)) = Map.empty"
  "(0, 0) \<in> set (zip (ftdi_vid sim_unopened) (ftdi_pid sim_unopened))" "mpsse_ctx_ptr sim_unopened = No_ctx"
  "\<not> swd_mode sim_unopened" "memory (ftdi_bus sim_unopened) local_block = None"
  by (simp_all only: sim_unopened_ids) (simp_all add: sim_unopened_def sim_ftdi_def no_queue_def)

lemma sim_has_devices: "\<not> enumeration_fails malloc sim_setup ch m h u"
  by (simp add: enumeration_fails_def sim_setup_def split: prod.splits)

text \<open>A library that cannot enumerate the devices.\<close>

definition sim_no_list :: "sim_device usb_setup" where
  "sim_no_list = sim_setup\<lparr>get_device_list := (\<lambda>x u. (- 11, [], u))\<rparr>"

lemma sim_no_list_opens: "opens_ok sim_libusb sim_no_list sim_opened"
  using sim_opens by (simp add: opens_ok_def sim_no_list_def same_open_refl)

lemma sim_no_list_fails: "enumeration_fails sim_malloc sim_no_list 0 Map.empty no_queue sim_start"
  by (simp add: enumeration_fails_def sim_no_list_def sim_setup_def sim_blocks no_queue_def Let_def)

lemma sim_adapter_found:
  "\<exists>d1. open_loop sim_malloc False sim_libusb sim_setup (zip (ftdi_vid sim_unopened) (ftdi_pid sim_unopened))
      sim_unopened = Some d1 \<and> mpsse_ctx_ptr d1 = Open_ctx \<and> max_packet_size (ctx (ftdi_bus d1)) = 64 \<and>
    idle sim_observer (device (ftdi_bus d1))"
proof -
  obtain c m' h' u' where r: "mpsse_open sim_malloc False sim_libusb sim_setup any_ft232h 0 Map.empty no_queue sim_start =
      Some (Some c, m', h', u')" "max_packet_size c = 64" "idle sim_observer u'"
    using sim_open_success [of Map.empty] by auto
  have a: "open_args_of 0x0403 0x6014 sim_unopened = any_ft232h"
    by (simp add: open_args_of_def any_ft232h_def sim_unopened_def sim_ftdi_def)
  have f: "uint (ftdi_channel sim_unopened) = 0" "memory (ftdi_bus sim_unopened) = Map.empty"
    "queue (ftdi_bus sim_unopened) = no_queue" "device (ftdi_bus sim_unopened) = sim_start"
    by (simp_all add: sim_unopened_def sim_ftdi_def)
  show ?thesis
    unfolding sim_unopened_ids by (simp add: open_ftdi_def a f r Let_def)
qed

end
