(* ===== verification/Tap_Debug.thy ===== *)
theory Tap_Debug
  imports Tap_State
begin

text \<open>
  The debug build of \<^verbatim>\<open>openocd/src/jtag/interface.c\<close>: \<open>jtag_debug_state_machine\<close>, which follows
  the state machine along the bits of a TMS buffer and logs the transitions with the TMS and TDI
  bits that led to them.

  The two character arrays have 33 entries with any contents at first; a write past the end, and a
  string without its terminator, have no continuation. A line of the log is the list of the
  arguments of its format.
\<close>

section \<open>The function\<close>

datatype debug_line =
    Start_line string
  | Count_line nat nat
  | Move_line string string string string
  | Final_line string

record debug_state =
  last_tap :: tap_state
  next_tap :: tap_state
  tap_out_bits :: nat
  tms_str :: string
  tdi_str :: string
  log_lines :: "debug_line list"

definition put_char :: "string \<Rightarrow> nat \<Rightarrow> char \<Rightarrow> string option" where
  "put_char buf i c = (if i < length buf then Some (buf[i := c]) else None)"

definition c_string :: "string \<Rightarrow> string option" where
  "c_string buf = (if CHR 0x00 \<in> set buf then Some (takeWhile (\<lambda>c. c \<noteq> CHR 0x00) buf) else None)"

definition digit :: "bool \<Rightarrow> char" where
  "digit b = (if b then CHR ''1'' else CHR ''0'')"

definition JTAG_DEBUG_STATE_APPEND :: "string \<Rightarrow> nat \<Rightarrow> bool \<Rightarrow> string option" where
  "JTAG_DEBUG_STATE_APPEND buf len b = put_char buf len (digit b)"

definition JTAG_DEBUG_STATE_PRINT :: "tap_state \<Rightarrow> tap_state \<Rightarrow> string \<Rightarrow> string \<Rightarrow> debug_line option" where
  "JTAG_DEBUG_STATE_PRINT a b astr bstr = do {
     astr \<leftarrow> c_string astr;
     bstr \<leftarrow> c_string bstr;
     Some (Move_line (tap_state_name a) (tap_state_name b) astr bstr)
   }"

text \<open>The two strings terminated and shown.\<close>

definition show_move :: "debug_state \<Rightarrow> debug_state option" where
  "show_move st = do {
     tdi \<leftarrow> put_char (tdi_str st) (tap_out_bits st) (CHR 0x00);
     tms \<leftarrow> put_char (tms_str st) (tap_out_bits st) (CHR 0x00);
     line \<leftarrow> JTAG_DEBUG_STATE_PRINT (last_tap st) (next_tap st) tms tdi;
     Some (st\<lparr>tms_str := tms, tdi_str := tdi, log_lines := log_lines st @ [line]\<rparr>)
   }"

text \<open>The body of the inner loop after the test for the end of the buffers.\<close>

definition debug_bit :: "mem \<Rightarrow> ptr \<Rightarrow> ptr \<Rightarrow> nat \<Rightarrow> nat \<Rightarrow> debug_state \<Rightarrow> debug_state option" where
  "debug_bit m tms_buffer tdi_buffer cur_byte cur_bit st = do {
     x \<leftarrow> load m tms_buffer cur_byte;
     let tap_bit = get_bit x cur_bit;
     tms \<leftarrow> JTAG_DEBUG_STATE_APPEND (tms_str st) (tap_out_bits st) tap_bit;
     next \<leftarrow> tap_state_transition (last_tap st) tap_bit;
     x \<leftarrow> load m tdi_buffer cur_byte;
     let tap_bit = get_bit x cur_bit;
     tdi \<leftarrow> JTAG_DEBUG_STATE_APPEND (tdi_str st) (tap_out_bits st) tap_bit;
     let st = st\<lparr>next_tap := next, tms_str := tms, tdi_str := tdi,
       tap_out_bits := u32_add (tap_out_bits st) 1\<rparr>;
     if next_tap st = last_tap st \<and> tap_out_bits st < 32 then Some st
     else do {
       st \<leftarrow> show_move st;
       Some (st\<lparr>last_tap := next_tap st, tap_out_bits := 0\<rparr>)
     }
   }"

function debug_bits :: "mem \<Rightarrow> ptr \<Rightarrow> ptr \<Rightarrow> nat \<Rightarrow> nat \<Rightarrow> nat \<Rightarrow> debug_state \<Rightarrow> debug_state option" where
  "debug_bits m tms_buffer tdi_buffer tap_bits cur_byte cur_bit st =
     (if cur_bit < 8 then
        (if u32_add (cur_byte * 8) cur_bit = tap_bits then Some st
         else do {
           st \<leftarrow> debug_bit m tms_buffer tdi_buffer cur_byte cur_bit st;
           debug_bits m tms_buffer tdi_buffer tap_bits cur_byte (cur_bit + 1) st
         })
      else Some st)"
  by pat_completeness auto
termination by (relation "measure (\<lambda>(m, a, b, n, i, j, st). 8 - j)") auto

function debug_bytes :: "mem \<Rightarrow> ptr \<Rightarrow> ptr \<Rightarrow> nat \<Rightarrow> nat \<Rightarrow> nat \<Rightarrow> debug_state \<Rightarrow> debug_state option" where
  "debug_bytes m tms_buffer tdi_buffer tap_bits tap_bytes cur_byte st =
     (if cur_byte < tap_bytes then do {
        st \<leftarrow> debug_bits m tms_buffer tdi_buffer tap_bits cur_byte 0 st;
        debug_bytes m tms_buffer tdi_buffer tap_bits tap_bytes (cur_byte + 1) st
      } else Some st)"
  by pat_completeness auto
termination by (relation "measure (\<lambda>(m, a, b, n, k, i, st). k - i)") auto

declare debug_bits.simps [simp del] debug_bytes.simps [simp del]

definition jtag_debug_state_machine ::
    "mem \<Rightarrow> string \<Rightarrow> string \<Rightarrow> ptr \<Rightarrow> ptr \<Rightarrow> nat \<Rightarrow> tap_state \<Rightarrow> (tap_state \<times> debug_line list) option" where
  "jtag_debug_state_machine m tms_str0 tdi_str0 tms_buf tdi_buf tap_bits next = (
     let tap_bytes = DIV_ROUND_UP tap_bits 8;
       st = \<lparr>last_tap = next, next_tap = next, tap_out_bits = 0, tms_str = tms_str0,
         tdi_str = tdi_str0,
         log_lines = [Start_line (tap_state_name next), Count_line tap_bits tap_bytes]\<rparr>
     in do {
       st \<leftarrow> debug_bytes m tms_buf tdi_buf tap_bits tap_bytes 0 st;
       st \<leftarrow> (if tap_out_bits st \<noteq> 0 then show_move st else Some st);
       Some (next_tap st, log_lines st @ [Final_line (tap_state_name (next_tap st))])
     })"

section \<open>What the log shows\<close>

text \<open>
  A line of the log stands for at most 32 bits, all of which but the last keep the state; a line
  inside the log ends with a change of the state or has 32 bits.
\<close>

definition move_of :: "tap_state \<Rightarrow> tap_state \<Rightarrow> (bool \<times> bool) list \<Rightarrow> debug_line" where
  "move_of a b seg = Move_line (tap_state_name a) (tap_state_name b) (map (digit \<circ> fst) seg) (map (digit \<circ> snd) seg)"

definition keeps_state :: "tap_state \<Rightarrow> (bool \<times> bool) list \<Rightarrow> bool" where
  "keeps_state a seg \<longleftrightarrow> (\<forall>x \<in> set seg. tap_state_transition a (fst x) = Some a)"

inductive traces :: "tap_state \<Rightarrow> (bool \<times> bool) list \<Rightarrow> debug_line list \<Rightarrow> tap_state \<Rightarrow> bool" where
  traces_none: "traces a [] [] a"
| traces_move: "traces a bs ls b \<Longrightarrow> keeps_state b seg \<Longrightarrow> tap_state_transition b (fst x) = Some c \<Longrightarrow>
    c \<noteq> b \<and> length seg < 32 \<or> length seg = 31 \<Longrightarrow>
    traces a (bs @ seg @ [x]) (ls @ [move_of b c (seg @ [x])]) c"

lemma keeps_run: "keeps_state a seg \<Longrightarrow> run_tap tap_state_transition a (map fst seg) = Some a"
  by (induction seg) (auto simp: keeps_state_def)

lemma traces_run: "traces a bs ls b \<Longrightarrow> run_tap tap_state_transition a (map fst bs) = Some b"
  by (induction rule: traces.induct) (simp_all add: run_tap_append keeps_run)

fun shown_tms :: "debug_line \<Rightarrow> string" where
  "shown_tms (Move_line a b tms tdi) = tms"
| "shown_tms _ = []"

fun shown_tdi :: "debug_line \<Rightarrow> string" where
  "shown_tdi (Move_line a b tms tdi) = tdi"
| "shown_tdi _ = []"

lemma traces_shown:
  "traces a bs ls b \<Longrightarrow> concat (map shown_tms ls) = map (digit \<circ> fst) bs \<and>
    concat (map shown_tdi ls) = map (digit \<circ> snd) bs"
  by (induction rule: traces.induct) (simp_all add: move_of_def)

section \<open>The strings\<close>

definition holds_digits :: "string \<Rightarrow> bool list \<Rightarrow> bool" where
  "holds_digits buf bs \<longleftrightarrow> length buf = 33 \<and> take (length bs) buf = map digit bs"

lemma digit_not_null [simp]: "digit b \<noteq> CHR 0x00" "CHR 0x00 \<noteq> digit b"
  by (simp_all add: digit_def)

lemma append_law:
  assumes "holds_digits buf bs" and "length bs < 33"
  shows "\<exists>buf'. JTAG_DEBUG_STATE_APPEND buf (length bs) b = Some buf' \<and> holds_digits buf' (bs @ [b])"
  using assms by (simp add: JTAG_DEBUG_STATE_APPEND_def put_char_def holds_digits_def take_Suc_conv_app_nth)

lemma terminate_law:
  assumes "holds_digits buf bs" and "length bs < 33"
  shows "\<exists>buf'. put_char buf (length bs) (CHR 0x00) = Some buf' \<and> length buf' = 33 \<and>
    c_string buf' = Some (map digit bs)"
proof -
  let ?b = "buf[length bs := CHR 0x00]"
  have "?b = map digit bs @ CHR 0x00 # drop (Suc (length bs)) buf"
    using assms by (simp add: holds_digits_def upd_conv_take_nth_drop)
  moreover have "takeWhile (\<lambda>c. c \<noteq> CHR 0x00) (map digit bs @ CHR 0x00 # ys) = map digit bs" for ys
    by (simp add: takeWhile_append)
  ultimately show ?thesis using assms by (simp add: put_char_def holds_digits_def c_string_def)
qed

section \<open>The loops\<close>

definition shown_so_far :: "tap_state \<Rightarrow> debug_line list \<Rightarrow> (bool \<times> bool) list \<Rightarrow> debug_state \<Rightarrow> bool" where
  "shown_so_far a ls0 bs st \<longleftrightarrow> (\<exists>shown seg ls. bs = shown @ seg \<and> traces a shown ls (last_tap st) \<and>
     log_lines st = ls0 @ ls \<and> keeps_state (last_tap st) seg \<and> next_tap st = last_tap st \<and>
     tap_out_bits st = length seg \<and> length seg < 32 \<and>
     holds_digits (tms_str st) (map fst seg) \<and> holds_digits (tdi_str st) (map snd seg))"

lemma show_move_law:
  assumes "tap_out_bits st = length seg" and "length seg < 33"
    and "holds_digits (tms_str st) (map fst seg)" and "holds_digits (tdi_str st) (map snd seg)"
  shows "\<exists>tms tdi. show_move st = Some (st\<lparr>tms_str := tms, tdi_str := tdi,
    log_lines := log_lines st @ [move_of (last_tap st) (next_tap st) seg]\<rparr>) \<and> length tms = 33 \<and> length tdi = 33"
proof -
  obtain tms where tms: "put_char (tms_str st) (length seg) (CHR 0x00) = Some tms" "length tms = 33"
    "c_string tms = Some (map (digit \<circ> fst) seg)" using terminate_law [OF assms(3)] assms(2) by auto
  obtain tdi where tdi: "put_char (tdi_str st) (length seg) (CHR 0x00) = Some tdi" "length tdi = 33"
    "c_string tdi = Some (map (digit \<circ> snd) seg)" using terminate_law [OF assms(4)] assms(2) by auto
  show ?thesis
    by (intro exI [of _ tms] exI [of _ tdi])
      (simp add: tms tdi assms(1) show_move_def JTAG_DEBUG_STATE_PRINT_def move_of_def)
qed

lemma transition_valid:
  assumes "a \<noteq> TAP_INVALID"
  shows "\<exists>b. tap_state_transition a t = Some b \<and> b \<noteq> TAP_INVALID"
  using assms standard_state_cases follower.step_tap by metis

lemma traces_valid: "traces a bs ls b \<Longrightarrow> a \<noteq> TAP_INVALID \<Longrightarrow> b \<noteq> TAP_INVALID"
proof (induction rule: traces.induct)
  case (traces_move a bs ls b seg x c)
  then show ?case using transition_valid [of b "fst x"] by auto
qed simp

lemma debug_bit_law:
  assumes "shown_so_far a ls0 bs st" and "a \<noteq> TAP_INVALID"
    and "load m tms i = Some x" and "load m tdi i = Some y"
  shows "\<exists>st'. debug_bit m tms tdi i j st = Some st' \<and> shown_so_far a ls0 (bs @ [(bit x j, bit y j)]) st'"
proof -
  let ?b = "(bit x j, bit y j)"
  obtain shown seg ls where p: "bs = shown @ seg" "traces a shown ls (last_tap st)" "log_lines st = ls0 @ ls"
      "keeps_state (last_tap st) seg" "next_tap st = last_tap st" "tap_out_bits st = length seg" "length seg < 32"
      "holds_digits (tms_str st) (map fst seg)" "holds_digits (tdi_str st) (map snd seg)"
    using assms(1) unfolding shown_so_far_def by blast
  obtain c where c: "tap_state_transition (last_tap st) (bit x j) = Some c"
    using transition_valid traces_valid [OF p(2) assms(2)] by blast
  obtain ts where ts: "JTAG_DEBUG_STATE_APPEND (tms_str st) (length seg) (bit x j) = Some ts"
      "holds_digits ts (map fst (seg @ [?b]))" using append_law [OF p(8)] p(7) by auto
  obtain td where td: "JTAG_DEBUG_STATE_APPEND (tdi_str st) (length seg) (bit y j) = Some td"
      "holds_digits td (map snd (seg @ [?b]))" using append_law [OF p(9)] p(7) by auto
  define st1 where "st1 = st\<lparr>next_tap := c, tms_str := ts, tdi_str := td, tap_out_bits := length seg + 1\<rparr>"
  have run: "debug_bit m tms tdi i j st =
      (if c = last_tap st \<and> length seg + 1 < 32 then Some st1
       else do { st \<leftarrow> show_move st1; Some (st\<lparr>last_tap := next_tap st, tap_out_bits := 0\<rparr>) })"
    using assms(3,4) c ts(1) td(1) p(6,7) by (simp add: debug_bit_def st1_def Let_def)
  show ?thesis
  proof (cases "c = last_tap st \<and> length seg + 1 < 32")
    case True
    have "shown_so_far a ls0 (bs @ [?b]) st1" unfolding shown_so_far_def
      by (rule exI [of _ "shown"], rule exI [of _ "seg @ [?b]"], rule exI [of _ ls])
        (use p True c ts(2) td(2) in \<open>auto simp: st1_def keeps_state_def\<close>)
    with run True show ?thesis by simp
  next
    case False
    have "tap_out_bits st1 = length (seg @ [?b])" by (simp add: st1_def)
    from show_move_law [OF this] obtain ts' td' where s: "length ts' = 33" "length td' = 33"
        "show_move st1 = Some (st1\<lparr>tms_str := ts', tdi_str := td',
           log_lines := log_lines st1 @ [move_of (last_tap st1) (next_tap st1) (seg @ [?b])]\<rparr>)"
      using p(7) ts(2) td(2) by (auto simp: st1_def)
    have "traces a (shown @ seg @ [?b]) (ls @ [move_of (last_tap st) c (seg @ [?b])]) c"
      by (rule traces_move [OF p(2,4)]) (use c False p(7) in auto)
    then have "shown_so_far a ls0 (bs @ [?b]) (st1\<lparr>tms_str := ts', tdi_str := td',
           log_lines := log_lines st1 @ [move_of (last_tap st1) (next_tap st1) (seg @ [?b])],
           last_tap := c, tap_out_bits := 0\<rparr>)"
      unfolding shown_so_far_def using s(1,2) p(1,3)
      by (intro exI [of _ "bs @ [?b]"] exI [of _ "[]"] exI) (auto simp: st1_def keeps_state_def holds_digits_def)
    with run False s(3) show ?thesis by (auto simp: st1_def)
  qed
qed

text \<open>The two loops pass over the bits one by one.\<close>

lemma debug_bits_inv:
  assumes step: "\<And>k st. k < n \<Longrightarrow> P k st \<Longrightarrow>
      \<exists>st'. debug_bit m tms tdi (k div 8) (k mod 8) st = Some st' \<and> P (Suc k) st'"
    and "n < 2 ^ 32" and "8 * i < n" and "j \<le> 8" and "8 * i + j \<le> n" and "P (8 * i + j) st"
  shows "\<exists>st'. debug_bits m tms tdi n i j st = Some st' \<and> P (min n (8 * i + 8)) st'"
  using assms(4-)
proof (induction "8 - j" arbitrary: j st)
  case 0
  then have "j = 8" by simp
  with 0 show ?case by (simp add: debug_bits.simps)
next
  case (Suc d)
  then have j: "j < 8" by simp
  have k: "(8 * i + j) div 8 = i" "(8 * i + j) mod 8 = j" using j by simp_all
  have w: "u32_add (i * 8) j = 8 * i + j" using Suc.prems(2) assms(2) by simp
  show ?case
  proof (cases "8 * i + j = n")
    case True
    then have "min n (8 * i + 8) = n" using j by simp
    with True w j Suc.prems(3) show ?thesis by (simp add: debug_bits.simps)
  next
    case False
    with Suc.prems(2) have less: "8 * i + j < n" by simp
    from step [OF less Suc.prems(3)] k obtain st1 where
      st1: "debug_bit m tms tdi i j st = Some st1" "P (Suc (8 * i + j)) st1" by auto
    have "\<exists>st'. debug_bits m tms tdi n i (Suc j) st1 = Some st' \<and> P (min n (8 * i + 8)) st'"
      using Suc.hyps(1) [of "Suc j" st1] Suc.hyps(2) less j st1(2) by simp
    with st1(1) j w False show ?thesis by (simp add: debug_bits.simps [of m tms tdi n i j])
  qed
qed

lemma debug_bytes_inv:
  assumes step: "\<And>k st. k < n \<Longrightarrow> P k st \<Longrightarrow>
      \<exists>st'. debug_bit m tms tdi (k div 8) (k mod 8) st = Some st' \<and> P (Suc k) st'"
    and "n < 2 ^ 32" and "i \<le> (n + 7) div 8" and "P (min n (8 * i)) st"
  shows "\<exists>st'. debug_bytes m tms tdi n ((n + 7) div 8) i st = Some st' \<and> P n st'"
  using assms(3-)
proof (induction "(n + 7) div 8 - i" arbitrary: i st)
  case 0
  then have i: "i = (n + 7) div 8" by simp
  have "n \<le> 8 * i" unfolding i by (rule le_ceil8)
  then have "min n (8 * i) = n" by simp
  with 0 i show ?case by (simp add: debug_bytes.simps)
next
  case (Suc d)
  then have i: "i < (n + 7) div 8" by simp
  then have less: "8 * i < n" by linarith
  then have "P (8 * i + 0) st" using Suc.prems(2) by (simp add: min_def)
  from debug_bits_inv [of n P m tms tdi i 0 st, OF step assms(2) less _ _ this] less
  obtain st1 where st1: "debug_bits m tms tdi n i 0 st = Some st1" "P (min n (8 * Suc i)) st1"
    by (auto simp: add.commute)
  have "\<exists>st'. debug_bytes m tms tdi n ((n + 7) div 8) (Suc i) st1 = Some st' \<and> P n st'"
    using Suc.hyps(1) [of "Suc i" st1] Suc.hyps(2) i st1(2) by simp
  with st1(1) i show ?case by (simp add: debug_bytes.simps [of m tms tdi n _ i])
qed

lemma load_of_bytes: "load_bytes m p n = Some bs \<Longrightarrow> i < n \<Longrightarrow> load m p i = Some (bs ! i)"
  by (cases p) (auto split: option.splits if_splits)

lemma load_bytes_lengths: "load_bytes m p n = Some T \<Longrightarrow> load_bytes m q n = Some D \<Longrightarrow> length T = length D"
  by (cases p; cases q) (auto split: option.splits if_splits)

text \<open>The result is the state that the TMS bits lead to, and the log shows all the bits.\<close>

lemma jtag_debug_state_machine_law:
  assumes "a \<noteq> TAP_INVALID" and "n < 2 ^ 32 - 8" and "length tms0 = 33" and "length tdi0 = 33"
    and "load_bytes m tms ((n + 7) div 8) = Some T" and "load_bytes m tdi ((n + 7) div 8) = Some D"
  obtains shown seg ls b where "take n (zip (bits_of T) (bits_of D)) = shown @ seg"
    and "traces a shown ls b" and "keeps_state b seg" and "length seg < 32"
    and "jtag_debug_state_machine m tms0 tdi0 tms tdi n a =
      Some (b, [Start_line (tap_state_name a), Count_line n ((n + 7) div 8)] @ ls @
        (if seg = [] then [] else [move_of b b seg]) @ [Final_line (tap_state_name b)])"
proof -
  let ?nb = "(n + 7) div 8" and ?ls0 = "[Start_line (tap_state_name a), Count_line n ((n + 7) div 8)]"
    and ?bits = "zip (bits_of T) (bits_of D)"
  have len: "length T = ?nb" "length D = ?nb"
    using assms(5,6) by (cases tms; cases tdi; auto split: option.splits if_splits)+
  then have n: "n \<le> length ?bits" using le_ceil8 [of n] by simp
  let ?st = "\<lparr>last_tap = a, next_tap = a, tap_out_bits = 0, tms_str = tms0, tdi_str = tdi0, log_lines = ?ls0\<rparr>"
  have start: "shown_so_far a ?ls0 (take (min n (8 * 0)) ?bits) ?st" unfolding shown_so_far_def
    by (rule exI [of _ "[]"], rule exI [of _ "[]"], rule exI [of _ "[]"])
      (simp add: traces_none keeps_state_def holds_digits_def assms(3,4))
  have step: "\<exists>st'. debug_bit m tms tdi (k div 8) (k mod 8) st = Some st' \<and> shown_so_far a ?ls0 (take (Suc k) ?bits) st'"
    if "k < n" "shown_so_far a ?ls0 (take k ?bits) st" for k st
  proof -
    have k: "k div 8 < ?nb" "k < 8 * length T" "k < 8 * length D" using that(1) n len by auto
    have "take (Suc k) ?bits = take k ?bits @ [(bit (T ! (k div 8)) (k mod 8), bit (D ! (k div 8)) (k mod 8))]"
      using k by (simp add: take_Suc_conv_app_nth nth_bits_of)
    then show ?thesis
      using debug_bit_law [OF that(2) assms(1) load_of_bytes [OF assms(5) k(1)] load_of_bytes [OF assms(6) k(1)]]
      by simp
  qed
  obtain st where st: "debug_bytes m tms tdi n ?nb 0 ?st = Some st" "shown_so_far a ?ls0 (take n ?bits) st"
    using debug_bytes_inv [of n "\<lambda>k. shown_so_far a ?ls0 (take k ?bits)" m tms tdi 0 ?st, OF step] start assms(2) by auto
  obtain shown seg ls where p: "take n ?bits = shown @ seg" "traces a shown ls (last_tap st)" "log_lines st = ?ls0 @ ls"
      "keeps_state (last_tap st) seg" "next_tap st = last_tap st" "tap_out_bits st = length seg" "length seg < 32"
      "holds_digits (tms_str st) (map fst seg)" "holds_digits (tdi_str st) (map snd seg)"
    using st(2) unfolding shown_so_far_def by blast
  show thesis
  proof (rule that [OF p(1,2,4,7)])
    have s: "\<exists>st'. (if tap_out_bits st \<noteq> 0 then show_move st else Some st) = Some st' \<and> next_tap st' = last_tap st \<and>
        log_lines st' = ?ls0 @ ls @ (if seg = [] then [] else [move_of (last_tap st) (last_tap st) seg])"
      using show_move_law [OF p(6) _ p(8,9)] p(3,5,6,7) by auto
    show "jtag_debug_state_machine m tms0 tdi0 tms tdi n a = Some (last_tap st, ?ls0 @ ls @
        (if seg = [] then [] else [move_of (last_tap st) (last_tap st) seg]) @ [Final_line (tap_state_name (last_tap st))])"
      using s st(1) DIV_ROUND_UP_8 [OF assms(2)] by (auto simp: jtag_debug_state_machine_def Let_def)
  qed
qed

end
