(* ===== verification/Spec2Isabelle.thy ===== *)
theory Spec2Isabelle
  imports Buffer_Laws Text_Laws Bit_Queue Time_Support Byte_Order Simulated_Device Tap_Debug
begin

text \<open>
  A verification development for \<^verbatim>\<open>jtag-quartus-ft232h\<close>, a shared library that Quartus
  loads as a JTAG hardware driver and that drives the JTAG pins of an FT232H through the MPSSE
  engine of the chip, with code taken from OpenOCD.

  The parts, as they call each other (file names under \<^verbatim>\<open>src/\<close>):

  \<^item> \<^verbatim>\<open>src/jtag_hw_otma.cpp\<close> is the driver. Quartus queues edges (pairs of TMS and TDI
    levels) through the functions of a table; a flush clocks them with \<open>mpsse_clock_tms_cs\<close>, one
    bit at a time, flushes the MPSSE context and hands the bytes of the answer to the server.
    Theory \<open>Otma_Driver\<close>. \<^verbatim>\<open>src/jtag_hw_dummy.cpp\<close> is the same driver over a simulated
    device; theories \<open>Quartus_Driver\<close> (code) and \<open>Quartus_Laws\<close>.
  \<^item> \<^verbatim>\<open>inc/jtag_tap_controller.hpp\<close> and \<^verbatim>\<open>inc/shift_reg.hpp\<close> are the simulated device, a
    TAP controller with an identification and a bypass register. Theories \<open>Tap_Controller\<close> and
    \<open>Shift_Reg\<close>.
  \<^item> \<^verbatim>\<open>openocd/src/jtag/drivers/mpsse.c\<close> buffers MPSSE commands and exchanges them with the chip
    through asynchronous libusb transfers. Theories \<open>Mpsse\<close> (state, buffers, callbacks, flush),
    \<open>Mpsse_Commands\<close> (the commands), \<open>Mpsse_Open\<close> (finding, opening and closing a device), and
    their laws: \<open>Mpsse_Laws\<close> (the invariant \<open>minv\<close>), \<open>Mpsse_Flush\<close> and \<open>Mpsse_Outcome\<close> (the
    flush), \<open>Mpsse_Stream\<close> (the byte stream to the chip, decoded by \<open>decode\<close> into commands),
    \<open>Mpsse_Receive\<close> (the bytes from the chip: \<open>sampled\<close> reads them as the samples of a list of
    commands, and the invariant \<open>collects\<close> says that the samples are on their way to the caller's
    buffer), \<open>Mpsse_Clock\<close>, \<open>Mpsse_Tms\<close>, \<open>Mpsse_Config\<close> (what each command adds to the stream and
    what it receives), \<open>Mpsse_Errors\<close> (what a failed flush leaves), \<open>Mpsse_Open_Laws\<close> (no leaks).
  \<^item> \<^verbatim>\<open>openocd/src/jtag/drivers/ftdi.c\<close> opens an adapter, configures its pins and clock, and drives
    and reads named signals, all through the functions of \<^verbatim>\<open>mpsse.c\<close>. Theories \<open>Ftdi\<close> (the code
    that is compiled), \<open>Ftdi_Laws\<close> (the list of signals, the pins), \<open>Ftdi_Init_Laws\<close>.
  \<^item> \<^verbatim>\<open>openocd/src/helper/binarybuffer.c\<close> and \<^verbatim>\<open>.h\<close>: bit fields, bit copies, comparison,
    shifts in byte buffers (\<open>Binary_Buffer\<close>, \<open>Buffer_Laws\<close>), conversions to and from text
    (\<open>Buffer_Text\<close>, \<open>Text_Laws\<close>), and the queue of delayed copies with which \<^verbatim>\<open>mpsse.c\<close>
    distributes the bytes it reads (\<open>Bit_Queue\<close>), over the circular lists of \<^verbatim>\<open>helper/list.h\<close>
    (\<open>Linked_List\<close>; the hash lists and the loops of that file are in \<open>Hash_List\<close> and \<open>List_Entries\<close>).
  \<^item> \<^verbatim>\<open>openocd/src/jtag/interface.c\<close>: the TAP state machine, the tables of TMS sequences and the
    state names of the cable drivers (\<open>Tap_State\<close>), and the debug state machine (\<open>Tap_Debug\<close>).
  \<^item> \<^verbatim>\<open>src/test_mpsse.c\<close> is a program that opens an adapter, reads the identification code of the
    device on it through \<^verbatim>\<open>mpsse.c\<close> and prints it (\<open>Test_Program\<close>).
  \<^item> \<^verbatim>\<open>helper/types.h\<close> (\<open>Byte_Order\<close>) and \<^verbatim>\<open>helper/time_support.c\<close> (\<open>Time_Support\<close>).

  How code becomes definitions. Memory is a partial map from block numbers to byte lists and a
  pointer a block with an offset (\<open>Prelude\<close>); every access is checked, and a function that may
  read outside a block, fail an assertion, overflow an \<open>int\<close> or run forever returns an option whose
  \<open>None\<close> is that behaviour. So a theorem that says \<open>Some\<close> also says that none of it happens. Structs
  and the static variables of a file are records; the state of the MPSSE driver is the record
  \<open>mpsse\<close> with the context, the memory, the heap of queue nodes and the state of libusb. Integers
  that may wrap around keep their width (\<open>u32_add\<close>, words). Loops are structural recursion, or
  \<open>partial_function (option)\<close> for the polling and clocking loops, whose return is then a theorem
  (C2, C3, C4); no fuel is used anywhere.

  libusb, \<open>malloc\<close>, and the server of Quartus are not in the repository: the functions of libusb are
  the records \<open>libusb\<close> and \<open>usb_setup\<close>, an argument of the definitions that call them. What the
  theorems rely on is stated as predicates: \<open>bulk_ok\<close> (a transfer completes at most once, with at
  most the bytes it was submitted with), \<open>prompt\<close> (a device that answers: every submission is
  accepted and each call of the event loop completes every transfer in flight with at least one byte
  of payload; an assumption on the adapter that the documentation of libusb does not give, part of
  \<open>ready\<close>, on which the theorems about single commands rest), \<open>opens_ok\<close> (opening gives
  a new handle, closing gives it back), \<open>malloc_ok\<close> (a new block, or null). Theory
  \<open>Simulated_Device\<close> has a device, an allocator and drivers on them that meet them all; the
  witnesses run on these.

  The interfaces are locales: the TAP state machine (\<open>tap_machine\<close>, interpreted on the machine of
  the cable drivers and on the one of the simulated device), the queue of delayed copies
  (in \<open>Bit_Queue\<close>, interpreted on the linked list), the byte swap loop (\<open>byte_swap\<close>, interpreted
  on the 16-bit and the 32-bit loop), and the loop over entries (\<open>node_walk\<close>, interpreted on the
  forward and the backward loop).

  The properties follow, in the order of their numbers: C1 to C11 the MPSSE driver, C12 to C17 the
  FTDI interface, C18 to C22 the TAP state machines, C23 to C27 binary buffers, C28 to C30 buffers
  as text, C31 to C34 lists and the queue of delayed copies, C35 the simulated device, C36 to C39
  the hardware driver with the simulated device, C40 the test program. C10, C16, C26, C29 and C39
  state faults of the code.

  Not modelled:
  \<^item> The parts of \<^verbatim>\<open>jtag/drivers/ftdi.c\<close> between \<open>#if 0\<close> and \<open>#endif\<close> (the execution of OpenOCD's JTAG
    commands, its command handlers, SWD). They are not compiled, and cannot be: the structures
    and functions they use are declared in OpenOCD headers that are not in the repository.
  \<^item> \<^verbatim>\<open>jtag.h\<close> beyond the TAP states, \<^verbatim>\<open>interface.h\<close> beyond \<open>tap_set_state\<close>,
    \<^verbatim>\<open>minidriver.h\<close>, \<^verbatim>\<open>minidriver_imp.h\<close>: declarations without code.
  \<^item> The allocation and the release of the transfers (\<open>libusb_alloc_transfer\<close>, \<open>libusb_free_transfer\<close>),
    of the device list and of the configuration descriptor: they have no effect on the state.
    \<open>decode\<close> knows both bit orders of the chip, but the theorems are about the modes that shift the
    least significant bit first; the source marks the others as unfinished.
  \<^item> Logging and the debug socket: output only. Logging macros are taken to have no effect.
  \<^item> \<open>duration_elapsed\<close> and \<open>duration_kbps\<close>, which turn a duration into a floating point number.
  \<^item> That the device answers as a TAP controller does: what comes back is left open, and theorems
    that need an answer name it (\<open>sampled\<close> of the bytes the device reported).
\<close>

section \<open>The MPSSE driver\<close>

text \<open>
  C1. Whatever the device does, a flush that returns has one of two outcomes. Either it reports
  success, and the device has received exactly the bytes that were queued, in order and once, the
  queued copies have been made from the bytes the device answered, and the buffers are empty. Or
  it reports failure, and the buffers and the queue are empty again and nothing outside the
  buffers of the context has changed. In both cases the invariant of the context holds afterwards.
\<close>

theorem flush_has_two_outcomes:
  assumes "bulk_ok L ob (unat (max_packet_size (ctx s)))" and "minv wb rb cb es s"
    and "retval (ctx s) = ERROR_OK" and "idle ob (device s)" and "mpsse_flush L s = Some (rc, s')"
  shows "rc = ERROR_OK \<and> flushed ob wb rb cb es s s' \<or> rc = ERROR_FAIL \<and> flush_aborted wb rb cb s s'"
  by (rule flush_outcome [OF assms])

theorem flush_has_two_outcomes_witness:
  "\<exists>rc s'. mpsse_flush sim_libusb (emit 1 [0x4b, 0x04, 0x1f] sim_state) = Some (rc, s') \<and>
    (rc = ERROR_OK \<and> flushed sim_observer 1 2 3 [] (emit 1 [0x4b, 0x04, 0x1f] sim_state) s' \<or>
     rc = ERROR_FAIL \<and> flush_aborted 1 2 3 (emit 1 [0x4b, 0x04, 0x1f] sim_state) s')"
proof -
  let ?s = "emit 1 [0x4b, 0x04, 0x1f] sim_state"
  obtain s' where s': "mpsse_flush sim_libusb ?s = Some (ERROR_OK, s')"
    using flush_prompt [of sim_libusb sim_observer ?s 1 2 3 "[]"] sim_sending sim_prompt by auto
  with flush_has_two_outcomes [of sim_libusb sim_observer ?s 1 2 3 "[]" ERROR_OK s'] sim_sending sim_bulk
  show ?thesis by auto
qed

text \<open>
  C2. On a device that answers, a flush returns, and reports success.
\<close>

theorem flush_completes:
  assumes "prompt L ob (unat (max_packet_size (ctx s)))" and "minv wb rb cb es s"
    and "retval (ctx s) = ERROR_OK" and "idle ob (device s)" and "2 < read_chunk_size (ctx s)"
  shows "\<exists>s'. mpsse_flush L s = Some (ERROR_OK, s') \<and> flushed ob wb rb cb es s s'"
  by (rule flush_prompt [OF assms])

theorem flush_completes_witness:
  "\<exists>s'. mpsse_flush sim_libusb (emit 1 [0x4b, 0x04, 0x1f] sim_state) = Some (ERROR_OK, s') \<and>
    sent sim_observer (device s') = [0x4b, 0x04, 0x1f]"
proof -
  let ?s = "emit 1 [0x4b, 0x04, 0x1f] sim_state"
  obtain s' where "mpsse_flush sim_libusb ?s = Some (ERROR_OK, s')" "flushed sim_observer 1 2 3 [] ?s s'"
    using flush_completes [of sim_libusb sim_observer ?s 1 2 3 "[]"] sim_sending sim_prompt by auto
  with sim_sending show ?thesis by (simp add: flushed_def)
qed

text \<open>
  C3. On a device that answers (\<open>prompt\<close>: it accepts every transfer, and each call of
  the event loop completes those in flight with at least one byte of payload), with a context that
  holds no error, \<open>mpsse_clock_data\<close> returns for every length when the mode shifts
  the least significant bit first, and the commands it adds to the byte stream to the device clock
  out, over however many commands and flushes it takes, exactly the \<open>len\<close> bits of
  \<open>out\<close> from \<open>out_offset\<close> on, in order (zeros when there is neither
  input nor output), with exactly \<open>len\<close> clocks. The caller's memory outside the
  blocks that wait for data is unchanged.
\<close>

theorem clock_data_streams:
  assumes "ready L ob wb rb cb es s" and "\<not> bit mode 7 \<and> \<not> bit mode 6 \<and> \<not> bit mode 1 \<and> bit mode 3"
    and "bit mode 4 \<longrightarrow> out \<noteq> Null \<or> in_buf = Null" and "bit mode 5 \<longrightarrow> in_buf \<noteq> Null"
    and "out_ok (own_blocks wb rb cb \<union> dst_blocks es \<union> ptr_blocks in_buf) (memory s) out out_offset len"
    and "in_ok (own_blocks wb rb cb) (memory s) in_buf in_offset len"
    and "out_offset + len < 2 ^ 32" and "in_offset + len < 2 ^ 32"
  shows "\<exists>s' es'. mpsse_clock_data L out out_offset in_buf in_offset len mode s = Some s' \<and>
    clocked tdi_stream L ob wb rb cb in_buf in_offset (wanted (memory s) out in_buf out_offset len) len es s es' s'"
proof -
  note M = shift_mode_intro [OF assms(2,3)]
  let ?v = "\<lparr>out_at = out_offset, in_at = in_offset, rest = len\<rparr>"
  have v: "out_at ?v = out_offset" "in_at ?v = in_offset" "rest ?v = len" by simp_all
  have "mpsse_clock_data L out out_offset in_buf in_offset len mode s =
      clock_loop L out in_buf (clock_mode out in_buf mode) ?v s"
    using ready_retval [OF assms(1)] by (simp add: mpsse_clock_data_def)
  then show ?thesis
    using clock_loop_law [OF assms(1) M clock_mode_reads, of ?v, unfolded v, OF _ assms(5-)] by presburger
qed

theorem clock_data_streams_witness:
  "\<exists>s' es'. mpsse_clock_data sim_libusb (Ptr 4 0) 3 (Ptr 5 0) 1 27 0x08 sim_state = Some s' \<and>
    clocked tdi_stream sim_libusb sim_observer 1 2 3 (Ptr 5 0) 1
      (wanted (memory sim_state) (Ptr 4 0) (Ptr 5 0) 3 27) 27 [] sim_state es' s'"
  by (rule clock_data_streams [OF sim_ready _ _ _ sim_caller(1,2)])
    (simp_all add: local_block_def ptr_blocks_def)

text \<open>
  C4. On a device that answers (\<open>prompt\<close>), with a context that holds no error and a
  mode that makes one of the six TMS commands of the chip (least significant bit first, no TDI
  data, the read edge chosen only for a read), \<open>mpsse_clock_tms_cs\<close> returns for every
  length and puts exactly the \<open>len\<close> bits of \<open>out\<close> on TMS, in order,
  seven at most in a command, with TDI held at the level \<open>tdi\<close> during all of them.
\<close>

theorem clock_tms_cs_streams:
  assumes "ready L ob wb rb cb es s" and "\<not> bit mode 7 \<and> \<not> bit mode 4 \<and> bit mode 3"
    and "in_buf = Null \<longrightarrow> \<not> bit mode 5 \<and> \<not> bit mode 2" and "out \<noteq> Null"
    and "out_ok (own_blocks wb rb cb \<union> dst_blocks es \<union> ptr_blocks in_buf) (memory s) out out_offset len"
    and "in_ok (own_blocks wb rb cb) (memory s) in_buf in_offset len"
    and "out_offset + len < 2 ^ 32" and "in_offset + len < 2 ^ 32"
  shows "\<exists>s' es'. mpsse_clock_tms_cs L out out_offset in_buf in_offset len tdi mode s = Some s' \<and>
    clocked tms_stream L ob wb rb cb in_buf in_offset
      (map (\<lambda>b. (b, tdi)) (wanted (memory s) out in_buf out_offset len)) len es s es' s'"
proof -
  let ?v = "\<lparr>out_at = out_offset, in_at = in_offset, rest = len\<rparr>"
  let ?M = "if in_buf \<noteq> Null then (mode OR 0x42) OR 0x20 else mode OR 0x42"
  have v: "out_at ?v = out_offset" "in_at ?v = in_offset" "rest ?v = len" by simp_all
  have "mpsse_clock_tms_cs L out out_offset in_buf in_offset len tdi mode s = tms_loop L out in_buf tdi ?M ?v s"
    using ready_retval [OF assms(1)] assms(4) by (simp add: mpsse_clock_tms_cs_def)
  moreover have "tms_op ?M" using assms(2,3) by (simp add: tms_op_bits bit_or_iff)
  moreover have "in_buf \<noteq> Null \<Longrightarrow> bit ?M 5" by (simp add: bit_or_iff)
  ultimately show ?thesis
    using tms_loop_law [OF assms(1) _ assms(4), of ?M in_buf ?v tdi, unfolded v, OF _ _ assms(5-)] by presburger
qed

theorem clock_tms_cs_streams_witness:
  "\<exists>s' es'. mpsse_clock_tms_cs sim_libusb (Ptr 4 0) 2 Null 0 20 True 0x09 sim_state = Some s' \<and>
    clocked tms_stream sim_libusb sim_observer 1 2 3 Null 0
      (map (\<lambda>b. (b, True)) (wanted (memory sim_state) (Ptr 4 0) Null 2 20)) 20 [] sim_state es' s'"
  by (rule clock_tms_cs_streams [OF sim_ready _ _ _ sim_caller(1,3)])
    (simp_all add: local_block_def ptr_blocks_def)

text \<open>
  C5. What \<open>mpsse_clock_data\<close> reads arrives. On a device that answers
  (\<open>prompt\<close>), with no other read pending, after the next \<open>mpsse_flush\<close>
  the buffer \<open>in\<close> holds, from \<open>in_offset\<close> on, the samples of TDO that
  the device reported for the commands of the transfer: one for each of the \<open>len\<close>
  clocks, in the order of the clocks, over however many commands and flushes the transfer takes
  and however many of the bits of the last byte are used. Nothing else of the buffer changes. The
  mode is one that shifts the least significant bit first, and the copies can be allocated.
\<close>

theorem clock_data_reads:
  assumes "ready L ob wb rb cb [] s" and "read_count (ctx s) = 0" and "read_size (ctx s) \<le> room (queue s)"
    and "\<not> bit mode 7 \<and> \<not> bit mode 6 \<and> \<not> bit mode 1 \<and> bit mode 3" and "bit mode 4 \<longrightarrow> out \<noteq> Null"
    and "out_ok (own_blocks wb rb cb \<union> {ib}) (memory s) out out_offset len"
    and "memory s ib = Some D" and "ib \<notin> own_blocks wb rb cb"
    and "8 * p + in_offset + len \<le> 8 * length D"
    and "out_offset + len < 2 ^ 32" and "in_offset + len < 2 ^ 32"
  shows "\<exists>s1 s2 cs ys. mpsse_clock_data L out out_offset (Ptr ib p) in_offset len mode s = Some s1 \<and>
    mpsse_flush L s1 = Some (ERROR_OK, s2) \<and> advance ob wb s cs s2 \<and>
    tdi_stream cs = wanted (memory s) out (Ptr ib p) out_offset len \<and> clocks cs = len \<and>
    answered ob s ys s2 \<and> length ys = reply_length cs \<and> length (sampled cs ys) = len \<and>
    memory s2 ib = Some (bytes_of (blit (bits_of D) (8 * p + in_offset) (sampled cs ys) 0 len))"
proof -
  let ?v = "\<lparr>out_at = out_offset, in_at = in_offset, rest = len\<rparr>" and ?in = "Ptr ib p"
  have "bit mode 4 \<longrightarrow> out \<noteq> Null \<or> ?in = Null" using assms(5) by simp
  note M = shift_mode_intro [OF assms(4) this]
  have v: "out_at ?v = out_offset" "in_at ?v = in_offset" "rest ?v = len" by simp_all
  have o: "out_ok (own_blocks wb rb cb \<union> dst_blocks [] \<union> ptr_blocks ?in) (memory s) out out_offset len"
    using assms(6) by (simp add: ptr_blocks_def)
  have i: "in_ok (own_blocks wb rb cb) (memory s) ?in in_offset len"
    using assms(7-9) by (simp add: in_ok_def)
  have "mpsse_clock_data L out out_offset ?in in_offset len mode s =
      clock_loop L out ?in (clock_mode out ?in mode) ?v s"
    using ready_retval [OF assms(1)] by (simp add: mpsse_clock_data_def)
  moreover obtain s1 es where "clock_loop L out ?in (clock_mode out ?in mode) ?v s = Some s1"
    and c: "clocked tdi_stream L ob wb rb cb ?in in_offset
      (wanted (memory s) out ?in out_offset len) len [] s es s1"
    using clock_loop_law [OF assms(1) M clock_mode_reads, of ?v, unfolded v, OF _ o i assms(10,11)] by blast
  ultimately have s1: "mpsse_clock_data L out out_offset ?in in_offset len mode s = Some s1" by simp
  from c obtain cs where cs: "advance ob wb s cs s1" "tdi_stream cs = wanted (memory s) out ?in out_offset len"
    "clocks cs = len" "receives ob wb rb cb ?in in_offset cs [] s es s1" and r1: "ready L ob wb rb cb es s1"
    by (auto simp: clocked_def)
  obtain s2 qs where s2: "mpsse_flush L s1 = Some (ERROR_OK, s2)" "flushed ob wb rb cb es s1 s2"
    "advance ob wb s1 qs s2" "quiet qs"
    using flush_rc_ready [OF r1] by blast
  have inv: "minv wb rb cb es s1" using r1 by (simp add: ready_def)
  have "8 * p + in_offset + clocks cs \<le> 8 * length D" using assms(9) cs(3) by simp
  from receives_end [OF cs(4) inv s2(2,4) assms(2,3,7,8) this] cs(3) obtain ys where
    "answered ob s ys s2" "length ys = reply_length (cs @ qs)" "length (sampled (cs @ qs) ys) = len"
    "memory s2 ib = Some (bytes_of (blit (bits_of D) (8 * p + in_offset) (sampled (cs @ qs) ys) 0 len))"
    by auto
  moreover have "advance ob wb s (cs @ qs) s2" by (rule advance_trans [OF cs(1) s2(3)])
  moreover have "tdi_stream (cs @ qs) = wanted (memory s) out ?in out_offset len" "clocks (cs @ qs) = len"
    using cs(2,3) s2(4) by simp_all
  ultimately show ?thesis using s1 s2(1) by blast
qed

theorem clock_data_reads_witness:
  "\<exists>s1 s2 bs. mpsse_clock_data sim_libusb (Ptr 4 0) 3 (Ptr 5 0) 1 27 0x08 sim_state = Some s1 \<and>
    mpsse_flush sim_libusb s1 = Some (ERROR_OK, s2) \<and> length bs = 27 \<and>
    memory s2 5 = Some (bytes_of (blit (bits_of [0, 0, 0, 0]) 1 bs 0 27))"
proof -
  have "read_count (ctx sim_state) = 0" "read_size (ctx sim_state) \<le> room (queue sim_state)"
    "memory sim_state 5 = Some [0, 0, 0, 0]"
    by (simp_all add: sim_state_def sim_ctx_def sim_queue_def)
  then show ?thesis
    using clock_data_reads [OF sim_ready, where mode = "0x08" and out = "Ptr 4 0" and ib = 5 and p = 0
        and out_offset = 3 and in_offset = 1 and len = 27 and D = "[0, 0, 0, 0]"]
      sim_caller(1) [of 3 27 "own_blocks 1 2 3 \<union> {5}"]
    by (fastforce simp: local_block_def)
qed

text \<open>
  C6. \<open>mpsse_open\<close> leaks nothing. For every allocator and every behaviour of the
  device during the opening, a failing enumeration of the devices apart, it returns, and then: if
  it fails, the handles and library contexts that are open, the memory and the heap of queue nodes
  are as they were before; if it succeeds, exactly one handle and one library context have been
  added and the context holds them. When the run gets as far as
  \<open>libusb_get_device_list\<close> and that call fails, the code frees a list that was never
  set: \<open>mpsse_open\<close> is then undefined, and only then.
\<close>

theorem mpsse_open_leaks_nothing:
  assumes "opens_ok L U H" and "malloc_ok malloc" and "links h = Map.empty" and "ents h = Map.empty"
  shows "if enumeration_fails malloc U channel m h u
    then mpsse_open malloc port_numbers L U a channel m h u = None
    else \<exists>r. mpsse_open malloc port_numbers L U a channel m h u = Some r \<and> open_result H u m (room h) r"
  using mpsse_open_law [OF assms, of channel m u port_numbers a] unfolding settles_def .

theorem mpsse_open_leaks_nothing_witness:
  "(\<exists>r. mpsse_open sim_malloc True sim_libusb sim_setup any_ft232h 0 Map.empty no_queue sim_start = Some r \<and>
      open_result sim_opened sim_start Map.empty 20000 r) \<and>
    mpsse_open sim_malloc True sim_libusb sim_no_list any_ft232h 0 Map.empty no_queue sim_start = None"
proof -
  have e: "links no_queue = Map.empty" "ents no_queue = Map.empty" "room no_queue = 20000"
    by (simp_all add: no_queue_def)
  note run = mpsse_open_leaks_nothing [OF _ sim_malloc_ok e(1,2), of sim_libusb _ sim_opened 0 Map.empty sim_start
      True any_ft232h]
  show ?thesis
    using run [OF sim_opens] run [OF sim_no_list_opens] sim_has_devices sim_no_list_fails e(3) by simp
qed

text \<open>
  C7. A context that \<open>mpsse_open\<close> returns satisfies the invariant on which the
  commands and the flush rest, provided the device reports a packet size of more than two bytes.
\<close>

theorem opened_context_is_ready:
  assumes "opens_ok L U H" and "malloc_ok malloc" and "links h = Map.empty" and "ents h = Map.empty"
    and "m local_block = None"
    and "mpsse_open malloc port_numbers L U a channel m h u = Some (Some c, m', h', u')"
    and "2 < unat (max_packet_size c)"
  shows "\<exists>wb rb cb. minv wb rb cb [] \<lparr>ctx = c, memory = m', queue = h', device = u'\<rparr> \<and>
    retval c = ERROR_OK \<and> write_count c = 0 \<and> read_count c = 0"
proof -
  have op: "opened H u m c m' h' u'"
    using mpsse_open_some [OF assms(1-4,6)] by (simp add: open_result_def)
  with opened_minv [OF op assms(7,5)] show ?thesis by (simp add: opened_def)
qed

theorem opened_context_is_ready_witness:
  "\<exists>c m' h' u'. mpsse_open sim_malloc False sim_libusb sim_setup any_ft232h 0 Map.empty no_queue sim_start =
      Some (Some c, m', h', u') \<and>
    (\<exists>wb rb cb. minv wb rb cb [] \<lparr>ctx = c, memory = m', queue = h', device = u'\<rparr>)"
proof -
  obtain c m' h' u' where r: "mpsse_open sim_malloc False sim_libusb sim_setup any_ft232h 0 Map.empty no_queue
      sim_start = Some (Some c, m', h', u')" "max_packet_size c = 64"
    using sim_open_success [of Map.empty] by auto
  have e: "links no_queue = Map.empty" "ents no_queue = Map.empty" "Map.empty local_block = None"
    by (simp_all add: no_queue_def)
  have "2 < unat (max_packet_size c)" using r(2) by simp
  from opened_context_is_ready [OF sim_opens sim_malloc_ok e r(1) this] r(1) show ?thesis by blast
qed

text \<open>
  C8. On a device that answers (\<open>prompt\<close>), \<open>mpsse_set_frequency\<close> chooses
  the fastest clock that is not above the requested frequency: the frequency it returns belongs to
  the divisor it sends, every smaller divisor would be too fast, and the result is at most the
  request unless the divisor is already the largest one. On a chip with the fast clock the
  division by five is off for requests above 457 Hz.
\<close>

theorem set_frequency_is_best:
  assumes "ready L ob wb rb cb es s" and "0 < f" and "f + 30000000 < 2 ^ 31"
    and "base = (if fast_clock (ctx s) f then 60000000 else 12000000)"
  shows "\<exists>s' d. mpsse_set_frequency L f s = Some (base div 2 div (1 + d), s') \<and> 0 \<le> d \<and> d \<le> 65535 \<and>
    (d < 65535 \<longrightarrow> base div 2 div (1 + d) \<le> f) \<and>
    (\<forall>e. 0 \<le> e \<and> base div 2 \<le> f * (1 + e) \<longrightarrow> d \<le> e) \<and>
    configures L ob wb rb cb s
      ((if mpsse_is_high_speed (ctx s)
        then [Single 0x97, Single (if f > 457 then 0x8a else 0x8b)] else []) @ [Divisor (nat d)]) s'"
proof -
  obtain s' d where 1: "mpsse_set_frequency L f s = Some (base div 2 div (1 + d), s')" "mpsse_divisor base f = Some d"
    "configures L ob wb rb cb s
      ((if mpsse_is_high_speed (ctx s)
        then [Single 0x97, Single (if f > 457 then 0x8a else 0x8b)] else []) @ [Divisor (nat d)]) s'"
    using set_frequency_law [OF assms(1-3), folded assms(4)] by blast
  have "0 < base" "base div 2 + f < 2 ^ 31" "2 \<le> base" using assms(3,4) by auto
  from mpsse_divisor_law [OF assms(2) this] 1(2) have "0 \<le> d \<and> d \<le> 65535 \<and>
    (d < 65535 \<longrightarrow> base div 2 div (1 + d) \<le> f) \<and>
    (\<forall>e. 0 \<le> e \<and> base div 2 \<le> f * (1 + e) \<longrightarrow> d \<le> e)" by auto
  with 1(1,3) show ?thesis by blast
qed

theorem set_frequency_is_best_witness:
  "\<exists>s' d. mpsse_set_frequency sim_libusb 15000000 sim_state = Some (30000000 div (1 + d), s') \<and>
    (d < 65535 \<longrightarrow> 30000000 div (1 + d) \<le> 15000000)"
proof -
  have "60000000 = (if fast_clock (ctx sim_state) 15000000 then 60000000 else (12000000 :: int))"
    by (simp add: fast_clock_def sim_state_def sim_ctx_def mpsse_is_high_speed_def)
  with set_frequency_is_best [OF sim_ready, of 15000000 60000000] show ?thesis by auto
qed

text \<open>
  C9. The read callback delivers the payload and nothing else: the bytes it appends to the read buffer
  are the bytes of the transfer without the two status bytes that start each packet, as many as
  the reader still waits for, and it reports the end exactly when they are complete.
\<close>

theorem strip_packets_payload:
  assumes "read_chunk c = Ptr cb 0" and "read_buffer c = Ptr rb 0" and "rb \<noteq> cb"
    and "2 < unat (max_packet_size c)" and "m cb = Some C" and "length data \<le> length C"
    and "take (length data) C = data" and "length data < 2 ^ 28" and "m rb = Some R"
    and "read_count c \<le> length R" and "length R < 2 ^ 28" and "transferred res < read_count c"
    and "P = payload (unat (max_packet_size c)) data" and "k = min (length P) (read_count c - transferred res)"
  shows "strip_packets c (DIV_ROUND_UP (length data) (unat (max_packet_size c))) 0 (length data) res m =
    Some (res\<lparr>transferred := transferred res + k, finished := finished res \<or> transferred res + k = read_count c\<rparr>,
      m(rb \<mapsto> blit R (transferred res) P 0 k))"
proof -
  have "strip_packets c (DIV_ROUND_UP (length data) (unat (max_packet_size c))) 0
      (length (drop (unat (max_packet_size c) * 0) data)) res m =
    (let P = payload (unat (max_packet_size c)) (drop (unat (max_packet_size c) * 0) data);
         k = min (length P) (read_count c - transferred res)
     in Some (res\<lparr>transferred := transferred res + k,
                  finished := finished res \<or> transferred res + k = read_count c\<rparr>,
              m(rb \<mapsto> blit R (transferred res) P 0 k)))"
    by (rule strip_packets_known) (rule assms)+
  then show ?thesis by (simp add: assms(13,14) Let_def)
qed

theorem strip_packets_payload_witness:
  "strip_packets (sim_ctx\<lparr>max_packet_size := 4, read_count := 3\<rparr>) (DIV_ROUND_UP 7 4) 0 7
      \<lparr>finished = False, transferred = 0\<rparr> [2 \<mapsto> [0, 0, 0, 0], 3 \<mapsto> [0x32, 0x60, 1, 2, 0x32, 0x60, 3]] =
    Some (\<lparr>finished = True, transferred = 3\<rparr>,
      [2 \<mapsto> [0, 0, 0, 0], 3 \<mapsto> [0x32, 0x60, 1, 2, 0x32, 0x60, 3], 2 \<mapsto> blit [0, 0, 0, 0] 0 [1, 2, 3] 0 3])"
proof -
  let ?data = "[0x32, 0x60, 1, 2, 0x32, 0x60, 3] :: u8 list"
  have n: "length ?data = 7" and P: "payload 4 ?data = [1, 2, 3]" by (simp_all add: payload.simps)
  show ?thesis
    using strip_packets_payload [of "sim_ctx\<lparr>max_packet_size := 4, read_count := 3\<rparr>" 3 2
        "[2 \<mapsto> [0, 0, 0, 0], 3 \<mapsto> ?data]" ?data ?data "[0, 0, 0, 0]"
        "\<lparr>finished = False, transferred = 0\<rparr>" "[1, 2, 3]" 3, unfolded n]
    by (simp add: sim_ctx_def P)
qed

text \<open>
  C10. A flush that fails inside a command is remembered, and remembered badly. When the write
  buffer has no room for three more bytes and the flush that a command makes fails, for whatever
  reason, the command queues its bytes all the same, into the emptied buffer and with the error
  stored; the next \<open>mpsse_flush\<close> then does not report the error but fails its
  assertion. This holds for \<open>mpsse_clock_data_out\<close> and
  \<open>mpsse_clock_tms_cs_out\<close> with up to seven bits and for the two functions that set
  the pins.
\<close>

theorem flush_after_error:
  assumes "bulk_ok L ob (unat (max_packet_size (ctx s)))" and "minv wb rb cb es s"
    and "retval (ctx s) = ERROR_OK" and "idle ob (device s)"
    and "write_size (ctx s) \<le> write_count (ctx s) + 3"
    and "mpsse_flush L s = Some (rc, s1)" and "rc \<noteq> ERROR_OK"
    and "memory s b = Some S" and "b \<notin> own_blocks wb rb cb" and "8 * p + off + n \<le> 8 * length S"
    and "0 < n" and "n < 8"
  shows "(\<exists>s2 x. mpsse_clock_data_out L (Ptr b p) off n mode s = Some s2 \<and>
      marked wb s1 [0x12 OR mode, of_nat (n - 1), x] s2 \<and> mpsse_flush L s2 = None) \<and>
    (\<exists>s2 x. mpsse_clock_tms_cs_out L (Ptr b p) off n tdi mode s = Some s2 \<and>
      marked wb s1 [mode OR 0x42, of_nat (n - 1), x] s2 \<and> mpsse_flush L s2 = None) \<and>
    (\<exists>s2. mpsse_set_data_bits_low_byte L data dir s = Some s2 \<and>
      marked wb s1 [0x80, data, dir] s2 \<and> mpsse_flush L s2 = None) \<and>
    (\<exists>s2. mpsse_set_data_bits_high_byte L data dir s = Some s2 \<and>
      marked wb s1 [0x82, data, dir] s2 \<and> mpsse_flush L s2 = None)"
proof -
  have "rc = ERROR_FAIL" and ab: "flush_aborted wb rb cb s s1"
    using flush_outcome [OF assms(1-4,6)] assms(7) by auto
  then have fl: "mpsse_flush L s = Some (ERROR_FAIL, s1)" using assms(6) by simp
  note pins = pins_after_failure [OF assms(2,3,5) fl ab, where data = data and dir = dir]
  show ?thesis
    using clock_after_failure [OF assms(2,3,5) fl ab assms(8-12)]
      tms_after_failure [OF assms(2,3,5) fl ab assms(8-12)] pins [of False] pins [of True] by simp
qed

theorem flush_after_error_witness:
  "\<exists>s2. mpsse_clock_tms_cs_out sim_unplugged (Ptr 4 0) 0 5 True 0x09 sim_full = Some s2 \<and>
    retval (ctx s2) = ERROR_FAIL \<and> mpsse_flush sim_unplugged s2 = None"
proof -
  obtain s1 where "mpsse_flush sim_unplugged sim_full = Some (ERROR_FAIL, s1)"
    using flush_refused [OF sim_unplugged_refuses sim_full_facts(1,2,5)] by blast
  moreover have "bulk_ok sim_unplugged sim_observer (unat (max_packet_size (ctx sim_full)))"
    using sim_unplugged_bulk by (simp add: sim_full_facts(3))
  ultimately show ?thesis
    using flush_after_error [OF _ sim_full_facts(1,2,4,6) _ _ sim_full_facts(7), where p = 0 and off = 0 and n = 5
        and L = sim_unplugged and rc = ERROR_FAIL and mode = "0x09" and tdi = True and ?s1.0 = s1]
    by (auto simp: local_block_def marked_def ERROR_FAIL_def ERROR_OK_def)
qed

text \<open>
  C11. A flush of the FT232H driver sends exactly the queued edges. On a device that answers,
  \<open>do_flush\<close> returns, the commands it adds to the byte stream carry the queued pairs
  of TMS and TDI levels in order, one clock each, and the queue is empty and all zero again. When
  the context has no read pending and the copies can be allocated, the bits the server is given
  are the samples of TDO that the device reported for these commands, one for each pair, in order.
\<close>

theorem otma_flush_sends_queue:
  assumes "ready L ob wb rb cb [] (usb d)" and "otma_buffers (own_blocks wb rb cb) bo d es 0"
    and "ctx_open d" and "server_set d"
  shows "\<exists>d' bs cs tdo. otma_do_flush L d = Some (1, d') \<and> ready L ob wb rb cb [] (usb d') \<and>
    ctx_open d' \<and> otma_buffers (own_blocks wb rb cb) bo d' [] 0 \<and>
    sent ob (device (usb d')) = sent ob (device (usb d)) @ pending wb (usb d) @ bs \<and>
    decode bs = Some cs \<and> tms_stream cs = es \<and> clocks cs = length es \<and>
    length tdo = (length es + 7) div 8 \<and>
    (read_count (ctx (usb d)) = 0 \<and> read_size (ctx (usb d)) \<le> room (queue (usb d)) \<longrightarrow>
       (\<exists>ys. answered ob (usb d) ys (usb d') \<and> length ys = reply_length cs \<and>
          take (length es) (bits_of tdo) = sampled cs ys)) \<and>
    calls d' = calls d @ [Store_Tdo (p_op_store_tdo (server_ops d)) (server_ops_data d) tdo (length es),
      Indicate_Flush (p_op_indicate_flush (server_ops d)) (server_ops_data d)]"
  by (rule otma_do_flush_law [OF assms])

theorem otma_flush_sends_queue_witness:
  "\<exists>d' bs cs. otma_do_flush sim_libusb (sim_otma [(True, False), (False, True)]) = Some (1, d') \<and>
    decode bs = Some cs \<and> tms_stream cs = [(True, False), (False, True)] \<and>
    otma_buffers (own_blocks 1 2 3) 8 d' [] 0"
proof -
  have "otma_buffers (own_blocks 1 2 3) 8 (sim_otma [(True, False), (False, True)]) [(True, False), (False, True)] 0"
    by (rule sim_otma_buffers) (simp add: DATA_SIZE_BYTES_def)
  from otma_flush_sends_queue [OF sim_otma_ready this sim_otma_set] show ?thesis by blast
qed

section \<open>The FTDI interface\<close>

text \<open>
  C12. The search of \<open>ftdi_initialize\<close> for an adapter ends, and leaks nothing. For
  every list of identifiers that has its terminator, unless one of its attempts meets a failing
  enumeration of the devices, it returns, and then either holds one open context or is back where
  it started, with the memory, the handles and the library contexts as before; in that case,
  outside SWD mode, the initialisation reports failure. When an attempt meets that failure, the
  search and the initialisation are undefined.
\<close>

theorem adapter_search_ends:
  assumes "opens_ok L U H" and "malloc_ok malloc"
    and "links (queue (ftdi_bus d)) = Map.empty" and "ents (queue (ftdi_bus d)) = Map.empty"
    and "(0, 0) \<in> set (zip (ftdi_vid d) (ftdi_pid d))" and "mpsse_ctx_ptr d = No_ctx" and "\<not> swd_mode d"
  shows "if search_stuck malloc pn L U (zip (ftdi_vid d) (ftdi_pid d)) d
    then open_loop malloc pn L U (zip (ftdi_vid d) (ftdi_pid d)) d = None \<and> ftdi_initialize malloc pn L U d = None
    else \<exists>d'. open_loop malloc pn L U (zip (ftdi_vid d) (ftdi_pid d)) d = Some d' \<and> same_vars d d' \<and>
      (closed_as H d d' \<and> ftdi_initialize malloc pn L U d = Some (ERROR_FAIL, d') \<or> opened_as H d d')"
proof (cases "search_stuck malloc pn L U (zip (ftdi_vid d) (ftdi_pid d)) d")
  case True
  with open_loop_law [OF assms(1-6), of pn] show ?thesis by (simp add: ftdi_initialize_def)
next
  case False
  then obtain d' where d': "open_loop malloc pn L U (zip (ftdi_vid d) (ftdi_pid d)) d = Some d'" "same_vars d d'"
      "closed_as H d d' \<or> opened_as H d d'"
    using open_loop_law [OF assms(1-6), of pn] by auto
  with False ftdi_initialize_jtag [OF d'(1,2) assms(7)] show ?thesis by (auto simp: closed_as_def)
qed

theorem adapter_search_ends_witness:
  "\<exists>d'. open_loop sim_malloc False sim_libusb sim_setup (zip (ftdi_vid sim_unopened) (ftdi_pid sim_unopened))
    sim_unopened = Some d' \<and> (closed_as sim_opened sim_unopened d' \<or> opened_as sim_opened sim_unopened d')"
proof -
  have "\<not> search_stuck sim_malloc False sim_libusb sim_setup ids d" for ids d
    by (induction ids arbitrary: d)
      (auto simp: search_fails_def sim_has_devices Let_def split: option.splits)
  with adapter_search_ends [OF sim_opens sim_malloc_ok sim_unopened_start(1-5), of False] show ?thesis by auto
qed

text \<open>
  C13. With an adapter that answers, \<open>ftdi_initialize\<close> brings it up: it reports
  success, and by then the chip has received commands that put the sixteen pins to the configured
  levels and directions, switch the loopback off and set the clock to 1 MHz; the driver agrees
  with the chip about the pins, and its context is ready for the next commands.
\<close>

theorem adapter_comes_up:
  assumes "opens_ok L U H" and "malloc_ok malloc"
    and "links (queue (ftdi_bus d)) = Map.empty" and "ents (queue (ftdi_bus d)) = Map.empty"
    and "(0, 0) \<in> set (zip (ftdi_vid d) (ftdi_pid d))" and "mpsse_ctx_ptr d = No_ctx" and "\<not> swd_mode d"
    and "memory (ftdi_bus d) local_block = None"
    and "open_loop malloc pn L U (zip (ftdi_vid d) (ftdi_pid d)) d = Some d1" and "mpsse_ctx_ptr d1 = Open_ctx"
    and "2 < unat (max_packet_size (ctx (ftdi_bus d1)))" and "idle ob (device (ftdi_bus d1))"
    and "prompt L ob (unat (max_packet_size (ctx (ftdi_bus d1))))"
  shows "\<exists>d' wb rb cb bs cs. ftdi_initialize malloc pn L U d = Some (ERROR_OK, d') \<and>
    sent ob (device (ftdi_bus d')) = sent ob (device (ftdi_bus d1)) @ bs \<and> decode bs = Some cs \<and>
    effective cs = config_cmds (jtag_output_init d, jtag_direction_init d) (ctx (ftdi_bus d1)) \<and>
    pins_after (effective cs) xy = the_pins d' \<and> the_pins d' = (jtag_output_init d, jtag_direction_init d) \<and>
    freq d' = 1000000 \<and> mpsse_ctx_ptr d' = Open_ctx \<and> ready L ob wb rb cb [] (ftdi_bus d')"
  using ftdi_initialize_law [OF assms, of xy] .

theorem adapter_comes_up_witness:
  "\<exists>d'. ftdi_initialize sim_malloc False sim_libusb sim_setup sim_unopened = Some (ERROR_OK, d') \<and>
    the_pins d' = (0x0008, 0x000b) \<and> freq d' = 1000000"
proof -
  obtain d1 where d1: "open_loop sim_malloc False sim_libusb sim_setup
      (zip (ftdi_vid sim_unopened) (ftdi_pid sim_unopened)) sim_unopened = Some d1" "mpsse_ctx_ptr d1 = Open_ctx"
      "max_packet_size (ctx (ftdi_bus d1)) = 64" "idle sim_observer (device (ftdi_bus d1))"
    using sim_adapter_found by blast
  have "2 < unat (max_packet_size (ctx (ftdi_bus d1)))"
    "prompt sim_libusb sim_observer (unat (max_packet_size (ctx (ftdi_bus d1))))"
    using d1(3) sim_prompt by simp_all
  from adapter_comes_up [OF sim_opens sim_malloc_ok sim_unopened_start d1(1,2) this(1) d1(4) this(2)]
  show ?thesis by (auto simp: sim_unopened_def sim_ftdi_def)
qed

text \<open>
  C14. On a device that answers (\<open>prompt\<close>) the pins of the chip follow the variables
  of the driver: after any sequence of calls of \<open>ftdi_set_signal\<close> on defined signals
  with levels it knows, the commands sent since take the pins from the levels and directions the
  driver had noted before to those it notes now, although it sends only the bytes that change and
  some of the calls fail.
\<close>

theorem pins_follow_signals:
  assumes "ready L ob wb rb cb es (ftdi_bus d)" and "mpsse_ctx_ptr d = Open_ctx"
    and "\<forall>(p, v) \<in> set changes. sig_heap d p \<noteq> None \<and> v \<in> levels"
  shows "\<exists>d' cs. set_signals L changes d = Some d' \<and> talks L ob wb rb cb d cs d' \<and>
    pins_after cs (the_pins d) = the_pins d'"
  by (rule set_signals_law [OF assms])

theorem pins_follow_signals_witness:
  "\<exists>d' cs. set_signals sim_libusb [(1, CHR ''0''), (1, CHR ''z''), (1, CHR ''1'')] sim_wired = Some d' \<and>
    talks sim_libusb sim_observer 1 2 3 sim_wired cs d' \<and> pins_after cs (0x0008, 0x000b) = the_pins d'"
  using pins_follow_signals [OF sim_wired_ready, of "[(1, CHR ''0''), (1, CHR ''z''), (1, CHR ''1'')]"]
  by (simp add: sim_wired_def sim_ftdi_def the_pins_def levels_def)

text \<open>
  C15. \<open>ftdi_get_signal\<close> reads the pins. On a device that answers
  (\<open>prompt\<close>), with no read pending and room for the commands, it sends what was
  queued, the command 0x81 (read the lower pins) exactly when the mask of the signal has a bit
  among them, the command 0x83 (read the upper pins) exactly when it has a bit there, and the
  request for the answer. The value is made of the bytes that the chip answers to these commands,
  one each and in this order, the lower byte from the answer to 0x81 and the upper byte from the
  answer to 0x83, inverted if the signal is, and masked.
\<close>

theorem get_signal_reads_pins:
  assumes "ready L ob wb rb cb [] (ftdi_bus d)" and "mpsse_ctx_ptr d = Open_ctx"
    and "sig_heap d p = Some s" and "input_mask s \<noteq> 0"
    and "lo \<notin> own_blocks wb rb cb" and "hi \<notin> own_blocks wb rb cb" and "lo \<noteq> hi"
    and "write_count (ctx (ftdi_bus d)) + 3 < write_size (ctx (ftdi_bus d))"
    and "read_count (ctx (ftdi_bus d)) = 0" and "2 \<le> read_size (ctx (ftdi_bus d))"
    and "2 \<le> room (queue (ftdi_bus d))"
    and "ask_lower = (if input_mask s AND 0xff \<noteq> 0 then [0x81] else [])"
    and "ask_upper = (if drop_bit 8 (input_mask s) \<noteq> 0 then [0x83] else [])"
  shows "\<exists>d' xs ys. ftdi_get_signal L lo hi p d = Some (ERROR_OK,
      Some ((if invert_input s then NOT (levels_of xs ys) else levels_of xs ys) AND input_mask s), d') \<and>
    sent ob (device (ftdi_bus d')) =
      sent ob (device (ftdi_bus d)) @ pending wb (ftdi_bus d) @ ask_lower @ ask_upper @ [0x87] \<and>
    answered ob (ftdi_bus d) (xs @ ys) (ftdi_bus d') \<and> length xs = length ask_lower \<and> length ys = length ask_upper"
  by (rule ftdi_get_signal_law [OF assms])

theorem get_signal_reads_pins_witness:
  "\<exists>d' xs ys. ftdi_get_signal sim_libusb 10 11 1 sim_wired =
      Some (ERROR_OK, Some (NOT (levels_of xs ys) AND 0x0240), d') \<and>
    sent sim_observer (device (ftdi_bus d')) = [0x81, 0x83, 0x87] \<and> length xs = 1 \<and> length ys = 1"
proof -
  have f: "mpsse_ctx_ptr sim_wired = Open_ctx" "sig_heap sim_wired 1 = Some sim_reset_line" "input_mask sim_reset_line \<noteq> 0"
    "10 \<notin> own_blocks 1 2 3" "11 \<notin> own_blocks 1 2 3" "10 \<noteq> (11 :: nat)"
    "write_count (ctx (ftdi_bus sim_wired)) + 3 < write_size (ctx (ftdi_bus sim_wired))"
    "read_count (ctx (ftdi_bus sim_wired)) = 0" "2 \<le> read_size (ctx (ftdi_bus sim_wired))"
    "2 \<le> room (queue (ftdi_bus sim_wired))"
    by (simp_all add: sim_wired_def sim_ftdi_def sim_reset_line_def sim_state_def sim_ctx_def sim_queue_def local_block_def)
  have "sent sim_observer (device (ftdi_bus sim_wired)) = []" "pending 1 (ftdi_bus sim_wired) = []"
    by (simp_all add: sim_wired_def sim_ftdi_def sim_state_def sim_ctx_def sim_observer_def sim_start_def pending_def)
  with get_signal_reads_pins [OF sim_wired_ready f refl refl] show ?thesis
    by (auto simp: sim_reset_line_def)
qed

text \<open>
  C16. \<open>ftdi_get_signal\<close> hides a failure of the exchange. Whenever the flush that it
  makes after queueing its read commands fails, for whatever reason, it reports success all the
  same, with a value that the chip never sent: the two bytes it combines are the zeros they were
  initialised with.
\<close>

theorem get_signal_hides_errors:
  assumes "minv wb rb cb [] (ftdi_bus d)" and "retval (ctx (ftdi_bus d)) = ERROR_OK"
    and "bulk_ok L ob (unat (max_packet_size (ctx (ftdi_bus d))))" and "idle ob (device (ftdi_bus d))"
    and "mpsse_ctx_ptr d = Open_ctx" and "sig_heap d p = Some s" and "input_mask s \<noteq> 0"
    and "lo \<notin> own_blocks wb rb cb" and "hi \<notin> own_blocks wb rb cb" and "lo \<noteq> hi"
    and "write_count (ctx (ftdi_bus d)) + 3 < write_size (ctx (ftdi_bus d))"
    and "read_count (ctx (ftdi_bus d)) = 0" and "2 \<le> read_size (ctx (ftdi_bus d))"
    and "2 \<le> room (queue (ftdi_bus d))"
    and "ask_pins L lo hi (input_mask s) (with_slots lo hi d) = Some d2"
    and "mpsse_flush L (ftdi_bus d2) = Some (rc, s3)" and "rc \<noteq> ERROR_OK"
  shows "\<exists>d'. ftdi_get_signal L lo hi p d = Some (ERROR_OK, Some (if invert_input s then input_mask s else 0), d')"
  by (rule ftdi_get_signal_failed [OF assms])

theorem get_signal_hides_errors_witness:
  "\<exists>d'. ftdi_get_signal sim_unplugged 10 11 1 sim_wired = Some (ERROR_OK, Some 0x0240, d')"
proof -
  have f: "mpsse_ctx_ptr sim_wired = Open_ctx" "sig_heap sim_wired 1 = Some sim_reset_line" "input_mask sim_reset_line \<noteq> 0"
    "10 \<notin> own_blocks 1 2 3" "11 \<notin> own_blocks 1 2 3" "10 \<noteq> (11 :: nat)"
    "write_count (ctx (ftdi_bus sim_wired)) + 3 < write_size (ctx (ftdi_bus sim_wired))"
    "read_count (ctx (ftdi_bus sim_wired)) = 0" "2 \<le> read_size (ctx (ftdi_bus sim_wired))"
    "2 \<le> room (queue (ftdi_bus sim_wired))"
    by (simp_all add: sim_wired_def sim_ftdi_def sim_reset_line_def sim_state_def sim_ctx_def sim_queue_def local_block_def)
  have i: "minv 1 2 3 [] (ftdi_bus sim_wired)" "retval (ctx (ftdi_bus sim_wired)) = ERROR_OK"
    "bulk_ok sim_unplugged sim_observer (unat (max_packet_size (ctx (ftdi_bus sim_wired))))"
    "idle sim_observer (device (ftdi_bus sim_wired))"
    using sim_minv sim_idle sim_unplugged_bulk by (simp_all add: sim_wired_def sim_ftdi_def sim_state_def sim_ctx_def)
  obtain es s2 where a: "ask_pins sim_unplugged 10 11 (input_mask sim_reset_line) (with_slots 10 11 sim_wired) =
      Some (with_slots 10 11 sim_wired\<lparr>ftdi_bus := s2\<rparr>)" "minv 1 2 3 es s2" "retval (ctx s2) = ERROR_OK"
      "0 < write_count (ctx s2)"
    using ask_pins_law [OF i(1) f(1) i(2) f(4-10) refl, of sim_unplugged "input_mask sim_reset_line"] i(2)
    by (auto simp: pin_reads_def sim_reset_line_def)
  obtain s3 where "mpsse_flush sim_unplugged s2 = Some (ERROR_FAIL, s3)"
    using flush_refused [OF sim_unplugged_refuses a(2-4)] by blast
  then have "mpsse_flush sim_unplugged (ftdi_bus (with_slots 10 11 sim_wired\<lparr>ftdi_bus := s2\<rparr>)) = Some (ERROR_FAIL, s3)"
    by simp
  from get_signal_hides_errors [OF i f a(1) this] show ?thesis
    by (simp add: sim_reset_line_def ERROR_FAIL_def ERROR_OK_def)
qed

text \<open>
  C17. The linked list of signals is a list: \<open>create_signals\<close> returns for every list,
  appends the four default signals in order or, when an allocation fails, a beginning of them,
  reports which of the two, and leaves the signals that were defined before, their order and the
  other variables alone.
\<close>

theorem create_signals_appends:
  assumes "alloc_ok A" and "signals_are d ps"
  shows "\<exists>rc d' k. create_signals A d = Some (rc, d') \<and> appended d ps (take k default_signals) d' \<and>
    (rc = ERROR_OK \<and> k = 4 \<or> rc = ERROR_FAIL \<and> k < 4)"
  by (rule create_signals_law [OF assms])

theorem create_signals_appends_witness:
  "\<exists>rc d' k. create_signals sim_signal_alloc sim_wired = Some (rc, d') \<and>
    appended sim_wired [1] (take k default_signals) d'"
proof -
  have "signals_are sim_wired [1]"
    by (simp add: signals_are_def sim_wired_def sim_ftdi_def sim_reset_line_def)
  from create_signals_appends [OF sim_signal_alloc_ok this] show ?thesis by blast
qed

section \<open>The TAP state machines\<close>

text \<open>
  C18. The state follower of the cable drivers is the TAP state machine of IEEE 1149.1: along every
  TMS sequence \<open>tap_state_transition\<close> is defined and reaches the state the standard
  prescribes.
\<close>

theorem follower_refines_standard:
  "standard_state s = Some a \<Longrightarrow>
    \<exists>s'. run_tap tap_state_transition s bs = Some s' \<and> standard_state s' = Some (foldl tap_step a bs)"
  by (rule follower.run_tap_law)

theorem follower_refines_standard_witness:
  "\<exists>s'. run_tap tap_state_transition TAP_IDLE [True, False, False] = Some s' \<and>
    standard_state s' = Some (Scan DR Shift)"
  using follower_refines_standard [of TAP_IDLE Idle "[True, False, False]"] by simp

text \<open>
  C19. The two state machines of the repository, \<open>tap_state_transition\<close> of the cable
  drivers and \<open>jtag_tap_next_state\<close> of the simulated device, agree: from states that
  stand for the same state of the standard they are in such states after every TMS sequence.
\<close>

theorem state_machines_agree:
  assumes "standard_state s = device_state t" and "standard_state s \<noteq> None"
  shows "\<exists>s' t'. run_tap tap_state_transition s bs = Some s' \<and>
    run_tap (\<lambda>s b. next_state s (bit_int b)) t bs = Some t' \<and>
    standard_state s' = device_state t'"
proof -
  obtain a where a: "standard_state s = Some a" "device_state t = Some a" using assms by auto
  from follower.run_tap_law [OF a(1), of bs] device.run_tap_law [OF a(2), of bs] show ?thesis by auto
qed

theorem state_machines_agree_witness:
  "\<exists>s' t'. run_tap tap_state_transition TAP_RESET [False, True, True, False] = Some s' \<and>
    run_tap (\<lambda>s b. next_state s (bit_int b)) TEST_LOGIC_RESET [False, True, True, False] = Some t' \<and>
    standard_state s' = device_state t'"
  by (rule state_machines_agree) simp_all

text \<open>
  C20. The TMS sequences of both tables are right: between any two stable states the sequence that
  \<open>tap_get_tms_path\<close> and \<open>tap_get_tms_path_len\<close> give drives the state
  machine from the first to the second; for other states the tables give none.
\<close>

theorem tms_path_drives:
  "if tap_is_state_stable start \<and> tap_is_state_stable dest
   then \<exists>bs. tms_path g start dest = Some bs \<and> run_tap tap_state_transition start bs = Some dest
   else tms_path g start dest = None"
  using path_drives [of start dest g] path_undefined [of g start dest] by simp

text \<open>
  C21. No sequence updates a data or instruction register by accident: an Update state is on the
  way only when the sequence starts in the Shift or Pause state of the same register.
\<close>

theorem tms_path_updates:
  assumes "tms_path g start dest = Some bs" and "standard_state start = Some a"
    and "Scan r Update \<in> set (tap_trace a bs)"
  shows "a = Scan r Shift \<or> a = Scan r Pause"
  by (rule path_updates [OF assms])

theorem tms_path_updates_witness:
  "\<exists>bs a. tms_path jtag_globals_init TAP_DRPAUSE TAP_IDLE = Some bs \<and> standard_state TAP_DRPAUSE = Some a \<and>
    Scan DR Update \<in> set (tap_trace a bs) \<and> (a = Scan DR Shift \<or> a = Scan DR Pause)"
proof -
  have "\<exists>bs. tms_path jtag_globals_init TAP_DRPAUSE TAP_IDLE = Some bs \<and>
      Scan DR Update \<in> set (tap_trace (Scan DR Pause) bs)"
    by (simp add: path_simps jtag_globals_init_def)
  then obtain bs where bs: "tms_path jtag_globals_init TAP_DRPAUSE TAP_IDLE = Some bs"
    "Scan DR Update \<in> set (tap_trace (Scan DR Pause) bs)" by blast
  have st: "standard_state TAP_DRPAUSE = Some (Scan DR Pause)" by simp
  from tms_path_updates [OF bs(1) st bs(2)] bs st show ?thesis by blast
qed

text \<open>
  C22. The debug build follows the same machine and logs all of it: the state that
  \<open>jtag_debug_state_machine\<close> returns is where the TMS bits lead, its two strings
  never overflow, and each line stands for at most 32 bits, of which all but the last keep the
  state, so that the lines together show every TMS and TDI bit, in order.
\<close>

theorem debug_machine_traces:
  assumes "a \<noteq> TAP_INVALID" and "n < 2 ^ 32 - 8" and "length tms0 = 33" and "length tdi0 = 33"
    and "load_bytes m tms ((n + 7) div 8) = Some T" and "load_bytes m tdi ((n + 7) div 8) = Some D"
  shows "\<exists>b ls seg shown. run_tap tap_state_transition a (take n (bits_of T)) = Some b \<and>
    take n (zip (bits_of T) (bits_of D)) = shown @ seg \<and> traces a shown ls b \<and> keeps_state b seg \<and> length seg < 32 \<and>
    jtag_debug_state_machine m tms0 tdi0 tms tdi n a =
      Some (b, [Start_line (tap_state_name a), Count_line n ((n + 7) div 8)] @ ls @
        (if seg = [] then [] else [move_of b b seg]) @ [Final_line (tap_state_name b)]) \<and>
    concat (map shown_tms (ls @ (if seg = [] then [] else [move_of b b seg]))) = map digit (take n (bits_of T)) \<and>
    concat (map shown_tdi (ls @ (if seg = [] then [] else [move_of b b seg]))) = map digit (take n (bits_of D))"
proof -
  obtain shown seg ls b where r: "take n (zip (bits_of T) (bits_of D)) = shown @ seg" "traces a shown ls b"
      "keeps_state b seg" "length seg < 32" "jtag_debug_state_machine m tms0 tdi0 tms tdi n a =
      Some (b, [Start_line (tap_state_name a), Count_line n ((n + 7) div 8)] @ ls @
        (if seg = [] then [] else [move_of b b seg]) @ [Final_line (tap_state_name b)])"
    using jtag_debug_state_machine_law [OF assms(1-6)] by metis
  have len: "length T = length D" by (rule load_bytes_lengths [OF assms(5,6)])
  have T: "take n (bits_of T) = map fst (shown @ seg)" and D: "take n (bits_of D) = map snd (shown @ seg)"
    using len by (simp_all flip: r(1) take_map)
  have "run_tap tap_state_transition a (take n (bits_of T)) = Some b"
    unfolding T using traces_run [OF r(2)] keeps_run [OF r(3)] by (simp add: run_tap_append)
  moreover have "concat (map shown_tms (ls @ (if seg = [] then [] else [move_of b b seg]))) = map digit (take n (bits_of T))"
      "concat (map shown_tdi (ls @ (if seg = [] then [] else [move_of b b seg]))) = map digit (take n (bits_of D))"
    unfolding T D using traces_shown [OF r(2)] by (simp_all add: move_of_def)
  ultimately show ?thesis using r by blast
qed

theorem debug_machine_traces_witness:
  "\<exists>b log. jtag_debug_state_machine [1 \<mapsto> [0x06], 2 \<mapsto> [0x01]] (replicate 33 (CHR ''x'')) (replicate 33 (CHR ''x''))
      (Ptr 1 0) (Ptr 2 0) 4 TAP_RESET = Some (b, log) \<and>
    run_tap tap_state_transition TAP_RESET (take 4 (bits_of [0x06])) = Some b"
proof -
  have nb: "(4 + 7) div 8 = (1 :: nat)" by simp
  show ?thesis
    using debug_machine_traces [of TAP_RESET 4 "replicate 33 (CHR ''x'')" "replicate 33 (CHR ''x'')"
        "[1 \<mapsto> [0x06], 2 \<mapsto> [0x01]]" "Ptr 1 0" "[0x06]" "Ptr 2 0" "[0x01]", unfolded nb]
    by auto
qed

section \<open>Binary buffers\<close>

text \<open>
  C23. \<open>bit_copy\<close> writes the \<open>len\<close> bits that start at bit
  \<open>ss\<close> of the source to the \<open>len\<close> bits that start at bit
  \<open>ds\<close> of the destination, for every alignment of the two, changes no other bit and
  no other block, and never leaves the two blocks.
\<close>

theorem bit_copy_correct:
  assumes "m sb = Some S" and "m db = Some D" and "sb \<noteq> db"
    and "8 * so + ss + len \<le> 8 * length S" and "8 * dof + ds + len \<le> 8 * length D"
  shows "\<exists>D'. bit_copy m (Ptr db dof) ds (Ptr sb so) ss len = Some (m(db \<mapsto> D')) \<and>
    length D' = length D \<and>
    (\<forall>i < 8 * length D. bits_of D' ! i =
      (if 8 * dof + ds \<le> i \<and> i < 8 * dof + ds + len
       then bits_of S ! (8 * so + ss + (i - (8 * dof + ds))) else bits_of D ! i))"
  using assms
  by (intro exI [of _ "bytes_of (blit (bits_of D) (8 * dof + ds) (bits_of S) (8 * so + ss) len)"])
    (simp add: bit_copy_known set_block_bits_def nth_blit)

theorem bit_copy_correct_witness:
  "\<exists>D'. bit_copy [1 \<mapsto> [0xff, 0x0f], 2 \<mapsto> [0x00, 0x00, 0x00]] (Ptr 2 1) 6 (Ptr 1 0) 9 5 =
    Some ([1 \<mapsto> [0xff, 0x0f], 2 \<mapsto> [0x00, 0x00, 0x00], 2 \<mapsto> D']) \<and> length D' = 3"
  using bit_copy_correct [of "[1 \<mapsto> [0xff, 0x0f], 2 \<mapsto> [0x00, 0x00, 0x00]]" 1 "[0xff, 0x0f]" 2
      "[0x00, 0x00, 0x00]" 0 9 5 1 6]
  by auto

text \<open>
  C24. A field of up to 32 bits that \<open>buf_set_u32\<close> writes at any bit offset is the
  value that \<open>buf_get_u32\<close> reads back there, cut to the width of the field; the bits
  outside the field and the other blocks keep their values.
\<close>

theorem buf_u32_round_trip:
  assumes "m b = Some bs" and "num \<le> 32" and "8 * off + first + num \<le> 8 * length bs"
    and "first + num < 2 ^ 32"
  shows "\<exists>bs'. buf_set_u32 m (Ptr b off) first num v = Some (m(b \<mapsto> bs')) \<and>
    buf_get_u32 (m(b \<mapsto> bs')) (Ptr b off) first num = Some (take_bit num v) \<and>
    (\<forall>i < 8 * length bs. i < 8 * off + first \<or> 8 * off + first + num \<le> i \<longrightarrow>
      bits_of bs' ! i = bits_of bs ! i)"
proof -
  define bs' where "bs' = bytes_of (blit (bits_of bs) (8 * off + first) (word_bits v) 0 num)"
  have "length bs' = length bs" and bits: "bits_of bs' = blit (bits_of bs) (8 * off + first) (word_bits v) 0 num"
    using assms by (simp_all add: bs'_def)
  with assms show ?thesis
    by (intro exI [of _ bs'])
      (simp add: buf_set_u32_known buf_get_u32_known set_block_bits_def bits nth_blit
        field_of_blit flip: bs'_def, simp add: bs'_def field_of_blit)
qed

theorem buf_u32_round_trip_witness:
  "\<exists>bs'. buf_set_u32 [3 \<mapsto> [0xff, 0xff, 0xff]] (Ptr 3 0) 5 11 0x2a5 = Some ([3 \<mapsto> [0xff, 0xff, 0xff], 3 \<mapsto> bs']) \<and>
    buf_get_u32 [3 \<mapsto> [0xff, 0xff, 0xff], 3 \<mapsto> bs'] (Ptr 3 0) 5 11 = Some (take_bit 11 0x2a5)"
  using buf_u32_round_trip [of "[3 \<mapsto> [0xff, 0xff, 0xff]]" 3 "[0xff, 0xff, 0xff]" 11 0 5 "0x2a5"] by auto

text \<open>
  C25. \<open>buf_cmp_mask\<close> answers true exactly when the two buffers differ in one of the
  first \<open>sz\<close> bits that the mask selects.
\<close>

theorem buf_cmp_mask_correct:
  assumes "m b1 = Some A" and "m b2 = Some B" and "m bk = Some K"
    and "o1 + (sz + 7) div 8 \<le> length A" and "o2 + (sz + 7) div 8 \<le> length B"
    and "ok + (sz + 7) div 8 \<le> length K"
  shows "buf_cmp_mask m (Ptr b1 o1) (Ptr b2 o2) (Ptr bk ok) sz =
    Some (\<exists>i < sz. bits_of K ! (8 * ok + i) \<and> bits_of A ! (8 * o1 + i) \<noteq> bits_of B ! (8 * o2 + i))"
proof -
  have "bits_at X o' sz ! i = bits_of X ! (8 * o' + i)" if "i < sz" "o' + (sz + 7) div 8 \<le> length X" for X o' i
    using that le_ceil8 [of sz] by (simp add: bits_at_def)
  with assms buf_cmp_mask_known [OF assms] show ?thesis by auto
qed

theorem buf_cmp_mask_correct_witness:
  "buf_cmp_mask [1 \<mapsto> [0xa5, 0x01], 2 \<mapsto> [0xa5, 0x03], 3 \<mapsto> [0x00, 0x02]] (Ptr 1 0) (Ptr 2 0) (Ptr 3 0) 10 =
    Some (\<exists>i < 10. bits_of [0x00, 0x02] ! (8 * 0 + i) \<and>
      bits_of [0xa5, 0x01] ! (8 * 0 + i) \<noteq> bits_of [0xa5, 0x03] ! (8 * 0 + i))"
  using buf_cmp_mask_correct [of "[1 \<mapsto> [0xa5, 0x01], 2 \<mapsto> [0xa5, 0x03], 3 \<mapsto> [0x00, 0x02]]" 1 "[0xa5, 0x01]" 2
      "[0xa5, 0x03]" 3 "[0x00, 0x02]" 0 10 0 0]
  by simp

text \<open>
  C26. \<open>buf_cmp\<close> is not a comparison: when the two buffers differ in one of their
  whole bytes it answers false, as it does for equal buffers.
\<close>

theorem buf_cmp_misses_bytes:
  assumes "m b1 = Some A" and "m b2 = Some B"
    and "o1 + (sz + 7) div 8 \<le> length A" and "o2 + (sz + 7) div 8 \<le> length B"
    and "take (sz div 8) (drop o1 A) \<noteq> take (sz div 8) (drop o2 B)"
  shows "buf_cmp m (Ptr b1 o1) (Ptr b2 o2) sz = Some False"
  using buf_cmp_known [OF assms(1-4)] assms(5) by simp

theorem buf_cmp_misses_bytes_witness:
  "buf_cmp [1 \<mapsto> [0x00, 0x07], 2 \<mapsto> [0xff, 0x07]] (Ptr 1 0) (Ptr 2 0) 16 = Some False"
  using buf_cmp_misses_bytes [of "[1 \<mapsto> [0x00, 0x07], 2 \<mapsto> [0xff, 0x07]]" 1 "[0x00, 0x07]" 2 "[0xff, 0x07]" 0 16 0]
  by simp

text \<open>
  C27. \<open>buffer_shr\<close> shifts the whole buffer: bit \<open>i\<close> becomes bit \<open>i
  + count\<close>, the last \<open>count\<close> bits become zero, and nothing outside the
  \<open>len\<close> bytes changes.
\<close>

theorem buffer_shr_correct:
  assumes "m b = Some D" and "off + len \<le> length D" and "0 < len" and "count \<le> 8 * len"
    and "len < 2 ^ 32"
  shows "\<exists>D'. buffer_shr m (Ptr b off) len count = Some (m(b \<mapsto> D')) \<and> length D' = length D \<and>
    (\<forall>i < 8 * length D. bits_of D' ! i =
      (if i < 8 * off \<or> 8 * (off + len) \<le> i then bits_of D ! i
       else i + count < 8 * (off + len) \<and> bits_of D ! (i + count)))"
proof -
  obtain D' where D': "buffer_shr m (Ptr b off) len count = Some (m(b \<mapsto> D'))" "length D' = length D"
    "bits_of D' = blit (bits_of D) (8 * off)
      (drop count (bits_at D off (8 * len)) @ replicate count False) 0 (8 * len)"
    using buffer_shr_known [of m b D off len count] assms by blast
  have "bits_of D' ! i =
      (if i < 8 * off \<or> 8 * (off + len) \<le> i then bits_of D ! i
       else i + count < 8 * (off + len) \<and> bits_of D ! (i + count))" if "i < 8 * length D" for i
    unfolding D'(3) using that assms(2,4)
    by (auto simp: nth_blit nth_append bits_at_def add.commute)
  with D'(1,2) show ?thesis by blast
qed

theorem buffer_shr_correct_witness:
  "\<exists>D'. buffer_shr [1 \<mapsto> [0x35, 0x80]] (Ptr 1 0) 2 3 = Some [1 \<mapsto> [0x35, 0x80], 1 \<mapsto> D'] \<and> length D' = 2"
  using buffer_shr_correct [of "[1 \<mapsto> [0x35, 0x80]]" 1 "[0x35, 0x80]" 0 2 3] by auto

section \<open>Buffers as text\<close>

text \<open>
  C28. The conversions between buffers and text are inverse to each other: what
  \<open>buf_to_str\<close> writes for a buffer of \<open>n\<close> bits,
  \<open>str_to_buf\<close> reads back as the same bits with the unused bits of the last byte
  cleared, in base 16, 10 and 8, with exactly the bytes of the destination written. In base 10 and
  8 this is claimed for buffers of less than 1019 bytes.
\<close>

theorem text_round_trip:
  assumes "fresh_malloc malloc C" and "finite (dom m)" and "n < 2 ^ 32 - 8" and "nb = (n + 7) div 8"
    and "m c = Some D" and "off + nb \<le> length D" and "m d = Some E" and "doff + nb \<le> length E"
    and "radix = 16 \<and> nb < 2 ^ 23 \<or> radix \<in> {8, 10} \<and> nb < 1019"
  shows "\<exists>str text. buf_to_str malloc (Ptr c off) n radix m = Some (Ptr str 0, m(str \<mapsto> text @ [0])) \<and>
    m str = None \<and>
    str_to_buf malloc (Ptr str 0) (length text) (Ptr d doff) n radix (m(str \<mapsto> text @ [0])) =
      Some (length text, m(str \<mapsto> text @ [0], d \<mapsto> blit E doff (mask_last n (take nb (drop off D))) 0 nb))"
proof -
  obtain str chars where "buf_to_str malloc (Ptr c off) n radix m = Some (Ptr str 0, m(str \<mapsto> chars @ [0]))" "m str = None"
    "str_to_buf malloc (Ptr str 0) (length chars) (Ptr d doff) n radix (m(str \<mapsto> chars @ [0])) =
      Some (length chars, m(str \<mapsto> chars @ [0], d \<mapsto> blit E doff (mask_last n (take nb (drop off D))) 0 nb))"
    using str_to_buf_of_buf_to_str [OF assms(1-8) lengths_suffice_bound [OF assms(9)]] by metis
  then show ?thesis by (intro exI conjI)
qed

theorem text_round_trip_witness:
  "\<exists>str text. buf_to_str sim_allocate (Ptr 1 0) 13 10 [1 \<mapsto> [0x39, 0x70], 2 \<mapsto> [0, 0]] =
      Some (Ptr str 0, [1 \<mapsto> [0x39, 0x70], 2 \<mapsto> [0, 0], str \<mapsto> text @ [0]]) \<and>
    str_to_buf sim_allocate (Ptr str 0) (length text) (Ptr 2 0) 13 10
        [1 \<mapsto> [0x39, 0x70], 2 \<mapsto> [0, 0], str \<mapsto> text @ [0]] =
      Some (length text, [1 \<mapsto> [0x39, 0x70], 2 \<mapsto> [0, 0], str \<mapsto> text @ [0],
        2 \<mapsto> blit [0, 0] 0 (mask_last 13 (take 2 (drop 0 [0x39, 0x70]))) 0 2])"
proof -
  let ?m = "[1 \<mapsto> [0x39, 0x70], 2 \<mapsto> [0, 0]] :: mem"
  have "finite (dom ?m)" "13 < 2 ^ 32 - (8 :: nat)" "2 = (13 + 7) div (8 :: nat)" "?m 1 = Some [0x39, 0x70]"
    "0 + 2 \<le> length [0x39 :: u8, 0x70]" "?m 2 = Some [0, 0]" "0 + 2 \<le> length [0 :: u8, 0]"
    "10 = (16 :: nat) \<and> 2 < 2 ^ (23 :: nat) \<or> (10 :: nat) \<in> {8, 10} \<and> 2 < (1019 :: nat)" by simp_all
  from text_round_trip [OF sim_allocate_fresh this] show ?thesis by blast
qed

text \<open>
  C29. Long decimal numbers lose their top: for 1811 digits \<open>str_to_buf\<close> computes with
  one byte too few, so that a buffer of 753 bytes, which has room for the number, receives it
  modulo \<open>256 ^ 752\<close> although all the digits count as read.
\<close>

theorem decimal_text_truncated:
  assumes "fresh_malloc malloc C" and "finite (dom m)"
    and "m s = Some (replicate 1811 0x39 @ [0])" and "m c = Some D" and "length D = 753"
  shows "(10 :: nat) ^ 1811 < 2 ^ 6024 \<and>
    (\<exists>E. str_to_buf malloc (Ptr s 0) 1811 (Ptr c 0) 6024 10 m = Some (1811, m(c \<mapsto> E)) \<and> length E = 753 \<and>
      buf_num E = (10 ^ 1811 - 1) mod 256 ^ 752 mod 2 ^ 6024 \<and> buf_num E < 10 ^ 1811 - 1)"
  by (rule conjI [OF log_2_10 nines_law [OF assms]])

theorem decimal_text_truncated_witness:
  "\<exists>E. str_to_buf sim_allocate (Ptr 1 0) 1811 (Ptr 2 0) 6024 10
      [1 \<mapsto> replicate 1811 0x39 @ [0], 2 \<mapsto> replicate 753 0] =
    Some (1811, [1 \<mapsto> replicate 1811 0x39 @ [0], 2 \<mapsto> replicate 753 0, 2 \<mapsto> E]) \<and> buf_num E < 10 ^ 1811 - 1"
proof -
  let ?m = "[1 \<mapsto> replicate 1811 0x39 @ [0], 2 \<mapsto> replicate 753 0] :: mem"
  have "finite (dom ?m)" "?m 1 = Some (replicate 1811 0x39 @ [0])" "?m 2 = Some (replicate 753 0)"
    "length (replicate 753 (0 :: u8)) = 753" by simp_all
  from decimal_text_truncated [OF sim_allocate_fresh this] show ?thesis by blast
qed

text \<open>
  C30. \<open>unhexify\<close> reads back what \<open>hexify\<close> writes: the text has two
  digits for each byte, and gives the same bytes.
\<close>

theorem hexify_round_trip:
  assumes "m h = Some H" and "m b = Some B" and "h \<noteq> b" and "take count (drop boff B) = bs" and "length bs = count"
    and "2 * count < len" and "hoff + 2 * count < length H" and "m d = Some D" and "d \<noteq> h" and "d \<noteq> b"
    and "doff + count \<le> length D"
  shows "\<exists>m'. hexify (Ptr h hoff) (Ptr b boff) count len m = Some (2 * count, m') \<and>
    unhexify (Ptr d doff) (Ptr h hoff) count m' = Some (count, m'(d \<mapsto> blit D doff bs 0 count))"
  by (rule hexify_unhexify [OF assms])

theorem hexify_round_trip_witness:
  "\<exists>m'. hexify (Ptr 1 0) (Ptr 2 0) 2 5 [1 \<mapsto> [0, 0, 0, 0, 0], 2 \<mapsto> [0xa5, 0x3c], 3 \<mapsto> [0, 0]] = Some (2 * 2, m') \<and>
    unhexify (Ptr 3 0) (Ptr 1 0) 2 m' = Some (2, m'(3 \<mapsto> blit [0, 0] 0 [0xa5, 0x3c] 0 2))"
  by (rule hexify_round_trip [where H = "[0, 0, 0, 0, 0]" and B = "[0xa5, 0x3c]" and D = "[0, 0]"]) simp_all

section \<open>Lists and the queue of delayed copies\<close>

text \<open>
  C31. Cutting a list at one of its entries and splicing the cut-off part back gives the list
  again: after \<open>list_cut_position\<close> the two heads hold the two parts, and
  \<open>list_splice\<close> joins them in the original order.
\<close>

theorem list_cut_splice:
  assumes "dlist h hp (xs @ e # ys)" and "lp \<in> dom h" and "lp \<notin> set (hp # xs @ e # ys)"
  shows "\<exists>h1 h2. list_cut_position h lp hp e = Some h1 \<and> dlist h1 lp (xs @ [e]) \<and> dlist h1 hp ys \<and>
    list_splice h1 lp hp = Some h2 \<and> list_for_each h2 hp = Some (xs @ e # ys)"
proof -
  obtain h1 where h1: "list_cut_position h lp hp e = Some h1" "dlist h1 lp (xs @ [e])" "dlist h1 hp ys"
    using list_cut_position_law [OF assms] by blast
  moreover have "set (lp # xs @ [e]) \<inter> set (hp # ys) = {}"
    using assms(1,3) by (auto simp: dlist_def)
  ultimately obtain h2 where "list_splice h1 lp hp = Some h2" "dlist h2 hp ((xs @ [e]) @ ys)"
    using list_splice_law by blast
  with h1 list_for_each_law show ?thesis by fastforce
qed

theorem list_cut_splice_witness:
  "\<exists>h1 h2. list_cut_position [1 \<mapsto> \<lparr>nxt = 2, prv = 3\<rparr>, 2 \<mapsto> \<lparr>nxt = 3, prv = 1\<rparr>, 3 \<mapsto> \<lparr>nxt = 1, prv = 2\<rparr>,
      9 \<mapsto> \<lparr>nxt = 9, prv = 9\<rparr>] 9 1 2 = Some h1 \<and> list_splice h1 9 1 = Some h2 \<and>
    list_for_each h2 1 = Some [2, 3]"
  using list_cut_splice [of "[1 \<mapsto> \<lparr>nxt = 2, prv = 3\<rparr>, 2 \<mapsto> \<lparr>nxt = 3, prv = 1\<rparr>, 3 \<mapsto> \<lparr>nxt = 1, prv = 2\<rparr>,
      9 \<mapsto> \<lparr>nxt = 9, prv = 9\<rparr>]" 1 "[]" 2 "[3]" 9]
  by (auto simp: dlist_def nx_def pv_def)

text \<open>
  C32. The operations on hash lists do what they say: adding at the head, before and after a node, and
  the two removals give the list that a traversal then visits, and a removed node is unhashed.
\<close>

theorem hlist_operations:
  assumes "hlist h p (xs @ a # ys)" and "n \<notin> set (xs @ a # ys)" and "back_of h n \<noteq> None"
  shows "(\<exists>h'. hlist_add_head h n p = Some h' \<and> hlist_for_each h' p = Some (n # xs @ a # ys)) \<and>
    (\<exists>h'. hlist_add_before h n a = Some h' \<and> hlist_for_each h' p = Some (xs @ n # a # ys)) \<and>
    (\<exists>h'. hlist_add_after h a n = Some h' \<and> hlist_for_each h' p = Some (xs @ a # n # ys)) \<and>
    (\<exists>h'. hlist_del h a = Some h' \<and> hlist_for_each h' p = Some (xs @ ys) \<and> hlist_unhashed h' a = Some True) \<and>
    (\<exists>h'. hlist_del_init h a = Some h' \<and> hlist_for_each h' p = Some (xs @ ys) \<and> hlist_unhashed h' a = Some True)"
  using hlist_add_head_law [OF assms] hlist_add_before_law [OF assms] hlist_add_after_law [OF assms]
    hlist_del_law [OF assms(1)] hlist_for_each_law
  by meson

theorem hlist_operations_witness:
  "\<exists>h'. hlist_add_after sim_hheap 5 7 = Some h' \<and> hlist_for_each h' 0 = Some [5, 7, 6]"
  using hlist_operations [of sim_hheap 0 "[]" 5 "[6]" 7] sim_hlist by simp

text \<open>
  C33. The safe loops end although their body takes the current entry out of the list: they visit
  every entry once, forwards or backwards, and the entries with \<open>P\<close> are gone
  afterwards, the others are left in their order. The same holds for hash lists.
\<close>

theorem safe_loops_end:
  assumes "dlist h hp xs" and "hlist g p ns"
  shows "(\<exists>h'. list_for_each_entry_safe (entry_take_out P off) off hp h = Some h' \<and>
      list_for_each_entry h' off hp = Some (map (list_entry off) (filter (\<lambda>a. \<not> P a) xs))) \<and>
    (\<exists>h'. list_for_each_entry_safe_reverse (entry_take_out P off) off hp h = Some h' \<and>
      list_for_each_entry h' off hp = Some (map (list_entry off) (filter (\<lambda>a. \<not> P a) xs))) \<and>
    (\<exists>g'. hlist_for_each_entry_safe (\<lambda>t. hlist_take_out P (member_of off t)) off p g = Some g' \<and>
      hlist_for_each_entry g' off p = Some (map (list_entry off) (filter (\<lambda>n. \<not> P n) ns)))"
  using list_for_each_entry_safe_law [OF assms(1), of P off] hlist_for_each_entry_safe_law [OF assms(2), of P off]
    list_for_each_entry_law(1) hlist_for_each_entry_law
  by meson

theorem safe_loops_end_witness:
  "\<exists>h'. list_for_each_entry_safe (entry_take_out (\<lambda>a. a = 2) 1) 1 1 sim_list = Some h' \<and>
    list_for_each_entry h' 1 1 = Some [2]"
  using safe_loops_end [OF sim_dlist sim_hlist(1), of "\<lambda>a. a = 2" 1] by (simp add: list_entry_def)

text \<open>
  C34. The queue of delayed copies is a queue: a copy that is queued after \<open>es\<close> is
  executed after them, each exactly once, and executing frees every node and leaves the queue
  empty.
\<close>

theorem queue_then_execute:
  assumes "queue_of q s es" and "0 < room s"
    and "run_copies m (es @ [\<lparr>dst = d, dst_offset = d_off, src = p, src_offset = s_off, bit_count = n\<rparr>]) = Some m'"
  shows "\<exists>s1 s2. bit_copy_queued q d d_off p s_off n s = Some (ERROR_OK, s1) \<and>
    bit_copy_execute q m s1 = Some (m', s2) \<and> queue_of q s2 [] \<and> room s2 = room s + length es"
proof -
  let ?e = "\<lparr>dst = d, dst_offset = d_off, src = p, src_offset = s_off, bit_count = n\<rparr>"
  obtain s1 where s1: "queued q ?e s = Some (ERROR_OK, s1)" "queue_of q s1 (es @ [?e])" "room s1 = room s - 1"
    using queued_ok [OF assms(1,2)] by blast
  with execute_rep [OF s1(2) assms(3)] assms(2) show ?thesis by (auto simp: queued_def)
qed

theorem queue_then_execute_witness:
  "\<exists>s1 s2. bit_copy_queued 0 (Ptr 2 0) 3 (Ptr 1 0) 0 4 sim_queue = Some (ERROR_OK, s1) \<and>
    bit_copy_execute 0 [1 \<mapsto> [0x0b], 2 \<mapsto> [0x00]] s1 =
      Some (the (run_copies [1 \<mapsto> [0x0b], 2 \<mapsto> [0x00]]
        [\<lparr>dst = Ptr 2 0, dst_offset = 3, src = Ptr 1 0, src_offset = 0, bit_count = 4\<rparr>]), s2) \<and> room s2 = 32"
  using queue_then_execute [OF sim_queue_of, of "[1 \<mapsto> [0x0b], 2 \<mapsto> [0x00]]" "Ptr 2 0" 3 "Ptr 1 0" 0 4
      "set_block_bits [1 \<mapsto> [0x0b], 2 \<mapsto> [0x00]] 2 (blit (bits_of [0x00]) 3 (bits_of [0x0b]) 0 4)"]
  by (auto simp: sim_queue_def bit_copy_known)

section \<open>The simulated device\<close>

text \<open>
  C35. An instruction scan loads the instruction: ten bits shifted through Shift-IR from Run-Test/Idle
  become the current instruction at Update-IR, and the capture pattern is shifted out.
\<close>

theorem instruction_scan:
  assumes "controller_ok c" and "cur_state c = RUN_TEST_IDLE" and "length inp = 9"
  shows "\<exists>bs c'. edges (ir_scan inp i) c = Some (bs, c') \<and> cur_state c' = RUN_TEST_IDLE \<and>
    cur_instr c' = instr_from_bits (uint (word_of (inp @ [i]) :: u64)) \<and>
    take 10 (drop 4 bs) = map (\<lambda>k. bit_int (bit (0b0101010101 :: u64) k)) [0..<10]"
  by (rule ir_scan_law [OF assms])

theorem instruction_scan_witness:
  "\<exists>bs c'. edges (ir_scan (replicate 9 True) True) (tap_controller_new\<lparr>cur_state := RUN_TEST_IDLE\<rparr>) = Some (bs, c') \<and>
    cur_state c' = RUN_TEST_IDLE"
proof -
  have "controller_ok (tap_controller_new\<lparr>cur_state := RUN_TEST_IDLE\<rparr>)"
    using controller_new_ok by (simp add: controller_ok_def)
  from instruction_scan [OF this, of "replicate 9 True" True] show ?thesis by auto
qed

section \<open>The hardware driver with the simulated device\<close>

text \<open>
  C36. \<open>clock_raw\<close> and \<open>clock_multiple\<close> queue edges: as long as the
  buffers have room, the pairs of TMS and TDI levels are appended in order,
  \<open>clock_multiple\<close> taking TDI from the bits of its buffer, and only the driver's own
  blocks and its counter change.
\<close>

theorem edges_are_queued:
  assumes "queues d m es" and "length es + len \<le> 8 * DATA_SIZE_BYTES"
  shows "(\<exists>d' m'. clock_raw (of_bool t) (of_bool i) len d m = Some (d', m') \<and>
      queues d' m' (es @ replicate len (t, i)) \<and> only_queue d m d' m') \<and>
    (m pb = Some bs \<and> off \<le> length bs \<and> len \<le> 8 * (length bs - off) \<and> pb \<notin> driver_blocks d \<longrightarrow>
      (\<exists>d' m'. clock_multiple (of_bool t) (Ptr pb off) len x d m = Some (0, d', m') \<and>
        queues d' m' (es @ map (Pair t) (take len (drop (8 * off) (bits_of bs)))) \<and> only_queue d m d' m'))"
  using clock_raw_law [OF assms] clock_multiple_law [OF assms] by blast

theorem edges_are_queued_witness:
  "\<exists>d' m'. clock_multiple (of_bool True) (Ptr 9 0) 3 0 (sim_dummy []) ((sim_queue_memory [])(9 \<mapsto> [0x2d])) =
      Some (0, d', m') \<and>
    queues d' m' [(True, True), (True, False), (True, True)]"
proof -
  let ?m = "(sim_queue_memory [])(9 \<mapsto> [0x2d])"
  have q: "queues (sim_dummy []) ?m []"
    using sim_dummy_queues [of "[]"]
    by (simp add: queues_def buffers_def sim_dummy_def sim_driver_def driver.defs)
  have "9 \<notin> driver_blocks (sim_dummy [])"
    by (simp add: driver_blocks_def sim_dummy_def sim_driver_def driver.defs)
  moreover have "take 3 (bits_of [0x2d]) = [True, False, True]"
    by (simp add: bits_of_Cons byte_bits_def upt_rec)
  ultimately show ?thesis
    using edges_are_queued [OF q, of 3 True False 9 "[0x2d]" 0 0, THEN conjunct2]
    by (auto simp: DATA_SIZE_BYTES_def)
qed

text \<open>
  C37. A flush runs the queued edges through the simulated controller, gives the server the bytes that
  hold the answered bits together with their number, signals the flush, and empties the queue.
\<close>

theorem flush_runs_controller:
  assumes "queues d m es" and "controller_ok (jtag_controller d)" and "server_set d"
  shows "\<exists>tdos c d' m'. edges es (jtag_controller d) = Some (map bit_int tdos, c) \<and>
    do_flush d m = Some (1, d', m') \<and> controller_ok c \<and> length tdos = length es \<and>
    d' = d\<lparr>jtag_controller := c, calls := calls d @ flush_calls d tdos, tdi_data_count := 0\<rparr> \<and>
    queues d' m' [] \<and> (\<forall>b. b \<notin> driver_blocks d \<longrightarrow> m' b = m b)"
  by (rule do_flush_law [OF assms])

theorem flush_runs_controller_witness:
  "\<exists>tdos d' m'. do_flush (sim_dummy [(True, True)]) (sim_queue_memory [(True, True)]) = Some (1, d', m') \<and>
    length tdos = 1 \<and> calls d' = flush_calls (sim_dummy [(True, True)]) tdos"
proof -
  have "queues (sim_dummy [(True, True)]) (sim_queue_memory [(True, True)]) [(True, True)]"
    by (rule sim_dummy_queues) (simp add: DATA_SIZE_BYTES_def)
  moreover have "calls (sim_dummy [(True, True)]) = []"
    by (simp add: sim_dummy_def sim_driver_def driver.defs)
  ultimately show ?thesis
    using flush_runs_controller [OF _ sim_dummy_ok, of "[(True, True)]"] by fastforce
qed

text \<open>
  C38. The driver reads the identification code: five clocks with TMS high, the way to Shift-DR and
  32 clocks there, queued with \<open>clock_raw\<close> and flushed, give the server the 32 bits
  of the code of the device, least significant bit first, after the nine bits of the way.
\<close>

theorem driver_reads_idcode:
  assumes "queues d m []" and "controller_ok (jtag_controller d)" and "server_set d"
  shows "\<exists>d' m' tdos. do {
      (d, m) \<leftarrow> clock_raw 1 0 5 d m;
      (d, m) \<leftarrow> clock_raw 0 0 1 d m;
      (d, m) \<leftarrow> clock_raw 1 0 1 d m;
      (d, m) \<leftarrow> clock_raw 0 0 34 d m;
      do_flush d m
    } = Some (1, d', m') \<and> queues d' m' [] \<and> calls d' = calls d @ flush_calls d tdos \<and>
    drop 9 tdos = map (bit (0x029070DD :: u32)) [0..<32]"
proof -
  note raw = clock_raw_law [where i = False, unfolded of_bool_eq(1)]
  note raw1 = raw [where t = True, unfolded of_bool_eq(2)] and raw0 = raw [where t = False, unfolded of_bool_eq(1)]
  obtain d1 m1 where 1: "clock_raw 1 0 5 d m = Some (d1, m1)" "queues d1 m1 ([] @ replicate 5 (True, False))"
    "only_queue d m d1 m1"
    using raw1 [OF assms(1), of 5] by (auto simp: DATA_SIZE_BYTES_def)
  obtain d2 m2 where 2: "clock_raw 0 0 1 d1 m1 = Some (d2, m2)"
    "queues d2 m2 (([] @ replicate 5 (True, False)) @ replicate 1 (False, False))" "only_queue d1 m1 d2 m2"
    using raw0 [OF 1(2), of 1] by (auto simp: DATA_SIZE_BYTES_def)
  obtain d3 m3 where 3: "clock_raw 1 0 1 d2 m2 = Some (d3, m3)"
    "queues d3 m3 ((([] @ replicate 5 (True, False)) @ replicate 1 (False, False)) @ replicate 1 (True, False))"
    "only_queue d2 m2 d3 m3"
    using raw1 [OF 2(2), of 1] by (auto simp: DATA_SIZE_BYTES_def)
  obtain d4 m4 where 4: "clock_raw 0 0 34 d3 m3 = Some (d4, m4)"
    "queues d4 m4 (((([] @ replicate 5 (True, False)) @ replicate 1 (False, False)) @ replicate 1 (True, False)) @
      replicate 34 (False, False))"
    "only_queue d3 m3 d4 m4"
    using raw0 [OF 3(2), of 34] by (auto simp: DATA_SIZE_BYTES_def)
  let ?es = "((([] @ replicate 5 (True, False)) @ replicate 1 (False, False)) @ replicate 1 (True, False)) @
      replicate 34 (False, False)"
  have "only_queue d m d4 m4"
    using 1(3) 2(3) 3(3) 4(3) by (blast intro: only_queue_trans)
  then obtain n where d4: "d4 = d\<lparr>tdi_data_count := n\<rparr>" by (auto simp: only_queue_def)
  have ok: "controller_ok (jtag_controller d4)" "server_set d4"
    using assms(2,3) by (simp_all add: d4 server_set_def)
  obtain tdos c d5 m5 where 5: "edges ?es (jtag_controller d4) = Some (map bit_int tdos, c)"
    "do_flush d4 m4 = Some (1, d5, m5)" "calls d5 = calls d4 @ flush_calls d4 tdos" "queues d5 m5 []"
    using do_flush_law [OF 4(2) ok] by auto
  have "?es = map (Pair True) (replicate 5 False) @
      [(False, False), (True, False), (False, False), (False, False)] @ map (Pair False) (replicate 32 False)"
    by (simp add: eval_nat_numeral)
  with idcode_read [OF ok(1), of "replicate 5 False" "replicate 32 False" False False False False] 5(1)
  have "drop 9 (map bit_int tdos) = map (\<lambda>i. bit_int (bit (0x029070DD :: u32) i)) [0..<32]" by simp
  then have "map bit_int (drop 9 tdos) = map bit_int (map (bit (0x029070DD :: u32)) [0..<32])"
    by (simp only: drop_map map_map comp_def)
  then have "drop 9 tdos = map (bit (0x029070DD :: u32)) [0..<32]"
    by (rule map_injective) (simp add: inj_def)
  moreover have "calls d5 = calls d @ flush_calls d tdos" using 5(3) by (simp add: d4 flush_calls_def)
  moreover have "do {
      (d, m) \<leftarrow> clock_raw 1 0 5 d m;
      (d, m) \<leftarrow> clock_raw 0 0 1 d m;
      (d, m) \<leftarrow> clock_raw 1 0 1 d m;
      (d, m) \<leftarrow> clock_raw 0 0 34 d m;
      do_flush d m
    } = Some (1, d5, m5)"
    by (simp only: 1(1) 2(1) 3(1) 4(1) 5(2) bind.bind_lunit prod.case)
  ultimately show ?thesis using 5(4) by blast
qed

theorem driver_reads_idcode_witness:
  "\<exists>d' m'. do {
      (d, m) \<leftarrow> clock_raw 1 0 5 (sim_dummy []) (sim_queue_memory []);
      (d, m) \<leftarrow> clock_raw 0 0 1 d m;
      (d, m) \<leftarrow> clock_raw 1 0 1 d m;
      (d, m) \<leftarrow> clock_raw 0 0 34 d m;
      do_flush d m
    } = Some (1, d', m') \<and> queues d' m' []"
  using driver_reads_idcode [OF sim_dummy_queues [of "[]", simplified] sim_dummy_ok] by blast

text \<open>
  C39. The buffers of the edges are not cleared when \<open>get_supported_hardware\<close>
  allocates them: if \<open>malloc\<close> returns memory whose first bit is \<open>x\<close>, the
  first edge that is queued has the requested levels of TMS and TDI or-ed with \<open>x\<close>,
  so that with \<open>x\<close> set an edge with both levels low is queued with both high.
\<close>

theorem first_edge_uninitialised:
  assumes "fresh_malloc malloc (\<lambda>bs. bs \<noteq> [] \<longrightarrow> bits_of bs ! 0 = x)" and "finite (dom m)"
    and "tdo_data d = Null" and "tms_data d = Null" and "tdi_data d = Null" and "tdi_data_count d = 0"
  shows "\<exists>d1 m1 d2 m2 bt bi ts js. get_supported_hardware malloc 0 d m = (Some fns, d1, m1) \<and>
    clock_raw (of_bool tms) (of_bool tdi) 1 d1 m1 = Some (d2, m2) \<and>
    tms_data d2 = Ptr bt 0 \<and> tdi_data d2 = Ptr bi 0 \<and> tdi_data_count d2 = 1 \<and>
    m2 bt = Some ts \<and> m2 bi = Some js \<and> bits_of ts ! 0 = (tms \<or> x) \<and> bits_of js ! 0 = (tdi \<or> x)"
  by (rule uninitialised_buffers [OF assms])

theorem first_edge_uninitialised_witness:
  "\<exists>d1 m1 d2 m2 bt ts.
    get_supported_hardware sim_dirty 0 (sim_driver []\<lparr>tdo_data := Null, tms_data := Null, tdi_data := Null\<rparr>) Map.empty =
      (Some fns, d1, m1) \<and>
    clock_raw 0 0 1 d1 m1 = Some (d2, m2) \<and> tms_data d2 = Ptr bt 0 \<and> m2 bt = Some ts \<and> bits_of ts ! 0"
proof -
  have d: "tdo_data (sim_driver []\<lparr>tdo_data := Null, tms_data := Null, tdi_data := Null\<rparr>) = Null"
    "tms_data (sim_driver []\<lparr>tdo_data := Null, tms_data := Null, tdi_data := Null\<rparr>) = Null"
    "tdi_data (sim_driver []\<lparr>tdo_data := Null, tms_data := Null, tdi_data := Null\<rparr>) = Null"
    "tdi_data_count (sim_driver []\<lparr>tdo_data := Null, tms_data := Null, tdi_data := Null\<rparr>) = 0"
    "finite (dom (Map.empty :: mem))"
    by (simp_all add: sim_driver_def)
  show ?thesis
    using first_edge_uninitialised [OF sim_dirty_fresh d(5,1-4), of False False] by simp blast
qed

section \<open>The test program\<close>

text \<open>
  C40. The test program, from the opening of the adapter to what it prints. When
  \<open>mpsse_open\<close> succeeds on a device that answers, \<open>main\<close> returns 0, the
  flush reports success, and what the device has been sent decodes to commands that clock the 138
  edges of the program, in order; the bytes that are printed hold the samples of TDO that the
  device reported for these edges, and the printed code is the samples 10 to 41. If the samples
  are the answers of the simulated controller after power-up, the printed line is exactly the one
  the program announces as expected, and the code is that of the device.
\<close>

theorem test_program_reads_idcode:
  assumes "opens_ok L U H" and "malloc_ok malloc" and "links (queue (board t)) = Map.empty"
    and "ents (queue (board t)) = Map.empty" and "test_start bt bi bo t"
    and "mpsse_open malloc pn L U
      \<lparr>arg_vid = Some 0x0403, arg_pid = Some 0x6014, arg_product = None, arg_serial = None, arg_location = None\<rparr>
      0 (memory (board t)) (queue (board t)) (device (board t)) = Some (Some c, m, h, u)"
    and "2 < unat (max_packet_size c)" and "idle ob u" and "prompt L ob (unat (max_packet_size c))"
    and "16384 \<le> room h"
  shows "\<exists>t' r bs cs ys. test_main malloc pn L U t = Some (0, Some r, t') \<and> flush_code r = ERROR_OK \<and>
    sent ob (device (board t')) = sent ob u @ bs \<and> decode bs = Some cs \<and>
    tms_stream cs = procedure_edges test_procedure \<and> clocks cs = 138 \<and>
    answered ob \<lparr>ctx = c, memory = m, queue = h, device = u\<rparr> ys (board t') \<and>
    length ys = reply_length cs \<and> bits_of (received r) = sampled cs ys @ replicate 6 False \<and>
    jtag_ident r = word_of (take 32 (drop 10 (sampled cs ys))) \<and>
    (\<forall>k. edges (procedure_edges test_procedure) tap_controller_new = Some (map bit_int (sampled cs ys), k) \<longrightarrow>
       received r = expected_bytes \<and> jtag_ident r = 0x029070DD)"
proof -
  have od: "opened H (device (board t)) (memory (board t)) c m h u"
    using mpsse_open_some [OF assms(1-4,6)] by (simp add: open_result_def)
  have "memory (board t) local_block = None" using assms(5) by (simp add: test_start_def)
  then obtain wb rb cb where "minv wb rb cb [] \<lparr>ctx = c, memory = m, queue = h, device = u\<rparr>"
    using opened_minv [OF od assms(7)] by blast
  then have "ready L ob wb rb cb [] \<lparr>ctx = c, memory = m, queue = h, device = u\<rparr>"
    using od assms(8,9) by (simp add: ready_def opened_def)
  from test_main_law [OF assms(6) od this assms(5,10)] obtain t' r bs cs ys where
    m: "test_main malloc pn L U t = Some (0, Some r, t')" "flush_code r = ERROR_OK"
    "sent ob (device (board t')) = sent ob u @ bs" "decode bs = Some cs"
    "tms_stream cs = procedure_edges test_procedure" "clocks cs = 138"
    "answered ob \<lparr>ctx = c, memory = m, queue = h, device = u\<rparr> ys (board t')"
    "length ys = reply_length cs" "bits_of (received r) = sampled cs ys @ replicate 6 False"
    "jtag_ident r = word_of (take 32 (drop 10 (sampled cs ys)))"
    by blast
  have "received r = expected_bytes \<and> jtag_ident r = 0x029070DD"
    if "edges (procedure_edges test_procedure) tap_controller_new = Some (map bit_int (sampled cs ys), k)" for k
    using controller_answers_expected [OF that m(9)] m(10) by simp
  with m show ?thesis by blast
qed

theorem test_program_reads_idcode_witness:
  "\<exists>t' r bs cs. test_main sim_malloc False sim_libusb sim_setup sim_test = Some (0, Some r, t') \<and>
    flush_code r = ERROR_OK \<and> decode bs = Some cs \<and> tms_stream cs = procedure_edges test_procedure"
proof -
  obtain c m h u where o: "mpsse_open sim_malloc False sim_libusb sim_setup any_ft232h 0
      (memory (board sim_test)) no_queue sim_start = Some (Some c, m, h, u)"
    "max_packet_size c = 64" "idle sim_observer u" "room h = 19999"
    using sim_open_success [of "memory (board sim_test)"] by (auto simp: sim_test_def)
  have q: "queue (board sim_test) = no_queue" "device (board sim_test) = sim_start"
    by (simp_all add: sim_test_def)
  have e: "links (queue (board sim_test)) = Map.empty" "ents (queue (board sim_test)) = Map.empty"
    by (simp_all add: q no_queue_def)
  have p: "prompt sim_libusb sim_observer (unat (max_packet_size c))" using sim_prompt o(2) by simp
  show ?thesis
    using test_program_reads_idcode [OF sim_opens sim_malloc_ok e sim_test_start
        o(1) [unfolded any_ft232h_def, folded q] _ o(3) p] o(2,4) by force
qed

end
